(* ===== verification/Prelude.thy ===== *)
theory Prelude
  imports Main "HOL-Library.Word" "HOL-Library.Finite_Map" "HOL-Library.Sublist"
    "HOL-Library.Char_ord" "HOL-Library.List_Lexorder" "HOL-Library.Multiset"
begin

text \<open>
  Shared vocabulary of the development: the names of the machine types, Go's \<open>error\<close>
  values, the results of fallible code, and the generic lemmas on lists and results that
  the component theories use.  Nothing here models a file of the repository; the
  definitions stand for parts of the Go language and of its package \<open>errors\<close>.
\<close>

section \<open>Machine types\<close>

type_synonym u64 = "64 word"
type_synonym u32 = "32 word"
type_synonym bytes = string

named_theorems acker_simps \<open>evaluation rules of the ACK trackers\<close>
named_theorems fs_simps \<open>evaluation rules of the system calls\<close>
named_theorems json_simps \<open>evaluation rules of the JSON scanner\<close>

section \<open>Go values\<close>

text \<open>
  The values an \<open>interface{}\<close> holds once a document has been decoded: the primitive types,
  slices and string-keyed maps.  A number is kept as its decimal literal, so the rounding of
  a literal to \<open>float64\<close> is not part of the model.  \<open>mapstr.M\<close> is a finite map; a nil map and
  an empty map are the same value.
\<close>

datatype gval =
    VNil
  | VBool bool
  | VNum string
  | VStr string
  | VList "gval list"
  | VMap "(string, gval) fmap"

type_synonym mapstr = "(string, gval) fmap"

section \<open>Go errors\<close>

datatype errno = EINTR | EAGAIN | ENOENT | EACCES | EISDIR | ENOTEMPTY | EIO | ENOSPC | EDQUOT | EFBIG | ENOTSUP
  | ECONNRESET | ENETDOWN | ENETUNREACH | Errno0

text \<open>
  A Go \<open>error\<close> value.  \<open>ErrNew\<close> is a value made by \<open>errors.New\<close> or by \<open>fmt.Errorf\<close>
  without \<open>%w\<close> (the sentinels of the program have distinct texts, so the text identifies
  them), \<open>ErrWrap\<close> is \<open>fmt.Errorf\<close> with \<open>%w\<close>, \<open>Errno\<close> a system call error, \<open>Panic\<close> a
  panic that unwinds out of the modelled function.  The struct errors of the program's
  packages follow: \<open>ErrorAccess\<close>, \<open>ErrorClosed\<close> and \<open>ErrorOperation\<close> of
  \<open>statestore\<close>, \<open>LoadError\<close> and \<open>SetupError\<close> of \<open>input\<close>.
\<close>

datatype error =
    ErrNew string
  | ErrWrap string error
  | Errno errno
  | Panic string
  | ErrorAccess string error
  | ErrorClosed string string
  | ErrorOperation string string error
  | LoadError string error string
  | SetupError "error list"

text \<open>A call that returns \<open>(x, nil)\<close> is \<open>Inr x\<close>, one that returns \<open>(_, err)\<close> is \<open>Inl err\<close>.\<close>

type_synonym 'a result = "error + 'a"

fun Unwrap :: "error \<Rightarrow> error option" where
  "Unwrap (ErrWrap _ e) = Some e"
| "Unwrap (ErrorAccess _ e) = Some e"
| "Unwrap (ErrorOperation _ _ e) = Some e"
| "Unwrap (LoadError _ e _) = Some e"
| "Unwrap _ = None"

lemma Unwrap_size [termination_simp]: "Unwrap e = Some e' \<Longrightarrow> size e' < size e"
  by (cases e) auto

text \<open>\<open>errors.Is\<close>: the error or one it wraps equals the target.\<close>

fun errors_Is :: "error \<Rightarrow> error \<Rightarrow> bool" where
  "errors_Is e target =
     (e = target \<or> (case Unwrap e of None \<Rightarrow> False | Some e' \<Rightarrow> errors_Is e' target))"

text \<open>\<open>errors.As\<close>: the first error of the chain that has the wanted dynamic type.\<close>

fun errors_As :: "(error \<Rightarrow> bool) \<Rightarrow> error \<Rightarrow> error option" where
  "errors_As is_type e =
     (if is_type e then Some e
      else case Unwrap e of None \<Rightarrow> None | Some e' \<Rightarrow> errors_As is_type e')"

declare errors_Is.simps [simp del] errors_As.simps [simp del]

lemma errors_Is_refl [simp]: "errors_Is e e"
  by (simp add: errors_Is.simps)

lemma errors_Is_wrap [simp]: "errors_Is (ErrWrap s e) e"
  by (simp add: errors_Is.simps)

section \<open>Decimal numbers\<close>

text \<open>\<open>fmt.Sprintf("%v")\<close> of an unsigned integer.\<close>

fun show_nat :: "nat \<Rightarrow> string" where
  "show_nat n =
     (if n < 10 then [char_of (48 + n)] else show_nat (n div 10) @ [char_of (48 + n mod 10)])"

declare show_nat.simps [simp del]

section \<open>Fallible code\<close>

definition bind_result :: "'a result \<Rightarrow> ('a \<Rightarrow> 'b result) \<Rightarrow> 'b result" where
  "bind_result r f = (case r of Inl e \<Rightarrow> Inl e | Inr x \<Rightarrow> f x)"

lemma bind_result_simps [simp]:
  "bind_result (Inl e) f = Inl e"
  "bind_result (Inr x) f = f x"
  by (simp_all add: bind_result_def)

lemma bind_result_Inr:
  "bind_result r f = Inr y \<longleftrightarrow> (\<exists>x. r = Inr x \<and> f x = Inr y)"
  by (cases r) auto

section \<open>Lists\<close>

lemma takeWhile_replicate_append [simp]:
  "P x \<Longrightarrow> takeWhile P (replicate n x @ xs) = replicate n x @ takeWhile P xs"
  by (induction n) auto

lemma filter_id_replicate [simp]:
  "filter (\<lambda>b. b) (replicate n True) = replicate n True"
  "filter (\<lambda>b. b) (replicate n False) = []"
  by (induction n) auto

lemma take_drop_append [simp]: "take n xs @ drop n xs @ ys = xs @ ys"
  by (simp add: append_assoc [symmetric] del: append_assoc)

section \<open>Finite maps\<close>

lemma fmupd_same: "fmlookup m k = Some v \<Longrightarrow> fmupd k v m = m"
  by (rule fmap_ext) auto

lemma fmupd_twice [simp]: "fmupd k v (fmupd k v' m) = fmupd k v m"
  by (rule fmap_ext) auto

lemma fmdrop_fmupd_same_key: "fmdrop k (fmupd k v m) = fmdrop k m"
  by (rule fmap_ext) auto

end
