(* ===== verification/Acker.thy ===== *)
theory Acker
  imports Prelude
begin

text \<open>
  The ACK trackers of \<open>pkg/publisher/acker/acker.go\<close>.  A tracker is told of every event a
  client publishes (\<open>AddEvent\<close>, with \<open>published = false\<close> for an event a processor dropped)
  and of every batch the output acknowledges (\<open>ACKEvents\<close>); it calls its callback with the
  number of acknowledged events and the total number of events covered, dropped ones
  included.

  The linked list of \<open>gapInfo\<close> nodes from \<open>head\<close> to \<open>tail\<close> is a HOL list; the callback is a
  function on a client state \<open>'s\<close>, and may panic.  The mutexes only order the calls: every
  definition below is one critical section of the source.
\<close>

section \<open>The data and the operations\<close>

record 'p event =
  Fields :: mapstr
  Private :: "'p option"

record gapInfo =
  send :: int
  dropped :: int

record trackingACKer =
  events :: u32
  lst :: "gapInfo list"

type_synonym 's ackfn = "int \<Rightarrow> int \<Rightarrow> 's \<Rightarrow> 's result"

definition emptyGap :: gapInfo where
  "emptyGap = \<lparr>send = 0, dropped = 0\<rparr>"

definition TrackingCounter :: trackingACKer where
  "TrackingCounter = \<lparr>events = 0, lst = [emptyGap]\<rparr>"

definition addPublishedEvent :: "trackingACKer \<Rightarrow> trackingACKer" where
  "addPublishedEvent a =
     (let current = last (lst a) in
      if dropped current > 0
      then a\<lparr>lst := lst a @ [emptyGap\<lparr>send := send emptyGap + 1\<rparr>]\<rparr>
      else a\<lparr>lst := butlast (lst a) @ [current\<lparr>send := send current + 1\<rparr>]\<rparr>)"

definition addDropEvent :: "'s ackfn \<Rightarrow> trackingACKer \<Rightarrow> 's \<Rightarrow> (trackingACKer \<times> 's) result" where
  "addDropEvent fn a s =
     (let current = last (lst a) in
      if send current = 0
      then (if length (lst a) \<noteq> 1 then Inl (Panic ''gap list expected to be empty'')
            else bind_result (fn 0 1 s) (\<lambda>s'. Inr (a\<lparr>events := events a - 1\<rparr>, s')))
      else Inr (a\<lparr>lst := butlast (lst a) @ [current\<lparr>dropped := dropped current + 1\<rparr>]\<rparr>, s))"

definition tracking_AddEvent ::
    "'s ackfn \<Rightarrow> bool \<Rightarrow> trackingACKer \<Rightarrow> 's \<Rightarrow> (trackingACKer \<times> 's) result" where
  "tracking_AddEvent fn published a s =
     (let a' = a\<lparr>events := events a + 1\<rparr> in
      if published then Inr (addPublishedEvent a', s) else addDropEvent fn a' s)"

text \<open>
  The loop of \<open>ACKEvents\<close>, with its local variables \<open>n\<close>, \<open>total\<close> and \<open>emptyLst\<close>.  A node
  that is completely consumed leaves the list unless it is the only one, which is reset and
  reused.
\<close>

function ack_loop :: "int \<Rightarrow> int \<Rightarrow> bool \<Rightarrow> gapInfo list \<Rightarrow> (int \<times> gapInfo list) result" where
  "ack_loop n tot emptyLst l =
     (if n > 0 then
        if emptyLst then Inl (Panic ''too many events acked'')
        else case l of
            [] \<Rightarrow> Inl (Panic ''nil pointer dereference'')
          | current # rest \<Rightarrow>
              if n < send current
              then ack_loop 0 (tot + n) False (current\<lparr>send := send current - n\<rparr> # rest)
              else ack_loop (n - send current) (tot + (send current + dropped current)) (rest = [])
                     (if rest = [] then [current\<lparr>send := 0, dropped := 0\<rparr>] else rest)
      else Inr (tot, l))"
  by pat_completeness auto
termination
  by (relation "measures [\<lambda>(n, t, e, l). length l + (if e then 0 else 1), \<lambda>(n, t, e, l). nat n]")
    auto

declare ack_loop.simps [simp del]

definition tracking_ACKEvents ::
    "'s ackfn \<Rightarrow> int \<Rightarrow> trackingACKer \<Rightarrow> 's \<Rightarrow> (trackingACKer \<times> 's) result" where
  "tracking_ACKEvents fn n a s =
     bind_result (ack_loop n 0 False (lst a)) (\<lambda>(tot, l).
       bind_result (fn n tot s) (\<lambda>s'.
         Inr (a\<lparr>events := events a - word_of_int tot, lst := l\<rparr>, s')))"

definition Counting_fn :: "(int \<Rightarrow> 's \<Rightarrow> 's result) \<Rightarrow> 's ackfn" where
  "Counting_fn fn = (\<lambda>_ tot. fn tot)"

text \<open>
  \<open>eventDataACKer\<close> embeds an \<open>ACKer\<close> and keeps the private fields of the events not yet
  reported.  Its operations take the embedded tracker's operations as arguments, as the
  source goes through the embedded interface.
\<close>

record ('t, 'p) eventDataACKer =
  inner :: 't
  data :: "'p option list"

definition onACK ::
    "(int \<Rightarrow> 'p option list \<Rightarrow> 's \<Rightarrow> 's result) \<Rightarrow> ('p option list \<times> 's) ackfn" where
  "onACK fn acked tot st =
     (case st of (d, s) \<Rightarrow>
      if tot = 0 then Inr (d, s)
      else if tot < 0 \<or> int (length d) < tot then Inl (Panic ''slice bounds out of range'')
      else let reported = take (nat tot) d; rest = drop (nat tot) d in
           if length reported > 0
           then bind_result (fn acked reported s) (\<lambda>s'. Inr (rest, s'))
           else Inr (rest, s))"

definition eventData_AddEvent ::
    "(('p option list \<times> 's) ackfn \<Rightarrow> bool \<Rightarrow> 't \<Rightarrow> 'p option list \<times> 's \<Rightarrow> ('t \<times> ('p option list \<times> 's)) result)
     \<Rightarrow> (int \<Rightarrow> 'p option list \<Rightarrow> 's \<Rightarrow> 's result)
     \<Rightarrow> 'p event \<Rightarrow> bool \<Rightarrow> ('t, 'p) eventDataACKer \<Rightarrow> 's \<Rightarrow> (('t, 'p) eventDataACKer \<times> 's) result" where
  "eventData_AddEvent add fn event published a s =
     bind_result (add (onACK fn) published (inner a) (data a @ [Private event], s))
       (\<lambda>(t, d, s'). Inr (\<lparr>inner = t, data = d\<rparr>, s'))"

definition eventData_ACKEvents ::
    "(('p option list \<times> 's) ackfn \<Rightarrow> int \<Rightarrow> 't \<Rightarrow> 'p option list \<times> 's \<Rightarrow> ('t \<times> ('p option list \<times> 's)) result)
     \<Rightarrow> (int \<Rightarrow> 'p option list \<Rightarrow> 's \<Rightarrow> 's result)
     \<Rightarrow> int \<Rightarrow> ('t, 'p) eventDataACKer \<Rightarrow> 's \<Rightarrow> (('t, 'p) eventDataACKer \<times> 's) result" where
  "eventData_ACKEvents ack fn n a s =
     bind_result (ack (onACK fn) n (inner a) (data a, s))
       (\<lambda>(t, d, s'). Inr (\<lparr>inner = t, data = d\<rparr>, s'))"

definition EventPrivateReporter :: "(trackingACKer, 'p) eventDataACKer" where
  "EventPrivateReporter = \<lparr>inner = TrackingCounter, data = []\<rparr>"

text \<open>
  \<open>LastEventPrivateReporter\<close>: the closure's variable \<open>ignored\<close> is part of the state.  The
  loop runs over the indices of the batch from the last to the first.
\<close>

fun last_loop ::
    "(int \<Rightarrow> 'p \<Rightarrow> 's \<Rightarrow> 's result) \<Rightarrow> int \<Rightarrow> 'p option list \<Rightarrow> int \<times> 's \<Rightarrow> (int \<times> 's) result" where
  "last_loop fn acked [] (ignored, s) = Inr (ignored + acked, s)"
| "last_loop fn acked (None # rest) (ignored, s) = last_loop fn acked rest (ignored, s)"
| "last_loop fn acked (Some d # rest) (ignored, s) =
     bind_result (fn (ignored + acked) d s) (\<lambda>s'. Inr (0, s'))"

definition LastEventPrivateReporter_fn ::
    "(int \<Rightarrow> 'p \<Rightarrow> 's \<Rightarrow> 's result) \<Rightarrow> int \<Rightarrow> 'p option list \<Rightarrow> int \<times> 's \<Rightarrow> (int \<times> 's) result" where
  "LastEventPrivateReporter_fn fn acked d st = last_loop fn acked (rev d) st"

text \<open>
  The remaining trackers, as implementations of the interface \<open>publisher.ACKer\<close> on a shared
  state \<open>'s\<close>.
\<close>

record ('p, 's) ACKer =
  AddEvent :: "'p event \<Rightarrow> bool \<Rightarrow> 's \<Rightarrow> 's result"
  ACKEvents :: "int \<Rightarrow> 's \<Rightarrow> 's result"
  Close :: "'s \<Rightarrow> 's result"

definition nilACKer :: "('p, 's) ACKer" where
  "nilACKer = \<lparr>AddEvent = (\<lambda>_ _ s. Inr s), ACKEvents = (\<lambda>_ s. Inr s), Close = Inr\<rparr>"

definition countACKer :: "(int \<Rightarrow> 's \<Rightarrow> 's result) \<Rightarrow> ('p, 's) ACKer" where
  "countACKer fn = \<lparr>AddEvent = (\<lambda>_ _ s. Inr s), ACKEvents = fn, Close = Inr\<rparr>"

fun forEach :: "('a \<Rightarrow> 's \<Rightarrow> 's result) \<Rightarrow> 'a list \<Rightarrow> 's \<Rightarrow> 's result" where
  "forEach f [] s = Inr s"
| "forEach f (a # as) s = bind_result (f a s) (forEach f as)"

definition ackerList :: "('p, 's) ACKer list \<Rightarrow> ('p, 's) ACKer" where
  "ackerList l =
     \<lparr>AddEvent = (\<lambda>event published. forEach (\<lambda>a. AddEvent a event published) l),
      ACKEvents = (\<lambda>n. forEach (\<lambda>a. ACKEvents a n) l),
      Close = forEach Close l\<rparr>"

text \<open>\<open>clientOnlyACKer\<close>: the field \<open>acker\<close> is nil (\<open>None\<close>) once the client is closed.\<close>

type_synonym ('p, 's) clientOnly = "('p, 's) ACKer option \<times> 's"

definition clientOnlyACKer :: "('p, ('p, 's) clientOnly) ACKer" where
  "clientOnlyACKer =
     \<lparr>AddEvent = (\<lambda>event published (acker, s).
        case acker of None \<Rightarrow> Inr (acker, s)
        | Some sub \<Rightarrow> bind_result (AddEvent sub event published s) (\<lambda>s'. Inr (acker, s'))),
      ACKEvents = (\<lambda>n (acker, s).
        case acker of None \<Rightarrow> Inr (acker, s)
        | Some sub \<Rightarrow> bind_result (ACKEvents sub n s) (\<lambda>s'. Inr (acker, s'))),
      Close = (\<lambda>(acker, s).
        case acker of None \<Rightarrow> Inr (None, s)
        | Some sub \<Rightarrow> bind_result (Close sub s) (\<lambda>s'. Inr (None, s')))\<rparr>"

section \<open>What a counting tracker promises\<close>

text \<open>
  The specification forgets the gap list: a tracker holds the events not yet reported, in
  order, each with the flag whether it was published.  An acknowledgement of \<open>n\<close> events
  covers the longest prefix with exactly \<open>n\<close> published events.
\<close>

fun covered :: "nat \<Rightarrow> bool list \<Rightarrow> nat" where
  "covered n [] = 0"
| "covered n (False # xs) = Suc (covered n xs)"
| "covered 0 (True # xs) = 0"
| "covered (Suc n) (True # xs) = Suc (covered n xs)"

abbreviation published :: "bool list \<Rightarrow> nat" where
  "published xs \<equiv> length (filter (\<lambda>b. b) xs)"

lemma covered_le [simp]: "covered n xs \<le> length xs"
  by (induction n xs rule: covered.induct) auto

lemma published_covered:
  "n \<le> published xs \<Longrightarrow> published (take (covered n xs) xs) = n"
  by (induction n xs rule: covered.induct) auto

lemma covered_maximal:
  "k \<le> length xs \<Longrightarrow> published (take k xs) \<le> n \<Longrightarrow> k \<le> covered n xs"
proof (induction n xs arbitrary: k rule: covered.induct)
  case (2 n xs)
  then show ?case by (cases k) auto
next
  case (3 xs)
  then show ?case by (cases k) auto
next
  case (4 n xs)
  then show ?case by (cases k) auto
qed simp

lemma covered_append_replicate:
  "covered n (replicate i True @ replicate j False @ xs) =
     (if n < i then n else i + j + covered (n - i) xs)"
proof (induction i arbitrary: n)
  case 0
  show ?case by (induction j) auto
next
  case (Suc i)
  show ?case
  proof (cases n)
    case 0
    then show ?thesis by simp
  next
    case (Suc m)
    then show ?thesis using Suc.IH [of m] by simp
  qed
qed

locale counting_acker =
  fixes invar :: "'t \<Rightarrow> bool"
    and pending :: "'t \<Rightarrow> bool list"
    and add :: "'s ackfn \<Rightarrow> bool \<Rightarrow> 't \<Rightarrow> 's \<Rightarrow> ('t \<times> 's) result"
    and ack :: "'s ackfn \<Rightarrow> int \<Rightarrow> 't \<Rightarrow> 's \<Rightarrow> ('t \<times> 's) result"
  assumes add_kept: "invar t \<Longrightarrow> p \<or> pending t \<noteq> [] \<Longrightarrow>
      \<exists>t'. add fn p t s = Inr (t', s) \<and> invar t' \<and> pending t' = pending t @ [p]"
    and add_now: "invar t \<Longrightarrow> pending t = [] \<Longrightarrow>
      \<exists>t'. add fn False t s = bind_result (fn 0 1 s) (\<lambda>s'. Inr (t', s')) \<and> invar t' \<and> pending t' = []"
    and ack_prefix: "invar t \<Longrightarrow> n \<le> published (pending t) \<Longrightarrow>
      \<exists>t'. ack fn (int n) t s =
             bind_result (fn (int n) (int (covered n (pending t))) s) (\<lambda>s'. Inr (t', s'))
         \<and> invar t' \<and> pending t' = drop (covered n (pending t)) (pending t)"
    and ack_too_many: "invar t \<Longrightarrow> published (pending t) < n \<Longrightarrow>
      ack fn (int n) t s = Inl (Panic ''too many events acked'')"

section \<open>The gap list keeps the promise\<close>

definition gap_bits :: "gapInfo \<Rightarrow> bool list" where
  "gap_bits g = replicate (nat (send g)) True @ replicate (nat (dropped g)) False"

definition tracking_pending :: "trackingACKer \<Rightarrow> bool list" where
  "tracking_pending a = concat (map gap_bits (lst a))"

definition gaps_full :: "gapInfo list \<Rightarrow> bool" where
  "gaps_full l \<longleftrightarrow> l \<noteq> [] \<and> (\<forall>g\<in>set l. 0 < send g \<and> 0 \<le> dropped g)
     \<and> (\<forall>g\<in>set (butlast l). 0 < dropped g)"

definition tracking_invar :: "trackingACKer \<Rightarrow> bool" where
  "tracking_invar a \<longleftrightarrow> lst a = [emptyGap] \<or> gaps_full (lst a)"

lemma gap_bits_emptyGap [simp]: "gap_bits emptyGap = []"
  by (simp add: gap_bits_def emptyGap_def)

lemma gaps_full_Cons:
  "gaps_full (g # l) \<longleftrightarrow> 0 < send g \<and> 0 \<le> dropped g \<and> (l = [] \<or> 0 < dropped g \<and> gaps_full l)"
  by (auto simp: gaps_full_def)

lemma gaps_full_snoc:
  "gaps_full (l @ [g]) \<longleftrightarrow>
     0 < send g \<and> 0 \<le> dropped g \<and> (\<forall>h\<in>set l. 0 < send h \<and> 0 < dropped h)"
  by (auto simp: gaps_full_def)

lemma gaps_full_bits: "gaps_full l \<Longrightarrow> concat (map gap_bits l) \<noteq> []"
  by (cases l) (auto simp: gaps_full_def gap_bits_def)

lemma gaps_full_snoc2:
  "gaps_full (l @ [g, h]) \<longleftrightarrow> 0 < send h \<and> 0 \<le> dropped h
     \<and> (\<forall>h\<in>set (l @ [g]). 0 < send h \<and> 0 < dropped h)"
  using gaps_full_snoc [of "l @ [g]" h] by simp

lemma published_gap_bits [simp]: "published (gap_bits g) = nat (send g)"
  by (simp add: gap_bits_def)

lemma ack_loop_zero [simp]: "ack_loop 0 tot e l = Inr (tot, l)"
  by (simp add: ack_loop.simps)

lemma ack_loop_covers:
  assumes "gaps_full l" and "n \<le> published (concat (map gap_bits l))"
  shows "\<exists>l'. ack_loop (int n) tot False l = Inr (tot + int (covered n (concat (map gap_bits l))), l')
     \<and> (l' = [emptyGap] \<or> gaps_full l')
     \<and> concat (map gap_bits l') = drop (covered n (concat (map gap_bits l))) (concat (map gap_bits l))"
  using assms
proof (induction l arbitrary: n tot)
  case Nil
  then show ?case by (simp add: gaps_full_def)
next
  case (Cons g l)
  define rest where "rest = concat (map gap_bits l)"
  have bits: "concat (map gap_bits (g # l)) =
      replicate (nat (send g)) True @ replicate (nat (dropped g)) False @ rest"
    by (simp add: gap_bits_def rest_def)
  have pos: "0 < send g" "0 \<le> dropped g"
    using Cons.prems(1) by (auto simp: gaps_full_Cons)
  consider "n = 0" | "0 < n" "int n < send g" | "send g \<le> int n" "l = []"
    | "send g \<le> int n" "l \<noteq> []" by linarith
  then show ?case
  proof cases
    case 1
    have "covered 0 (concat (map gap_bits (g # l))) = 0"
      unfolding bits covered_append_replicate using pos by simp
    then show ?thesis using 1 Cons.prems(1) by simp
  next
    case 2
    have cov: "covered n (concat (map gap_bits (g # l))) = n"
      unfolding bits covered_append_replicate using 2 by (simp add: zless_nat_eq_int_zless)
    have "ack_loop (int n) tot False (g # l) = Inr (tot + int n, g\<lparr>send := send g - int n\<rparr> # l)"
      using 2 by (subst ack_loop.simps) simp
    moreover have "gaps_full (g\<lparr>send := send g - int n\<rparr> # l)"
      using 2 Cons.prems(1) by (auto simp: gaps_full_Cons)
    moreover have "concat (map gap_bits (g\<lparr>send := send g - int n\<rparr> # l)) =
        drop n (concat (map gap_bits (g # l)))"
      using 2 by (simp add: gap_bits_def nat_diff_distrib)
    ultimately show ?thesis using cov by auto
  next
    case 3
    have "n \<le> nat (send g)" using Cons.prems(2) 3 by (simp add: gap_bits_def)
    with 3 pos have n: "int n = send g" by linarith
    have "covered n (concat (map gap_bits (g # l))) = nat (send g) + nat (dropped g)"
      unfolding bits covered_append_replicate using n 3 by (auto simp: rest_def zless_nat_eq_int_zless)
    moreover have "ack_loop (int n) tot False (g # l) = Inr (tot + (send g + dropped g), [emptyGap])"
      using 3 n pos by (subst ack_loop.simps) (simp add: emptyGap_def)
    ultimately show ?thesis using 3 pos bits by (simp add: rest_def)
  next
    case 4
    have full: "gaps_full l" using Cons.prems(1) 4 by (simp add: gaps_full_Cons)
    have "n - nat (send g) \<le> published rest"
      using Cons.prems(2) by (simp add: rest_def)
    with Cons.IH [OF full, of "n - nat (send g)" "tot + (send g + dropped g)"]
    obtain l' where IH: "ack_loop (int (n - nat (send g))) (tot + (send g + dropped g)) False l =
        Inr (tot + (send g + dropped g) + int (covered (n - nat (send g)) rest), l')"
      "l' = [emptyGap] \<or> gaps_full l'"
      "concat (map gap_bits l') = drop (covered (n - nat (send g)) rest) rest"
      by (auto simp: rest_def)
    have cov: "covered n (concat (map gap_bits (g # l))) =
        nat (send g) + nat (dropped g) + covered (n - nat (send g)) rest"
      unfolding bits covered_append_replicate using 4 by (auto simp: zless_nat_eq_int_zless)
    have "int n - send g = int (n - nat (send g))" using 4 pos by linarith
    then have "ack_loop (int n) tot False (g # l) =
        ack_loop (int (n - nat (send g))) (tot + (send g + dropped g)) False l"
      using 4 pos by (subst ack_loop.simps) simp
    with IH cov pos bits show ?thesis by auto
  qed
qed

lemma ack_loop_too_many:
  assumes "gaps_full l" and "published (concat (map gap_bits l)) < n"
  shows "ack_loop (int n) tot False l = Inl (Panic ''too many events acked'')"
  using assms
proof (induction l arbitrary: n tot)
  case Nil
  then show ?case by (simp add: gaps_full_def)
next
  case (Cons g l)
  have pos: "0 < send g" "0 \<le> dropped g"
    using Cons.prems(1) by (auto simp: gaps_full_Cons)
  have less: "send g < int n"
    using Cons.prems(2) by simp
  then have diff: "int n - send g = int (n - nat (send g))" using pos by linarith
  show ?case
  proof (cases "l = []")
    case True
    have "ack_loop (int n) tot False (g # l) =
        ack_loop (int n - send g) (tot + (send g + dropped g)) True [g\<lparr>send := 0, dropped := 0\<rparr>]"
      using True less pos by (subst ack_loop.simps) simp
    also have "\<dots> = Inl (Panic ''too many events acked'')"
      using less by (subst ack_loop.simps) simp
    finally show ?thesis .
  next
    case False
    then have "gaps_full l" using Cons.prems(1) by (simp add: gaps_full_Cons)
    moreover have "published (concat (map gap_bits l)) < n - nat (send g)"
      using Cons.prems(2) less pos by simp
    ultimately have "ack_loop (int (n - nat (send g))) (tot + (send g + dropped g)) False l =
        Inl (Panic ''too many events acked'')"
      by (rule Cons.IH)
    moreover have "ack_loop (int n) tot False (g # l) =
        ack_loop (int n - send g) (tot + (send g + dropped g)) False l"
      using False less pos by (subst ack_loop.simps) simp
    ultimately show ?thesis by (simp only: diff)
  qed
qed

lemma tracking_snoc_cases:
  assumes "tracking_invar a"
  obtains (empty) "lst a = [emptyGap]" "tracking_pending a = []"
  | (gaps) l g where "lst a = l @ [g]" "gaps_full (l @ [g])" "tracking_pending a \<noteq> []"
proof (cases "lst a = [emptyGap]")
  case True
  then show ?thesis by (intro empty) (simp_all add: tracking_pending_def)
next
  case False
  then have full: "gaps_full (lst a)" using assms by (simp add: tracking_invar_def)
  then obtain l g where "lst a = l @ [g]" by (cases "lst a" rule: rev_cases) (auto simp: gaps_full_def)
  with full show ?thesis by (intro gaps) (auto simp: tracking_pending_def dest: gaps_full_bits)
qed

lemma tracking_add_kept:
  assumes "tracking_invar a" and "p \<or> tracking_pending a \<noteq> []"
  shows "\<exists>a'. tracking_AddEvent fn p a s = Inr (a', s) \<and> tracking_invar a'
     \<and> tracking_pending a' = tracking_pending a @ [p]"
  using assms(1)
proof (cases rule: tracking_snoc_cases)
  case empty
  then show ?thesis using assms(2)
    by (auto simp: tracking_AddEvent_def addPublishedEvent_def emptyGap_def tracking_pending_def
        tracking_invar_def gap_bits_def gaps_full_def)
next
  case (gaps l g)
  have rep: "replicate (nat (x + 1)) b = replicate (nat x) b @ [b]" if "0 \<le> x" for x :: int and b
    using that by (simp add: nat_add_distrib replicate_append_same [symmetric])
  show ?thesis
  proof (cases p)
    case True
    then show ?thesis using gaps
      by (cases "0 < dropped g")
        (auto simp: tracking_AddEvent_def addPublishedEvent_def tracking_pending_def tracking_invar_def
          gaps_full_snoc gaps_full_snoc2 gap_bits_def emptyGap_def Let_def rep)
  next
    case False
    then show ?thesis using gaps
      by (auto simp: tracking_AddEvent_def addDropEvent_def tracking_pending_def tracking_invar_def
          gaps_full_snoc gap_bits_def Let_def rep)
  qed
qed

lemma tracking_add_now:
  assumes "tracking_invar a" and "tracking_pending a = []"
  shows "\<exists>a'. tracking_AddEvent fn False a s = bind_result (fn 0 1 s) (\<lambda>s'. Inr (a', s'))
     \<and> tracking_invar a' \<and> tracking_pending a' = []"
  using assms
  by (cases rule: tracking_snoc_cases)
    (auto simp: tracking_AddEvent_def addDropEvent_def emptyGap_def tracking_pending_def
      tracking_invar_def gap_bits_def)

lemma tracking_ack_prefix:
  assumes "tracking_invar a" and "n \<le> published (tracking_pending a)"
  shows "\<exists>a'. tracking_ACKEvents fn (int n) a s =
        bind_result (fn (int n) (int (covered n (tracking_pending a))) s) (\<lambda>s'. Inr (a', s'))
     \<and> tracking_invar a'
     \<and> tracking_pending a' = drop (covered n (tracking_pending a)) (tracking_pending a)"
  using assms(1)
proof (cases rule: tracking_snoc_cases)
  case empty
  then show ?thesis using assms
    by (auto simp: tracking_ACKEvents_def tracking_pending_def tracking_invar_def)
next
  case gaps
  then obtain l' where "ack_loop (int n) 0 False (lst a) = Inr (int (covered n (tracking_pending a)), l')"
    "l' = [emptyGap] \<or> gaps_full l'"
    "concat (map gap_bits l') = drop (covered n (tracking_pending a)) (tracking_pending a)"
    using ack_loop_covers [of "lst a" n 0] assms(2) by (auto simp: tracking_pending_def)
  then show ?thesis
    by (auto simp: tracking_ACKEvents_def tracking_invar_def tracking_pending_def)
qed

lemma tracking_ack_too_many:
  assumes "tracking_invar a" and "published (tracking_pending a) < n"
  shows "tracking_ACKEvents fn (int n) a s = Inl (Panic ''too many events acked'')"
  using assms(1)
proof (cases rule: tracking_snoc_cases)
  case empty
  have "ack_loop (int n) 0 False [emptyGap] = ack_loop (int n) 0 True [emptyGap]"
    using assms(2) by (subst ack_loop.simps) (simp add: emptyGap_def)
  also have "\<dots> = Inl (Panic ''too many events acked'')"
    using assms(2) by (subst ack_loop.simps) simp
  finally show ?thesis using empty by (simp add: tracking_ACKEvents_def)
next
  case gaps
  then show ?thesis using assms(2) ack_loop_too_many [of "lst a" n 0]
    by (simp add: tracking_ACKEvents_def tracking_pending_def)
qed

interpretation trk: counting_acker tracking_invar tracking_pending tracking_AddEvent tracking_ACKEvents
  by unfold_locales
    (fact tracking_add_kept tracking_add_now tracking_ack_prefix tracking_ack_too_many)+

section \<open>Reporting the private fields\<close>

text \<open>
  \<open>eventDataACKer\<close> relies on the tracker it embeds only through the contract: the number of
  private fields it holds is the number of pending events of the tracker.
\<close>

lemma onACK_prefix:
  "c \<le> length d \<Longrightarrow> onACK fn acked (int c) (d, s) =
     (if c = 0 then Inr (d, s)
      else bind_result (fn acked (take c d) s) (\<lambda>s'. Inr (drop c d, s')))"
  by (cases d) (auto simp: onACK_def Let_def)

locale private_acker = counting_acker invar pending add ack
  for invar :: "'t \<Rightarrow> bool"
    and pending :: "'t \<Rightarrow> bool list"
    and add :: "('p option list \<times> 'u) ackfn \<Rightarrow> bool \<Rightarrow> 't \<Rightarrow> 'p option list \<times> 'u \<Rightarrow> ('t \<times> ('p option list \<times> 'u)) result"
    and ack :: "('p option list \<times> 'u) ackfn \<Rightarrow> int \<Rightarrow> 't \<Rightarrow> 'p option list \<times> 'u \<Rightarrow> ('t \<times> ('p option list \<times> 'u)) result"
begin

definition ev_invar :: "('t, 'p) eventDataACKer \<Rightarrow> bool" where
  "ev_invar a \<longleftrightarrow> invar (inner a) \<and> length (data a) = length (pending (inner a))"

abbreviation ev_pending :: "('t, 'p) eventDataACKer \<Rightarrow> bool list" where
  "ev_pending a \<equiv> pending (inner a)"

lemma ev_add_kept:
  assumes "ev_invar a" and "p \<or> ev_pending a \<noteq> []"
  shows "\<exists>a'. eventData_AddEvent add fn e p a s = Inr (a', s) \<and> ev_invar a'
     \<and> ev_pending a' = ev_pending a @ [p] \<and> data a' = data a @ [Private e]"
  using assms add_kept [of "inner a" p "onACK fn" "(data a @ [Private e], s)"]
  by (auto simp: ev_invar_def eventData_AddEvent_def)

lemma ev_add_now:
  assumes "ev_invar a" and "ev_pending a = []"
  shows "\<exists>a'. eventData_AddEvent add fn e False a s =
        bind_result (fn 0 [Private e] s) (\<lambda>s'. Inr (a', s'))
     \<and> ev_invar a' \<and> ev_pending a' = [] \<and> data a' = []"
proof -
  have "invar (inner a)" "data a = []"
    using assms by (auto simp: ev_invar_def)
  moreover from this assms(2) obtain t' where
    "add (onACK fn) False (inner a) ([Private e], s) =
       bind_result (onACK fn 0 1 ([Private e], s)) (\<lambda>s'. Inr (t', s'))"
    "invar t'" "pending t' = []"
    using add_now [of "inner a" "onACK fn" "([Private e], s)"] by auto
  ultimately show ?thesis
    by (intro exI [of _ "\<lparr>inner = t', data = []\<rparr>"])
      (cases "fn 0 [Private e] s"; simp add: ev_invar_def eventData_AddEvent_def onACK_def)
qed

lemma ev_ack:
  assumes "ev_invar a" and "n \<le> published (ev_pending a)"
  defines "c \<equiv> covered n (ev_pending a)"
  shows "\<exists>a'. eventData_ACKEvents ack fn (int n) a s =
        (if c = 0 then Inr (a', s)
         else bind_result (fn (int n) (take c (data a)) s) (\<lambda>s'. Inr (a', s')))
     \<and> ev_invar a' \<and> ev_pending a' = drop c (ev_pending a) \<and> data a' = drop c (data a)"
proof -
  have inv: "invar (inner a)" "length (data a) = length (ev_pending a)"
    using assms(1) by (auto simp: ev_invar_def)
  from ack_prefix [OF inv(1) assms(2)] obtain t' where t':
    "ack (onACK fn) (int n) (inner a) (data a, s) =
       bind_result (onACK fn (int n) (int c) (data a, s)) (\<lambda>s'. Inr (t', s'))"
    "invar t'" "pending t' = drop c (ev_pending a)"
    unfolding c_def by blast
  have le: "c \<le> length (data a)" by (simp add: c_def inv)
  show ?thesis
    using t'(2,3) inv
    by (intro exI [of _ "\<lparr>inner = t', data = drop c (data a)\<rparr>"])
      (cases "fn (int n) (take c (data a)) s";
        simp add: ev_invar_def eventData_ACKEvents_def t'(1) onACK_prefix [OF le])
qed

end

text \<open>A client's history: events added with their fate, batches acknowledged.\<close>

datatype 'p ack_step = Add "'p event" bool | Ack nat

definition record_fn ::
    "int \<Rightarrow> 'p option list \<Rightarrow> (int \<times> 'p option list) list \<Rightarrow> (int \<times> 'p option list) list result" where
  "record_fn acked d log = Inr (log @ [(acked, d)])"

fun reporter_run ::
    "'p ack_step list \<Rightarrow> (trackingACKer, 'p) eventDataACKer \<Rightarrow> (int \<times> 'p option list) list
     \<Rightarrow> ((trackingACKer, 'p) eventDataACKer \<times> (int \<times> 'p option list) list) result" where
  "reporter_run [] a log = Inr (a, log)"
| "reporter_run (Add e p # steps) a log =
     bind_result (eventData_AddEvent tracking_AddEvent record_fn e p a log)
       (\<lambda>(a', log'). reporter_run steps a' log')"
| "reporter_run (Ack n # steps) a log =
     bind_result (eventData_ACKEvents tracking_ACKEvents record_fn (int n) a log)
       (\<lambda>(a', log'). reporter_run steps a' log')"

text \<open>The outputs acknowledge only events they received: the assumption on the pipeline.\<close>

fun acks_valid :: "bool list \<Rightarrow> 'p ack_step list \<Rightarrow> bool" where
  "acks_valid pend [] = True"
| "acks_valid pend (Add e p # steps) = acks_valid (if p \<or> pend \<noteq> [] then pend @ [p] else []) steps"
| "acks_valid pend (Ack n # steps) =
     (n \<le> published pend \<and> acks_valid (drop (covered n pend) pend) steps)"

fun privates :: "'p ack_step list \<Rightarrow> 'p option list" where
  "privates [] = []"
| "privates (Add e p # steps) = Private e # privates steps"
| "privates (Ack n # steps) = privates steps"

interpretation ev: private_acker tracking_invar tracking_pending tracking_AddEvent tracking_ACKEvents
  by unfold_locales

lemma ev_invar_EventPrivateReporter [simp]:
  "ev.ev_invar EventPrivateReporter" "tracking_pending (inner EventPrivateReporter) = []"
  "data EventPrivateReporter = []"
  by (simp_all add: ev.ev_invar_def EventPrivateReporter_def TrackingCounter_def
      tracking_invar_def tracking_pending_def)

lemma reporter_run_reports:
  assumes "ev.ev_invar a" and "acks_valid (tracking_pending (inner a)) steps"
  shows "\<exists>a' log'. reporter_run steps a log = Inr (a', log') \<and> ev.ev_invar a'
     \<and> concat (map snd log') @ data a' = concat (map snd log) @ data a @ privates steps"
  using assms
proof (induction steps a log rule: reporter_run.induct)
  case (1 a log)
  then show ?case by simp
next
  case (2 e p steps a log)
  let ?pend = "tracking_pending (inner a)"
  show ?case
  proof (cases "p \<or> ?pend \<noteq> []")
    case True
    from ev.ev_add_kept [OF "2.prems"(1) True, of record_fn e log] obtain a' where a':
      "eventData_AddEvent tracking_AddEvent record_fn e p a log = Inr (a', log)"
      "ev.ev_invar a'" "tracking_pending (inner a') = ?pend @ [p]" "data a' = data a @ [Private e]"
      by (elim exE conjE)
    have "acks_valid (tracking_pending (inner a')) steps"
      using "2.prems"(2) True a'(3) by simp
    from "2.IH" [OF a'(2) this, of log] a'(1,4) show ?thesis by simp
  next
    case False
    have "data a = []" using "2.prems"(1) False by (auto simp: ev.ev_invar_def)
    moreover obtain a' where a':
      "eventData_AddEvent tracking_AddEvent record_fn e p a log = Inr (a', log @ [(0, [Private e])])"
      "ev.ev_invar a'" "tracking_pending (inner a') = []" "data a' = []"
      using ev.ev_add_now [OF "2.prems"(1), of record_fn e log] False by (auto simp: record_fn_def)
    moreover have "acks_valid (tracking_pending (inner a')) steps"
      using "2.prems"(2) False a'(3) by simp
    ultimately show ?thesis using "2.IH" [OF a'(2), of "log @ [(0, [Private e])]"] by simp
  qed
next
  case (3 n steps a log)
  let ?c = "covered n (tracking_pending (inner a))"
  obtain a' log' where a':
    "eventData_ACKEvents tracking_ACKEvents record_fn (int n) a log = Inr (a', log')"
    "ev.ev_invar a'" "tracking_pending (inner a') = drop ?c (tracking_pending (inner a))"
    "data a' = drop ?c (data a)" "concat (map snd log') = concat (map snd log) @ take ?c (data a)"
    using ev.ev_ack [OF "3.prems"(1), of n record_fn log] "3.prems"(2)
    by (cases "?c = 0") (auto simp: record_fn_def)
  have "acks_valid (tracking_pending (inner a')) steps"
    using "3.prems"(2) a'(3) by simp
  from "3.IH" [OF a'(2) this, of log'] a'(1,4,5) show ?case
    by simp
qed

section \<open>Properties\<close>

text \<open>C39. The gap list implements its specification: an acknowledgement of \<open>n\<close> published events
  is reported once, with the length of the longest pending prefix that holds exactly \<open>n\<close>
  published events (the dropped events up to the next published one included); that prefix
  leaves the tracker and the invariant of the gap list is kept.\<close>

theorem ACKEvents_reports_longest_prefix:
  assumes "tracking_invar a" and "n \<le> published (tracking_pending a)"
  shows "\<exists>a' k. tracking_ACKEvents fn (int n) a s = bind_result (fn (int n) (int k) s) (\<lambda>s'. Inr (a', s'))
     \<and> tracking_invar a' \<and> tracking_pending a' = drop k (tracking_pending a)
     \<and> k \<le> length (tracking_pending a) \<and> published (take k (tracking_pending a)) = n
     \<and> (\<forall>j. j \<le> length (tracking_pending a) \<and> published (take j (tracking_pending a)) = n \<longrightarrow> j \<le> k)"
proof -
  from trk.ack_prefix [OF assms, of fn s] obtain a' where
    "tracking_ACKEvents fn (int n) a s =
       bind_result (fn (int n) (int (covered n (tracking_pending a))) s) (\<lambda>s'. Inr (a', s'))"
    "tracking_invar a'" "tracking_pending a' = drop (covered n (tracking_pending a)) (tracking_pending a)"
    by blast
  moreover have "j \<le> covered n (tracking_pending a)"
    if "j \<le> length (tracking_pending a)" "published (take j (tracking_pending a)) = n" for j
    using covered_maximal [of j "tracking_pending a" n] that by simp
  ultimately show ?thesis
    using published_covered [OF assms(2)] covered_le by blast
qed

text \<open>The example of the source's comment: X X D D X D D X with three events acknowledged.\<close>

definition comment_example :: trackingACKer where
  "comment_example =
     \<lparr>events = 8, lst = [\<lparr>send = 2, dropped = 2\<rparr>, \<lparr>send = 1, dropped = 2\<rparr>, \<lparr>send = 1, dropped = 0\<rparr>]\<rparr>"

theorem ACKEvents_reports_longest_prefix_witness:
  "tracking_invar comment_example \<and> 3 \<le> published (tracking_pending comment_example)
   \<and> (\<exists>a'. tracking_ACKEvents (\<lambda>n tot s. Inr (s @ [(n, tot)])) 3 comment_example [] = Inr (a', [(3, 7)]))"
proof -
  have pend: "tracking_pending comment_example = [True, True, False, False, True, False, False, True]"
    by (simp add: comment_example_def tracking_pending_def gap_bits_def numeral_eq_Suc)
  have inv: "tracking_invar comment_example"
    by (simp add: comment_example_def tracking_invar_def gaps_full_def)
  have n: "3 \<le> published (tracking_pending comment_example)" by (simp add: pend)
  from ACKEvents_reports_longest_prefix [OF inv n, of "\<lambda>n tot s. Inr (s @ [(n, tot)])" "[]"]
  obtain a' k where k: "tracking_ACKEvents (\<lambda>n tot s. Inr (s @ [(n, tot)])) 3 comment_example [] = Inr (a', [(3, int k)])"
    "k \<le> 8" "published (take k (tracking_pending comment_example)) = 3"
    "\<forall>j. j \<le> 8 \<and> published (take j (tracking_pending comment_example)) = 3 \<longrightarrow> j \<le> k"
    by (auto simp: pend)
  from k(4) [rule_format, of 7] have "7 \<le> k" by (simp add: pend)
  moreover have "k \<noteq> 8" using k(3) by (auto simp: pend)
  ultimately have "k = 7" using k(2) by linarith
  with k(1) inv n show ?thesis by auto
qed

text \<open>An acknowledgement of more events than are pending panics, whatever the gap list
  looks like: the tracker never reports an event that was not published.\<close>

lemma ACKEvents_too_many_panics:
  assumes "tracking_invar a" and "published (tracking_pending a) < n"
  shows "tracking_ACKEvents fn (int n) a s = Inl (Panic ''too many events acked'')"
  using assms by (rule trk.ack_too_many)

lemma ACKEvents_too_many_panics_witness:
  "tracking_ACKEvents (\<lambda>n tot s. Inr (s + tot)) 5 comment_example (0::int)
     = Inl (Panic ''too many events acked'')"
  using ACKEvents_too_many_panics [of comment_example 5 "\<lambda>n tot s. Inr (s + tot)" 0]
  by (simp add: comment_example_def tracking_invar_def gaps_full_def tracking_pending_def gap_bits_def
      numeral_eq_Suc)

text \<open>C40. \<open>EventPrivateReporter\<close> loses, duplicates and reorders nothing: for every history of
  published and dropped events and of valid acknowledgements, no call panics, and the private
  fields reported so far followed by those still held are the private fields of the events
  added, in order.\<close>

theorem EventPrivateReporter_lossless:
  assumes "acks_valid [] steps"
  shows "\<exists>a log. reporter_run steps EventPrivateReporter [] = Inr (a, log)
     \<and> concat (map snd log) @ data a = privates steps"
  using reporter_run_reports [of EventPrivateReporter steps "[]"] assms by auto

definition ev_of :: "nat \<Rightarrow> nat event" where
  "ev_of i = \<lparr>Fields = fmempty, Private = Some i\<rparr>"

theorem EventPrivateReporter_lossless_witness:
  "\<exists>a log. reporter_run [Add (ev_of 0) False, Add (ev_of 1) True, Add (ev_of 2) False, Ack 1, Add (ev_of 3) True]
       EventPrivateReporter [] = Inr (a, log)
     \<and> concat (map snd log) @ data a = [Some 0, Some 1, Some 2, Some 3]"
  using EventPrivateReporter_lossless
    [of "[Add (ev_of 0) False, Add (ev_of 1) True, Add (ev_of 2) False, Ack 1, Add (ev_of 3) True]"]
  by (simp add: ev_of_def)

text \<open>\<open>LastEventPrivateReporter\<close> reports, for each batch that holds a private field, the last
  one of the batch, and counts every acknowledged event exactly once: the counts it has
  reported plus the count it still carries are the events acknowledged.\<close>

fun last_private :: "'p option list \<Rightarrow> 'p option" where
  "last_private [] = None"
| "last_private (x # xs) = (case last_private xs of None \<Rightarrow> x | Some p \<Rightarrow> Some p)"

definition record_last :: "int \<Rightarrow> 'p \<Rightarrow> (int \<times> 'p) list \<Rightarrow> (int \<times> 'p) list result" where
  "record_last acked p log = Inr (log @ [(acked, p)])"

fun last_run :: "(int \<times> 'p option list) list \<Rightarrow> int \<times> (int \<times> 'p) list \<Rightarrow> (int \<times> (int \<times> 'p) list) result" where
  "last_run [] st = Inr st"
| "last_run ((acked, d) # batches) st =
     bind_result (LastEventPrivateReporter_fn record_last acked d st) (last_run batches)"

lemma last_private_snoc [simp]:
  "last_private (ys @ [z]) = (case z of None \<Rightarrow> last_private ys | Some p \<Rightarrow> Some p)"
  by (induction ys) (auto split: option.splits)

lemma last_loop_append:
  "last_loop fn acked (xs @ [x]) (ign, s) =
     (case last_private (rev xs) of
        Some p \<Rightarrow> bind_result (fn (ign + acked) p s) (\<lambda>s'. Inr (0, s'))
      | None \<Rightarrow> last_loop fn acked [x] (ign, s))"
proof (induction xs)
  case Nil
  then show ?case by simp
next
  case (Cons y xs)
  then show ?case by (cases y) simp_all
qed

lemma LastEventPrivateReporter_fn_eq:
  "LastEventPrivateReporter_fn fn acked d (ign, s) =
     (case last_private d of
        Some p \<Rightarrow> bind_result (fn (ign + acked) p s) (\<lambda>s'. Inr (0, s'))
      | None \<Rightarrow> Inr (ign + acked, s))"
proof (cases d)
  case Nil
  then show ?thesis by (simp add: LastEventPrivateReporter_fn_def)
next
  case (Cons x xs)
  then show ?thesis
    by (cases x) (auto simp: LastEventPrivateReporter_fn_def last_loop_append split: option.splits)
qed

lemma last_run_counts:
  "\<exists>ign' log'. last_run batches (ign, log) = Inr (ign', log')
     \<and> sum_list (map fst log') + ign' = sum_list (map fst log) + ign + sum_list (map fst batches)
     \<and> map snd log' = map snd log @ List.map_filter (last_private \<circ> snd) batches"
proof (induction batches arbitrary: ign log)
  case Nil
  then show ?case by (simp add: List.map_filter_simps)
next
  case (Cons b batches)
  obtain acked d where b: "b = (acked, d)" by fastforce
  show ?case
  proof (cases "last_private d")
    case None
    then show ?thesis
      using Cons [of "ign + acked" log] b
      by (auto simp: LastEventPrivateReporter_fn_eq List.map_filter_simps algebra_simps)
  next
    case (Some p)
    then show ?thesis
      using Cons [of 0 "log @ [(ign + acked, p)]"] b
      by (auto simp: LastEventPrivateReporter_fn_eq record_last_def List.map_filter_simps algebra_simps)
  qed
qed

lemma LastEventPrivateReporter_counts:
  "\<exists>ign log. last_run batches (0, []) = Inr (ign, log)
     \<and> sum_list (map fst log) + ign = sum_list (map fst batches)
     \<and> map snd log = List.map_filter (last_private \<circ> snd) batches"
  using last_run_counts [of batches 0 "[]"] by simp

text \<open>After \<open>Close\<close>, a \<open>ConnectionOnly\<close> tracker drops its inner tracker: no later call, in
  any order, reaches the inner tracker's state or fails.\<close>

fun client_calls :: "('p, 's) ACKer \<Rightarrow> 'p ack_step list \<Rightarrow> 's \<Rightarrow> 's result" where
  "client_calls a [] s = Inr s"
| "client_calls a (Add e p # steps) s = bind_result (AddEvent a e p s) (client_calls a steps)"
| "client_calls a (Ack n # steps) s = bind_result (ACKEvents a (int n) s) (client_calls a steps)"

lemma clientOnly_closed_ignores: "client_calls clientOnlyACKer steps (None, s) = Inr (None, s)"
proof (induction steps)
  case (Cons st steps)
  then show ?case by (cases st) (auto simp: clientOnlyACKer_def)
qed simp

lemma ConnectionOnly_silent_after_close:
  assumes "Close clientOnlyACKer st = Inr st'"
  shows "client_calls clientOnlyACKer steps st' = Inr st' \<and> Close clientOnlyACKer st' = Inr st'"
proof -
  obtain acker s where st: "st = (acker, s)" by fastforce
  with assms obtain s' where st': "st' = (None, s')"
    by (auto simp: clientOnlyACKer_def bind_result_Inr split: option.splits)
  then have "Close clientOnlyACKer st' = Inr st'" by (simp add: clientOnlyACKer_def)
  with st' show ?thesis by (simp add: clientOnly_closed_ignores)
qed

lemma ConnectionOnly_silent_after_close_witness:
  "Close clientOnlyACKer (Some (countACKer (\<lambda>n s. Inr (s + n)) :: (nat, int) ACKer), 7) = Inr (None, 7)
   \<and> client_calls clientOnlyACKer [Ack 2] (None :: (nat, int) ACKer option, 7) = Inr (None, 7)"
proof -
  have c: "Close clientOnlyACKer (Some (countACKer (\<lambda>n s. Inr (s + n)) :: (nat, int) ACKer), 7) = Inr (None, 7)"
    by (simp add: clientOnlyACKer_def countACKer_def)
  from ConnectionOnly_silent_after_close [OF this, of "[Ack 2]"] c show ?thesis by simp
qed

end
