(* ===== verification/Fs.thy ===== *)
theory Fs
  imports Prelude
begin

unbundle bit_operations_syntax

text \<open>
  The part of the operating system a memlog store sees: one home directory with its files,
  and the system calls of Go's packages \<open>os\<close> and \<open>path/filepath\<close> on them.  A file is named
  by its name in the home directory.

  Failures are an input: the state carries a list of faults, and every system call takes
  the next one.  \<open>Fail e\<close> makes the call fail without effect, \<open>Partial k e\<close> lets a read or a
  write transfer \<open>k\<close> bytes before it fails, \<open>Crash\<close> stays in the list, so no later call has
  an effect: the directory is then the one a new process finds after a crash.  An empty list
  means that all calls succeed.  What the operating system itself may lose or reorder on a
  power failure is not modelled.
\<close>

section \<open>State\<close>

datatype fault = NoFault | Fail errno | Partial nat errno | Crash

text \<open>\<open>SubDir\<close> stands for a non-empty directory, the only other kind of entry considered.\<close>

datatype node = RegFile bytes u32 | SubDir

datatype home_kind = HomeMissing | HomeDir | HomeOther

record fs =
  home :: home_kind
  dir :: "(string, node) fmap"
  umask :: u32
  faults :: "fault list"

text \<open>An open file: its name and the offset of the next read or write.\<close>

record fhandle =
  fh_name :: string
  fh_off :: nat

section \<open>System calls\<close>

definition next_fault :: "fs \<Rightarrow> fault \<times> fs" where
  "next_fault w =
     (case faults w of
        [] \<Rightarrow> (NoFault, w)
      | Crash # fl \<Rightarrow> (Fail EIO, w)
      | f # fl \<Rightarrow> (f, w\<lparr>faults := fl\<rparr>))"

definition syscall :: "(fs \<Rightarrow> 'a result \<times> fs) \<Rightarrow> fs \<Rightarrow> 'a result \<times> fs" where
  "syscall f w =
     (case next_fault w of
        (NoFault, w') \<Rightarrow> f w'
      | (Fail e, w') \<Rightarrow> (Inl (Errno e), w')
      | (Partial k e, w') \<Rightarrow> (Inl (Errno e), w')
      | (Crash, w') \<Rightarrow> (Inl (Errno EIO), w'))"

definition os_Remove :: "string \<Rightarrow> fs \<Rightarrow> unit result \<times> fs" where
  "os_Remove n = syscall (\<lambda>w.
     case fmlookup (dir w) n of
       None \<Rightarrow> (Inl (Errno ENOENT), w)
     | Some SubDir \<Rightarrow> (Inl (Errno ENOTEMPTY), w)
     | Some (RegFile d m) \<Rightarrow> (Inr (), w\<lparr>dir := fmdrop n (dir w)\<rparr>))"

definition os_Rename :: "string \<Rightarrow> string \<Rightarrow> fs \<Rightarrow> unit result \<times> fs" where
  "os_Rename a b = syscall (\<lambda>w.
     case fmlookup (dir w) a of
       None \<Rightarrow> (Inl (Errno ENOENT), w)
     | Some nd \<Rightarrow>
         if fmlookup (dir w) b = Some SubDir then (Inl (Errno EISDIR), w)
         else (Inr (), w\<lparr>dir := fmupd b nd (fmdrop a (dir w))\<rparr>))"

definition os_OpenFile :: "bool \<Rightarrow> bool \<Rightarrow> u32 \<Rightarrow> string \<Rightarrow> fs \<Rightarrow> fhandle result \<times> fs" where
  "os_OpenFile creat trunc mode n = syscall (\<lambda>w.
     case fmlookup (dir w) n of
       None \<Rightarrow>
         if creat \<and> home w = HomeDir
         then (Inr \<lparr>fh_name = n, fh_off = 0\<rparr>, w\<lparr>dir := fmupd n (RegFile [] (mode AND NOT (umask w))) (dir w)\<rparr>)
         else (Inl (Errno ENOENT), w)
     | Some SubDir \<Rightarrow> (Inl (Errno EISDIR), w)
     | Some (RegFile d m) \<Rightarrow>
         (Inr \<lparr>fh_name = n, fh_off = 0\<rparr>,
          if trunc then w\<lparr>dir := fmupd n (RegFile [] m) (dir w)\<rparr> else w))"

definition splice :: "nat \<Rightarrow> bytes \<Rightarrow> bytes \<Rightarrow> bytes" where
  "splice off p d =
     take off d @ replicate (off - length d) (CHR 0x00) @ p @ drop (off + length p) d"

text \<open>\<open>File.Write\<close>: the bytes at the offset are replaced and the offset moves on.  A write that
  fails has written the first bytes of the buffer.\<close>

definition put_bytes :: "bytes \<Rightarrow> fhandle \<Rightarrow> fs \<Rightarrow> fhandle \<times> fs" where
  "put_bytes p fh w =
     (case fmlookup (dir w) (fh_name fh) of
        Some (RegFile d m) \<Rightarrow>
          (fh\<lparr>fh_off := fh_off fh + length p\<rparr>,
           w\<lparr>dir := fmupd (fh_name fh) (RegFile (splice (fh_off fh) p d) m) (dir w)\<rparr>)
      | _ \<Rightarrow> (fh\<lparr>fh_off := fh_off fh + length p\<rparr>, w))"

definition file_Write :: "bytes \<Rightarrow> fhandle \<Rightarrow> fs \<Rightarrow> (nat \<times> error option) \<times> fhandle \<times> fs" where
  "file_Write p fh w =
     (case next_fault w of
        (NoFault, w') \<Rightarrow> ((length p, None), put_bytes p fh w')
      | (Fail e, w') \<Rightarrow> ((0, Some (Errno e)), fh, w')
      | (Partial k e, w') \<Rightarrow> ((min k (length p), Some (Errno e)), put_bytes (take k p) fh w')
      | (Crash, w') \<Rightarrow> ((0, Some (Errno EIO)), fh, w'))"

definition file_Truncate0 :: "fhandle \<Rightarrow> fs \<Rightarrow> unit result \<times> fs" where
  "file_Truncate0 fh = syscall (\<lambda>w.
     case fmlookup (dir w) (fh_name fh) of
       Some (RegFile d m) \<Rightarrow> (Inr (), w\<lparr>dir := fmupd (fh_name fh) (RegFile [] m) (dir w)\<rparr>)
     | _ \<Rightarrow> (Inr (), w))"

definition file_size :: "string \<Rightarrow> fs \<Rightarrow> nat" where
  "file_size n w = (case fmlookup (dir w) n of Some (RegFile d m) \<Rightarrow> length d | _ \<Rightarrow> 0)"

definition file_SeekStart :: "fhandle \<Rightarrow> fs \<Rightarrow> fhandle result \<times> fs" where
  "file_SeekStart fh = syscall (\<lambda>w. (Inr (fh\<lparr>fh_off := 0\<rparr>), w))"

definition file_SeekEnd :: "fhandle \<Rightarrow> fs \<Rightarrow> fhandle result \<times> fs" where
  "file_SeekEnd fh = syscall (\<lambda>w. (Inr (fh\<lparr>fh_off := file_size (fh_name fh) w\<rparr>), w))"

definition file_Stat_size :: "fhandle \<Rightarrow> fs \<Rightarrow> nat result \<times> fs" where
  "file_Stat_size fh = syscall (\<lambda>w. (Inr (file_size (fh_name fh) w), w))"

definition file_Sync :: "fhandle \<Rightarrow> fs \<Rightarrow> unit result \<times> fs" where
  "file_Sync fh = syscall (\<lambda>w. (Inr (), w))"

definition file_Close :: "fhandle \<Rightarrow> fs \<Rightarrow> unit result \<times> fs" where
  "file_Close fh = syscall (\<lambda>w. (Inr (), w))"

definition file_Stat_mode :: "fhandle \<Rightarrow> fs \<Rightarrow> u32 result \<times> fs" where
  "file_Stat_mode fh = syscall (\<lambda>w.
     case fmlookup (dir w) (fh_name fh) of
       Some (RegFile d m) \<Rightarrow> (Inr m, w)
     | _ \<Rightarrow> (Inl (Errno ENOENT), w))"

definition file_Chmod :: "u32 \<Rightarrow> fhandle \<Rightarrow> fs \<Rightarrow> unit result \<times> fs" where
  "file_Chmod mode fh = syscall (\<lambda>w.
     case fmlookup (dir w) (fh_name fh) of
       Some (RegFile d m) \<Rightarrow> (Inr (), w\<lparr>dir := fmupd (fh_name fh) (RegFile d mode) (dir w)\<rparr>)
     | _ \<Rightarrow> (Inr (), w))"

text \<open>Reading a file to its end: the bytes read and the error that stopped the read, if any.\<close>

definition file_ReadAll :: "fhandle \<Rightarrow> fs \<Rightarrow> (bytes \<times> error option) \<times> fs" where
  "file_ReadAll fh w =
     (let content = \<lambda>w. case fmlookup (dir w) (fh_name fh) of Some (RegFile d m) \<Rightarrow> d | _ \<Rightarrow> [] in
      case next_fault w of
        (NoFault, w') \<Rightarrow> ((content w', None), w')
      | (Fail e, w') \<Rightarrow> (([], Some (Errno e)), w')
      | (Partial k e, w') \<Rightarrow> ((take k (content w'), Some (Errno e)), w')
      | (Crash, w') \<Rightarrow> (([], Some (Errno EIO)), w'))"

definition os_MkdirAll :: "fs \<Rightarrow> unit result \<times> fs" where
  "os_MkdirAll = syscall (\<lambda>w. (Inr (), w\<lparr>home := HomeDir\<rparr>))"

definition os_Stat_home :: "fs \<Rightarrow> bool result \<times> fs" where
  "os_Stat_home = syscall (\<lambda>w.
     case home w of
       HomeMissing \<Rightarrow> (Inl (Errno ENOENT), w)
     | HomeDir \<Rightarrow> (Inr True, w)
     | HomeOther \<Rightarrow> (Inr False, w))"

definition os_Open_home :: "fs \<Rightarrow> unit result \<times> fs" where
  "os_Open_home = syscall (\<lambda>w.
     if home w = HomeMissing then (Inl (Errno ENOENT), w) else (Inr (), w))"

definition os_Lstat_regular :: "string \<Rightarrow> fs \<Rightarrow> bool result \<times> fs" where
  "os_Lstat_regular n = syscall (\<lambda>w.
     case fmlookup (dir w) n of
       None \<Rightarrow> (Inl (Errno ENOENT), w)
     | Some SubDir \<Rightarrow> (Inr False, w)
     | Some (RegFile d m) \<Rightarrow> (Inr True, w))"

text \<open>\<open>os.WriteFile\<close>: open with truncation, one write, close.\<close>

definition os_WriteFile :: "string \<Rightarrow> bytes \<Rightarrow> u32 \<Rightarrow> fs \<Rightarrow> unit result \<times> fs" where
  "os_WriteFile n p mode w =
     (case os_OpenFile True True mode n w of
        (Inl e, w1) \<Rightarrow> (Inl e, w1)
      | (Inr fh, w1) \<Rightarrow>
          (case file_Write p fh w1 of
             ((k, werr), fh', w2) \<Rightarrow>
               (case file_Close fh' w2 of
                  (cerr, w3) \<Rightarrow>
                    (case werr of
                       Some e \<Rightarrow> (Inl e, w3)
                     | None \<Rightarrow> (cerr, w3)))))"

text \<open>
  \<open>filepath.Glob\<close> of \<open>*.json\<close>: the names of the directory that end so, in increasing order.
  Errors of the directory read are ignored by the package: no name is reported then.
\<close>

definition json_suffix :: "string \<Rightarrow> bool" where
  "json_suffix n \<longleftrightarrow> suffix ''.json'' n"

definition filepath_Glob_json :: "fs \<Rightarrow> string list \<times> fs" where
  "filepath_Glob_json w =
     (case next_fault w of
        (NoFault, w') \<Rightarrow> (filter json_suffix (sorted_list_of_fset (fmdom (dir w'))), w')
      | (_, w') \<Rightarrow> ([], w'))"

definition IsNotExist :: "error \<Rightarrow> bool" where
  "IsNotExist e \<longleftrightarrow> e = Errno ENOENT"

section \<open>Facts on the system calls\<close>

lemma next_fault_empty [fs_simps]: "faults w = [] \<Longrightarrow> next_fault w = (NoFault, w)"
  by (simp add: next_fault_def)

lemma next_fault_frame:
  assumes "next_fault w = (f, w')"
  obtains fl where "w' = w\<lparr>faults := fl\<rparr>" "length fl \<le> length (faults w)"
    "f \<noteq> NoFault \<and> f \<noteq> Fail EIO \<longrightarrow> length fl < length (faults w)" "f \<noteq> Crash"
    "faults w = [] \<longrightarrow> f = NoFault \<and> fl = []"
proof (rule that [of "faults w'"])
  show "w' = w\<lparr>faults := faults w'\<rparr>"
    using assms by (auto simp: next_fault_def split: list.splits fault.splits)
qed (use assms in \<open>auto simp: next_fault_def split: list.splits fault.splits\<close>)

lemma syscall_empty [fs_simps]: "faults w = [] \<Longrightarrow> syscall f w = f w"
  by (simp add: syscall_def next_fault_empty)

text \<open>A system call fails without effect, or runs on the state with a fault consumed.\<close>

lemma syscall_cases [consumes 1, case_names fails runs]:
  assumes "syscall f w = (r, w')"
  obtains e fl where "r = Inl (Errno e)" "w' = w\<lparr>faults := fl\<rparr>" "faults w \<noteq> []"
  | fl where "f (w\<lparr>faults := fl\<rparr>) = (r, w')" "faults w = [] \<longrightarrow> fl = []"
proof -
  obtain g u where nf: "next_fault w = (g, u)" by fastforce
  then obtain fl where u: "u = w\<lparr>faults := fl\<rparr>" "faults w = [] \<longrightarrow> g = NoFault \<and> fl = []"
    by (rule next_fault_frame) blast
  show thesis
  proof (cases g)
    case NoFault
    then show thesis using assms nf u that(2) [of fl] by (auto simp: syscall_def)
  qed (use assms nf u that(1) in \<open>auto simp: syscall_def\<close>)
qed

lemma dir_put_bytes_append:
  assumes "fmlookup (dir w) (fh_name fh) = Some (RegFile d m)" and "fh_off fh = length d"
  shows "put_bytes p fh w =
     (fh\<lparr>fh_off := length (d @ p)\<rparr>, w\<lparr>dir := fmupd (fh_name fh) (RegFile (d @ p) m) (dir w)\<rparr>)"
  using assms by (simp add: put_bytes_def splice_def)

lemma faults_put_bytes: "put_bytes p fh w = (fh', w') \<Longrightarrow> faults w' = faults w"
  by (auto simp: put_bytes_def split: option.splits node.splits)

section \<open>Frames\<close>

text \<open>Only files with these names differ; a state without faults stays so, and no directory appears.\<close>

definition all_regular :: "fs \<Rightarrow> bool" where
  "all_regular w \<longleftrightarrow> (\<forall>n. fmlookup (dir w) n \<noteq> Some SubDir)"

definition only :: "string set \<Rightarrow> fs \<Rightarrow> fs \<Rightarrow> bool" where
  "only A w w' \<longleftrightarrow> home w' = home w \<and> umask w' = umask w
     \<and> (\<forall>n. n \<notin> A \<longrightarrow> fmlookup (dir w') n = fmlookup (dir w) n)
     \<and> (faults w = [] \<longrightarrow> faults w' = [])
     \<and> (all_regular w \<longrightarrow> all_regular w')"

lemma only_refl [intro, simp]: "only A w w"
  by (simp add: only_def all_regular_def)

lemma only_trans: "only A w w1 \<Longrightarrow> only B w1 w2 \<Longrightarrow> A \<union> B \<subseteq> C \<Longrightarrow> only C w w2"
  unfolding only_def by (metis UnI1 UnI2 subsetD)

lemma only_mono: "only A w w' \<Longrightarrow> A \<subseteq> B \<Longrightarrow> only B w w'"
  by (auto simp: only_def all_regular_def)

lemma onlyD: "only A w w' \<Longrightarrow> n \<notin> A \<Longrightarrow> fmlookup (dir w') n = fmlookup (dir w) n"
  by (simp add: only_def all_regular_def)

lemma only_faults: "only A w w' \<Longrightarrow> faults w = [] \<Longrightarrow> faults w' = []"
  by (simp add: only_def)

lemma only_home: "only A w w' \<Longrightarrow> home w' = home w"
  by (simp add: only_def)

lemma only_regular: "only A w w' \<Longrightarrow> all_regular w \<Longrightarrow> all_regular w'"
  by (simp add: only_def)

lemma only_dir: "only {} w w' \<Longrightarrow> dir w' = dir w"
  by (rule fmap_ext) (simp add: only_def)

lemma syscall_only:
  assumes "\<And>u. only A u (snd (f u))"
  shows "only A w (snd (syscall f w))"
proof -
  obtain r w' where s: "syscall f w = (r, w')" by fastforce
  then show ?thesis
  proof (cases rule: syscall_cases)
    case (fails e fl)
    with s show ?thesis by (simp add: only_def all_regular_def)
  next
    case (runs fl)
    then have "only A (w\<lparr>faults := fl\<rparr>) w'" using assms [of "w\<lparr>faults := fl\<rparr>"] by simp
    with runs(2) s show ?thesis by (auto simp: only_def all_regular_def)
  qed
qed

lemma os_Remove_only: "only {n} w (snd (os_Remove n w))"
  unfolding os_Remove_def by (rule syscall_only) (auto simp: only_def all_regular_def split: option.splits node.splits)

lemma os_Rename_only: "only {a, b} w (snd (os_Rename a b w))"
  unfolding os_Rename_def by (rule syscall_only) (auto simp: only_def all_regular_def split: option.splits)

lemma os_OpenFile_only: "only {n} w (snd (os_OpenFile creat trunc mode n w))"
  unfolding os_OpenFile_def by (rule syscall_only) (auto simp: only_def all_regular_def split: option.splits node.splits)

lemma file_Close_only: "only {} w (snd (file_Close fh w))"
  unfolding file_Close_def by (rule syscall_only) simp

lemma file_Sync_only: "only {} w (snd (file_Sync fh w))"
  unfolding file_Sync_def by (rule syscall_only) simp

lemma file_SeekStart_only: "only {} w (snd (file_SeekStart fh w))"
  unfolding file_SeekStart_def by (rule syscall_only) simp

lemma file_SeekEnd_only: "only {} w (snd (file_SeekEnd fh w))"
  unfolding file_SeekEnd_def by (rule syscall_only) simp

lemma file_Stat_size_only: "only {} w (snd (file_Stat_size fh w))"
  unfolding file_Stat_size_def by (rule syscall_only) simp

lemma file_Truncate0_only: "only {fh_name fh} w (snd (file_Truncate0 fh w))"
  unfolding file_Truncate0_def by (rule syscall_only) (auto simp: only_def all_regular_def split: option.splits node.splits)

lemma os_Open_home_only: "only {} w (snd (os_Open_home w))"
  unfolding os_Open_home_def by (rule syscall_only) simp

lemma put_bytes_only: "only {fh_name fh} w (snd (put_bytes p fh w))"
  by (auto simp: put_bytes_def only_def all_regular_def split: option.splits node.splits)

lemma file_Write_only: "only {fh_name fh} w (snd (snd (file_Write p fh w)))"
proof -
  obtain f u where nf: "next_fault w = (f, u)" by fastforce
  then obtain fl where u: "u = w\<lparr>faults := fl\<rparr>" "faults w = [] \<longrightarrow> fl = []"
    by (rule next_fault_frame) blast
  then have "only {} w u" by (simp add: only_def all_regular_def)
  then have "only {fh_name fh} w (snd (put_bytes q fh u))" for q
    using put_bytes_only by (rule only_trans) simp
  then show ?thesis
    using nf only_mono [OF \<open>only {} w u\<close>] by (cases f) (auto simp: file_Write_def)
qed

lemma os_WriteFile_only: "only {n} w (snd (os_WriteFile n p mode w))"
proof -
  obtain r w1 where o: "os_OpenFile True True mode n w = (r, w1)" by fastforce
  have 1: "only {n} w w1" using os_OpenFile_only [of n w True True mode] o by simp
  show ?thesis
  proof (cases r)
    case (Inl e)
    then show ?thesis using o 1 by (simp add: os_WriteFile_def)
  next
    case (Inr fh)
    then have n: "fh_name fh = n"
      using o by (auto simp: os_OpenFile_def elim!: syscall_cases split: option.splits node.splits if_splits)
    obtain k werr fh' w2 where wr: "file_Write p fh w1 = ((k, werr), fh', w2)" by (metis prod.exhaust)
    have 2: "only {n} w w2" using only_trans [OF 1] file_Write_only [of fh w1 p] wr n by simp
    obtain cerr w3 where c: "file_Close fh' w2 = (cerr, w3)" by fastforce
    have 3: "only {n} w w3" using only_trans [OF 2] file_Close_only [of w2 fh'] c by simp
    then show ?thesis using o Inr wr c by (auto simp: os_WriteFile_def split: option.splits)
  qed
qed

lemmas syscall_onlys = os_Remove_only os_Rename_only os_OpenFile_only file_Close_only file_Sync_only
  file_SeekStart_only file_SeekEnd_only file_Stat_size_only file_Truncate0_only os_Open_home_only
  os_WriteFile_only

text \<open>What the calls that change names do when they report success.\<close>

lemma os_OpenFile_result:
  assumes "os_OpenFile creat trunc mode n w = (Inr fh, w')"
  obtains m where "fh = \<lparr>fh_name = n, fh_off = 0\<rparr>"
    and "fmlookup (dir w') n = Some (RegFile
      (case fmlookup (dir w) n of Some (RegFile d m) \<Rightarrow> if trunc then [] else d | _ \<Rightarrow> []) m)"
    and "\<not> creat \<longrightarrow> (\<exists>d. fmlookup (dir w) n = Some (RegFile d m))"
  using assms unfolding os_OpenFile_def
  by (cases rule: syscall_cases) (auto split: option.splits node.splits if_splits)

lemma os_OpenFile_fail:
  assumes "os_OpenFile creat trunc mode n w = (Inl e, w')"
  shows "only {} w w'"
  using assms unfolding os_OpenFile_def
  by (cases rule: syscall_cases) (auto simp: only_def all_regular_def split: option.splits node.splits if_splits)

lemma os_Rename_result:
  assumes "os_Rename a b w = (Inr u, w')"
  obtains nd where "fmlookup (dir w) a = Some nd" and "dir w' = fmupd b nd (fmdrop a (dir w))"
  using assms unfolding os_Rename_def
  by (cases rule: syscall_cases) (auto split: option.splits node.splits if_splits)

lemma os_Rename_fail:
  assumes "os_Rename a b w = (Inl e, w')"
  shows "only {} w w'"
  using assms unfolding os_Rename_def
  by (cases rule: syscall_cases) (auto simp: only_def all_regular_def split: option.splits if_splits)

lemma file_Truncate0_result:
  assumes "file_Truncate0 fh w = (r, w')" and "fmlookup (dir w) (fh_name fh) = Some (RegFile d m)"
  shows "case r of Inl e \<Rightarrow> only {} w w' | Inr u \<Rightarrow> fmlookup (dir w') (fh_name fh) = Some (RegFile [] m)"
  using assms unfolding file_Truncate0_def
  by (cases rule: syscall_cases) (auto simp: only_def all_regular_def)

end
