(* ===== verification/Json.thy ===== *)
theory Json
  imports Prelude
begin

text \<open>
  What the program uses of Go's package \<open>encoding/json\<close>: a \<open>Decoder\<close> that reads one value
  after the other from a stream (\<open>More\<close>, \<open>Decode\<close>), and the conversion of a JSON value to a
  Go value.  The decoder scans the stream byte by byte with a state machine and a stack of
  open containers, as the package's scanner does.

  Left out: the package's limit of 10000 nested containers, the replacement of byte
  sequences that are not UTF-8, and the rounding of numbers to \<open>float64\<close>.
\<close>

section \<open>Values\<close>

datatype json =
    JNull
  | JBool bool
  | JNum string
  | JStr string
  | JArr "json list"
  | JObj "(string \<times> json) list"

fun to_gval :: "json \<Rightarrow> gval"
  and to_gvals :: "json list \<Rightarrow> gval list"
  and to_pairs :: "(string \<times> json) list \<Rightarrow> mapstr \<Rightarrow> mapstr" where
  "to_gval JNull = VNil"
| "to_gval (JBool b) = VBool b"
| "to_gval (JNum n) = VNum n"
| "to_gval (JStr s) = VStr s"
| "to_gval (JArr vs) = VList (to_gvals vs)"
| "to_gval (JObj ps) = VMap (to_pairs ps fmempty)"
| "to_gvals [] = []"
| "to_gvals (v # vs) = to_gval v # to_gvals vs"
| "to_pairs [] m = m"
| "to_pairs ((k, v) # ps) m = to_pairs ps (fmupd k (to_gval v) m)"

section \<open>Strings\<close>

datatype sitem = Raw char | Uni nat

definition utf8 :: "nat \<Rightarrow> string" where
  "utf8 u =
     (if u < 0x80 then [char_of u]
      else if u < 0x800 then [char_of (0xC0 + u div 0x40), char_of (0x80 + u mod 0x40)]
      else if u < 0x10000 then
        [char_of (0xE0 + u div 0x1000), char_of (0x80 + (u div 0x40) mod 0x40), char_of (0x80 + u mod 0x40)]
      else
        [char_of (0xF0 + u div 0x40000), char_of (0x80 + (u div 0x1000) mod 0x40),
         char_of (0x80 + (u div 0x40) mod 0x40), char_of (0x80 + u mod 0x40)])"

fun unquote :: "sitem list \<Rightarrow> string" where
  "unquote [] = []"
| "unquote (Raw c # r) = c # unquote r"
| "unquote (Uni u # Uni v # r) =
     (if 0xD800 \<le> u \<and> u < 0xE000
      then if u < 0xDC00 \<and> 0xDC00 \<le> v \<and> v < 0xE000
           then utf8 (0x10000 + (u - 0xD800) * 0x400 + (v - 0xDC00)) @ unquote r
           else utf8 0xFFFD @ unquote (Uni v # r)
      else utf8 u @ unquote (Uni v # r))"
| "unquote (Uni u # r) = utf8 (if 0xD800 \<le> u \<and> u < 0xE000 then 0xFFFD else u) @ unquote r"

definition hex_digit :: "char \<Rightarrow> nat option" where
  "hex_digit c =
     (let n = of_char c :: nat in
      if 48 \<le> n \<and> n \<le> 57 then Some (n - 48)
      else if 97 \<le> n \<and> n \<le> 102 then Some (n - 87)
      else if 65 \<le> n \<and> n \<le> 70 then Some (n - 55)
      else None)"

section \<open>The scanner\<close>

datatype frame = InArr "json list" | InObj "(string \<times> json) list" "string option"

datatype nstate = NSign | NZero | NInt | NDot | NFrac | NExp | NExpSign | NExpDigits

datatype scan =
    SValue | SValueOrEnd | SKeyOrEnd | SKey | SColon | SAfter
  | SStr "sitem list"
  | SEsc "sitem list"
  | SHex "sitem list" "nat list"
  | SNum nstate string
  | SLit char string json

text \<open>
  The effect of one byte: go on, a value is complete with this byte, a value (a number) was
  complete before this byte, a syntax error.
\<close>

datatype action = Cont scan "frame list" | Accept json | AcceptBefore json | Reject

definition is_ws :: "char \<Rightarrow> bool" where
  "is_ws c \<longleftrightarrow> c = CHR '' '' \<or> c = CHR 0x09 \<or> c = CHR 0x0A \<or> c = CHR 0x0D"

definition is_digit :: "char \<Rightarrow> bool" where
  "is_digit c \<longleftrightarrow> 48 \<le> (of_char c :: nat) \<and> (of_char c :: nat) \<le> 57"

fun finish :: "json \<Rightarrow> frame list \<Rightarrow> action" where
  "finish v [] = Accept v"
| "finish v (InArr vs # st) = Cont SAfter (InArr (v # vs) # st)"
| "finish v (InObj ps (Some k) # st) = Cont SAfter (InObj ((k, v) # ps) None # st)"
| "finish v (InObj ps None # st) = Reject"

definition begin_value :: "frame list \<Rightarrow> char \<Rightarrow> action" where
  "begin_value st c =
     (if c = CHR ''{'' then Cont SKeyOrEnd (InObj [] None # st)
      else if c = CHR ''['' then Cont SValueOrEnd (InArr [] # st)
      else if c = CHR 0x22 then Cont (SStr []) st
      else if c = CHR ''-'' then Cont (SNum NSign [c]) st
      else if c = CHR ''0'' then Cont (SNum NZero [c]) st
      else if is_digit c then Cont (SNum NInt [c]) st
      else if c = CHR ''t'' then Cont (SLit CHR ''r'' ''ue'' (JBool True)) st
      else if c = CHR ''f'' then Cont (SLit CHR ''a'' ''lse'' (JBool False)) st
      else if c = CHR ''n'' then Cont (SLit CHR ''u'' ''ll'' JNull) st
      else Reject)"

fun after_value :: "frame list \<Rightarrow> char \<Rightarrow> action" where
  "after_value [] c = Reject"
| "after_value (InArr vs # st) c =
     (if is_ws c then Cont SAfter (InArr vs # st)
      else if c = CHR '','' then Cont SValue (InArr vs # st)
      else if c = CHR '']'' then finish (JArr (rev vs)) st
      else Reject)"
| "after_value (InObj ps k # st) c =
     (if is_ws c then Cont SAfter (InObj ps k # st)
      else if c = CHR '','' then Cont SKey (InObj ps None # st)
      else if c = CHR ''}'' then finish (JObj (rev ps)) st
      else Reject)"

fun end_string :: "string \<Rightarrow> frame list \<Rightarrow> action" where
  "end_string s (InObj ps None # st) = Cont SColon (InObj ps (Some s) # st)"
| "end_string s st = finish (JStr s) st"

definition escape :: "char \<Rightarrow> char option" where
  "escape c =
     (if c = CHR 0x22 \<or> c = CHR 0x5C \<or> c = CHR ''/'' then Some c
      else if c = CHR ''b'' then Some (CHR 0x08)
      else if c = CHR ''f'' then Some (CHR 0x0C)
      else if c = CHR ''n'' then Some (CHR 0x0A)
      else if c = CHR ''r'' then Some (CHR 0x0D)
      else if c = CHR ''t'' then Some (CHR 0x09)
      else None)"

definition next_num :: "nstate \<Rightarrow> char \<Rightarrow> nstate option" where
  "next_num n c =
     (let e = (c = CHR ''e'' \<or> c = CHR ''E''); d = is_digit c; dot = (c = CHR ''.'') in
      case n of
        NSign \<Rightarrow> if c = CHR ''0'' then Some NZero else if d then Some NInt else None
      | NZero \<Rightarrow> if dot then Some NDot else if e then Some NExp else None
      | NInt \<Rightarrow> if d then Some NInt else if dot then Some NDot else if e then Some NExp else None
      | NDot \<Rightarrow> if d then Some NFrac else None
      | NFrac \<Rightarrow> if d then Some NFrac else if e then Some NExp else None
      | NExp \<Rightarrow> if c = CHR ''+'' \<or> c = CHR ''-'' then Some NExpSign else if d then Some NExpDigits else None
      | NExpSign \<Rightarrow> if d then Some NExpDigits else None
      | NExpDigits \<Rightarrow> if d then Some NExpDigits else None)"

definition num_complete :: "nstate \<Rightarrow> bool" where
  "num_complete n \<longleftrightarrow> n = NZero \<or> n = NInt \<or> n = NFrac \<or> n = NExpDigits"

definition end_number :: "string \<Rightarrow> frame list \<Rightarrow> char \<Rightarrow> action" where
  "end_number lit st c =
     (case finish (JNum lit) st of
        Accept v \<Rightarrow> AcceptBefore v
      | Cont s st' \<Rightarrow> after_value st' c
      | _ \<Rightarrow> Reject)"

definition hex4 :: "nat list \<Rightarrow> nat" where
  "hex4 ds = foldl (\<lambda>n d. 16 * n + d) 0 ds"

fun step :: "scan \<Rightarrow> frame list \<Rightarrow> char \<Rightarrow> action" where
  "step SValue st c = (if is_ws c then Cont SValue st else begin_value st c)"
| "step SValueOrEnd st c =
     (if is_ws c then Cont SValueOrEnd st
      else if c = CHR '']'' then after_value st c
      else begin_value st c)"
| "step SKeyOrEnd st c =
     (if is_ws c then Cont SKeyOrEnd st
      else if c = CHR ''}'' then after_value st c
      else if c = CHR 0x22 then Cont (SStr []) st
      else Reject)"
| "step SKey st c =
     (if is_ws c then Cont SKey st else if c = CHR 0x22 then Cont (SStr []) st else Reject)"
| "step SColon st c =
     (if is_ws c then Cont SColon st else if c = CHR '':'' then Cont SValue st else Reject)"
| "step SAfter st c = after_value st c"
| "step (SStr acc) st c =
     (if c = CHR 0x22 then end_string (unquote (rev acc)) st
      else if c = CHR 0x5C then Cont (SEsc acc) st
      else if (of_char c :: nat) < 0x20 then Reject
      else Cont (SStr (Raw c # acc)) st)"
| "step (SEsc acc) st c =
     (if c = CHR ''u'' then Cont (SHex acc []) st
      else case escape c of Some d \<Rightarrow> Cont (SStr (Raw d # acc)) st | None \<Rightarrow> Reject)"
| "step (SHex acc ds) st c =
     (case hex_digit c of
        None \<Rightarrow> Reject
      | Some d \<Rightarrow>
          if length ds = 3 then Cont (SStr (Uni (hex4 (ds @ [d])) # acc)) st
          else Cont (SHex acc (ds @ [d])) st)"
| "step (SNum n lit) st c =
     (case next_num n c of
        Some n' \<Rightarrow> Cont (SNum n' (c # lit)) st
      | None \<Rightarrow> if num_complete n then end_number (rev lit) st c else Reject)"
| "step (SLit x xs v) st c =
     (if c = x then (case xs of [] \<Rightarrow> finish v st | y # ys \<Rightarrow> Cont (SLit y ys v) st) else Reject)"

text \<open>A run over the stream: a value and the rest of the stream, a syntax error, or the end of
  the stream inside a value.\<close>

datatype parsed = POk json string | PErr | PEof

fun run :: "scan \<Rightarrow> frame list \<Rightarrow> string \<Rightarrow> parsed" where
  "run s st [] =
     (case s of
        SNum n lit \<Rightarrow> if st = [] \<and> num_complete n then POk (JNum (rev lit)) [] else PEof
      | _ \<Rightarrow> PEof)"
| "run s st (c # cs) =
     (case step s st c of
        Cont s' st' \<Rightarrow> run s' st' cs
      | Accept v \<Rightarrow> POk v cs
      | AcceptBefore v \<Rightarrow> POk v (c # cs)
      | Reject \<Rightarrow> PErr)"

section \<open>The decoder\<close>

abbreviation skip_ws :: "string \<Rightarrow> string" where
  "skip_ws \<equiv> dropWhile is_ws"

text \<open>\<open>Decoder.More\<close> on the rest of the stream.\<close>

definition dec_More :: "string \<Rightarrow> bool" where
  "dec_More bs = (case skip_ws bs of [] \<Rightarrow> False | c # _ \<Rightarrow> c \<noteq> CHR '']'' \<and> c \<noteq> CHR ''}'')"

definition errEOF :: error where "errEOF = ErrNew ''EOF''"
definition errUnexpectedEOF :: error where "errUnexpectedEOF = ErrNew ''unexpected EOF''"
definition errSyntax :: error where "errSyntax = ErrNew ''invalid character in JSON text''"
definition errUnmarshalType :: error where "errUnmarshalType = ErrNew ''json: cannot unmarshal value''"

text \<open>
  \<open>Decoder.Decode\<close>: the next value of the stream and the rest.  The stream ends with the
  error \<open>rd\<close> of the underlying reader if there is one, else with \<open>io.EOF\<close>.
\<close>

definition dec_Decode :: "error option \<Rightarrow> string \<Rightarrow> (json \<times> string) result" where
  "dec_Decode rd bs =
     (case run SValue [] bs of
        POk v rest \<Rightarrow> Inr (v, rest)
      | PErr \<Rightarrow> Inl errSyntax
      | PEof \<Rightarrow> Inl (case rd of Some e \<Rightarrow> e
                 | None \<Rightarrow> if skip_ws bs = [] then errEOF else errUnexpectedEOF))"

section \<open>Facts on the scanner\<close>

definition is_num :: "json \<Rightarrow> bool" where
  "is_num v \<longleftrightarrow> (\<exists>n. v = JNum n)"

lemma is_num_simps [simp]:
  "is_num (JNum n)" "\<not> is_num (JObj ps)" "\<not> is_num (JArr vs)" "\<not> is_num (JStr s)"
  "\<not> is_num (JBool b)" "\<not> is_num JNull"
  by (simp_all add: is_num_def)

text \<open>A stack that expects a value, as the scanner leaves it before each value.\<close>

fun value_ctx :: "frame list \<Rightarrow> bool" where
  "value_ctx [] = True"
| "value_ctx (InArr vs # K) = True"
| "value_ctx (InObj ps (Some k) # K) = True"
| "value_ctx (InObj ps None # K) = False"

lemma finish_frame:
  "finish v st = Cont s' st' \<Longrightarrow> finish v (st @ K) = Cont s' (st' @ K)"
  "finish v st = Accept w \<Longrightarrow> finish v (st @ K) = finish w K"
  by (cases "(v, st)" rule: finish.cases; simp)+

lemma after_value_frame:
  "after_value st c = Cont s' st' \<Longrightarrow> after_value (st @ K) c = Cont s' (st' @ K)"
  "after_value st c = Accept w \<Longrightarrow> after_value (st @ K) c = finish w K"
  by (cases "(st, c)" rule: after_value.cases; auto simp: finish_frame split: if_splits)+

lemma end_string_frame:
  "end_string v st = Cont s' st' \<Longrightarrow> end_string v (st @ K) = Cont s' (st' @ K)"
  "end_string v st = Accept w \<Longrightarrow> value_ctx K \<Longrightarrow> end_string v (st @ K) = finish w K"
proof -
  show "end_string v st = Cont s' st' \<Longrightarrow> end_string v (st @ K) = Cont s' (st' @ K)"
    by (cases "(v, st)" rule: end_string.cases) auto
  show "end_string v st = Accept w \<Longrightarrow> value_ctx K \<Longrightarrow> end_string v (st @ K) = finish w K"
    by (cases "(v, st)" rule: end_string.cases; cases K rule: value_ctx.cases) auto
qed

lemma begin_value_frame:
  "begin_value st c = Cont s' st' \<Longrightarrow> begin_value (st @ K) c = Cont s' (st' @ K)"
  "begin_value st c \<noteq> Accept w" "begin_value st c \<noteq> AcceptBefore w"
  by (auto simp: begin_value_def split: if_splits)

lemma end_number_simps:
  "end_number l [] c = AcceptBefore (JNum l)"
  "end_number l (InArr vs # st) c = after_value (InArr (JNum l # vs) # st) c"
  "end_number l (InObj ps (Some k) # st) c = after_value (InObj ((k, JNum l) # ps) None # st) c"
  "end_number l (InObj ps None # st) c = Reject"
  by (simp_all add: end_number_def del: after_value.simps)

lemma end_number_Cont_frame:
  "end_number v st c = Cont s' st' \<Longrightarrow> end_number v (st @ K) c = Cont s' (st' @ K)"
  by (cases st rule: value_ctx.cases)
    (auto simp: end_number_simps simp del: after_value.simps dest: after_value_frame(1) [where K = K])

lemma end_number_Accept_frame:
  "end_number v st c = Accept w \<Longrightarrow> end_number v (st @ K) c = finish w K"
  by (cases st rule: value_ctx.cases)
    (auto simp: end_number_simps simp del: after_value.simps dest: after_value_frame(2) [where K = K])

lemmas end_number_frame = end_number_Cont_frame end_number_Accept_frame

lemma finish_kinds: "finish v st \<noteq> AcceptBefore w"
  by (cases "(v, st)" rule: finish.cases) auto

lemma after_value_kinds: "after_value st c \<noteq> AcceptBefore w"
  by (cases "(st, c)" rule: after_value.cases) (auto simp: finish_kinds)

lemma end_string_kinds: "end_string v st \<noteq> AcceptBefore w"
  by (cases "(v, st)" rule: end_string.cases) (auto simp: finish_kinds)

lemma end_number_kinds: "end_number v st c = AcceptBefore w \<Longrightarrow> is_num w"
  by (cases st rule: value_ctx.cases)
    (auto simp: end_number_simps after_value_kinds simp del: after_value.simps)

lemma step_AcceptBefore: "step s st c = AcceptBefore v \<Longrightarrow> is_num v"
  by (cases "(s, st, c)" rule: step.cases)
    (auto simp: begin_value_frame after_value_kinds end_string_kinds finish_kinds
      dest: end_number_kinds split: if_splits option.splits list.splits)

lemma step_Cont_frame:
  "step s st c = Cont s' st' \<Longrightarrow> step s (st @ K) c = Cont s' (st' @ K)"
  by (cases "(s, st, c)" rule: step.cases)
    (auto simp: begin_value_frame after_value_frame end_string_frame end_number_frame finish_frame
      split: if_splits option.splits list.splits)

lemma step_Accept_frame:
  "step s st c = Accept v \<Longrightarrow> value_ctx K \<Longrightarrow> step s (st @ K) c = finish v K"
  by (cases "(s, st, c)" rule: step.cases)
    (auto simp: begin_value_frame after_value_frame end_string_frame end_number_frame finish_frame
      split: if_splits option.splits list.splits)

text \<open>A complete value is scanned in any context that expects one as it is on its own.\<close>

definition resume :: "json \<Rightarrow> frame list \<Rightarrow> string \<Rightarrow> parsed" where
  "resume v K rest =
     (case finish v K of Accept w \<Rightarrow> POk w rest | Cont s st \<Rightarrow> run s st rest | _ \<Rightarrow> PErr)"

lemma run_frame:
  assumes "run s st xs = POk v rest" and "\<not> is_num v" and "value_ctx K"
  shows "run s (st @ K) (xs @ ys) = resume v K (rest @ ys)"
  using assms
proof (induction xs arbitrary: s st)
  case Nil
  then show ?case by (auto split: scan.splits if_splits)
next
  case (Cons c cs)
  show ?case
  proof (cases "step s st c")
    case (Cont s' st')
    with Cons show ?thesis by (simp add: step_Cont_frame)
  next
    case (Accept w)
    then have "step s (st @ K) c = finish w K" using Cons.prems by (simp add: step_Accept_frame)
    then show ?thesis using Cons.prems Accept by (simp add: resume_def split: action.splits)
        (metis action.exhaust finish_kinds)
  next
    case (AcceptBefore w)
    with Cons.prems show ?thesis by (auto dest: step_AcceptBefore)
  next
    case Reject
    with Cons.prems show ?thesis by simp
  qed
qed

corollary run_append:
  assumes "run s st xs = POk v rest" and "\<not> is_num v"
  shows "run s st (xs @ ys) = POk v (rest @ ys)"
  using run_frame [OF assms, of "[]" ys] by (simp add: resume_def)

text \<open>A value whose last bytes are missing ends inside the value.\<close>

lemma run_number_state:
  assumes "run (SNum n lit) [] xs = POk v rest"
  shows "is_num v"
  using assms
proof (induction xs arbitrary: n lit)
  case Nil
  then show ?case by (auto split: if_splits)
next
  case (Cons c cs)
  then show ?case
    by (auto simp: end_number_def split: option.splits if_splits)
qed

lemma run_torn:
  assumes "run s st (xs @ ys) = POk v []" and "\<not> is_num v" and "ys \<noteq> []"
  shows "run s st xs = PEof"
  using assms
proof (induction xs arbitrary: s st)
  case Nil
  then show ?case by (auto split: scan.splits dest: run_number_state)
next
  case (Cons c cs)
  then show ?case by (auto split: action.splits)
qed

lemma run_skip_ws: "run SValue st (skip_ws xs) = run SValue st xs"
  by (induction xs) auto

lemma run_ws_PEof: "skip_ws xs = [] \<Longrightarrow> run SValue st xs = PEof"
  by (induction xs) (auto split: if_splits)

lemma run_ws_append: "\<forall>c\<in>set w. is_ws c \<Longrightarrow> run SValue st (w @ xs) = run SValue st xs"
  by (induction w) auto

lemma skip_ws_append: "\<forall>c\<in>set w. is_ws c \<Longrightarrow> skip_ws (w @ xs) = skip_ws xs"
  by (induction w) auto

lemma run_value_More:
  assumes "run SValue [] xs = POk v rest"
  shows "dec_More (xs @ ys)"
proof -
  from assms have "run SValue [] (skip_ws xs) = POk v rest" by (simp add: run_skip_ws)
  then obtain c cs where c: "skip_ws xs = c # cs" by (cases "skip_ws xs") auto
  then have "\<not> is_ws c" by (metis hd_dropWhile list.discI list.sel(1))
  with \<open>run SValue [] (skip_ws xs) = POk v rest\<close> c
  have "c \<noteq> CHR '']''" "c \<noteq> CHR ''}''"
    by (auto simp: begin_value_def is_digit_def)
  moreover have "skip_ws (xs @ ys) = c # cs @ ys"
    using c by (metis append_Cons dropWhile_append1 dropWhile_eq_Nil_conv list.discI)
  ultimately show ?thesis by (simp add: dec_More_def)
qed

lemma run_length: "run s st xs = POk v rest \<Longrightarrow> length rest \<le> length xs"
  by (induction xs arbitrary: s st) (auto split: scan.splits if_splits action.splits simp: le_Suc_eq)

lemma run_value_consumes: "run SValue [] xs = POk v rest \<Longrightarrow> length rest < length xs"
proof (induction xs)
  case (Cons c cs)
  show ?case
  proof (cases "is_ws c")
    case True
    with Cons show ?thesis by (auto simp: less_Suc_eq)
  next
    case False
    with Cons.prems show ?thesis
      by (auto split: action.splits dest!: run_length simp: begin_value_frame)
  qed
qed simp

end
