(* ===== verification/Memlog_Util.thy ===== *)
theory Memlog_Util
  imports Fs Json
begin

unbundle bit_operations_syntax

text \<open>
  The helpers of the memlog backend: \<open>util.go\<close> and \<open>util_other.go\<close> (retrying writes and
  syncs, permissions), \<open>op.go\<close> (logged operations) and \<open>error.go\<close>, and what they use of the
  package \<open>bufio\<close>.
\<close>

section \<open>Errors and operations\<close>

definition errRegClosed :: error where
  "errRegClosed = ErrNew ''registry has been closed''"
definition errLogInvalid :: error where
  "errLogInvalid = ErrNew ''can not add operation to log file, a checkpoint is required''"
definition errTxIDInvalid :: error where
  "errTxIDInvalid = ErrNew ''invalid update sequence number''"
definition errKeyUnknown :: error where
  "errKeyUnknown = ErrNew ''key unknown''"

datatype memlog_op = opSet string mapstr | opRemove string

definition opValSet :: string where "opValSet = ''set''"
definition opValRemove :: string where "opValRemove = ''remove''"

fun op_name :: "memlog_op \<Rightarrow> string" where
  "op_name (opSet k v) = opValSet"
| "op_name (opRemove k) = opValRemove"

section \<open>Retries\<close>

definition isRetryErr :: "error \<Rightarrow> bool" where
  "isRetryErr err \<longleftrightarrow> errors_Is err (Errno EINTR) \<or> errors_Is err (Errno EAGAIN)"

lemma isRetryErr_Errno [simp]: "isRetryErr (Errno e) \<longleftrightarrow> e = EINTR \<or> e = EAGAIN"
  by (simp add: isRetryErr_def errors_Is.simps)

definition fatal :: "error option \<Rightarrow> bool" where
  "fatal err = (case err of None \<Rightarrow> False | Some e \<Rightarrow> \<not> isRetryErr e)"

lemma fatal_simps [simp]: "\<not> fatal None" "fatal (Some e) \<longleftrightarrow> \<not> isRetryErr e"
  by (simp_all add: fatal_def)

lemma file_Write_progress:
  assumes "file_Write p fh w = ((n, err), fh', w')" and "p \<noteq> []" and "\<not> fatal err"
  shows "length (drop n p) + length (faults w') < length p + length (faults w)"
  using assms
  by (cases p) (auto simp: file_Write_def next_fault_def dest!: faults_put_bytes split: list.splits fault.splits)

text \<open>\<open>ensureWriter.Write\<close>, with the local variables \<open>N\<close> and \<open>p\<close>.  Every retry consumes a fault,
  so the loop ends.\<close>

function ensure_Write :: "nat \<Rightarrow> bytes \<Rightarrow> fhandle \<Rightarrow> fs \<Rightarrow> (nat \<times> error option) \<times> fhandle \<times> fs" where
  "ensure_Write N p fh w =
     (if p = [] then ((N, None), fh, w)
      else case file_Write p fh w of
        ((n, err), fh', w') \<Rightarrow>
          if fatal err then ((N + n, err), fh', w')
          else ensure_Write (N + n) (drop n p) fh' w')"
  by pat_completeness auto
termination
  by (relation "measure (\<lambda>(N, p, fh, w). length p + length (faults w))")
    (auto dest: file_Write_progress [OF sym])

declare ensure_Write.simps [simp del]

text \<open>\<open>syncFile\<close> on Linux and the other systems of \<open>util_other.go\<close>.\<close>

lemma file_Sync_progress:
  "file_Sync fh w = (Inl e, w') \<Longrightarrow> isRetryErr e \<Longrightarrow> length (faults w') < length (faults w)"
  by (auto simp: file_Sync_def syscall_def next_fault_def split: list.splits fault.splits)

function syncFile :: "fhandle \<Rightarrow> fs \<Rightarrow> unit result \<times> fs" where
  "syncFile fh w =
     (case file_Sync fh w of
        (Inr u, w') \<Rightarrow> (Inr u, w')
      | (Inl e, w') \<Rightarrow> if \<not> isRetryErr e then (Inl e, w') else syncFile fh w')"
  by pat_completeness auto
termination
  by (relation "measure (\<lambda>(fh, w). length (faults w))") (auto dest: file_Sync_progress [OF sym])

declare syncFile.simps [simp del]

definition trySyncPath :: "fs \<Rightarrow> fs" where
  "trySyncPath w =
     (case os_Open_home w of
        (Inl e, w1) \<Rightarrow> w1
      | (Inr u, w1) \<Rightarrow>
          (case syncFile \<lparr>fh_name = [], fh_off = 0\<rparr> w1 of
             (r, w2) \<Rightarrow> snd (file_Close \<lparr>fh_name = [], fh_off = 0\<rparr> w2)))"

section \<open>Permissions\<close>

text \<open>\<open>os.ModePerm\<close> are the nine permission bits.\<close>

definition ModePerm :: u32 where "ModePerm = 511"

definition fileEnsurePermissions :: "fhandle \<Rightarrow> u32 \<Rightarrow> fs \<Rightarrow> unit result \<times> fs" where
  "fileEnsurePermissions f wantPerm w =
     (case file_Stat_mode f w of
        (Inl e, w1) \<Rightarrow> if IsNotExist e then (Inr (), w1) else (Inl e, w1)
      | (Inr mode, w1) \<Rightarrow>
          (let wantPerm = wantPerm AND ModePerm; perm = mode AND ModePerm in
           if wantPerm = perm then (Inr (), w1)
           else file_Chmod ((mode AND NOT ModePerm) OR wantPerm) f w1))"

definition pathEnsurePermissions :: "string \<Rightarrow> u32 \<Rightarrow> fs \<Rightarrow> unit result \<times> fs" where
  "pathEnsurePermissions path wantPerm w =
     (case os_OpenFile False False wantPerm path w of
        (Inl e, w1) \<Rightarrow> if IsNotExist e then (Inr (), w1) else (Inl e, w1)
      | (Inr f, w1) \<Rightarrow>
          (case fileEnsurePermissions f wantPerm w1 of
             (r, w2) \<Rightarrow> (r, snd (file_Close f w2))))"

section \<open>Buffered writes\<close>

text \<open>
  \<open>bufio.Writer\<close> over an \<open>ensureWriter\<close> on an open file: the buffered bytes, the error that
  made the writer fail (it stays), and the size of the buffer.
\<close>

record bufw =
  bw_buf :: bytes
  bw_err :: "error option"
  bw_size :: nat

type_synonym wstate = "bufw \<times> fhandle \<times> fs"

definition NewWriterSize :: "nat \<Rightarrow> bufw" where
  "NewWriterSize sz = \<lparr>bw_buf = [], bw_err = None, bw_size = (if sz = 0 then 4096 else sz)\<rparr>"

definition bw_Flush :: "wstate \<Rightarrow> error option \<times> wstate" where
  "bw_Flush st =
     (case st of (b, fh, w) \<Rightarrow>
      if bw_err b \<noteq> None then (bw_err b, st)
      else if bw_buf b = [] then (None, st)
      else case ensure_Write 0 (bw_buf b) fh w of
        ((n, err), fh', w') \<Rightarrow>
          if err \<noteq> None then (err, b\<lparr>bw_buf := drop n (bw_buf b), bw_err := err\<rparr>, fh', w')
          else (None, b\<lparr>bw_buf := []\<rparr>, fh', w'))"

lemma file_Write_count:
  assumes "file_Write p fh w = ((n, err), fh', w')"
  shows "n \<le> length p \<and> (err = None \<longrightarrow> n = length p)"
  using assms by (auto simp: file_Write_def split: prod.splits fault.splits)

lemma ensure_Write_count:
  "ensure_Write N p fh w = ((n, err), fh', w') \<Longrightarrow> n \<le> N + length p \<and> (err = None \<longrightarrow> n = N + length p)"
proof (induction N p fh w rule: ensure_Write.induct)
  case (1 N p fh w)
  obtain k e fh1 w1 where fw: "file_Write p fh w = ((k, e), fh1, w1)" by (metis prod.exhaust)
  note k = file_Write_count [OF fw]
  show ?case
  proof (cases "p = [] \<or> fatal e")
    case True
    with "1.prems" fw k show ?thesis by (subst (asm) ensure_Write.simps) (auto split: if_splits)
  next
    case False
    with "1.prems" fw have "ensure_Write (N + k) (drop k p) fh1 w1 = ((n, err), fh', w')"
      by (subst (asm) ensure_Write.simps) auto
    from "1.IH" [OF _ fw [symmetric] _ _ _ this] False k show ?thesis by auto
  qed
qed

lemma bw_Flush_result:
  assumes "bw_Flush (b, fh, w) = (err, b', fh', w')" and "bw_err b = None"
  shows "bw_err b' = err \<and> (err = None \<longrightarrow> bw_buf b' = []) \<and> bw_size b' = bw_size b"
  using assms by (auto simp: bw_Flush_def split: if_splits prod.splits)

function bw_Write :: "nat \<Rightarrow> bytes \<Rightarrow> wstate \<Rightarrow> (nat \<times> error option) \<times> wstate" where
  "bw_Write nn p (b, fh, w) =
     (if length p > bw_size b - length (bw_buf b) \<and> bw_err b = None
      then if bw_buf b = []
        then case ensure_Write 0 p fh w of
            ((n, err), fh', w') \<Rightarrow> bw_Write (nn + n) (drop n p) (b\<lparr>bw_err := err\<rparr>, fh', w')
        else let n = bw_size b - length (bw_buf b) in
          case bw_Flush (b\<lparr>bw_buf := bw_buf b @ take n p\<rparr>, fh, w) of
            (err, b', fh', w') \<Rightarrow> bw_Write (nn + n) (drop n p) (b', fh', w')
      else if bw_err b \<noteq> None then ((nn, bw_err b), (b, fh, w))
      else ((nn + length p, None), (b\<lparr>bw_buf := bw_buf b @ p\<rparr>, fh, w)))"
  by pat_completeness auto
termination
  apply (relation "measures [\<lambda>(nn, p, (b, fh, w)). if bw_err b = None then 1 else 0,
    \<lambda>(nn, p, (b, fh, w)). length p, \<lambda>(nn, p, (b, fh, w)). length (bw_buf b)]")
  apply simp
  subgoal by (auto dest!: ensure_Write_count [OF sym])
  subgoal by (auto dest!: bw_Flush_result [OF sym] split: if_splits)
  done

declare bw_Write.simps [simp del]

definition bw_WriteByte :: "char \<Rightarrow> wstate \<Rightarrow> error option \<times> wstate" where
  "bw_WriteByte c st =
     (case st of (b, fh, w) \<Rightarrow>
      if bw_err b \<noteq> None then (bw_err b, st)
      else if bw_size b - length (bw_buf b) = 0
      then case bw_Flush st of
          (Some e, st') \<Rightarrow> (Some e, st')
        | (None, b', fh', w') \<Rightarrow> (None, b'\<lparr>bw_buf := bw_buf b' @ [c]\<rparr>, fh', w')
      else (None, b\<lparr>bw_buf := bw_buf b @ [c]\<rparr>, fh, w))"

text \<open>\<open>countWriter\<close> in front of the buffer: the count and the writer behind it.\<close>

definition count_Write :: "bytes \<Rightarrow> u64 \<times> wstate \<Rightarrow> (nat \<times> error option) \<times> (u64 \<times> wstate)" where
  "count_Write p cst =
     (case cst of (cnt, st) \<Rightarrow>
      case bw_Write 0 p st of ((n, err), st') \<Rightarrow> ((n, err), (cnt + of_nat n, st')))"

text \<open>
  \<open>jsonEncoder.Encode\<close> hands the value to the encoder of \<open>go-structform\<close>, which is not part
  of the repository.  What it does to a value is a parameter: the chunks it writes, in order,
  and the error it ends with, if any.  It stops at the first write that fails.
\<close>

type_synonym folded = "bytes list \<times> error option"

fun write_chunks :: "(bytes \<Rightarrow> 's \<Rightarrow> (nat \<times> error option) \<times> 's) \<Rightarrow> bytes list \<Rightarrow> 's \<Rightarrow> error option \<times> 's" where
  "write_chunks wr [] s = (None, s)"
| "write_chunks wr (c # cs) s =
     (case wr c s of
        ((n, Some e), s') \<Rightarrow> (Some e, s')
      | ((n, None), s') \<Rightarrow> write_chunks wr cs s')"

definition Encode :: "(bytes \<Rightarrow> 's \<Rightarrow> (nat \<times> error option) \<times> 's) \<Rightarrow> folded \<Rightarrow> 's \<Rightarrow> error option \<times> 's" where
  "Encode wr v s =
     (case write_chunks wr (fst v) s of
        (Some e, s') \<Rightarrow> (Some e, s')
      | (None, s') \<Rightarrow> (snd v, s'))"

section \<open>What the writers do to a file\<close>

text \<open>
  A writer that appends: the open file \<open>n\<close> has the contents \<open>d\<close> and the offset is at its end.
\<close>

definition at_end :: "string \<Rightarrow> u32 \<Rightarrow> bytes \<Rightarrow> fhandle \<Rightarrow> fs \<Rightarrow> bool" where
  "at_end n m d fh w \<longleftrightarrow>
     fh_name fh = n \<and> fh_off fh = length d \<and> fmlookup (dir w) n = Some (RegFile d m)"

definition set_file :: "string \<Rightarrow> u32 \<Rightarrow> bytes \<Rightarrow> fault list \<Rightarrow> fs \<Rightarrow> fs" where
  "set_file n m d fl w = w\<lparr>dir := fmupd n (RegFile d m) (dir w), faults := fl\<rparr>"

lemma set_file_twice [simp]: "set_file n m d fl (set_file n m d' fl' w) = set_file n m d fl w"
  by (simp add: set_file_def)

lemma set_file_simps [simp]:
  "faults (set_file n m d fl w) = fl"
  "home (set_file n m d fl w) = home w"
  "umask (set_file n m d fl w) = umask w"
  "dir (set_file n m d fl w) = fmupd n (RegFile d m) (dir w)"
  by (simp_all add: set_file_def)

lemma set_file_id: "fmlookup (dir w) n = Some (RegFile d m) \<Longrightarrow> set_file n m d (faults w) w = w"
  by (simp add: set_file_def fmupd_same)

lemma file_Write_append:
  assumes "file_Write p fh w = ((k, err), fh', w')" and "at_end n m d fh w"
  shows "k \<le> length p \<and> at_end n m (d @ take k p) fh' w'
    \<and> w' = set_file n m (d @ take k p) (faults w') w
    \<and> (err = None \<longrightarrow> k = length p) \<and> (faults w = [] \<longrightarrow> err = None \<and> faults w' = [])"
proof -
  obtain f u where nf: "next_fault w = (f, u)" by fastforce
  then obtain fl where u: "u = w\<lparr>faults := fl\<rparr>" "faults w = [] \<longrightarrow> f = NoFault \<and> fl = []" "f \<noteq> Crash"
    by (rule next_fault_frame) blast
  have d: "fmlookup (dir w) n = Some (RegFile d m)" "fh_name fh = n" "fh_off fh = length d"
    using assms(2) by (simp_all add: at_end_def)
  have put: "put_bytes q fh u = (fh\<lparr>fh_off := length (d @ q)\<rparr>, set_file n m (d @ q) fl w)" for q
    using d u(1) by (simp add: dir_put_bytes_append set_file_def)
  have id: "set_file n m d fl w = u"
    using d u(1) by (simp add: set_file_def fmupd_same)
  show ?thesis
  proof (cases f)
    case NoFault
    with assms(1) nf put show ?thesis
      using d u(2) by (auto simp: file_Write_def at_end_def)
  next
    case (Fail e)
    with assms(1) nf id show ?thesis
      using d u by (auto simp: file_Write_def at_end_def)
  next
    case (Partial j e)
    with assms(1) nf put show ?thesis
      using d u(2) by (cases "j \<le> length p") (auto simp: file_Write_def at_end_def)
  next
    case Crash
    with u(3) show ?thesis by simp
  qed
qed

text \<open>\<open>ensureWriter\<close> writes all of the buffer, unless it stops on an error that is no retry.\<close>

lemma ensure_Write_append:
  assumes "ensure_Write N p fh w = ((k, err), fh', w')" and "at_end n m d fh w"
  shows "N \<le> k \<and> k \<le> N + length p \<and> at_end n m (d @ take (k - N) p) fh' w'
    \<and> w' = set_file n m (d @ take (k - N) p) (faults w') w
    \<and> (err = None \<longrightarrow> k = N + length p) \<and> (faults w = [] \<longrightarrow> err = None \<and> faults w' = [])
    \<and> (err = None \<or> fatal err)"
  using assms
proof (induction N p fh w arbitrary: d rule: ensure_Write.induct)
  case (1 N p fh w)
  obtain j e fh1 w1 where fw: "file_Write p fh w = ((j, e), fh1, w1)" by (metis prod.exhaust)
  note a = file_Write_append [OF fw "1.prems"(2)]
  show ?case
  proof (cases "p = []")
    case True
    with "1.prems" show ?thesis
      by (subst (asm) ensure_Write.simps) (auto simp: set_file_id at_end_def)
  next
    case False
    show ?thesis
    proof (cases "fatal e")
      case True
      with "1.prems" fw a False show ?thesis
        by (subst (asm) ensure_Write.simps) auto
    next
      case F: False
      with "1.prems" fw False have r: "ensure_Write (N + j) (drop j p) fh1 w1 = ((k, err), fh', w')"
        by (subst (asm) ensure_Write.simps) auto
      from a have "at_end n m (d @ take j p) fh1 w1" by blast
      from "1.IH" [OF False fw [symmetric] refl refl F r this] a
      have *: "N + j \<le> k" "k \<le> N + j + length (drop j p)"
        "at_end n m ((d @ take j p) @ take (k - (N + j)) (drop j p)) fh' w'"
        "w' = set_file n m ((d @ take j p) @ take (k - (N + j)) (drop j p)) (faults w') w1"
        "err = None \<longrightarrow> k = N + j + length (drop j p)" "faults w = [] \<longrightarrow> err = None \<and> faults w' = []"
        "err = None \<or> fatal err" "w1 = set_file n m (d @ take j p) (faults w1) w" "j \<le> length p"
        by auto
      have "take j p @ take (k - (N + j)) (drop j p) = take (k - N) p"
        using *(1,2,9) by (metis Nat.add_diff_assoc2 diff_diff_left le_add1 le_add_diff_inverse nat_add_left_cancel_le take_add)
      with * show ?thesis by (metis append_assoc add_leD1 le_add_diff_inverse length_drop set_file_twice group_cancel.add1)
    qed
  qed
qed

text \<open>
  The buffered writer over such a file.  After a step that writes \<open>p\<close>, the file has grown by
  bytes of the buffer and of \<open>p\<close>, in order; without an error nothing is lost or written twice.
  A writer that has failed does not touch the file again.
\<close>

definition wok :: "string \<Rightarrow> u32 \<Rightarrow> bytes \<Rightarrow> wstate \<Rightarrow> bool" where
  "wok n m d st \<longleftrightarrow>
     (case st of (b, fh, w) \<Rightarrow> at_end n m d fh w \<and> 0 < bw_size b \<and> length (bw_buf b) \<le> bw_size b)"

abbreviation st_buf :: "wstate \<Rightarrow> bytes" where "st_buf st \<equiv> bw_buf (fst st)"
abbreviation st_err :: "wstate \<Rightarrow> error option" where "st_err st \<equiv> bw_err (fst st)"
abbreviation st_fs :: "wstate \<Rightarrow> fs" where "st_fs st \<equiv> snd (snd st)"

definition writes :: "bytes \<Rightarrow> wstate \<Rightarrow> wstate \<Rightarrow> bool" where
  "writes p st st' \<longleftrightarrow> (\<forall>n m d. wok n m d st \<longrightarrow>
     (\<exists>d'. wok n m d' st'
       \<and> st_fs st' = set_file n m d' (faults (st_fs st')) (st_fs st)
       \<and> prefix d d' \<and> prefix d' (d @ st_buf st @ p)
       \<and> (st_err st' = None \<longrightarrow> d' @ st_buf st' = d @ st_buf st @ p)
       \<and> (st_err st \<noteq> None \<longrightarrow> d' = d \<and> st_err st' = st_err st)
       \<and> (faults (st_fs st) = [] \<longrightarrow> faults (st_fs st') = [] \<and> st_err st' = st_err st)))"

lemma writesI:
  assumes "\<And>n m d. wok n m d st \<Longrightarrow> \<exists>d'. wok n m d' st'
       \<and> st_fs st' = set_file n m d' (faults (st_fs st')) (st_fs st)
       \<and> prefix d d' \<and> prefix d' (d @ st_buf st @ p)
       \<and> (st_err st' = None \<longrightarrow> d' @ st_buf st' = d @ st_buf st @ p)
       \<and> (st_err st \<noteq> None \<longrightarrow> d' = d \<and> st_err st' = st_err st)
       \<and> (faults (st_fs st) = [] \<longrightarrow> faults (st_fs st') = [] \<and> st_err st' = st_err st)"
  shows "writes p st st'"
  using assms by (simp add: writes_def)

lemma wok_file: "wok n m d st \<Longrightarrow> fmlookup (dir (st_fs st)) n = Some (RegFile d m)"
  by (auto simp: wok_def at_end_def)

lemma writes_refl: "writes [] st st"
  by (rule writesI) (auto simp: set_file_id wok_file)

lemma writes_failed:
  assumes "st_err st \<noteq> None"
  shows "writes p st st"
proof (rule writesI)
  fix n m d
  assume "wok n m d st"
  with assms show "\<exists>d'. wok n m d' st
       \<and> st_fs st = set_file n m d' (faults (st_fs st)) (st_fs st)
       \<and> prefix d d' \<and> prefix d' (d @ st_buf st @ p)
       \<and> (st_err st = None \<longrightarrow> d' @ st_buf st = d @ st_buf st @ p)
       \<and> (st_err st \<noteq> None \<longrightarrow> d' = d \<and> st_err st = st_err st)
       \<and> (faults (st_fs st) = [] \<longrightarrow> faults (st_fs st) = [] \<and> st_err st = st_err st)"
    by (intro exI [of _ d]) (auto simp: set_file_id wok_file)
qed

lemma writes_trans:
  assumes a: "writes p st st1" and b: "writes q st1 st2"
  shows "writes (p @ q) st st2"
proof (rule writesI)
  fix n m d
  assume "wok n m d st"
  then obtain d1 where 1: "wok n m d1 st1" "st_fs st1 = set_file n m d1 (faults (st_fs st1)) (st_fs st)"
      "prefix d d1" "prefix d1 (d @ st_buf st @ p)"
      "st_err st1 = None \<longrightarrow> d1 @ st_buf st1 = d @ st_buf st @ p"
      "st_err st \<noteq> None \<longrightarrow> d1 = d \<and> st_err st1 = st_err st"
      "faults (st_fs st) = [] \<longrightarrow> faults (st_fs st1) = [] \<and> st_err st1 = st_err st"
    using a unfolding writes_def by blast
  from 1(1) obtain d2 where 2: "wok n m d2 st2" "st_fs st2 = set_file n m d2 (faults (st_fs st2)) (st_fs st1)"
      "prefix d1 d2" "prefix d2 (d1 @ st_buf st1 @ q)"
      "st_err st2 = None \<longrightarrow> d2 @ st_buf st2 = d1 @ st_buf st1 @ q"
      "st_err st1 \<noteq> None \<longrightarrow> d2 = d1 \<and> st_err st2 = st_err st1"
      "faults (st_fs st1) = [] \<longrightarrow> faults (st_fs st2) = [] \<and> st_err st2 = st_err st1"
    using b unfolding writes_def by blast
  have fs: "st_fs st2 = set_file n m d2 (faults (st_fs st2)) (st_fs st)"
    by (metis 1(2) 2(2) set_file_twice)
  have pre: "prefix d2 (d @ st_buf st @ p @ q)"
  proof (cases "st_err st1 = None")
    case True
    then show ?thesis using 1(5) 2(4) by (metis append_assoc)
  next
    case False
    then have "d2 = d1" using 2(6) by blast
    then show ?thesis using 1(4) by (metis append_assoc prefix_prefix)
  qed
  have suc: "st_err st2 = None \<longrightarrow> d2 @ st_buf st2 = d @ st_buf st @ p @ q"
    using 1(5) 2(5,6) by (metis append_assoc)
  show "\<exists>d'. wok n m d' st2
       \<and> st_fs st2 = set_file n m d' (faults (st_fs st2)) (st_fs st)
       \<and> prefix d d' \<and> prefix d' (d @ st_buf st @ p @ q)
       \<and> (st_err st2 = None \<longrightarrow> d' @ st_buf st2 = d @ st_buf st @ p @ q)
       \<and> (st_err st \<noteq> None \<longrightarrow> d' = d \<and> st_err st2 = st_err st)
       \<and> (faults (st_fs st) = [] \<longrightarrow> faults (st_fs st2) = [] \<and> st_err st2 = st_err st)"
    using fs pre suc 1 2 by (intro exI [of _ d2]) (auto intro: prefix_order.trans)
qed

text \<open>Writing less than planned is no different once the writer has failed.\<close>

lemma writes_cut:
  assumes "writes p st st'" and "st_err st' \<noteq> None"
  shows "writes (p @ q) st st'"
  using writes_trans [OF assms(1) writes_failed [OF assms(2)]] .

lemma bw_Flush_writes:
  assumes "bw_Flush st = (err, st')"
  shows "writes [] st st' \<and> err = st_err st' \<and> (err = None \<longrightarrow> st_buf st' = [])"
proof (intro conjI)
  obtain b fh w where st: "st = (b, fh, w)" by (metis prod.exhaust)
  obtain k e fh1 w1 where en: "ensure_Write 0 (bw_buf b) fh w = ((k, e), fh1, w1)" by (metis prod.exhaust)
  show "err = st_err st'" "err = None \<longrightarrow> st_buf st' = []"
    using assms st en by (auto simp: bw_Flush_def split: if_splits)
  show "writes [] st st'"
  proof (cases "bw_err b \<noteq> None \<or> bw_buf b = []")
    case True
    then have "st' = st" using assms st by (auto simp: bw_Flush_def split: if_splits)
    then show ?thesis by (simp add: writes_refl)
  next
    case False
    show ?thesis
    proof (rule writesI)
      fix n m d
      assume wok: "wok n m d st"
      then have "at_end n m d fh w" using st by (simp add: wok_def)
      note a = ensure_Write_append [OF en this]
      have st': "st' = (b\<lparr>bw_buf := drop k (bw_buf b), bw_err := e\<rparr>, fh1, w1)"
        using assms st en False a by (cases e) (auto simp: bw_Flush_def)
      have "prefix (take k (bw_buf b)) (bw_buf b)" by (rule take_is_prefix)
      then show "\<exists>d'. wok n m d' st'
       \<and> st_fs st' = set_file n m d' (faults (st_fs st')) (st_fs st)
       \<and> prefix d d' \<and> prefix d' (d @ st_buf st @ [])
       \<and> (st_err st' = None \<longrightarrow> d' @ st_buf st' = d @ st_buf st @ [])
       \<and> (st_err st \<noteq> None \<longrightarrow> d' = d \<and> st_err st' = st_err st)
       \<and> (faults (st_fs st) = [] \<longrightarrow> faults (st_fs st') = [] \<and> st_err st' = st_err st)"
        using a wok False st st' by (intro exI [of _ "d @ take k (bw_buf b)"]) (auto simp: wok_def)
    qed
  qed
qed

lemma writes_buffer:
  assumes "length (bw_buf b) + length p \<le> bw_size b" and "bw_err b = None"
  shows "writes p (b, fh, w) (b\<lparr>bw_buf := bw_buf b @ p\<rparr>, fh, w)"
proof (rule writesI)
  fix n m d
  assume "wok n m d (b, fh, w)"
  with assms show "\<exists>d'. wok n m d' (b\<lparr>bw_buf := bw_buf b @ p\<rparr>, fh, w)
       \<and> st_fs (b\<lparr>bw_buf := bw_buf b @ p\<rparr>, fh, w) = set_file n m d' (faults (st_fs (b\<lparr>bw_buf := bw_buf b @ p\<rparr>, fh, w))) (st_fs (b, fh, w))
       \<and> prefix d d' \<and> prefix d' (d @ st_buf (b, fh, w) @ p)
       \<and> (st_err (b\<lparr>bw_buf := bw_buf b @ p\<rparr>, fh, w) = None \<longrightarrow> d' @ st_buf (b\<lparr>bw_buf := bw_buf b @ p\<rparr>, fh, w) = d @ st_buf (b, fh, w) @ p)
       \<and> (st_err (b, fh, w) \<noteq> None \<longrightarrow> d' = d \<and> st_err (b\<lparr>bw_buf := bw_buf b @ p\<rparr>, fh, w) = st_err (b, fh, w))
       \<and> (faults (st_fs (b, fh, w)) = [] \<longrightarrow> faults (st_fs (b\<lparr>bw_buf := bw_buf b @ p\<rparr>, fh, w)) = [] \<and> st_err (b\<lparr>bw_buf := bw_buf b @ p\<rparr>, fh, w) = st_err (b, fh, w))"
    by (intro exI [of _ d]) (auto simp: wok_def set_file_id at_end_def)
qed

lemma writes_through:
  assumes en: "ensure_Write 0 p fh w = ((k, e), fh1, w1)" and "bw_buf b = []" and "bw_err b = None"
  shows "writes (take k p) (b, fh, w) (b\<lparr>bw_err := e\<rparr>, fh1, w1)"
proof (rule writesI)
  fix n m d
  assume wok: "wok n m d (b, fh, w)"
  then have "at_end n m d fh w" by (simp add: wok_def)
  note a = ensure_Write_append [OF en this]
  show "\<exists>d'. wok n m d' (b\<lparr>bw_err := e\<rparr>, fh1, w1)
       \<and> st_fs (b\<lparr>bw_err := e\<rparr>, fh1, w1) = set_file n m d' (faults (st_fs (b\<lparr>bw_err := e\<rparr>, fh1, w1))) (st_fs (b, fh, w))
       \<and> prefix d d' \<and> prefix d' (d @ st_buf (b, fh, w) @ take k p)
       \<and> (st_err (b\<lparr>bw_err := e\<rparr>, fh1, w1) = None \<longrightarrow> d' @ st_buf (b\<lparr>bw_err := e\<rparr>, fh1, w1) = d @ st_buf (b, fh, w) @ take k p)
       \<and> (st_err (b, fh, w) \<noteq> None \<longrightarrow> d' = d \<and> st_err (b\<lparr>bw_err := e\<rparr>, fh1, w1) = st_err (b, fh, w))
       \<and> (faults (st_fs (b, fh, w)) = [] \<longrightarrow> faults (st_fs (b\<lparr>bw_err := e\<rparr>, fh1, w1)) = [] \<and> st_err (b\<lparr>bw_err := e\<rparr>, fh1, w1) = st_err (b, fh, w))"
    using a wok assms by (intro exI [of _ "d @ take k p"]) (auto simp: wok_def)
qed

lemma bw_Write_writes:
  "bw_Write nn p st = ((k, err), st') \<Longrightarrow> length (st_buf st) \<le> bw_size (fst st)
   \<Longrightarrow> writes p st st' \<and> err = st_err st'"
proof (induction nn p st arbitrary: k err st' rule: bw_Write.induct)
  case (1 nn p b fh w)
  let ?room = "bw_size b - length (bw_buf b)"
  consider (small) "\<not> (length p > ?room \<and> bw_err b = None)"
    | (big) "length p > ?room \<and> bw_err b = None" "bw_buf b = []"
    | (fill) "length p > ?room \<and> bw_err b = None" "bw_buf b \<noteq> []" by blast
  then show ?case
  proof cases
    case small
    show ?thesis
    proof (cases "bw_err b = None")
      case True
      with small "1.prems" have "st' = (b\<lparr>bw_buf := bw_buf b @ p\<rparr>, fh, w)" "err = None"
        by (auto simp: bw_Write.simps)
      moreover have "length (bw_buf b) + length p \<le> bw_size b" using small True "1.prems"(2) by auto
      ultimately show ?thesis using writes_buffer [of b p fh w] True by simp
    next
      case False
      with "1.prems" have "st' = (b, fh, w)" "err = bw_err b" by (auto simp: bw_Write.simps)
      then show ?thesis using writes_failed [of "(b, fh, w)" p] False by simp
    qed
  next
    case big
    obtain j e fh1 w1 where en: "ensure_Write 0 p fh w = ((j, e), fh1, w1)" by (metis prod.exhaust)
    have w1: "writes (take j p) (b, fh, w) (b\<lparr>bw_err := e\<rparr>, fh1, w1)"
      using writes_through [OF en] big by simp
    have r: "bw_Write (nn + j) (drop j p) (b\<lparr>bw_err := e\<rparr>, fh1, w1) = ((k, err), st')"
      using big "1.prems"(1) en by (subst (asm) bw_Write.simps) simp
    have "writes (drop j p) (b\<lparr>bw_err := e\<rparr>, fh1, w1) st' \<and> err = st_err st'"
      using "1.IH"(1) [OF big(1,2) en [symmetric] refl refl r] big by simp
    then show ?thesis using writes_trans [OF w1] by (metis append_take_drop_id)
  next
    case fill
    obtain e st1 where fl: "bw_Flush (b\<lparr>bw_buf := bw_buf b @ take ?room p\<rparr>, fh, w) = (e, st1)" by (metis prod.exhaust)
    obtain b1 fh1 w1 where st1: "st1 = (b1, fh1, w1)" by (metis prod.exhaust)
    have w0: "writes (take ?room p) (b, fh, w) (b\<lparr>bw_buf := bw_buf b @ take ?room p\<rparr>, fh, w)"
      using writes_buffer [of b "take ?room p"] fill "1.prems"(2) by simp
    note w1 = bw_Flush_writes [OF fl]
    have r: "bw_Write (nn + ?room) (drop ?room p) (b1, fh1, w1) = ((k, err), st')"
      using fill "1.prems"(1) fl st1 by (subst (asm) bw_Write.simps) (simp add: Let_def)
    have "length (bw_buf b1) \<le> bw_size b1"
      using fl st1 "1.prems"(2) fill
      by (auto simp: bw_Flush_def split: if_splits prod.splits)
    with "1.IH"(2) [OF fill(1,2) refl fl [symmetric, unfolded st1] refl refl r]
    have "writes (drop ?room p) st1 st' \<and> err = st_err st'" by (simp add: st1)
    then show ?thesis using writes_trans [OF writes_trans [OF w0 conjunct1 [OF w1]]]
      by (metis append_Nil2 append_take_drop_id)
  qed
qed

lemma bw_WriteByte_writes:
  assumes "bw_WriteByte c st = (err, st')" and "length (st_buf st) \<le> bw_size (fst st)" and "0 < bw_size (fst st)"
  shows "writes [c] st st' \<and> err = st_err st'"
proof -
  obtain b fh w where st: "st = (b, fh, w)" by (metis prod.exhaust)
  obtain e b1 fh1 w1 where fl: "bw_Flush st = (e, b1, fh1, w1)" by (metis prod.exhaust)
  note w1 = bw_Flush_writes [OF fl]
  consider (failed) "bw_err b \<noteq> None" | (room) "bw_err b = None" "bw_size b - length (bw_buf b) \<noteq> 0"
    | (flush) "bw_err b = None" "bw_size b - length (bw_buf b) = 0" by blast
  then show ?thesis
  proof cases
    case failed
    then have "st' = st" "err = bw_err b" using assms(1) st by (auto simp: bw_WriteByte_def)
    then show ?thesis using failed writes_failed [of st "[c]"] st by simp
  next
    case room
    then show ?thesis using assms st writes_buffer [of b "[c]" fh w] by (auto simp: bw_WriteByte_def)
  next
    case flush
    show ?thesis
    proof (cases e)
      case None
      then have r: "err = None" "st' = (b1\<lparr>bw_buf := bw_buf b1 @ [c]\<rparr>, fh1, w1)"
        using assms(1) st fl flush by (auto simp: bw_WriteByte_def)
      have "bw_err b1 = None" "bw_buf b1 = []" "bw_size b1 = bw_size b"
        using w1 None bw_Flush_result [of b fh w e b1 fh1 w1] fl st flush by auto
      then have "writes [c] (b1, fh1, w1) st'"
        using writes_buffer [of b1 "[c]" fh1 w1] assms(3) st r by simp
      then show ?thesis
        using writes_trans [OF conjunct1 [OF w1]] r \<open>bw_err b1 = None\<close> by fastforce
    next
      case (Some x)
      then have "err = e" "st' = (b1, fh1, w1)" using assms(1) st fl flush by (auto simp: bw_WriteByte_def)
      moreover have "st_err (b1, fh1, w1) \<noteq> None" using w1 Some by (metis fst_conv option.distinct(1))
      ultimately show ?thesis using w1 writes_cut [OF conjunct1 [OF w1], of "[c]"] by simp
    qed
  qed
qed

text \<open>The same in terms of a writer that is in order.\<close>

definition wgood :: "wstate \<Rightarrow> bool" where
  "wgood st \<longleftrightarrow> length (st_buf st) \<le> bw_size (fst st) \<and> 0 < bw_size (fst st)"

lemma bw_Flush_good: "bw_Flush st = (err, st') \<Longrightarrow> wgood st \<Longrightarrow> wgood st'"
  by (auto simp: bw_Flush_def wgood_def split: if_splits prod.splits)

lemma bw_Write_good: "bw_Write nn p st = ((k, err), st') \<Longrightarrow> wgood st \<Longrightarrow> wgood st'"
proof (induction nn p st arbitrary: k err st' rule: bw_Write.induct)
  case (1 nn p b fh w)
  let ?room = "bw_size b - length (bw_buf b)"
  obtain j e fh1 w1 where en: "ensure_Write 0 p fh w = ((j, e), fh1, w1)" by (metis prod.exhaust)
  obtain e2 b2 fh2 w2 where fl: "bw_Flush (b\<lparr>bw_buf := bw_buf b @ take ?room p\<rparr>, fh, w) = (e2, b2, fh2, w2)"
    by (metis prod.exhaust)
  consider (small) "\<not> (length p > ?room \<and> bw_err b = None)"
    | (big) "length p > ?room \<and> bw_err b = None" "bw_buf b = []"
    | (fill) "length p > ?room \<and> bw_err b = None" "bw_buf b \<noteq> []" by blast
  then show ?case
  proof cases
    case small
    with "1.prems" show ?thesis by (auto simp: bw_Write.simps wgood_def split: if_splits)
  next
    case big
    then have r: "bw_Write (nn + j) (drop j p) (b\<lparr>bw_err := e\<rparr>, fh1, w1) = ((k, err), st')"
      using "1.prems"(1) en by (subst (asm) bw_Write.simps) simp
    show ?thesis using "1.IH"(1) [OF big en [symmetric] refl refl r] "1.prems"(2) by (simp add: wgood_def)
  next
    case fill
    then have r: "bw_Write (nn + ?room) (drop ?room p) (b2, fh2, w2) = ((k, err), st')"
      using "1.prems"(1) fl by (subst (asm) bw_Write.simps) (simp add: Let_def)
    have "length (bw_buf b) + min (length p) ?room \<le> bw_size b"
      using "1.prems"(2) by (auto simp: wgood_def min_def)
    then have "wgood (b2, fh2, w2)" using bw_Flush_good [OF fl] "1.prems"(2) by (simp add: wgood_def)
    then show ?thesis using "1.IH"(2) [OF fill refl fl [symmetric] refl refl r] by simp
  qed
qed

lemma bw_WriteByte_good: "bw_WriteByte c st = (err, st') \<Longrightarrow> wgood st \<Longrightarrow> wgood st'"
proof -
  assume a: "bw_WriteByte c st = (err, st')" "wgood st"
  obtain b fh w where st: "st = (b, fh, w)" by (metis prod.exhaust)
  obtain e b1 fh1 w1 where fl: "bw_Flush st = (e, b1, fh1, w1)" by (metis prod.exhaust)
  have "wgood (b1, fh1, w1)" using bw_Flush_good [OF fl a(2)] .
  moreover have "e = None \<Longrightarrow> bw_buf b1 = []" using bw_Flush_writes [OF fl] by simp
  ultimately show "wgood st'"
    using a fl st by (auto simp: bw_WriteByte_def wgood_def split: if_splits option.splits)
qed

text \<open>A sequence of chunks, through the buffer alone or through the counting writer.\<close>

lemma write_chunks_writes:
  assumes wr: "\<And>p s k e s'. wr p s = ((k, e), s') \<Longrightarrow> wgood (g s) \<Longrightarrow>
      writes p (g s) (g s') \<and> e = st_err (g s') \<and> wgood (g s')"
    and "write_chunks wr cs s = (err, s')" and "wgood (g s)"
  shows "writes (concat cs) (g s) (g s') \<and> wgood (g s') \<and> (err \<noteq> None \<longrightarrow> st_err (g s') \<noteq> None)
     \<and> (err = None \<and> st_err (g s) = None \<longrightarrow> st_err (g s') = None)"
  using assms(2,3)
proof (induction cs arbitrary: s)
  case Nil
  then show ?case by (simp add: writes_refl)
next
  case (Cons c cs)
  obtain k e s1 where c: "wr c s = ((k, e), s1)" by (metis prod.exhaust)
  note a = wr [OF c Cons.prems(2)]
  show ?case
  proof (cases e)
    case None
    with Cons.prems c have "write_chunks wr cs s1 = (err, s')" by simp
    from Cons.IH [OF this] a None show ?thesis using writes_trans [of c "g s" "g s1"] by simp
  next
    case (Some x)
    with Cons.prems c have "s' = s1" "err = e" by auto
    moreover from a Some have "st_err (g s1) \<noteq> None" by (metis option.distinct(1))
    ultimately show ?thesis using a Some writes_cut [of c "g s" "g s1" "concat cs"] by simp
  qed
qed

lemma Encode_writes:
  assumes wr: "\<And>p s k e s'. wr p s = ((k, e), s') \<Longrightarrow> wgood (g s) \<Longrightarrow>
      writes p (g s) (g s') \<and> e = st_err (g s') \<and> wgood (g s')"
    and "Encode wr v s = (err, s')" and "wgood (g s)" and "snd v = None"
  shows "writes (concat (fst v)) (g s) (g s') \<and> wgood (g s') \<and> (err \<noteq> None \<longrightarrow> st_err (g s') \<noteq> None)
     \<and> (err = None \<and> st_err (g s) = None \<longrightarrow> st_err (g s') = None)"
proof -
  obtain e s1 where wc: "write_chunks wr (fst v) s = (e, s1)" by (metis prod.exhaust)
  have "err = e \<and> s' = s1" using assms(2,4) wc by (cases e) (auto simp: Encode_def)
  then show ?thesis using write_chunks_writes [of wr g, OF wr wc assms(3)] by simp
qed

lemma bw_Write_step:
  "bw_Write 0 p st = ((k, err), st') \<Longrightarrow> wgood st \<Longrightarrow> writes p st st' \<and> err = st_err st' \<and> wgood st'"
  using bw_Write_writes bw_Write_good by (metis wgood_def)

lemma count_Write_step:
  "count_Write p s = ((k, err), s') \<Longrightarrow> wgood (snd s) \<Longrightarrow>
   writes p (snd s) (snd s') \<and> err = st_err (snd s') \<and> wgood (snd s')"
  by (auto simp: count_Write_def dest!: bw_Write_step split: prod.splits)

lemma bw_WriteByte_step:
  "bw_WriteByte c st = (err, st') \<Longrightarrow> wgood st \<Longrightarrow> writes [c] st st' \<and> err = st_err st' \<and> wgood st'"
  using bw_WriteByte_writes bw_WriteByte_good by (metis wgood_def)

lemma Encode_buffered:
  assumes "Encode (bw_Write 0) v st = (err, st')" and "wgood st" and "snd v = None"
  shows "writes (concat (fst v)) st st' \<and> wgood st' \<and> (err \<noteq> None \<longrightarrow> st_err st' \<noteq> None)
     \<and> (err = None \<and> st_err st = None \<longrightarrow> st_err st' = None)"
  using Encode_writes [of "bw_Write 0" "\<lambda>s. s" v st err st', OF _ assms] bw_Write_step by blast

lemma Encode_counted:
  assumes "Encode count_Write v (cnt, st) = (err, cst')" and "wgood st" and "snd v = None"
  shows "writes (concat (fst v)) st (snd cst') \<and> wgood (snd cst') \<and> (err \<noteq> None \<longrightarrow> st_err (snd cst') \<noteq> None)
     \<and> (err = None \<and> st_err st = None \<longrightarrow> st_err (snd cst') = None)"
  using Encode_writes [of count_Write snd v "(cnt, st)" err cst', OF count_Write_step assms(1)] assms(2,3) by simp

section \<open>Frames of the helpers\<close>

lemma syncFile_only: "only {} w (snd (syncFile fh w))"
proof (induction fh w rule: syncFile.induct)
  case (1 fh w)
  obtain r w1 where s: "file_Sync fh w = (r, w1)" by fastforce
  have o: "only {} w w1" using file_Sync_only [of w fh] s by simp
  show ?case
  proof (cases r)
    case (Inl e)
    then show ?thesis using "1.IH" [OF s [symmetric] Inl] s o
      by (subst syncFile.simps) (auto intro: only_trans)
  next
    case (Inr u)
    then show ?thesis using s o by (subst syncFile.simps) simp
  qed
qed

lemma syncFile_no_faults: "faults w = [] \<Longrightarrow> syncFile fh w = (Inr (), w)"
  by (subst syncFile.simps) (simp add: file_Sync_def fs_simps)

lemma trySyncPath_only: "only {} w (trySyncPath w)"
proof -
  obtain r w1 where o: "os_Open_home w = (r, w1)" by fastforce
  obtain r2 w2 where s: "syncFile \<lparr>fh_name = [], fh_off = 0\<rparr> w1 = (r2, w2)" by fastforce
  have 1: "only {} w w1" using os_Open_home_only [of w] o by simp
  have 2: "only {} w w2" using only_trans [OF 1] syncFile_only [of w1] s by (metis Un_empty_right empty_subsetI snd_conv)
  have "only {} w (snd (file_Close \<lparr>fh_name = [], fh_off = 0\<rparr> w2))"
    using only_trans [OF 2 file_Close_only] by simp
  then show ?thesis using o s 1 by (auto simp: trySyncPath_def split: sum.splits)
qed

end
