(* ===== verification/Memlog_Diskstore.thy ===== *)
theory Memlog_Diskstore
  imports Memlog_Util
begin

text \<open>
  The in-memory table of \<open>pkg/statestore/backend/memlog/store.go\<close> and the on-disk half of the
  store, \<open>diskstore.go\<close>: the update log, checkpoints, and the loaders of both.

  A path of the source is the name of a file in the store's home directory, which the model
  of the file system knows by name.  \<open>logFile\<close> and \<open>logBuf\<close>, which the source sets and
  clears together, are one field \<open>logOut\<close>.
\<close>

section \<open>Decimal numbers\<close>

text \<open>\<open>strconv.ParseUint(s, 10, 64)\<close>.\<close>

fun digits_value :: "nat \<Rightarrow> string \<Rightarrow> nat option" where
  "digits_value n [] = Some n"
| "digits_value n (c # cs) =
     (if is_digit c then digits_value (10 * n + (of_char c - 48)) cs else None)"

definition ParseUint :: "string \<Rightarrow> u64 option" where
  "ParseUint s =
     (if s = [] then None
      else case digits_value 0 s of
          None \<Rightarrow> None
        | Some n \<Rightarrow> if n < 2 ^ 64 then Some (of_nat n) else None)"

section \<open>The in-memory table\<close>

type_synonym table = "(string, mapstr) fmap"

definition memstore_Has :: "table \<Rightarrow> string \<Rightarrow> bool" where
  "memstore_Has t key = (fmlookup t key \<noteq> None)"

definition memstore_Get :: "table \<Rightarrow> string \<Rightarrow> mapstr option" where
  "memstore_Get t key = fmlookup t key"

definition memstore_Set :: "string \<Rightarrow> mapstr \<Rightarrow> table \<Rightarrow> table" where
  "memstore_Set key value t = fmupd key value t"

definition memstore_Remove :: "string \<Rightarrow> table \<Rightarrow> bool \<times> table" where
  "memstore_Remove key t =
     (if fmlookup t key = None then (False, t) else (True, fmdrop key t))"

section \<open>Data\<close>

record dataFileInfo =
  path :: string
  txid :: u64

record storeEntry =
  Key :: string
  EFields :: mapstr

record storeMeta =
  Version :: string

record logAction =
  Op :: string
  ID :: u64

record diskstore =
  checkpointPred :: "u64 \<Rightarrow> bool"
  fileMode :: u32
  bufferSize :: nat
  homePath :: string
  logFilePath :: string
  oldDataFiles :: "dataFileInfo list"
  activeDataFile :: dataFileInfo
  nextTxID :: u64
  logOut :: "(fhandle \<times> bufw) option"
  logFileSize :: u64
  logEntries :: u64
  logInvalid :: bool
  logNeedsTruncate :: bool

text \<open>
  What the diskstore takes from outside the repository: the output of the \<open>go-structform\<close>
  encoder for each type it writes, and the order in which Go's \<open>range\<close> visits a map.
\<close>

record memlog_env =
  foldAction :: "logAction \<Rightarrow> folded"
  foldOp :: "memlog_op \<Rightarrow> folded"
  foldEntry :: "storeEntry \<Rightarrow> folded"
  foldMeta :: "storeMeta \<Rightarrow> folded"
  rangeTable :: "table \<Rightarrow> (string \<times> mapstr) list"

definition logFileName :: string where "logFileName = ''log.json''"
definition metaFileName :: string where "metaFileName = ''meta.json''"
definition activeDataFileName :: string where "activeDataFileName = ''active.dat''"
definition activeDataTmpFileName :: string where "activeDataTmpFileName = ''active.dat.new''"
definition checkpointTmpFileName :: string where "checkpointTmpFileName = ''checkpoint.new''"
definition storeVersion :: string where "storeVersion = ''1''"
definition keyField :: string where "keyField = ''_key''"

definition isTxIDLessEqual :: "u64 \<Rightarrow> u64 \<Rightarrow> bool" where
  "isTxIDLessEqual a b \<longleftrightarrow> sint (a - b) \<le> 0"

section \<open>The update log\<close>

definition tryOpenLog :: "diskstore \<Rightarrow> fs \<Rightarrow> error option \<times> diskstore \<times> fs" where
  "tryOpenLog s w =
     (case os_OpenFile True (logNeedsTruncate s) (fileMode s) (logFilePath s) w of
        (Inl e, w1) \<Rightarrow> (Some e, s, w1)
      | (Inr f, w1) \<Rightarrow>
          (case file_SeekEnd f w1 of
             (Inl e, w2) \<Rightarrow> (Some e, s, snd (file_Close f w2))
           | (Inr f', w2) \<Rightarrow>
               (let opened = (\<lambda>s. s\<lparr>logNeedsTruncate := False,
                      logOut := Some (f', NewWriterSize (bufferSize s))\<rparr>) in
                if logNeedsTruncate s
                then (None, opened (s\<lparr>logEntries := 0, logFileSize := 0\<rparr>), w2)
                else case file_Stat_size f' w2 of
                    (Inl e, w3) \<Rightarrow> (Some e, s, snd (file_Close f' w3))
                  | (Inr n, w3) \<Rightarrow> (None, opened (s\<lparr>logFileSize := of_nat n\<rparr>), w3))))"

definition mustCheckpoint :: "diskstore \<Rightarrow> bool" where
  "mustCheckpoint s \<longleftrightarrow> logInvalid s \<or> checkpointPred s (logFileSize s)"

definition diskstore_Close :: "diskstore \<Rightarrow> fs \<Rightarrow> error option \<times> diskstore \<times> fs" where
  "diskstore_Close s w =
     (case logOut s of
        None \<Rightarrow> (None, s, w)
      | Some (fh, b) \<Rightarrow>
          (case bw_Flush (b, fh, w) of
             (err, b1, fh1, w1) \<Rightarrow>
               (case (case err of
                        Some e \<Rightarrow> (Some e, w1)
                      | None \<Rightarrow> (case syncFile fh1 w1 of (Inl e, w2) \<Rightarrow> (Some e, w2) | (Inr u, w2) \<Rightarrow> (None, w2))) of
                  (err', w2) \<Rightarrow> (err', s\<lparr>logOut := None\<rparr>, snd (file_Close fh1 w2)))))"

abbreviation nl :: char where "nl \<equiv> CHR 0x0A"

text \<open>The part of \<open>LogOperation\<close> between the two deferred calls: the action, the operation, each
  with a newline that does not go through the counting writer, and the flush.\<close>

definition writeLogEntry :: "memlog_env \<Rightarrow> u64 \<Rightarrow> memlog_op \<Rightarrow> u64 \<times> wstate \<Rightarrow> error option \<times> (u64 \<times> wstate)" where
  "writeLogEntry E tid op0 cst =
     (case Encode count_Write (foldAction E \<lparr>Op = op_name op0, ID = tid\<rparr>) cst of
        (Some e, cst1) \<Rightarrow> (Some e, cst1)
      | (None, cnt1, st1) \<Rightarrow>
          (case bw_WriteByte nl st1 of
             (_, st2) \<Rightarrow>
               (case Encode count_Write (foldOp E op0) (cnt1, st2) of
                  (Some e, cst3) \<Rightarrow> (Some e, cst3)
                | (None, cnt3, st3) \<Rightarrow>
                    (case bw_WriteByte nl st3 of
                       (_, st4) \<Rightarrow>
                         (case bw_Flush st4 of (err, st5) \<Rightarrow> (err, cnt3, st5))))))"

definition LogOperation :: "memlog_env \<Rightarrow> memlog_op \<Rightarrow> diskstore \<Rightarrow> fs \<Rightarrow> error option \<times> diskstore \<times> fs" where
  "LogOperation E op0 s w =
     (if logInvalid s then (Some errLogInvalid, s, w)
      else case (if logOut s = None then tryOpenLog s w else (None, s, w)) of
          (Some e, s1, w1) \<Rightarrow> (Some e, s1\<lparr>logInvalid := True\<rparr>, w1)
        | (None, s1, w1) \<Rightarrow>
            (case logOut s1 of
               None \<Rightarrow> (Some (Panic ''nil pointer dereference''), s1, w1)
             | Some (fh, b) \<Rightarrow>
                 (case writeLogEntry E (nextTxID s1) op0 (0, b, fh, w1) of
                    (err, cnt, b', fh', w2) \<Rightarrow>
                      (let s2 = s1\<lparr>logOut := Some (fh', b'), logFileSize := logFileSize s1 + cnt\<rparr> in
                       case err of
                         Some e \<Rightarrow> (Some e, s2\<lparr>logInvalid := True\<rparr>, w2)
                       | None \<Rightarrow>
                           (None, s2\<lparr>logEntries := logEntries s2 + 1, nextTxID := nextTxID s2 + 1\<rparr>, w2)))))"

section \<open>Checkpoints\<close>

fun tmpEntries :: "memlog_env \<Rightarrow> bool \<Rightarrow> (string \<times> mapstr) list \<Rightarrow> wstate \<Rightarrow> error option \<times> wstate" where
  "tmpEntries E first [] st = (None, st)"
| "tmpEntries E first ((key, value) # rest) st =
     (case bw_Write 0 (if first then [nl] else [CHR '','', nl]) st of
        ((n, Some e), st1) \<Rightarrow> (Some e, st1)
      | ((n, None), st1) \<Rightarrow>
          (case Encode (bw_Write 0) (foldEntry E \<lparr>Key = key, EFields = value\<rparr>) st1 of
             (Some e, st2) \<Rightarrow> (Some e, st2)
           | (None, st2) \<Rightarrow> tmpEntries E False rest st2))"

definition writeTmp :: "memlog_env \<Rightarrow> table \<Rightarrow> wstate \<Rightarrow> error option \<times> wstate" where
  "writeTmp E states st =
     (case bw_Write 0 [CHR ''[''] st of
        ((n, Some e), st1) \<Rightarrow> (Some e, st1)
      | ((n, None), st1) \<Rightarrow>
          (case tmpEntries E True (rangeTable E states) st1 of
             (Some e, st2) \<Rightarrow> (Some e, st2)
           | (None, st2) \<Rightarrow>
               (case bw_Write 0 [nl, CHR '']''] st2 of
                  ((n, Some e), st3) \<Rightarrow> (Some e, st3)
                | ((n, None), st3) \<Rightarrow> bw_Flush st3)))"

definition checkpointTmpFile :: "memlog_env \<Rightarrow> string \<Rightarrow> table \<Rightarrow> diskstore \<Rightarrow> fs \<Rightarrow> string result \<times> fs" where
  "checkpointTmpFile E tempfile states s w =
     (case os_OpenFile True True (fileMode s) tempfile w of
        (Inl e, w1) \<Rightarrow> (Inl e, w1)
      | (Inr f, w1) \<Rightarrow>
          (case writeTmp E states (NewWriterSize (bufferSize s), f, w1) of
             (Some e, b, f', w2) \<Rightarrow> (Inl e, snd (file_Close f' w2))
           | (None, b, f', w2) \<Rightarrow>
               (case syncFile f' w2 of
                  (Inl e, w3) \<Rightarrow> (Inl e, snd (file_Close f' w3))
                | (Inr u, w3) \<Rightarrow>
                    (case file_Close f' w3 of
                       (Inl e, w4) \<Rightarrow> (Inl e, w4)
                     | (Inr u, w4) \<Rightarrow> (Inr tempfile, w4)))))"

definition checkpointClearLog :: "diskstore \<Rightarrow> fs \<Rightarrow> diskstore \<times> fs" where
  "checkpointClearLog s w =
     (case logOut s of
        None \<Rightarrow> (s\<lparr>logNeedsTruncate := True\<rparr>, w)
      | Some (fh, b) \<Rightarrow>
          (case (case file_Truncate0 fh w of
                   (Inl e, w1) \<Rightarrow> (Inl e, w1)
                 | (Inr u, w1) \<Rightarrow> file_SeekStart fh w1) of
             (Inl e, w2) \<Rightarrow>
               (s\<lparr>logOut := None, logNeedsTruncate := True, logInvalid := True,
                  logEntries := 0, logFileSize := 0\<rparr>, snd (file_Close fh w2))
           | (Inr fh', w2) \<Rightarrow>
               (s\<lparr>logOut := Some (fh', b), logEntries := 0, logFileSize := 0\<rparr>, w2)))"

text \<open>The result of a removal whose only accepted error is that the file does not exist.\<close>

definition unlessNotExist :: "unit result \<Rightarrow> error option" where
  "unlessNotExist r =
     (case r of Inl e \<Rightarrow> if IsNotExist e then None else Some e | Inr u \<Rightarrow> None)"

definition updateActiveMarker :: "string \<Rightarrow> string \<Rightarrow> fs \<Rightarrow> error option \<times> fs" where
  "updateActiveMarker homeDir checkpointFilePath w =
     (if checkpointFilePath = [] then (None, snd (os_Remove activeDataFileName w))
      else case os_Remove activeDataTmpFileName w of
          (r, w1) \<Rightarrow>
            (case unlessNotExist r of
               Some e \<Rightarrow> (Some e, w1)
             | None \<Rightarrow>
                 (case os_WriteFile activeDataTmpFileName (homeDir @ ''/'' @ checkpointFilePath) 384 w1 of
                    (Inl e, w2) \<Rightarrow> (Some e, w2)
                  | (Inr u, w2) \<Rightarrow>
                      (case os_Rename activeDataTmpFileName activeDataFileName w2 of
                         (Inl e, w3) \<Rightarrow> (Some e, w3)
                       | (Inr u, w3) \<Rightarrow> (None, trySyncPath w3)))))"

fun removeFiles :: "dataFileInfo list \<Rightarrow> fs \<Rightarrow> dataFileInfo list \<times> fs" where
  "removeFiles [] w = ([], w)"
| "removeFiles (f # rest) w =
     (case os_Remove (path f) w of
        (r, w1) \<Rightarrow>
          (case unlessNotExist r of
             Some e \<Rightarrow> (f # rest, w1)
           | None \<Rightarrow> removeFiles rest w1))"

definition removeOldDataFiles :: "diskstore \<Rightarrow> fs \<Rightarrow> diskstore \<times> fs" where
  "removeOldDataFiles s w =
     (case removeFiles (oldDataFiles s) w of (rest, w1) \<Rightarrow> (s\<lparr>oldDataFiles := rest\<rparr>, w1))"

definition dataFileName :: "u64 \<Rightarrow> string" where
  "dataFileName tid = show_nat (unat tid) @ ''.json''"

definition WriteCheckpoint :: "memlog_env \<Rightarrow> table \<Rightarrow> diskstore \<Rightarrow> fs \<Rightarrow> error option \<times> diskstore \<times> fs" where
  "WriteCheckpoint E states s w =
     (case checkpointTmpFile E checkpointTmpFileName states s w of
        (Inl e, w1) \<Rightarrow> (Some e, s, w1)
      | (Inr tmpPath, w1) \<Rightarrow>
          (let fileTxID = nextTxID s; checkpointPath = dataFileName fileTxID in
           case os_Rename tmpPath checkpointPath w1 of
             (Inl e, w2) \<Rightarrow> (Some e, s, snd (os_Remove tmpPath w2))
           | (Inr u, w2) \<Rightarrow>
               (case checkpointClearLog s (trySyncPath w2) of
                  (s3, w3) \<Rightarrow>
                    (let s4 = s3\<lparr>nextTxID := nextTxID s3 + 1,
                           oldDataFiles := (if path (activeDataFile s3) \<noteq> []
                             then oldDataFiles s3 @ [activeDataFile s3] else oldDataFiles s3),
                           activeDataFile := \<lparr>path = checkpointPath, txid = fileTxID\<rparr>\<rparr>;
                         w4 = snd (updateActiveMarker (homePath s4) (path (activeDataFile s4)) w3)
                     in case removeOldDataFiles s4 w4 of
                          (s5, w5) \<Rightarrow> (None, s5, snd (os_Remove tmpPath (trySyncPath w5)))))))"

section \<open>Data files\<close>

text \<open>
  \<open>sort.Slice\<close>, as the insertion sort the library runs on up to twelve elements: each
  element moves to the left while it is less than its left neighbour.  The list is kept in
  reverse, so the neighbour is its head.
\<close>

fun insertLeft :: "dataFileInfo \<Rightarrow> dataFileInfo list \<Rightarrow> dataFileInfo list" where
  "insertLeft x [] = [x]"
| "insertLeft x (y # ys) =
     (if isTxIDLessEqual (txid x) (txid y) then y # insertLeft x ys else x # y # ys)"

definition sortDataFileInfos :: "dataFileInfo list \<Rightarrow> dataFileInfo list" where
  "sortDataFileInfos infos = rev (foldl (\<lambda>acc x. insertLeft x acc) [] infos)"

fun dataFileInfos :: "string list \<Rightarrow> fs \<Rightarrow> dataFileInfo list result \<times> fs" where
  "dataFileInfos [] w = (Inr [], w)"
| "dataFileInfos (f # files) w =
     (case os_Lstat_regular f w of
        (Inl e, w1) \<Rightarrow> (Inl e, w1)
      | (Inr regular, w1) \<Rightarrow>
          (case dataFileInfos files w1 of
             (Inl e, w2) \<Rightarrow> (Inl e, w2)
           | (Inr infos, w2) \<Rightarrow>
               (if \<not> regular then (Inr infos, w2)
                else case ParseUint (take (length f - 5) f) of
                    Some tid \<Rightarrow> (Inr (\<lparr>path = f, txid = tid\<rparr> # infos), w2)
                  | None \<Rightarrow> (Inr infos, w2))))"

definition listDataFiles :: "fs \<Rightarrow> dataFileInfo list result \<times> fs" where
  "listDataFiles w =
     (case filepath_Glob_json w of
        (files, w1) \<Rightarrow>
          (case dataFileInfos files w1 of
             (Inl e, w2) \<Rightarrow> (Inl e, w2)
           | (Inr infos, w2) \<Rightarrow>
               (if length infos \<le> 1 then (Inr infos, w2) else (Inr (sortDataFileInfos infos), w2))))"

definition ErrCorruptStore :: error where
  "ErrCorruptStore = ErrNew ''corrupted data file''"

text \<open>\<open>json.Unmarshal\<close> into a slice of maps: an element that is not an object is an error.\<close>

fun unmarshal_maps :: "json list \<Rightarrow> mapstr list result" where
  "unmarshal_maps [] = Inr []"
| "unmarshal_maps (JObj ps # vs) = bind_result (unmarshal_maps vs) (\<lambda>ms. Inr (to_pairs ps fmempty # ms))"
| "unmarshal_maps (JNull # vs) = bind_result (unmarshal_maps vs) (\<lambda>ms. Inr (fmempty # ms))"
| "unmarshal_maps (v # vs) = Inl errUnmarshalType"

fun unmarshal_states :: "json \<Rightarrow> mapstr list result" where
  "unmarshal_states JNull = Inr []"
| "unmarshal_states (JArr vs) = unmarshal_maps vs"
| "unmarshal_states v = Inl errUnmarshalType"

text \<open>The states of a data file with the key they belong to; a state without a key is skipped.\<close>

fun keyedStates :: "mapstr list \<Rightarrow> (string \<times> mapstr) list" where
  "keyedStates [] = []"
| "keyedStates (state # states) =
     (case fmlookup state keyField of
        Some (VStr key) \<Rightarrow> (key, fmdrop keyField state) # keyedStates states
      | _ \<Rightarrow> keyedStates states)"

definition decodeDataFile :: "error option \<Rightarrow> bytes \<Rightarrow> (string \<times> mapstr) list result" where
  "decodeDataFile rd bs =
     (case bind_result (dec_Decode rd bs) (\<lambda>(v, rest). unmarshal_states v) of
        Inl e \<Rightarrow> Inl (ErrWrap ''corrupted data file'' ErrCorruptStore)
      | Inr states \<Rightarrow> Inr (keyedStates states))"

definition readDataFile :: "string \<Rightarrow> fs \<Rightarrow> (string \<times> mapstr) list result \<times> fs" where
  "readDataFile fpath w =
     (case os_OpenFile False False 0 fpath w of
        (Inl e, w1) \<Rightarrow> (Inl e, w1)
      | (Inr f, w1) \<Rightarrow>
          (case file_ReadAll f w1 of
             ((bs, rd), w2) \<Rightarrow> (decodeDataFile rd bs, snd (file_Close f w2))))"

definition loadDataFile :: "string \<Rightarrow> table \<Rightarrow> fs \<Rightarrow> table result \<times> fs" where
  "loadDataFile fpath tbl w =
     (if fpath = [] then (Inr tbl, w)
      else case readDataFile fpath w of
          (Inl e, w1) \<Rightarrow> (Inl e, w1)
        | (Inr kvs, w1) \<Rightarrow> (Inr (foldl (\<lambda>t (key, state). fmupd key state t) tbl kvs), w1))"

section \<open>Loading the update log\<close>

text \<open>\<open>encoding/json\<close> matches a key with a field name without regard to case.\<close>

definition lower_char :: "char \<Rightarrow> char" where
  "lower_char c = (if 65 \<le> (of_char c :: nat) \<and> (of_char c :: nat) \<le> 90 then char_of (of_char c + 32 :: nat) else c)"

definition eqfold :: "string \<Rightarrow> string \<Rightarrow> bool" where
  "eqfold a b \<longleftrightarrow> map lower_char a = map lower_char b"

fun set_string :: "json \<Rightarrow> string \<Rightarrow> string result" where
  "set_string (JStr s) old = Inr s"
| "set_string JNull old = Inr old"
| "set_string v old = Inl errUnmarshalType"

fun set_uint :: "json \<Rightarrow> u64 \<Rightarrow> u64 result" where
  "set_uint (JNum n) old = (case ParseUint n of Some i \<Rightarrow> Inr i | None \<Rightarrow> Inl errUnmarshalType)"
| "set_uint JNull old = Inr old"
| "set_uint v old = Inl errUnmarshalType"

fun set_map :: "json \<Rightarrow> mapstr \<Rightarrow> mapstr result" where
  "set_map (JObj ps) old = Inr (to_pairs ps old)"
| "set_map JNull old = Inr fmempty"
| "set_map v old = Inl errUnmarshalType"

fun action_fields :: "(string \<times> json) list \<Rightarrow> logAction \<Rightarrow> logAction result" where
  "action_fields [] a = Inr a"
| "action_fields ((k, v) # ps) a =
     (if eqfold k ''op'' then bind_result (set_string v (Op a)) (\<lambda>s. action_fields ps (a\<lparr>Op := s\<rparr>))
      else if eqfold k ''id'' then bind_result (set_uint v (ID a)) (\<lambda>i. action_fields ps (a\<lparr>ID := i\<rparr>))
      else action_fields ps a)"

fun unmarshal_action :: "json \<Rightarrow> logAction result" where
  "unmarshal_action (JObj ps) = action_fields ps \<lparr>Op = [], ID = 0\<rparr>"
| "unmarshal_action JNull = Inr \<lparr>Op = [], ID = 0\<rparr>"
| "unmarshal_action v = Inl errUnmarshalType"

fun set_fields :: "(string \<times> json) list \<Rightarrow> string \<Rightarrow> mapstr \<Rightarrow> memlog_op result" where
  "set_fields [] K V = Inr (opSet K V)"
| "set_fields ((k, v) # ps) K V =
     (if eqfold k ''k'' then bind_result (set_string v K) (\<lambda>s. set_fields ps s V)
      else if eqfold k ''v'' then bind_result (set_map v V) (\<lambda>m. set_fields ps K m)
      else set_fields ps K V)"

fun remove_fields :: "(string \<times> json) list \<Rightarrow> string \<Rightarrow> memlog_op result" where
  "remove_fields [] K = Inr (opRemove K)"
| "remove_fields ((k, v) # ps) K =
     (if eqfold k ''k'' then bind_result (set_string v K) (\<lambda>s. remove_fields ps s)
      else remove_fields ps K)"

definition unmarshal_op :: "string \<Rightarrow> json \<Rightarrow> memlog_op result" where
  "unmarshal_op opname v =
     (if opname = opValSet then
        (case v of JObj ps \<Rightarrow> set_fields ps [] fmempty | JNull \<Rightarrow> Inr (opSet [] fmempty) | _ \<Rightarrow> Inl errUnmarshalType)
      else if opname = opValRemove then
        (case v of JObj ps \<Rightarrow> remove_fields ps [] | JNull \<Rightarrow> Inr (opRemove []) | _ \<Rightarrow> Inl errUnmarshalType)
      else Inl (ErrNew ''json: Unmarshal(nil)''))"

text \<open>One round of the loop of \<open>readLogFile\<close>: an action and its operation.\<close>

definition decodeEntry :: "error option \<Rightarrow> bytes \<Rightarrow> (memlog_op \<times> u64 \<times> bytes) result" where
  "decodeEntry rd bs =
     bind_result (dec_Decode rd bs) (\<lambda>(v, bs1).
     bind_result (unmarshal_action v) (\<lambda>act.
     bind_result (dec_Decode rd bs1) (\<lambda>(v2, bs2).
     bind_result (unmarshal_op (Op act) v2) (\<lambda>op0. Inr (op0, ID act, bs2)))))"

lemma dec_Decode_consumes: "dec_Decode rd bs = Inr (v, rest) \<Longrightarrow> length rest < length bs"
  by (auto simp: dec_Decode_def dest: run_value_consumes split: parsed.splits)

lemma decodeEntry_consumes: "decodeEntry rd bs = Inr (op0, tid, rest) \<Longrightarrow> length rest < length bs"
  by (fastforce simp: decodeEntry_def bind_result_Inr dest: dec_Decode_consumes)

function readLogLoop ::
    "(memlog_op \<Rightarrow> u64 \<Rightarrow> 's \<Rightarrow> error option \<times> 's) \<Rightarrow> error option \<Rightarrow> bytes \<Rightarrow> 's \<Rightarrow> error option \<times> 's" where
  "readLogLoop fn rd bs st =
     (if dec_More bs then
        case decodeEntry rd bs of
          Inl e \<Rightarrow> (Some e, st)
        | Inr (op0, tid, rest) \<Rightarrow>
            (case fn op0 tid st of
               (Some e, st') \<Rightarrow> (Some e, st')
             | (None, st') \<Rightarrow> readLogLoop fn rd rest st')
      else (None, st))"
  by pat_completeness auto
termination
  by (relation "measure (\<lambda>(fn, rd, bs, st). length bs)") (auto dest: decodeEntry_consumes)

declare readLogLoop.simps [simp del]

definition os_ErrInvalid :: error where "os_ErrInvalid = ErrNew ''invalid argument''"

text \<open>
  \<open>readLogFile\<close> tests the error of \<open>os.Open\<close> for a missing file only.  After any other error
  it goes on with a nil file, on which every read fails: \<open>More\<close> then reports false.
\<close>

definition readLogFile ::
    "(memlog_op \<Rightarrow> u64 \<Rightarrow> 's \<Rightarrow> error option \<times> 's) \<Rightarrow> 's \<Rightarrow> fs \<Rightarrow> (error option \<times> 's) \<times> fs" where
  "readLogFile fn st w =
     (case os_OpenFile False False 0 logFileName w of
        (Inl e, w1) \<Rightarrow>
          if IsNotExist e then ((None, st), w1)
          else (readLogLoop fn (Some os_ErrInvalid) [] st, w1)
      | (Inr f, w1) \<Rightarrow>
          (case file_ReadAll f w1 of
             ((bs, rd), w2) \<Rightarrow> (readLogLoop fn rd bs st, snd (file_Close f w2))))"

text \<open>The callback of \<open>loadLogFile\<close> on the table, the last transaction id and the entry count.\<close>

definition applyEntry ::
    "memlog_op \<Rightarrow> u64 \<Rightarrow> table \<times> u64 \<times> u64 \<Rightarrow> error option \<times> (table \<times> u64 \<times> u64)" where
  "applyEntry rawOp tid st =
     (case st of (tbl, cur, entries) \<Rightarrow>
      if isTxIDLessEqual tid cur then (None, st)
      else if tid \<noteq> cur + 1 then (Some errTxIDInvalid, st)
      else (None, (case rawOp of
              opSet k v \<Rightarrow> (memstore_Set k v tbl, tid, entries + 1)
            | opRemove k \<Rightarrow> (snd (memstore_Remove k tbl), tid, entries + 1))))"

definition loadLogFile :: "table \<Rightarrow> u64 \<Rightarrow> fs \<Rightarrow> (error option \<times> (table \<times> u64 \<times> u64)) \<times> fs" where
  "loadLogFile tbl tid w = readLogFile applyEntry (tbl, tid, 0) w"

section \<open>The meta file\<close>

definition errVersion :: "string \<Rightarrow> error" where
  "errVersion v = ErrNew (''store version '' @ v @ '' not supported'')"

definition checkMeta :: "storeMeta \<Rightarrow> error option" where
  "checkMeta meta = (if Version meta \<noteq> storeVersion then Some (errVersion (Version meta)) else None)"

definition writeMetaFile :: "memlog_env \<Rightarrow> u32 \<Rightarrow> fs \<Rightarrow> error option \<times> fs" where
  "writeMetaFile E mode w =
     (case os_OpenFile True True mode metaFileName w of
        (Inl e, w1) \<Rightarrow> (Some e, w1)
      | (Inr f, w1) \<Rightarrow>
          (case Encode (\<lambda>p (fh, w). ensure_Write 0 p fh w) (foldMeta E \<lparr>Version = storeVersion\<rparr>) (f, w1) of
             (Some e, f', w2) \<Rightarrow> (Some e, snd (file_Close f' w2))
           | (None, f', w2) \<Rightarrow>
               (case syncFile f' w2 of
                  (Inl e, w3) \<Rightarrow> (Some e, snd (file_Close f' w3))
                | (Inr u, w3) \<Rightarrow>
                    (case file_Close f' w3 of
                       (Inl e, w4) \<Rightarrow> (Some e, w4)
                     | (Inr u, w4) \<Rightarrow> (None, trySyncPath w4)))))"

fun meta_fields :: "(string \<times> json) list \<Rightarrow> storeMeta \<Rightarrow> storeMeta result" where
  "meta_fields [] m = Inr m"
| "meta_fields ((k, v) # ps) m =
     (if eqfold k ''Version'' then bind_result (set_string v (Version m)) (\<lambda>s. meta_fields ps (m\<lparr>Version := s\<rparr>))
      else meta_fields ps m)"

fun unmarshal_meta :: "json \<Rightarrow> storeMeta result" where
  "unmarshal_meta (JObj ps) = meta_fields ps \<lparr>Version = []\<rparr>"
| "unmarshal_meta JNull = Inr \<lparr>Version = []\<rparr>"
| "unmarshal_meta v = Inl errUnmarshalType"

definition readMetaFile :: "fs \<Rightarrow> storeMeta result \<times> fs" where
  "readMetaFile w =
     (case os_OpenFile False False 0 metaFileName w of
        (Inl e, w1) \<Rightarrow> (Inl e, w1)
      | (Inr f, w1) \<Rightarrow>
          (case file_ReadAll f w1 of
             ((bs, rd), w2) \<Rightarrow>
               ((case bind_result (dec_Decode rd bs) (\<lambda>(v, rest). unmarshal_meta v) of
                   Inl e \<Rightarrow> Inl (ErrWrap ''can not read store meta file'' e)
                 | Inr m \<Rightarrow> Inr m), snd (file_Close f w2))))"

section \<open>Construction\<close>

definition noDataFile :: dataFileInfo where "noDataFile = \<lparr>path = [], txid = 0\<rparr>"

definition newDiskStore ::
    "string \<Rightarrow> dataFileInfo list \<Rightarrow> u64 \<Rightarrow> u32 \<Rightarrow> u64 \<Rightarrow> bool \<Rightarrow> nat \<Rightarrow> (u64 \<Rightarrow> bool) \<Rightarrow> fs
     \<Rightarrow> diskstore result \<times> fs" where
  "newDiskStore homeDir dataFiles tid mode entries invalid bufSz pred w =
     (let s = \<lparr>checkpointPred = pred, fileMode = mode, bufferSize = bufSz, homePath = homeDir,
               logFilePath = logFileName,
               oldDataFiles = (if dataFiles \<noteq> [] then butlast dataFiles else dataFiles),
               activeDataFile = (if dataFiles \<noteq> [] then last dataFiles else noDataFile),
               nextTxID = tid + 1, logOut = None, logFileSize = 0, logEntries = entries,
               logInvalid = invalid, logNeedsTruncate = False\<rparr> in
      case os_Remove checkpointTmpFileName w of
        (r1, w1) \<Rightarrow>
          (case unlessNotExist r1 of
             Some e \<Rightarrow> (Inl e, w1)
           | None \<Rightarrow>
               (case os_Remove activeDataTmpFileName w1 of
                  (r2, w2) \<Rightarrow>
                    (case unlessNotExist r2 of
                       Some e \<Rightarrow> (Inl e, w2)
                     | None \<Rightarrow> (case tryOpenLog s w2 of (err, s', w3) \<Rightarrow> (Inr s', w3))))))"

end
