(* ===== verification/Memlog_Log.thy ===== *)
theory Memlog_Log
  imports Memlog_Diskstore
begin

text \<open>
  Facts on the update log of the memlog diskstore: what an operation appends to the file, what
  \<open>readLogFile\<close> makes of a log that such appends produced, and what it makes of a log whose
  last record is torn.

  The encoder is a parameter of the model, so the facts rest on a hypothesis on its output:
  every value is written as one JSON object that decodes to the value.
\<close>

section \<open>The encoder\<close>

definition encodes :: "folded \<Rightarrow> (json \<Rightarrow> bool) \<Rightarrow> bool" where
  "encodes v P \<longleftrightarrow> snd v = None \<and> (\<exists>ps. run SValue [] (concat (fst v)) = POk (JObj ps) [] \<and> P (JObj ps))"

text \<open>The action and the operation of a log record.\<close>

definition op_codec :: "memlog_env \<Rightarrow> memlog_op \<Rightarrow> bool" where
  "op_codec E op0 \<longleftrightarrow>
     (\<forall>tid. encodes (foldAction E \<lparr>Op = op_name op0, ID = tid\<rparr>)
        (\<lambda>j. unmarshal_action j = Inr \<lparr>Op = op_name op0, ID = tid\<rparr>))
     \<and> encodes (foldOp E op0) (\<lambda>j. unmarshal_op (op_name op0) j = Inr op0)"

text \<open>An entry of a data file: the fields of the value with the key as one more field.  A value
  that has a field of that name itself is not preserved.\<close>

definition entry_codec :: "memlog_env \<Rightarrow> string \<Rightarrow> mapstr \<Rightarrow> bool" where
  "entry_codec E key val \<longleftrightarrow>
     encodes (foldEntry E \<lparr>Key = key, EFields = val\<rparr>)
       (\<lambda>j. \<exists>ps. j = JObj ps \<and> to_pairs ps fmempty = fmupd keyField (VStr key) val)
     \<and> fmlookup val keyField = None"

definition meta_codec :: "memlog_env \<Rightarrow> bool" where
  "meta_codec E \<longleftrightarrow>
     encodes (foldMeta E \<lparr>Version = storeVersion\<rparr>) (\<lambda>j. unmarshal_meta j = Inr \<lparr>Version = storeVersion\<rparr>)"

text \<open>\<open>range\<close> visits every entry of a map once.\<close>

definition range_spec :: "memlog_env \<Rightarrow> bool" where
  "range_spec E \<longleftrightarrow> (\<forall>t. distinct (map fst (rangeTable E t)) \<and> fmap_of_list (rangeTable E t) = t)"

section \<open>Records\<close>

definition action_bytes :: "memlog_env \<Rightarrow> memlog_op \<Rightarrow> u64 \<Rightarrow> bytes" where
  "action_bytes E op0 tid = concat (fst (foldAction E \<lparr>Op = op_name op0, ID = tid\<rparr>))"

definition op_bytes :: "memlog_env \<Rightarrow> memlog_op \<Rightarrow> bytes" where
  "op_bytes E op0 = concat (fst (foldOp E op0))"

definition core_bytes :: "memlog_env \<Rightarrow> memlog_op \<Rightarrow> u64 \<Rightarrow> bytes" where
  "core_bytes E op0 tid = action_bytes E op0 tid @ [nl] @ op_bytes E op0"

definition record_bytes :: "memlog_env \<Rightarrow> memlog_op \<Rightarrow> u64 \<Rightarrow> bytes" where
  "record_bytes E op0 tid = core_bytes E op0 tid @ [nl]"

lemma is_ws_nl [simp]: "is_ws nl"
  by (simp add: is_ws_def)

lemma op_codecD:
  assumes "op_codec E op0"
  shows "snd (foldAction E \<lparr>Op = op_name op0, ID = tid\<rparr>) = None"
    and "snd (foldOp E op0) = None"
    and "\<exists>ps. run SValue [] (action_bytes E op0 tid) = POk (JObj ps) []
      \<and> unmarshal_action (JObj ps) = Inr \<lparr>Op = op_name op0, ID = tid\<rparr>"
    and "\<exists>ps. run SValue [] (op_bytes E op0) = POk (JObj ps) [] \<and> unmarshal_op (op_name op0) (JObj ps) = Inr op0"
  using assms unfolding op_codec_def encodes_def action_bytes_def op_bytes_def by blast+

text \<open>A complete record is decoded; what follows it stays in the stream.\<close>

lemma decodeEntry_core:
  assumes "op_codec E op0"
  shows "decodeEntry rd (core_bytes E op0 tid @ rest) = Inr (op0, tid, rest)"
    and "dec_More (core_bytes E op0 tid @ rest)"
proof -
  obtain ps where a: "run SValue [] (action_bytes E op0 tid) = POk (JObj ps) []"
      "unmarshal_action (JObj ps) = Inr \<lparr>Op = op_name op0, ID = tid\<rparr>"
    using op_codecD(3) [OF assms] by blast
  obtain qs where o: "run SValue [] (op_bytes E op0) = POk (JObj qs) []"
      "unmarshal_op (op_name op0) (JObj qs) = Inr op0"
    using op_codecD(4) [OF assms] by blast
  have 1: "dec_Decode rd (core_bytes E op0 tid @ rest) = Inr (JObj ps, nl # op_bytes E op0 @ rest)"
    using run_append [OF a(1), of "nl # op_bytes E op0 @ rest"] by (simp add: dec_Decode_def core_bytes_def)
  have 2: "dec_Decode rd (nl # op_bytes E op0 @ rest) = Inr (JObj qs, rest)"
    using run_append [OF o(1), of rest] by (simp add: dec_Decode_def)
  show "decodeEntry rd (core_bytes E op0 tid @ rest) = Inr (op0, tid, rest)"
    using 1 2 a(2) o(2) by (simp add: decodeEntry_def del: unmarshal_action.simps)
  show "dec_More (core_bytes E op0 tid @ rest)"
    using run_value_More [OF a(1), of "nl # op_bytes E op0 @ rest"] by (simp add: core_bytes_def)
qed

text \<open>White space between records is skipped.\<close>

lemma dec_Decode_ws: "is_ws c \<Longrightarrow> dec_Decode rd (c # bs) = dec_Decode rd bs"
  by (auto simp: dec_Decode_def split: parsed.splits option.splits)

lemma readLogLoop_ws:
  assumes "is_ws c"
  shows "readLogLoop fn rd (c # bs) st = readLogLoop fn rd bs st"
proof -
  have "dec_More (c # bs) = dec_More bs" using assms by (simp add: dec_More_def)
  moreover have "decodeEntry rd (c # bs) = decodeEntry rd bs" using assms by (simp add: decodeEntry_def dec_Decode_ws)
  ultimately show ?thesis by (subst (1 2) readLogLoop.simps) simp
qed

lemma readLogLoop_core:
  assumes "op_codec E op0"
  shows "readLogLoop fn rd (core_bytes E op0 tid @ rest) st =
     (case fn op0 tid st of (Some e, st') \<Rightarrow> (Some e, st') | (None, st') \<Rightarrow> readLogLoop fn rd rest st')"
  by (subst readLogLoop.simps) (simp add: decodeEntry_core [OF assms])

lemma readLogLoop_empty [simp]: "readLogLoop fn rd [] st = (None, st)"
  by (subst readLogLoop.simps) (simp add: dec_More_def)

text \<open>A record whose end is missing: the callback is not called, unless only the final newline is missing.\<close>

lemma dec_Decode_torn:
  assumes "run SValue [] (xs @ ys) = POk (JObj ps) []" and "ys \<noteq> []"
  shows "\<exists>e. dec_Decode rd xs = Inl e"
  using run_torn [OF assms(1)] assms(2) by (simp add: dec_Decode_def)

lemma readLogLoop_torn:
  assumes "op_codec E op0" and "strict_prefix tail (core_bytes E op0 tid)"
  shows "\<exists>e. readLogLoop fn rd tail st = (e, st) \<and> (e = None \<longrightarrow> (\<forall>c \<in> set tail. is_ws c))"
proof -
  obtain ps where a: "run SValue [] (action_bytes E op0 tid) = POk (JObj ps) []"
      "unmarshal_action (JObj ps) = Inr \<lparr>Op = op_name op0, ID = tid\<rparr>"
    using op_codecD(3) [OF assms(1)] by blast
  obtain qs where o: "run SValue [] (op_bytes E op0) = POk (JObj qs) []"
    using op_codecD(4) [OF assms(1)] by blast
  obtain ys where ys: "action_bytes E op0 tid @ [nl] @ op_bytes E op0 = tail @ ys" "ys \<noteq> []"
    using assms(2) unfolding strict_prefix_def prefix_def core_bytes_def by (metis append_Nil2)
  have "\<exists>e. decodeEntry rd tail = Inl e"
  proof (cases "length tail < length (action_bytes E op0 tid)")
    case True
    then obtain zs where "action_bytes E op0 tid = tail @ zs" "zs \<noteq> []"
      using ys(1) by (metis append_eq_append_conv_if append_take_drop_id drop_eq_Nil less_le_not_le nat_less_le)
    with a(1) have "\<exists>e. dec_Decode rd tail = Inl e" using dec_Decode_torn by metis
    then show ?thesis by (auto simp: decodeEntry_def)
  next
    case False
    then obtain zs where zs: "tail = action_bytes E op0 tid @ zs" "[nl] @ op_bytes E op0 = zs @ ys"
      using ys(1) by (metis append_eq_append_conv_if append_eq_conv_conj not_less)
    have 1: "dec_Decode rd tail = Inr (JObj ps, zs)"
      using run_append [OF a(1), of zs] zs(1) by (simp add: dec_Decode_def)
    have "\<exists>e. dec_Decode rd zs = Inl e"
    proof (cases zs)
      case Nil
      then show ?thesis by (simp add: dec_Decode_def)
    next
      case (Cons z zs')
      then have "z = nl" "op_bytes E op0 = zs' @ ys" using zs(2) by auto
      then show ?thesis using o dec_Decode_torn ys(2) Cons dec_Decode_ws is_ws_nl by metis
    qed
    then show ?thesis using 1 a(2) by (auto simp: decodeEntry_def)
  qed
  moreover have "\<forall>c \<in> set tail. is_ws c" if "\<not> dec_More tail"
  proof (rule ccontr)
    assume ws: "\<not> (\<forall>c \<in> set tail. is_ws c)"
    then obtain c cs where c: "skip_ws tail = c # cs" by (metis dropWhile_eq_Nil_conv neq_Nil_conv)
    then have "skip_ws (tail @ ys) = c # cs @ ys" using ws by (metis append_Cons dropWhile_append1)
    moreover have "dec_More (tail @ ys)"
      using decodeEntry_core(2) [OF assms(1), of tid "[]"] ys(1) by (simp add: core_bytes_def)
    ultimately show False using c that by (simp add: dec_More_def)
  qed
  ultimately show ?thesis by (subst readLogLoop.simps) auto
qed

section \<open>Logs\<close>

fun replay :: "(memlog_op \<Rightarrow> u64 \<Rightarrow> 's \<Rightarrow> error option \<times> 's) \<Rightarrow> (memlog_op \<times> u64) list \<Rightarrow> 's \<Rightarrow> error option \<times> 's" where
  "replay fn [] st = (None, st)"
| "replay fn ((op0, tid) # es) st =
     (case fn op0 tid st of (Some e, st') \<Rightarrow> (Some e, st') | (None, st') \<Rightarrow> replay fn es st')"

lemma replay_append:
  "replay fn (es @ fs) st =
     (case replay fn es st of (Some e, st') \<Rightarrow> (Some e, st') | (None, st') \<Rightarrow> replay fn fs st')"
  by (induction fn es st rule: replay.induct) (auto split: prod.splits option.splits)

text \<open>The bytes of a log that holds these records, with white space between them.\<close>

inductive log_of :: "memlog_env \<Rightarrow> (memlog_op \<times> u64) list \<Rightarrow> bytes \<Rightarrow> bool" for E where
  log_nil: "log_of E [] []"
| log_snoc: "log_of E es L \<Longrightarrow> op_codec E op0 \<Longrightarrow> log_of E (es @ [(op0, tid)]) (L @ core_bytes E op0 tid)"
| log_ws: "log_of E es L \<Longrightarrow> is_ws c \<Longrightarrow> log_of E es (L @ [c])"

lemma log_record: "log_of E es L \<Longrightarrow> op_codec E op0 \<Longrightarrow> log_of E (es @ [(op0, tid)]) (L @ record_bytes E op0 tid)"
  using log_ws [OF log_snoc is_ws_nl] by (simp add: record_bytes_def)

lemma readLogLoop_log_of:
  assumes "log_of E es L" and "replay fn es st = (None, st')"
  shows "readLogLoop fn rd (L @ rest) st = readLogLoop fn rd rest st'"
  using assms
proof (induction arbitrary: st' rest rule: log_of.induct)
  case (log_snoc es L op0 tid)
  then obtain st1 where 1: "replay fn es st = (None, st1)" "fn op0 tid st1 = (None, st')"
    by (auto simp: replay_append split: prod.splits option.splits)
  then show ?case using log_snoc.IH [OF 1(1)] by (simp add: readLogLoop_core [OF log_snoc.hyps(2)])
next
  case (log_ws es L c)
  then show ?case by (simp add: readLogLoop_ws)
qed simp

text \<open>
  A prefix of a log with one more record reads as the log without that record or as the log
  with it, and nothing in between.
\<close>

lemma log_torn_cases:
  assumes "op_codec E op0" and "prefix tail (record_bytes E op0 tid)"
  obtains (whole) "tail = record_bytes E op0 tid \<or> tail = core_bytes E op0 tid"
  | (torn) "strict_prefix tail (core_bytes E op0 tid)"
  using assms(2) unfolding record_bytes_def prefix_snoc by (metis strict_prefixI)

section \<open>Logging an operation\<close>

lemma writeLogEntry_writes:
  assumes "writeLogEntry E tid op0 (cnt, st) = (err, cnt', st')" and "op_codec E op0"
    and "wgood st" and "st_err st = None"
  shows "writes (record_bytes E op0 tid) st st' \<and> (err = None \<longleftrightarrow> st_err st' = None)
    \<and> (err = None \<longrightarrow> st_buf st' = []) \<and> wgood st'"
proof -
  obtain e1 cst1 where 1: "Encode count_Write (foldAction E \<lparr>Op = op_name op0, ID = tid\<rparr>) (cnt, st) = (e1, cst1)"
    by (metis prod.exhaust)
  note a = Encode_counted [OF 1 assms(3) op_codecD(1) [OF assms(2)], folded action_bytes_def]
  obtain cnt1 st1 where c1: "cst1 = (cnt1, st1)" by (metis prod.exhaust)
  show ?thesis
  proof (cases e1)
    case (Some x)
    then have "err = e1" "st' = st1" using assms(1) 1 c1 by (auto simp: writeLogEntry_def)
    then show ?thesis using a Some c1 writes_cut [of "action_bytes E op0 tid" st st1]
      by (auto simp: record_bytes_def core_bytes_def)
  next
    case None
    obtain e2 st2 where 2: "bw_WriteByte nl st1 = (e2, st2)" by (metis prod.exhaust)
    obtain e3 cst3 where 3: "Encode count_Write (foldOp E op0) (cnt1, st2) = (e3, cst3)" by (metis prod.exhaust)
    obtain cnt3 st3 where c3: "cst3 = (cnt3, st3)" by (metis prod.exhaust)
    have b: "writes [nl] st1 st2" "wgood st2" using bw_WriteByte_step [OF 2] a c1 by auto
    note c = Encode_counted [OF 3 b(2) op_codecD(2) [OF assms(2)], folded op_bytes_def]
    have core: "writes (core_bytes E op0 tid) st st3"
      using writes_trans [OF writes_trans [of "action_bytes E op0 tid" st st1 "[nl]" st2] , of "op_bytes E op0" st3]
        a b c c1 c3 by (simp add: core_bytes_def)
    show ?thesis
    proof (cases e3)
      case (Some x)
      then have "err = e3" "st' = st3" using assms(1) 1 2 3 c1 c3 None by (auto simp: writeLogEntry_def)
      then show ?thesis using c c3 Some writes_cut [OF core, of "[nl]"] by (auto simp: record_bytes_def)
    next
      case n3: None
      obtain e4 st4 where 4: "bw_WriteByte nl st3 = (e4, st4)" by (metis prod.exhaust)
      obtain e5 st5 where 5: "bw_Flush st4 = (e5, st5)" by (metis prod.exhaust)
      have r: "err = e5" "st' = st5" using assms(1) 1 2 3 4 5 c1 c3 None n3 by (auto simp: writeLogEntry_def)
      have d: "writes [nl] st3 st4" "wgood st4" using bw_WriteByte_step [OF 4] c c3 by auto
      have "writes (record_bytes E op0 tid) st st5"
        using writes_trans [OF writes_trans [OF core d(1)] conjunct1 [OF bw_Flush_writes [OF 5]]]
        by (simp add: record_bytes_def)
      then show ?thesis using bw_Flush_writes [OF 5] bw_Flush_good [OF 5 d(2)] r by simp
    qed
  qed
qed

text \<open>The log file is open at its end and the writer has nothing buffered.\<close>

definition log_open :: "diskstore \<Rightarrow> u32 \<Rightarrow> bytes \<Rightarrow> fs \<Rightarrow> bool" where
  "log_open s m L w \<longleftrightarrow>
     (\<exists>fh b. logOut s = Some (fh, b) \<and> at_end logFileName m L fh w
        \<and> bw_buf b = [] \<and> bw_err b = None \<and> 0 < bw_size b)"

lemma LogOperation_open:
  assumes run: "LogOperation E op0 s w = (err, s', w')" and codec: "op_codec E op0"
    and valid: "\<not> logInvalid s" and "log_open s m L w"
  obtains L' n where "w' = set_file logFileName m L' (faults w') w" and "prefix L L'"
    and "prefix L' (L @ record_bytes E op0 (nextTxID s))"
    and "faults w = [] \<longrightarrow> err = None \<and> faults w' = []"
    and "err = None \<longrightarrow> L' = L @ record_bytes E op0 (nextTxID s) \<and> log_open s' m L' w'
       \<and> s' = s\<lparr>logOut := logOut s', logFileSize := n, logEntries := logEntries s + 1, nextTxID := nextTxID s + 1\<rparr>"
    and "err \<noteq> None \<longrightarrow> s' = s\<lparr>logOut := logOut s', logFileSize := n, logInvalid := True\<rparr>
       \<and> (\<exists>fh b. logOut s' = Some (fh, b) \<and> fh_name fh = logFileName \<and> bw_err b \<noteq> None)"
proof -
  obtain fh b where o: "logOut s = Some (fh, b)" "at_end logFileName m L fh w" "bw_buf b = []" "bw_err b = None" "0 < bw_size b"
    using assms(4) by (auto simp: log_open_def)
  let ?st = "(b, fh, w)"
  obtain e cnt st' where wr: "writeLogEntry E (nextTxID s) op0 (0, ?st) = (e, cnt, st')" by (metis prod.exhaust)
  obtain b' fh' w1 where st': "st' = (b', fh', w1)" by (metis prod.exhaust)
  have good: "wgood ?st" "wok logFileName m L ?st" using o by (simp_all add: wgood_def wok_def)
  note W = writeLogEntry_writes [OF wr codec good(1)]
  have W: "writes (record_bytes E op0 (nextTxID s)) ?st st'" "(e = None \<longleftrightarrow> bw_err b' = None)"
    "e = None \<longrightarrow> bw_buf b' = []" "wgood st'"
    using W o st' by auto
  obtain L' where L': "wok logFileName m L' st'" "w1 = set_file logFileName m L' (faults w1) w" "prefix L L'"
      "prefix L' (L @ record_bytes E op0 (nextTxID s))"
      "bw_err b' = None \<longrightarrow> L' @ bw_buf b' = L @ record_bytes E op0 (nextTxID s)"
      "faults w = [] \<longrightarrow> faults w1 = [] \<and> bw_err b' = None"
    using W(1) good(2) o(3,4) st' unfolding writes_def by fastforce
  have res: "err = e" "w' = w1"
    "s' = (case e of Some x \<Rightarrow> s\<lparr>logOut := Some (fh', b'), logFileSize := logFileSize s + cnt, logInvalid := True\<rparr>
       | None \<Rightarrow> s\<lparr>logOut := Some (fh', b'), logFileSize := logFileSize s + cnt,
            logEntries := logEntries s + 1, nextTxID := nextTxID s + 1\<rparr>)"
    using run valid o(1) wr st' by (auto simp: LogOperation_def Let_def split: option.splits)
  have fh': "at_end logFileName m L' fh' w1" "0 < bw_size b'"
    using L'(1) st' by (auto simp: wok_def)
  show thesis
  proof (rule that [of L' "logFileSize s + cnt"])
    show "w' = set_file logFileName m L' (faults w') w" using L'(2) res(2) by simp
    show "prefix L L'" by (rule L'(3))
    show "prefix L' (L @ record_bytes E op0 (nextTxID s))" by (rule L'(4))
    show "faults w = [] \<longrightarrow> err = None \<and> faults w' = []" using L'(6) W(2) res by simp
    show "err = None \<longrightarrow> L' = L @ record_bytes E op0 (nextTxID s) \<and> log_open s' m L' w'
       \<and> s' = s\<lparr>logOut := logOut s', logFileSize := logFileSize s + cnt, logEntries := logEntries s + 1, nextTxID := nextTxID s + 1\<rparr>"
      using L'(5) W fh' res by (auto simp: log_open_def)
    show "err \<noteq> None \<longrightarrow> s' = s\<lparr>logOut := logOut s', logFileSize := logFileSize s + cnt, logInvalid := True\<rparr>
       \<and> (\<exists>fh b. logOut s' = Some (fh, b) \<and> fh_name fh = logFileName \<and> bw_err b \<noteq> None)"
      using W(2) fh' res by (auto simp: at_end_def)
  qed
qed

end
