(* ===== verification/Memlog_Files.thy ===== *)
theory Memlog_Files
  imports Memlog_Diskstore
begin

text \<open>
  Facts on the names and the order of data files: a data file's name gives back its transaction
  id, \<open>isTxIDLessEqual\<close> orders ids that lie in one half of the ring of 64-bit integers, and
  \<open>listDataFiles\<close> puts the newest file last.
\<close>

section \<open>Names\<close>

lemma digits_value_append:
  "digits_value n (xs @ ys) = (case digits_value n xs of None \<Rightarrow> None | Some k \<Rightarrow> digits_value k ys)"
  by (induction n xs rule: digits_value.induct) auto

lemma of_char_digit: "d < 10 \<Longrightarrow> (of_char (char_of (48 + d)) :: nat) = 48 + d"
  by simp

lemma digits_value_digit: "d < 10 \<Longrightarrow> digits_value n [char_of (48 + d)] = Some (10 * n + d)"
  by (simp add: is_digit_def)

lemma digits_value_show_nat: "digits_value 0 (show_nat k) = Some k"
proof (induction k rule: show_nat.induct)
  case (1 k)
  show ?case
  proof (cases "k < 10")
    case True
    then show ?thesis using digits_value_digit [of k 0] by (subst show_nat.simps) simp
  next
    case False
    then show ?thesis using 1 digits_value_digit [of "k mod 10" "k div 10"]
      by (subst show_nat.simps) (simp add: digits_value_append)
  qed
qed

lemma show_nat_nonempty [simp]: "show_nat k \<noteq> []"
  by (subst show_nat.simps) simp

lemma ParseUint_show_nat: "ParseUint (show_nat (unat x)) = Some x" for x :: u64
  using unsigned_less [of x] by (simp add: ParseUint_def digits_value_show_nat)

text \<open>A name that \<open>listDataFiles\<close> takes for a data file, and the id it reads from it.\<close>

definition data_name :: "string \<Rightarrow> u64 \<Rightarrow> bool" where
  "data_name n tid \<longleftrightarrow> json_suffix n \<and> ParseUint (take (length n - 5) n) = Some tid"

lemma data_name_fun: "data_name n a \<Longrightarrow> data_name n b \<Longrightarrow> a = b"
  by (simp add: data_name_def)

lemma data_name_dataFileName: "data_name (dataFileName tid) tid"
  by (simp add: data_name_def dataFileName_def json_suffix_def suffix_def ParseUint_show_nat)

lemma data_name_other [simp]:
  "\<not> data_name logFileName tid" "\<not> data_name metaFileName tid" "\<not> data_name activeDataFileName tid"
  "\<not> data_name activeDataTmpFileName tid" "\<not> data_name checkpointTmpFileName tid" "\<not> data_name [] tid"
  by (simp_all add: data_name_def json_suffix_def suffix_def logFileName_def metaFileName_def
      activeDataFileName_def activeDataTmpFileName_def checkpointTmpFileName_def ParseUint_def is_digit_def
      append_eq_Cons_conv)

section \<open>The order of transaction ids\<close>

text \<open>Seen from a later id \<open>c\<close>, less than \<open>2 ^ 63\<close> away, an id is the smaller the longer ago it was.\<close>

definition age :: "u64 \<Rightarrow> u64 \<Rightarrow> nat" where
  "age c a = unat (c - a)"

lemma age_self [simp]: "age c c = 0"
  by (simp add: age_def)

lemma age_inj: "age c a = age c b \<Longrightarrow> a = b"
  by (simp add: age_def word_unat_eq_iff [symmetric])

lemma age_Suc: "age c a < 2 ^ 64 - 1 \<Longrightarrow> age (c + 1) a = age c a + 1"
proof -
  assume less: "age c a < 2 ^ 64 - 1"
  have "1 + (c - a) \<noteq> 0"
  proof
    assume "1 + (c - a) = 0"
    then have "c - a = - 1" by (metis add.commute eq_neg_iff_add_eq_0)
    then have "age c a = 2 ^ 64 - 1" by (simp add: age_def unsigned_minus_1_eq_mask mask_eq_exp_minus_1)
    with less show False by simp
  qed
  then have "unat (1 + (c - a)) = Suc (unat (c - a))" by (rule unatSuc)
  then show ?thesis by (simp add: age_def algebra_simps)
qed

lemma sint_diff_age:
  assumes "age c a < 2 ^ 63" and "age c b < 2 ^ 63"
  shows "sint (a - b) = int (age c b) - int (age c a)"
proof -
  let ?d = "uint (c - b) - uint (c - a)"
  have int: "int (age c b) - int (age c a) = ?d" by (simp add: age_def)
  have "int (age c a) < 2 ^ 63" "int (age c b) < 2 ^ 63"
    using assms by (metis of_nat_less_iff of_nat_numeral of_nat_power)+
  then have less: "- (2 ^ 63) \<le> ?d" "?d < 2 ^ 63" unfolding int [symmetric] by linarith+
  have sub: "uint (y - x) = (uint y - uint x) mod 2 ^ 64" for x y :: u64 by (simp add: uint_word_ariths)
  have "uint (a - b) = uint ((c - b) - (c - a))" by simp
  also have "\<dots> = ?d mod 2 ^ 64" by (rule sub)
  finally have "sint (a - b) = (?d mod 2 ^ 64 + 2 ^ 63) mod 2 ^ 64 - 2 ^ 63"
    by (simp add: sint_uint signed_take_bit_eq_take_bit_shift take_bit_eq_mod)
  also have "\<dots> = (?d + 2 ^ 63) mod 2 ^ 64 - 2 ^ 63" by (simp only: mod_add_left_eq)
  also have "(?d + 2 ^ 63) mod 2 ^ 64 = ?d + 2 ^ 63" using less by (intro mod_pos_pos_trivial) simp_all
  finally show ?thesis using int by simp
qed

lemma isTxIDLessEqual_age:
  assumes "age c a < 2 ^ 63" and "age c b < 2 ^ 63"
  shows "isTxIDLessEqual a b \<longleftrightarrow> age c b \<le> age c a"
  using sint_diff_age [OF assms] by (simp add: isTxIDLessEqual_def)

section \<open>Sorting\<close>

definition in_window :: "u64 \<Rightarrow> dataFileInfo list \<Rightarrow> bool" where
  "in_window c fs \<longleftrightarrow> (\<forall>f \<in> set fs. age c (txid f) < 2 ^ 63)"

lemma set_insertLeft [simp]: "set (insertLeft x ys) = insert x (set ys)"
  by (induction ys) auto

lemma mset_insertLeft [simp]: "mset (insertLeft x ys) = add_mset x (mset ys)"
  by (induction ys) auto

lemma sorted_insertLeft:
  assumes "in_window c (x # ys)" and "sorted (map (age c \<circ> txid) ys)"
  shows "sorted (map (age c \<circ> txid) (insertLeft x ys))"
  using assms by (induction ys) (auto simp: in_window_def isTxIDLessEqual_age)

lemma foldl_insertLeft:
  "mset (foldl (\<lambda>acc x. insertLeft x acc) acc xs) = mset acc + mset xs"
  by (induction xs arbitrary: acc) auto

lemma sorted_foldl_insertLeft:
  assumes "in_window c (acc @ xs)" and "sorted (map (age c \<circ> txid) acc)"
  shows "sorted (map (age c \<circ> txid) (foldl (\<lambda>acc x. insertLeft x acc) acc xs))"
  using assms
proof (induction xs arbitrary: acc)
  case (Cons x xs)
  have "in_window c (x # acc)" using Cons.prems(1) by (simp add: in_window_def)
  note s = sorted_insertLeft [OF this Cons.prems(2)]
  have "in_window c (insertLeft x acc @ xs)" using Cons.prems(1) by (simp add: in_window_def)
  from Cons.IH [OF this s] show ?case by simp
qed simp

lemma mset_sortDataFileInfos [simp]: "mset (sortDataFileInfos fs) = mset fs"
  by (simp add: sortDataFileInfos_def foldl_insertLeft)

lemma set_sortDataFileInfos [simp]: "set (sortDataFileInfos fs) = set fs"
  by (metis mset_sortDataFileInfos set_mset_mset)

text \<open>Within a window the files come out from the oldest to the newest.\<close>

lemma sortDataFileInfos_sorted:
  assumes "in_window c fs"
  shows "sorted (rev (map (age c \<circ> txid) (sortDataFileInfos fs)))"
  using sorted_foldl_insertLeft [of c "[]" fs] assms by (simp add: sortDataFileInfos_def rev_map)

lemma sorted_rev_last:
  assumes "sorted (rev (map g fs))" and "f \<in> set fs"
  shows "g (last fs) \<le> (g f :: nat)"
proof -
  have ne: "fs \<noteq> []" using assms(2) by auto
  have fs: "fs = butlast fs @ [last fs]" using ne by simp
  have "sorted (rev (map g (butlast fs @ [last fs])))" using assms(1) fs by simp
  then have "\<forall>x \<in> set (butlast fs). g (last fs) \<le> g x" by simp
  moreover have "f = last fs \<or> f \<in> set (butlast fs)" using assms(2) fs
    by (metis Un_iff empty_iff insert_iff list.set(1,2) set_append)
  ultimately show ?thesis by auto
qed

section \<open>Listing\<close>

text \<open>Without faults \<open>listDataFiles\<close> returns the regular files of the directory whose name is that of a
  data file, each once.\<close>

definition is_data_file :: "fs \<Rightarrow> dataFileInfo \<Rightarrow> bool" where
  "is_data_file w f \<longleftrightarrow> data_name (path f) (txid f) \<and> (\<exists>d m. fmlookup (dir w) (path f) = Some (RegFile d m))"

lemma dataFileInfos_no_faults:
  assumes "faults w = []" and "\<forall>n \<in> set ns. fmlookup (dir w) n \<noteq> None \<and> json_suffix n" and "distinct ns"
  shows "\<exists>fs. dataFileInfos ns w = (Inr fs, w) \<and> distinct (map path fs)
     \<and> set fs = {f. path f \<in> set ns \<and> is_data_file w f}"
  using assms
proof (induction ns)
  case Nil
  then show ?case by simp
next
  case (Cons n ns)
  then obtain fs where fs: "dataFileInfos ns w = (Inr fs, w)" "distinct (map path fs)"
      "set fs = {f. path f \<in> set ns \<and> is_data_file w f}" by auto
  have js: "json_suffix n" using Cons.prems(2) by simp
  obtain nd where nd: "fmlookup (dir w) n = Some nd" using Cons.prems(2) by auto
  show ?case
  proof (cases nd)
    case SubDir
    then have "dataFileInfos (n # ns) w = (Inr fs, w)"
      using Cons.prems(1) nd fs(1) by (simp add: os_Lstat_regular_def fs_simps)
    moreover have "{f. path f \<in> set (n # ns) \<and> is_data_file w f} = set fs"
      using fs(3) nd SubDir by (auto simp: is_data_file_def)
    ultimately show ?thesis using fs(2) by simp
  next
    case (RegFile d m)
    then have run: "dataFileInfos (n # ns) w = (Inr (case ParseUint (take (length n - 5) n) of
        Some tid \<Rightarrow> \<lparr>path = n, txid = tid\<rparr> # fs | None \<Rightarrow> fs), w)"
      using Cons.prems(1) nd fs(1) by (simp add: os_Lstat_regular_def fs_simps split: option.splits)
    have "n \<notin> path ` set fs" using Cons.prems(3) fs(3) by auto
    moreover have "{f. path f \<in> set (n # ns) \<and> is_data_file w f} =
        (case ParseUint (take (length n - 5) n) of Some tid \<Rightarrow> insert \<lparr>path = n, txid = tid\<rparr> (set fs) | None \<Rightarrow> set fs)"
      using fs(3) nd RegFile js by (auto simp: is_data_file_def data_name_def split: option.splits)
    ultimately show ?thesis using run fs(2) by (auto split: option.splits)
  qed
qed

lemma is_data_file_json: "is_data_file w f \<Longrightarrow> json_suffix (path f) \<and> path f |\<in>| fmdom (dir w)"
  by (auto simp: is_data_file_def data_name_def fmdomI)

lemma listDataFiles_no_faults:
  assumes "faults w = []"
  obtains fs where "listDataFiles w = (Inr fs, w)" and "distinct (map path fs)" and "set fs = {f. is_data_file w f}"
    and "\<forall>c. in_window c fs \<longrightarrow> sorted (rev (map (age c \<circ> txid) fs))"
proof -
  let ?ns = "filter json_suffix (sorted_list_of_fset (fmdom (dir w)))"
  have ns: "set ?ns = {n. json_suffix n \<and> n |\<in>| fmdom (dir w)}" by auto
  have "\<forall>n \<in> set ?ns. fmlookup (dir w) n \<noteq> None \<and> json_suffix n" unfolding ns by auto
  moreover have "distinct ?ns" by (simp add: sorted_list_of_fset.rep_eq)
  ultimately obtain fs where fs: "dataFileInfos ?ns w = (Inr fs, w)" "distinct (map path fs)"
      "set fs = {f. path f \<in> set ?ns \<and> is_data_file w f}"
    using dataFileInfos_no_faults [OF assms, of ?ns] by blast
  have set: "set fs = {f. is_data_file w f}" using fs(3) is_data_file_json by (auto simp: ns)
  have glob: "filepath_Glob_json w = (?ns, w)" by (simp add: filepath_Glob_json_def next_fault_empty assms)
  show thesis
  proof (cases "length fs \<le> 1")
    case True
    show thesis
    proof (rule that [of fs])
      show "listDataFiles w = (Inr fs, w)" using glob fs(1) True by (simp add: listDataFiles_def)
      show "\<forall>c. in_window c fs \<longrightarrow> sorted (rev (map (age c \<circ> txid) fs))"
        using True by (cases fs) auto
    qed (use fs(2) set in auto)
  next
    case False
    show thesis
    proof (rule that [of "sortDataFileInfos fs"])
      show "listDataFiles w = (Inr (sortDataFileInfos fs), w)" using glob fs(1) False by (simp add: listDataFiles_def)
      show "distinct (map path (sortDataFileInfos fs))"
        using fs(2) by (metis distinct_map mset_eq_imp_distinct_iff mset_sortDataFileInfos set_sortDataFileInfos)
      show "\<forall>c. in_window c (sortDataFileInfos fs) \<longrightarrow> sorted (rev (map (age c \<circ> txid) (sortDataFileInfos fs)))"
        using sortDataFileInfos_sorted by (auto simp: in_window_def)
    qed (use set in auto)
  qed
qed

end
