(* ===== verification/Memlog_Checkpoint.thy ===== *)
theory Memlog_Checkpoint
  imports Memlog_Log Memlog_Files
begin

text \<open>
  Facts on checkpoints: the bytes of a data file, that \<open>loadDataFile\<close> reads back the table it was
  written from, and what each step of \<open>WriteCheckpoint\<close> changes in the home directory.
\<close>

section \<open>The bytes of a data file\<close>

fun tmp_bytes :: "memlog_env \<Rightarrow> bool \<Rightarrow> (string \<times> mapstr) list \<Rightarrow> bytes" where
  "tmp_bytes E first [] = []"
| "tmp_bytes E first ((key, val) # rest) =
     (if first then [nl] else [CHR '','', nl]) @ concat (fst (foldEntry E \<lparr>Key = key, EFields = val\<rparr>))
     @ tmp_bytes E False rest"

definition data_bytes :: "memlog_env \<Rightarrow> table \<Rightarrow> bytes" where
  "data_bytes E t = [CHR ''[''] @ tmp_bytes E True (rangeTable E t) @ [nl, CHR '']'']"

abbreviation entries_codec :: "memlog_env \<Rightarrow> (string \<times> mapstr) list \<Rightarrow> bool" where
  "entries_codec E kvs \<equiv> \<forall>(key, val) \<in> set kvs. entry_codec E key val"

text \<open>The JSON object of an entry.\<close>

definition entry_json :: "string \<times> mapstr \<Rightarrow> json \<Rightarrow> bool" where
  "entry_json kv j \<longleftrightarrow> fmlookup (snd kv) keyField = None
     \<and> (\<exists>ps. j = JObj ps \<and> to_pairs ps fmempty = fmupd keyField (VStr (fst kv)) (snd kv))"

lemma entry_codecD:
  assumes "entry_codec E key val"
  obtains j where "run SValue [] (concat (fst (foldEntry E \<lparr>Key = key, EFields = val\<rparr>))) = POk j []"
    and "entry_json (key, val) j" and "\<not> is_num j"
  using assms by (auto simp: entry_codec_def encodes_def entry_json_def)

lemma run_in_array:
  assumes "run SValue [] xs = POk j []" and "\<not> is_num j"
  shows "run SValue [InArr vs] (xs @ rest) = run SAfter [InArr (j # vs)] rest"
  using run_frame [OF assms, of "[InArr vs]" rest] by (simp add: resume_def)

lemma run_first_in_array:
  assumes "run SValue [] xs = POk j []" and "\<not> is_num j"
  shows "run SValueOrEnd [InArr vs] (xs @ rest) = run SValue [InArr vs] (xs @ rest)"
proof -
  have *: "run SValueOrEnd st ys = run SValue st ys" if "skip_ws ys = c # cs" "c \<noteq> CHR '']''" for st ys c cs
    using that by (induction ys) (auto split: if_splits)
  have "dec_More (xs @ rest)" using run_value_More [OF assms(1)] .
  then show ?thesis using * unfolding dec_More_def by (cases "skip_ws (xs @ rest)") auto
qed

lemma run_entries:
  assumes "entries_codec E kvs"
  shows "\<exists>js. list_all2 entry_json kvs js \<and>
     run SAfter [InArr vs] (tmp_bytes E False kvs @ [nl, CHR '']'']) = POk (JArr (rev vs @ js)) []"
  using assms
proof (induction kvs arbitrary: vs)
  case Nil
  then show ?case by (simp add: is_ws_def)
next
  case (Cons kv kvs)
  obtain key val where kv: "kv = (key, val)" by fastforce
  obtain j where j: "run SValue [] (concat (fst (foldEntry E \<lparr>Key = key, EFields = val\<rparr>))) = POk j []"
      "entry_json (key, val) j" "\<not> is_num j"
    using Cons.prems kv by (auto elim: entry_codecD)
  obtain js where js: "list_all2 entry_json kvs js"
     "run SAfter [InArr (j # vs)] (tmp_bytes E False kvs @ [nl, CHR '']'']) = POk (JArr (rev (j # vs) @ js)) []"
    using Cons.IH [of "j # vs"] Cons.prems by auto
  show ?case using js j(2) kv run_in_array [OF j(1,3), of vs]
    by (intro exI [of _ "j # js"]) (simp add: is_ws_def)
qed

lemma run_data_bytes:
  assumes "entries_codec E (rangeTable E t)"
  shows "\<exists>js. list_all2 entry_json (rangeTable E t) js \<and> run SValue [] (data_bytes E t) = POk (JArr js) []"
proof (cases "rangeTable E t")
  case Nil
  then show ?thesis by (simp add: data_bytes_def begin_value_def is_ws_def)
next
  case (Cons kv kvs)
  obtain key val where kv: "kv = (key, val)" by fastforce
  obtain j where j: "run SValue [] (concat (fst (foldEntry E \<lparr>Key = key, EFields = val\<rparr>))) = POk j []"
      "entry_json (key, val) j" "\<not> is_num j"
    using assms Cons kv by (auto elim: entry_codecD)
  obtain js where js: "list_all2 entry_json kvs js"
     "run SAfter [InArr [j]] (tmp_bytes E False kvs @ [nl, CHR '']'']) = POk (JArr ([j] @ js)) []"
    using run_entries [of kvs E "[j]"] assms Cons by auto
  have "run SValueOrEnd [InArr []] (nl # xs) = run SValueOrEnd [InArr []] xs" for xs
    by (simp add: is_ws_def)
  then show ?thesis using js j(2) kv Cons run_first_in_array [OF j(1,3), of "[]"] run_in_array [OF j(1,3), of "[]"]
    by (intro exI [of _ "j # js"]) (simp add: data_bytes_def begin_value_def is_ws_def del: run.simps(2) add: run.simps(2) [of SValue "[]" "CHR ''[''"])
qed

lemma unmarshal_entries:
  "list_all2 entry_json kvs js \<Longrightarrow> \<exists>ms. unmarshal_maps js = Inr ms \<and> keyedStates ms = kvs"
proof (induction rule: list_all2_induct)
  case (Cons kv kvs j js)
  then obtain ps ms where "j = JObj ps" "to_pairs ps fmempty = fmupd keyField (VStr (fst kv)) (snd kv)"
      "fmlookup (snd kv) keyField = None" "unmarshal_maps js = Inr ms" "keyedStates ms = kvs"
    by (auto simp: entry_json_def)
  moreover from this(3) have "fmdrop keyField (fmupd keyField (VStr (fst kv)) (snd kv)) = snd kv"
    by (intro fmap_ext) auto
  ultimately show ?case by (cases kv) auto
qed simp

text \<open>Loading a data file gives the table it was written from.\<close>

lemma foldl_table:
  "distinct (map fst kvs) \<Longrightarrow> foldl (\<lambda>t (k, v). fmupd k v t) t kvs = t ++\<^sub>f fmap_of_list kvs"
proof (induction kvs arbitrary: t)
  case (Cons kv kvs)
  then have "fmlookup (fmap_of_list kvs) (fst kv) = None" by (simp add: fmlookup_of_list map_of_eq_None_iff)
  moreover from this have "fmlookup (fmupd (fst kv) (snd kv) t ++\<^sub>f fmap_of_list kvs) k =
      fmlookup (t ++\<^sub>f fmap_of_list (kv # kvs)) k" for k
    by (cases "k |\<in>| fmdom (fmap_of_list kvs)") (auto simp: fmlookup_of_list fmdom_notI fset_of_list_elem map_of_eq_None_iff intro: rev_image_eqI)
  ultimately show ?case using Cons by (simp add: split_beta fmap_ext)
qed simp

lemma decodeDataFile_data_bytes:
  assumes "entries_codec E (rangeTable E t)" and "range_spec E"
  shows "\<exists>kvs. decodeDataFile rd (data_bytes E t) = Inr kvs \<and> foldl (\<lambda>t (k, v). fmupd k v t) fmempty kvs = t"
proof -
  obtain js where js: "list_all2 entry_json (rangeTable E t) js" "run SValue [] (data_bytes E t) = POk (JArr js) []"
    using run_data_bytes [OF assms(1)] by blast
  obtain ms where ms: "unmarshal_maps js = Inr ms" "keyedStates ms = rangeTable E t"
    using unmarshal_entries [OF js(1)] by blast
  have "decodeDataFile rd (data_bytes E t) = Inr (rangeTable E t)"
    using js(2) ms by (simp add: decodeDataFile_def dec_Decode_def)
  then show ?thesis using assms(2) by (simp add: range_spec_def foldl_table)
qed

section \<open>Writing the temporary file\<close>

lemma entry_codec_fold: "entry_codec E key val \<Longrightarrow> snd (foldEntry E \<lparr>Key = key, EFields = val\<rparr>) = None"
  by (simp add: entry_codec_def encodes_def)

lemma tmpEntries_writes:
  assumes "tmpEntries E first kvs st = (err, st')" and "entries_codec E kvs" and "wgood st" and "st_err st = None"
  shows "writes (tmp_bytes E first kvs) st st' \<and> wgood st' \<and> (err = None \<longleftrightarrow> st_err st' = None)"
  using assms
proof (induction E first kvs st rule: tmpEntries.induct)
  case (1 E first st)
  then show ?case by (simp add: writes_refl)
next
  case (2 E first key val rest st)
  let ?sep = "if first then [nl] else [CHR '','', nl]" and ?v = "foldEntry E \<lparr>Key = key, EFields = val\<rparr>"
  obtain k e1 st1 where w1: "bw_Write 0 ?sep st = ((k, e1), st1)" by (metis prod.exhaust)
  note a = bw_Write_step [OF w1 "2.prems"(3)]
  obtain e2 st2 where w2: "Encode (bw_Write 0) ?v st1 = (e2, st2)" by (metis prod.exhaust)
  have "snd ?v = None" using "2.prems"(2) by (simp add: entry_codec_fold)
  note b = Encode_buffered [OF w2 _ this]
  show ?case
  proof (cases e1)
    case (Some x)
    then have "err = e1" "st' = st1" using "2.prems"(1) w1 by auto
    moreover have "st_err st1 \<noteq> None" using a Some by (metis option.distinct(1))
    ultimately show ?thesis using a writes_cut [of ?sep st st1] by simp
  next
    case None
    then have b: "writes (concat (fst ?v)) st1 st2" "wgood st2" "e2 \<noteq> None \<longrightarrow> st_err st2 \<noteq> None"
      "e2 = None \<longrightarrow> st_err st2 = None" using a b by auto
    have ab: "writes (?sep @ concat (fst ?v)) st st2" using a b(1) writes_trans by blast
    show ?thesis
    proof (cases e2)
      case (Some x)
      then have "err = e2" "st' = st2" using "2.prems"(1) w1 w2 None by auto
      then show ?thesis using ab b Some writes_cut [OF ab] by simp
    next
      case n2: None
      have r: "tmpEntries E False rest st2 = (err, st')" using "2.prems"(1) w1 w2 None n2 by simp
      have w1': "((k, None), st1) = bw_Write 0 ?sep st" using w1 None by simp
      have "writes (tmp_bytes E False rest) st2 st' \<and> wgood st' \<and> (err = None \<longleftrightarrow> st_err st' = None)"
        using "2.IH" [of "(k, None)" st1 k None e2 st2] w1' w2 n2 r "2.prems"(2) b by simp
      then show ?thesis using writes_trans [OF ab] by simp
    qed
  qed
qed

lemma writeTmp_writes:
  assumes "writeTmp E t st = (err, st')" and "entries_codec E (rangeTable E t)" and "wgood st" and "st_err st = None"
  shows "writes (data_bytes E t) st st' \<and> (err = None \<longleftrightarrow> st_err st' = None) \<and> (err = None \<longrightarrow> st_buf st' = [])"
proof -
  obtain k1 e1 st1 where 1: "bw_Write 0 [CHR ''[''] st = ((k1, e1), st1)" by (metis prod.exhaust)
  obtain e2 st2 where 2: "tmpEntries E True (rangeTable E t) st1 = (e2, st2)" by (metis prod.exhaust)
  obtain k3 e3 st3 where 3: "bw_Write 0 [nl, CHR '']''] st2 = ((k3, e3), st3)" by (metis prod.exhaust)
  obtain e4 st4 where 4: "bw_Flush st3 = (e4, st4)" by (metis prod.exhaust)
  note a = bw_Write_step [OF 1 assms(3)]
  show ?thesis
  proof (cases e1)
    case (Some x)
    then have "err = e1" "st' = st1" using assms(1) 1 by (auto simp: writeTmp_def)
    moreover have "st_err st1 \<noteq> None" using a Some by (metis option.distinct(1))
    ultimately show ?thesis using a writes_cut [of "[CHR ''['']" st st1] Some by (auto simp: data_bytes_def)
  next
    case n1: None
    then have b: "writes (tmp_bytes E True (rangeTable E t)) st1 st2" "wgood st2" "(e2 = None \<longleftrightarrow> st_err st2 = None)"
      using tmpEntries_writes [OF 2 assms(2)] a by auto
    have ab: "writes ([CHR ''[''] @ tmp_bytes E True (rangeTable E t)) st st2" using a b(1) writes_trans by blast
    show ?thesis
    proof (cases e2)
      case (Some x)
      then have "err = e2" "st' = st2" using assms(1) 1 2 n1 by (auto simp: writeTmp_def)
      then show ?thesis using b Some writes_cut [OF ab, of "[nl, CHR '']'']"] by (simp add: data_bytes_def)
    next
      case n2: None
      note c = bw_Write_step [OF 3 b(2)]
      have abc: "writes (data_bytes E t) st st3" using writes_trans [OF ab] c by (simp add: data_bytes_def)
      show ?thesis
      proof (cases e3)
        case (Some x)
        then have "err = e3" "st' = st3" using assms(1) 1 2 3 n1 n2 by (auto simp: writeTmp_def)
        then show ?thesis using abc c Some by auto
      next
        case None
        then have "err = e4" "st' = st4" using assms(1) 1 2 3 4 n1 n2 by (auto simp: writeTmp_def)
        then show ?thesis
          using bw_Flush_writes [OF 4] writes_trans [OF abc conjunct1 [OF bw_Flush_writes [OF 4]]] by simp
      qed
    qed
  qed
qed

lemma set_file_only: "(faults w = [] \<Longrightarrow> fl = []) \<Longrightarrow> only {n} w (set_file n m d fl w)"
  by (simp add: only_def all_regular_def)

lemma checkpointTmpFile_effect:
  assumes "checkpointTmpFile E n t s w = (r, w')" and "entries_codec E (rangeTable E t)"
  shows "only {n} w w' \<and> (\<forall>p. r = Inr p \<longrightarrow> p = n \<and> (\<exists>m. fmlookup (dir w') n = Some (RegFile (data_bytes E t) m)))
     \<and> (faults w = [] \<and> home w = HomeDir \<and> fmlookup (dir w) n \<noteq> Some SubDir \<longrightarrow> r = Inr n)"
proof -
  obtain r1 w1 where o: "os_OpenFile True True (fileMode s) n w = (r1, w1)" by fastforce
  have o1: "only {n} w w1" using os_OpenFile_only [of n w True True "fileMode s"] o by simp
  show ?thesis
  proof (cases r1)
    case (Inl e)
    then have "\<not> (faults w = [] \<and> home w = HomeDir \<and> fmlookup (dir w) n \<noteq> Some SubDir)"
      using o by (auto simp: os_OpenFile_def fs_simps split: option.splits node.splits)
    then show ?thesis using assms(1) o o1 Inl by (auto simp: checkpointTmpFile_def)
  next
    case (Inr f)
    then obtain m where f: "f = \<lparr>fh_name = n, fh_off = 0\<rparr>" "fmlookup (dir w1) n = Some (RegFile [] m)"
      using o by (auto elim!: os_OpenFile_result split: option.splits node.splits)
    let ?st = "(NewWriterSize (bufferSize s), f, w1)"
    have good: "wgood ?st" "st_err ?st = None" "wok n m [] ?st" "st_buf ?st = []"
      using f by (auto simp: NewWriterSize_def wgood_def wok_def at_end_def)
    obtain e b f' w2 where wr: "writeTmp E t ?st = (e, b, f', w2)" by (metis prod.exhaust)
    note W = writeTmp_writes [OF wr assms(2) good(1,2)]
    obtain d where d: "wok n m d (b, f', w2)" "w2 = set_file n m d (faults w2) w1"
        "bw_err b = None \<longrightarrow> d @ bw_buf b = data_bytes E t" "faults w1 = [] \<longrightarrow> faults w2 = [] \<and> bw_err b = None"
      using conjunct1 [OF W] good(2,3,4) unfolding writes_def by fastforce
    have o2: "only {n} w w2" using only_trans [OF o1, of "{n}" w2] set_file_only d(2,4) by (metis Un_absorb order_refl)
    have close: "only {n} w (snd (file_Close f' u))" if "only {n} w u" for u
      using only_trans [OF that file_Close_only, of "{n}"] by simp
    show ?thesis
    proof (cases e)
      case (Some x)
      then have "r = Inl x" "w' = snd (file_Close f' w2)" using assms(1) o Inr wr by (auto simp: checkpointTmpFile_def)
      moreover have "faults w \<noteq> []" using W Some d(4) o1 by (auto simp: only_def)
      ultimately show ?thesis using close [OF o2] by auto
    next
      case None
      then have data: "fmlookup (dir w2) n = Some (RegFile (data_bytes E t) m)"
        using W d by (auto simp: wok_def at_end_def)
      obtain r3 w3 where sy: "syncFile f' w2 = (r3, w3)" by fastforce
      have sy0: "only {} w2 w3" using syncFile_only [of w2 f'] sy by simp
      then have o3: "only {n} w w3" using only_trans [OF o2] by simp
      have data3: "fmlookup (dir w3) n = Some (RegFile (data_bytes E t) m)" using data only_dir [OF sy0] by simp
      obtain r4 w4 where cl: "file_Close f' w3 = (r4, w4)" by fastforce
      have data4: "fmlookup (dir w4) n = Some (RegFile (data_bytes E t) m)"
        using data3 only_dir [OF file_Close_only [of w3 f']] cl by simp
      have "faults w = [] \<longrightarrow> r3 = Inr () \<and> r4 = Inr ()"
        using o2 sy cl by (auto simp: only_def syncFile_no_faults file_Close_def fs_simps)
      then show ?thesis using assms(1) o Inr wr None sy cl close [OF o3] data4
        by (auto simp: checkpointTmpFile_def split: sum.splits)
    qed
  qed
qed

section \<open>The steps after the temporary file\<close>

lemma updateActiveMarker_only:
  "only {activeDataFileName, activeDataTmpFileName} w (snd (updateActiveMarker h p w))"
proof (cases "p = []")
  case True
  then show ?thesis using os_Remove_only [of activeDataFileName w] by (auto simp: updateActiveMarker_def intro: only_mono)
next
  case False
  let ?A = "{activeDataFileName, activeDataTmpFileName}"
  obtain r1 w1 where 1: "os_Remove activeDataTmpFileName w = (r1, w1)" by fastforce
  obtain r2 w2 where 2: "os_WriteFile activeDataTmpFileName (h @ ''/'' @ p) 384 w1 = (r2, w2)" by fastforce
  obtain r3 w3 where 3: "os_Rename activeDataTmpFileName activeDataFileName w2 = (r3, w3)" by fastforce
  have o1: "only ?A w w1" using os_Remove_only [of activeDataTmpFileName w] 1 by (auto intro: only_mono)
  have o2: "only ?A w w2"
    using only_trans [OF o1] os_WriteFile_only [of activeDataTmpFileName w1 "h @ ''/'' @ p" 384] 2 by simp
  have o3: "only ?A w w3"
    using only_trans [OF o2] os_Rename_only [of activeDataTmpFileName activeDataFileName w2] 3 by simp
  have "only ?A w (trySyncPath w3)" using only_trans [OF o3 trySyncPath_only] by simp
  then show ?thesis
    using False 1 2 3 o1 o2 o3 by (auto simp: updateActiveMarker_def split: option.splits sum.splits)
qed

lemma os_Remove_lookup:
  "fmlookup (dir (snd (os_Remove n w))) k = None \<or> fmlookup (dir (snd (os_Remove n w))) k = fmlookup (dir w) k"
proof -
  obtain r w1 where r: "os_Remove n w = (r, w1)" by fastforce
  then have "fmlookup (dir w1) k = None \<or> fmlookup (dir w1) k = fmlookup (dir w) k" unfolding os_Remove_def
    by (cases rule: syscall_cases) (auto split: option.splits node.splits if_splits)
  with r show ?thesis by simp
qed

lemma removeFiles_effect:
  "removeFiles fs w = (rest, w') \<Longrightarrow>
   only (path ` set fs) w w' \<and> set rest \<subseteq> set fs
   \<and> (\<forall>n. fmlookup (dir w') n = None \<or> fmlookup (dir w') n = fmlookup (dir w) n)"
proof (induction fs w arbitrary: rest w' rule: removeFiles.induct)
  case (2 f fs w)
  obtain r w1 where r: "os_Remove (path f) w = (r, w1)" by fastforce
  have o: "only {path f} w w1" using os_Remove_only [of "path f" w] r by simp
  have l: "fmlookup (dir w1) k = None \<or> fmlookup (dir w1) k = fmlookup (dir w) k" for k
    using os_Remove_lookup [of "path f" w k] r by simp
  show ?case
  proof (cases "unlessNotExist r")
    case None
    then have "removeFiles fs w1 = (rest, w')" using "2.prems" r by simp
    note IH = "2.IH" [OF r [symmetric] None this]
    then have "only (path ` set (f # fs)) w w'" by (intro only_trans [OF o, of "path ` set fs" w']) auto
    then show ?thesis using IH l by (metis set_subset_Cons subset_trans)
  next
    case (Some e)
    then have "rest = f # fs" "w' = w1" using "2.prems" r by auto
    then show ?thesis using o l by (auto intro: only_mono)
  qed
qed auto

text \<open>Without faults every regular file of the list goes away.\<close>

lemma removeFiles_no_faults:
  assumes "removeFiles fs w = (rest, w')" and "faults w = []" and "\<forall>f \<in> set fs. fmlookup (dir w) (path f) \<noteq> Some SubDir"
  shows "rest = [] \<and> (\<forall>f \<in> set fs. fmlookup (dir w') (path f) = None)"
  using assms
proof (induction fs w arbitrary: rest w' rule: removeFiles.induct)
  case (2 f fs w)
  obtain r w1 where r: "os_Remove (path f) w = (r, w1)" by fastforce
  have none: "unlessNotExist r = None" "fmlookup (dir w1) (path f) = None" "faults w1 = []"
    using r "2.prems"(2,3) by (auto simp: os_Remove_def fs_simps unlessNotExist_def IsNotExist_def split: option.splits node.splits)
  have l: "fmlookup (dir w1) k = None \<or> fmlookup (dir w1) k = fmlookup (dir w) k" for k
    using os_Remove_lookup [of "path f" w k] r by simp
  have rec: "removeFiles fs w1 = (rest, w')" using "2.prems" r none by simp
  have "\<forall>f \<in> set fs. fmlookup (dir w1) (path f) \<noteq> Some SubDir" using "2.prems"(3) l by (metis list.set_intros(2) option.distinct(1))
  with "2.IH" [OF r [symmetric] none(1) rec none(3)] have IH: "rest = []" "\<forall>f \<in> set fs. fmlookup (dir w') (path f) = None"
    by auto
  have "fmlookup (dir w') (path f) = None"
    using removeFiles_effect [OF rec] none(2) by metis
  then show ?case using IH by simp
qed auto

text \<open>Clearing the log: it is emptied and the handle rewound, or the log is given up.\<close>

lemma checkpointClearLog_effect:
  assumes "checkpointClearLog s w = (s', w')"
    and "\<forall>fh b. logOut s = Some (fh, b) \<longrightarrow> fh_name fh = logFileName"
    and log: "logOut s \<noteq> None \<longrightarrow> fmlookup (dir w) logFileName = Some (RegFile L m)"
  shows "only {logFileName} w w' \<and>
   (case logOut s of
      None \<Rightarrow> w' = w \<and> s' = s\<lparr>logNeedsTruncate := True\<rparr>
    | Some (fh, b) \<Rightarrow>
        (s' = s\<lparr>logOut := Some (fh\<lparr>fh_off := 0\<rparr>, b), logEntries := 0, logFileSize := 0\<rparr>
           \<and> fmlookup (dir w') logFileName = Some (RegFile [] m))
        \<or> (faults w \<noteq> [] \<and> s' = s\<lparr>logOut := None, logNeedsTruncate := True, logInvalid := True, logEntries := 0, logFileSize := 0\<rparr>
           \<and> fmlookup (dir w') logFileName \<in> {Some (RegFile L m), Some (RegFile [] m)}))"
proof (cases "logOut s")
  case None
  then show ?thesis using assms(1) by (simp add: checkpointClearLog_def)
next
  case (Some x)
  obtain fh b where x: "x = (fh, b)" by fastforce
  have n: "fh_name fh = logFileName" and l: "fmlookup (dir w) (fh_name fh) = Some (RegFile L m)"
    using assms(2) log Some x by auto
  obtain r1 w1 where 1: "file_Truncate0 fh w = (r1, w1)" by fastforce
  obtain r2 w2 where 2: "file_SeekStart fh w1 = (r2, w2)" by fastforce
  have o1: "only {logFileName} w w1" using file_Truncate0_only [of fh w] 1 n by simp
  have s2: "only {} w1 w2" using file_SeekStart_only [of w1 fh] 2 by simp
  have o2: "only {logFileName} w w2" using only_trans [OF o1 s2] by simp
  have close: "only {logFileName} w (snd (file_Close fh u)) \<and> dir (snd (file_Close fh u)) = dir u" if "only {logFileName} w u" for u
    using only_trans [OF that file_Close_only] only_dir [OF file_Close_only] by auto
  have r2: "\<forall>fh'. r2 = Inr fh' \<longrightarrow> fh' = fh\<lparr>fh_off := 0\<rparr>"
    using 2 unfolding file_SeekStart_def by (cases rule: syscall_cases) auto
  have nf: "faults w = [] \<longrightarrow> r1 = Inr () \<and> r2 = Inr (fh\<lparr>fh_off := 0\<rparr>)"
    using 1 2 o1 l by (auto simp: file_Truncate0_def file_SeekStart_def only_def fs_simps)
  note t = file_Truncate0_result [OF 1 l]
  show ?thesis
  proof (cases r1)
    case (Inl e)
    then have "dir w1 = dir w" using t only_dir by simp
    then show ?thesis using Inl assms(1) Some x 1 close [OF o1] l n nf by (auto simp: checkpointClearLog_def)
  next
    case (Inr u)
    then have "fmlookup (dir w1) logFileName = Some (RegFile [] m)" using t n by simp
    then have "fmlookup (dir w2) logFileName = Some (RegFile [] m)" using only_dir [OF s2] by simp
    then show ?thesis using Inr assms(1) Some x 1 2 o2 close [OF o2] r2 nf
      by (auto simp: checkpointClearLog_def split: sum.splits)
  qed
qed

section \<open>A whole checkpoint\<close>

abbreviation cp_files :: "string set" where
  "cp_files \<equiv> {checkpointTmpFileName, activeDataFileName, activeDataTmpFileName}"

lemma WriteCheckpoint_fail:
  assumes "WriteCheckpoint E t s w = (Some e, s', w')" and "entries_codec E (rangeTable E t)"
  shows "s' = s \<and> only {checkpointTmpFileName} w w'"
proof -
  let ?tmp = checkpointTmpFileName
  obtain r1 w1 where 1: "checkpointTmpFile E ?tmp t s w = (r1, w1)" by fastforce
  have o1: "only {?tmp} w w1" using checkpointTmpFile_effect [OF 1 assms(2)] by simp
  show ?thesis
  proof (cases r1)
    case (Inl e1)
    then show ?thesis using assms(1) 1 o1 by (simp add: WriteCheckpoint_def)
  next
    case (Inr p)
    then have p: "p = ?tmp" using checkpointTmpFile_effect [OF 1 assms(2)] by simp
    obtain r2 w2 where 2: "os_Rename ?tmp (dataFileName (nextTxID s)) w1 = (r2, w2)" by fastforce
    then obtain e2 where r2: "r2 = Inl e2"
      using assms(1) 1 Inr p by (cases r2) (auto simp: WriteCheckpoint_def Let_def split: prod.splits)
    have "only {?tmp} w w2" using only_trans [OF o1 os_Rename_fail [OF 2 [unfolded r2]]] by simp
    then have "only {?tmp} w (snd (os_Remove ?tmp w2))" by (rule only_trans [OF _ os_Remove_only]) simp
    then show ?thesis using assms(1) 1 Inr p 2 r2 by (simp add: WriteCheckpoint_def)
  qed
qed

text \<open>
  The effect of a successful checkpoint, as a function of the state after the log was cleared:
  the new data file holds the table; no other file changes, apart from the marker files, the
  old data files, which may be gone, and the log.
\<close>

definition old_files :: "diskstore \<Rightarrow> dataFileInfo set" where
  "old_files s = set (oldDataFiles s) \<union> {f. f = activeDataFile s \<and> path f \<noteq> []}"

lemma cp_distinct [simp]:
  "dataFileName tid \<noteq> checkpointTmpFileName" "dataFileName tid \<noteq> activeDataFileName"
  "dataFileName tid \<noteq> activeDataTmpFileName" "dataFileName tid \<noteq> logFileName"
  "dataFileName tid \<noteq> metaFileName" "dataFileName tid \<noteq> []"
  using data_name_dataFileName [of tid] data_name_other by metis+

lemma WriteCheckpoint_ok:
  assumes run: "WriteCheckpoint E t s w = (None, s', w')" and codec: "entries_codec E (rangeTable E t)"
  obtains w1 s2 w2 rest w4 where "only {checkpointTmpFileName, dataFileName (nextTxID s)} w w1"
    and "\<exists>m. fmlookup (dir w1) (dataFileName (nextTxID s)) = Some (RegFile (data_bytes E t) m)"
    and "checkpointClearLog s w1 = (s2, w2)"
    and "s' = s2\<lparr>nextTxID := nextTxID s + 1, oldDataFiles := rest,
           activeDataFile := \<lparr>path = dataFileName (nextTxID s), txid = nextTxID s\<rparr>\<rparr>"
    and "only {activeDataFileName, activeDataTmpFileName} w2 w4"
    and "\<exists>fs w5. set fs = old_files s \<and> removeFiles fs w4 = (rest, w5) \<and> only {checkpointTmpFileName} w5 w'"
proof -
  let ?tmp = checkpointTmpFileName and ?cp = "dataFileName (nextTxID s)"
  obtain r1 u1 where 1: "checkpointTmpFile E ?tmp t s w = (r1, u1)" by fastforce
  note e1 = checkpointTmpFile_effect [OF 1 codec]
  obtain p where r1: "r1 = Inr p" using run 1 by (cases r1) (auto simp: WriteCheckpoint_def)
  with e1 obtain m where p: "p = ?tmp" and tmp: "fmlookup (dir u1) ?tmp = Some (RegFile (data_bytes E t) m)" by auto
  obtain r2 u2 where 2: "os_Rename ?tmp ?cp u1 = (r2, u2)" by fastforce
  obtain u where r2: "r2 = Inr u"
    using run 1 r1 p 2 by (cases r2) (auto simp: WriteCheckpoint_def)
  have d2: "dir u2 = fmupd ?cp (RegFile (data_bytes E t) m) (fmdrop ?tmp (dir u1))"
    using os_Rename_result [OF 2 [unfolded r2]] tmp by (metis option.inject)
  define w1 where "w1 = trySyncPath u2"
  have sync: "only {} u2 w1" unfolding w1_def by (rule trySyncPath_only)
  have o_w1: "only {?tmp, ?cp} w w1"
  proof -
    have "only {?tmp} w u1" using e1 by simp
    then have "only {?tmp, ?cp} w u2" by (rule only_trans) (use os_Rename_only [of ?tmp ?cp u1] 2 in auto)
    then show ?thesis by (rule only_trans [OF _ sync]) simp
  qed
  obtain s2 w2 where 3: "checkpointClearLog s w1 = (s2, w2)" by fastforce
  have keep: "nextTxID s2 = nextTxID s" "oldDataFiles s2 = oldDataFiles s" "activeDataFile s2 = activeDataFile s"
    using 3 by (auto simp: checkpointClearLog_def split: option.splits prod.splits sum.splits)
  define s4 where "s4 = s2\<lparr>nextTxID := nextTxID s2 + 1,
      oldDataFiles := (if path (activeDataFile s2) \<noteq> [] then oldDataFiles s2 @ [activeDataFile s2] else oldDataFiles s2),
      activeDataFile := \<lparr>path = ?cp, txid = nextTxID s\<rparr>\<rparr>"
  define w4 where "w4 = snd (updateActiveMarker (homePath s4) (path (activeDataFile s4)) w2)"
  obtain rest w5 where 5: "removeFiles (oldDataFiles s4) w4 = (rest, w5)" by fastforce
  have fin: "s' = s4\<lparr>oldDataFiles := rest\<rparr>" "w' = snd (os_Remove ?tmp (trySyncPath w5))"
    using run 1 r1 p 2 r2 3 5 unfolding s4_def w4_def
    by (simp_all add: WriteCheckpoint_def Let_def w1_def [symmetric] removeOldDataFiles_def)
  show thesis
  proof (rule that [OF o_w1 _ 3])
    show "\<exists>m. fmlookup (dir w1) ?cp = Some (RegFile (data_bytes E t) m)" using d2 only_dir [OF sync] by simp
    show "s' = s2\<lparr>nextTxID := nextTxID s + 1, oldDataFiles := rest, activeDataFile := \<lparr>path = ?cp, txid = nextTxID s\<rparr>\<rparr>"
      using fin(1) keep by (simp add: s4_def)
    show "only {activeDataFileName, activeDataTmpFileName} w2 w4" unfolding w4_def by (rule updateActiveMarker_only)
    have "only {?tmp} w5 w'" unfolding fin(2) by (rule only_trans [OF trySyncPath_only os_Remove_only]) simp
    moreover have "set (oldDataFiles s4) = old_files s" using keep by (auto simp: s4_def old_files_def)
    ultimately show "\<exists>fs w5. set fs = old_files s \<and> removeFiles fs w4 = (rest, w5) \<and> only {?tmp} w5 w'"
      using 5 by blast
  qed
qed

end
