(* ===== verification/Memlog_Store.thy ===== *)
theory Memlog_Store
  imports Memlog_Diskstore
begin

text \<open>
  The memlog store, \<open>pkg/statestore/backend/memlog/store.go\<close>, and the registry that opens stores,
  \<open>memlog.go\<close>.  Operations hold the store's lock to their end, so each is one step.

  \<open>typeconv.Convert\<close> is not part of the repository: \<open>Set\<close> takes the conversion of the caller's
  value to a \<open>mapstr.M\<close>, \<open>Get\<close> the conversion back, as parameters.
\<close>

section \<open>Opening a store\<close>

text \<open>\<open>Close\<close> leaves a nil table behind: \<open>mem\<close> is \<open>None\<close> then.\<close>

record store =
  disk :: diskstore
  mem :: "table option"

definition errNotDirectory :: error where "errNotDirectory = ErrNew ''not a directory''"

definition nilDereference :: error where
  "nilDereference = Panic ''invalid memory address or nil pointer dereference''"

text \<open>The first part of \<open>openStore\<close>: the home directory and the meta file.  \<open>fi\<close> is nil after an error
  of \<open>os.Stat\<close> other than a missing file, and the call \<open>fi.Mode()\<close> panics then.\<close>

definition openHome :: "memlog_env \<Rightarrow> u32 \<Rightarrow> fs \<Rightarrow> error option \<times> fs" where
  "openHome E mode w =
     (case os_Stat_home w of
        (Inl e, w1) \<Rightarrow>
          if IsNotExist e then
            (case os_MkdirAll w1 of
               (Inl e2, w2) \<Rightarrow> (Some e2, w2)
             | (Inr u, w2) \<Rightarrow> writeMetaFile E mode w2)
          else (Some nilDereference, w1)
      | (Inr False, w1) \<Rightarrow> (Some errNotDirectory, w1)
      | (Inr True, w1) \<Rightarrow>
          (case pathEnsurePermissions metaFileName mode w1 of
             (Inl e, w2) \<Rightarrow> (Some (ErrWrap ''failed to update meta file permissions'' e), w2)
           | (Inr u, w2) \<Rightarrow> (None, w2)))"

definition checkVersion :: "bool \<Rightarrow> fs \<Rightarrow> error option \<times> fs" where
  "checkVersion ignoreVersionCheck w =
     (if ignoreVersionCheck then (None, w)
      else case readMetaFile w of
          (Inl e, w1) \<Rightarrow> (Some e, w1)
        | (Inr meta, w1) \<Rightarrow> (checkMeta meta, w1))"

fun ensureDataFiles :: "dataFileInfo list \<Rightarrow> u32 \<Rightarrow> fs \<Rightarrow> error option \<times> fs" where
  "ensureDataFiles [] mode w = (None, w)"
| "ensureDataFiles (df # dfs) mode w =
     (case pathEnsurePermissions (path df) mode w of
        (Inl e, w1) \<Rightarrow> (Some (ErrWrap ''failed to update data file permissions'' e), w1)
      | (Inr u, w1) \<Rightarrow> ensureDataFiles dfs mode w1)"

definition corruptedName :: "string \<Rightarrow> string" where
  "corruptedName n = n @ ''.corrupted''"

text \<open>The table of the active data file and its transaction id.  A corrupted file is moved away and the
  store starts without its contents.\<close>

definition loadActive :: "dataFileInfo list \<Rightarrow> fs \<Rightarrow> (table \<times> u64) result \<times> fs" where
  "loadActive dataFiles w =
     (if dataFiles = [] then (Inr (fmempty, 0), w)
      else let active = last dataFiles in
        case loadDataFile (path active) fmempty w of
          (Inl e, w1) \<Rightarrow>
            if errors_Is e ErrCorruptStore
            then (Inr (fmempty, txid active), snd (os_Rename (path active) (corruptedName (path active)) w1))
            else (Inl e, w1)
        | (Inr tbl, w1) \<Rightarrow> (Inr (tbl, txid active), w1))"

definition openStore ::
    "memlog_env \<Rightarrow> string \<Rightarrow> u32 \<Rightarrow> nat \<Rightarrow> bool \<Rightarrow> (u64 \<Rightarrow> bool) \<Rightarrow> fs \<Rightarrow> store result \<times> fs" where
  "openStore E homeDir mode bufSz ignoreVersionCheck checkpoint w0 =
     (case openHome E mode w0 of
        (Some e, w1) \<Rightarrow> (Inl e, w1)
      | (None, w1) \<Rightarrow>
     (case checkVersion ignoreVersionCheck w1 of
        (Some e, w2) \<Rightarrow> (Inl e, w2)
      | (None, w2) \<Rightarrow>
     (case pathEnsurePermissions activeDataFileName mode w2 of
        (Inl e, w3) \<Rightarrow> (Inl (ErrWrap ''failed to update active file permissions'' e), w3)
      | (Inr u, w3) \<Rightarrow>
     (case listDataFiles w3 of
        (Inl e, w4) \<Rightarrow> (Inl e, w4)
      | (Inr dataFiles, w4) \<Rightarrow>
     (case ensureDataFiles dataFiles mode w4 of
        (Some e, w5) \<Rightarrow> (Inl e, w5)
      | (None, w5) \<Rightarrow>
     (case pathEnsurePermissions logFileName mode w5 of
        (Inl e, w6) \<Rightarrow> (Inl (ErrWrap ''failed to update log file permissions'' e), w6)
      | (Inr u, w6) \<Rightarrow>
     (case loadActive dataFiles w6 of
        (Inl e, w7) \<Rightarrow> (Inl e, w7)
      | (Inr (tbl, tid), w7) \<Rightarrow>
     (case loadLogFile tbl tid w7 of
        ((logErr, tbl', tid', entries), w8) \<Rightarrow>
     (case newDiskStore homeDir dataFiles tid' mode entries (logErr \<noteq> None) bufSz checkpoint w8 of
        (Inl e, w9) \<Rightarrow> (Inl e, w9)
      | (Inr d, w9) \<Rightarrow> (Inr \<lparr>disk = d, mem = Some tbl'\<rparr>, w9))))))))))"

section \<open>Operations\<close>

definition store_Close :: "store \<Rightarrow> fs \<Rightarrow> error option \<times> store \<times> fs" where
  "store_Close s w =
     (case diskstore_Close (disk s) w of (err, d, w') \<Rightarrow> (err, s\<lparr>disk := d, mem := None\<rparr>, w'))"

text \<open>Reading a nil map is reading an empty one.\<close>

definition mem_table :: "store \<Rightarrow> table" where
  "mem_table s = (case mem s of Some t \<Rightarrow> t | None \<Rightarrow> fmempty)"

definition store_Has :: "string \<Rightarrow> store \<Rightarrow> bool result" where
  "store_Has key s = Inr (memstore_Has (mem_table s) key)"

definition store_Get :: "(mapstr \<Rightarrow> 'v result) \<Rightarrow> string \<Rightarrow> store \<Rightarrow> 'v result" where
  "store_Get Decode key s =
     (case memstore_Get (mem_table s) key of
        None \<Rightarrow> Inl errKeyUnknown
      | Some val \<Rightarrow> Decode val)"

definition logOperation :: "memlog_env \<Rightarrow> memlog_op \<Rightarrow> store \<Rightarrow> fs \<Rightarrow> error option \<times> store \<times> fs" where
  "logOperation E op0 s w =
     (if mustCheckpoint (disk s) then
        (case WriteCheckpoint E (mem_table s) (disk s) w of
           (Some e, d, w1) \<Rightarrow>
             (case LogOperation E op0 d w1 of (_, d', w2) \<Rightarrow> (Some e, s\<lparr>disk := d'\<rparr>, w2))
         | (None, d, w1) \<Rightarrow> (None, s\<lparr>disk := d\<rparr>, w1))
      else case LogOperation E op0 (disk s) w of (err, d, w1) \<Rightarrow> (err, s\<lparr>disk := d\<rparr>, w1))"

definition nilMapWrite :: error where "nilMapWrite = Panic ''assignment to entry in nil map''"

definition store_Set :: "memlog_env \<Rightarrow> ('v \<Rightarrow> mapstr result) \<Rightarrow> string \<Rightarrow> 'v \<Rightarrow> store \<Rightarrow> fs \<Rightarrow> error option \<times> store \<times> fs" where
  "store_Set E Convert key value s w =
     (case Convert value of
        Inl e \<Rightarrow> (Some e, s, w)
      | Inr tmp \<Rightarrow>
          (case mem s of
             None \<Rightarrow> (Some nilMapWrite, s, w)
           | Some t \<Rightarrow> logOperation E (opSet key tmp) (s\<lparr>mem := Some (memstore_Set key tmp t)\<rparr>) w))"

definition store_Remove :: "memlog_env \<Rightarrow> string \<Rightarrow> store \<Rightarrow> fs \<Rightarrow> error option \<times> store \<times> fs" where
  "store_Remove E key s w =
     logOperation E (opRemove key)
       (s\<lparr>mem := (case mem s of None \<Rightarrow> None | Some t \<Rightarrow> Some (snd (memstore_Remove key t)))\<rparr>) w"

definition store_Checkpoint :: "memlog_env \<Rightarrow> store \<Rightarrow> fs \<Rightarrow> error option \<times> store \<times> fs" where
  "store_Checkpoint E s w =
     (case WriteCheckpoint E (mem_table s) (disk s) w of (err, d, w1) \<Rightarrow> (err, s\<lparr>disk := d\<rparr>, w1))"

text \<open>\<open>Each\<close> calls a function that has a state of its own, until it asks to stop or fails.\<close>

fun each_loop :: "(string \<Rightarrow> mapstr \<Rightarrow> 's \<Rightarrow> (bool \<times> error option) \<times> 's) \<Rightarrow> (string \<times> mapstr) list \<Rightarrow> 's \<Rightarrow> error option \<times> 's" where
  "each_loop fn [] st = (None, st)"
| "each_loop fn ((k, val) # kvs) st =
     (case fn k val st of
        ((cont, err), st') \<Rightarrow> if \<not> cont \<or> err \<noteq> None then (err, st') else each_loop fn kvs st')"

definition store_Each :: "memlog_env \<Rightarrow> (string \<Rightarrow> mapstr \<Rightarrow> 's \<Rightarrow> (bool \<times> error option) \<times> 's) \<Rightarrow> store \<Rightarrow> 's \<Rightarrow> error option \<times> 's" where
  "store_Each E fn s st = each_loop fn (rangeTable E (mem_table s)) st"

section \<open>The registry\<close>

text \<open>\<open>path/filepath\<close> on Unix: \<open>Clean\<close> and \<open>Join\<close>.\<close>

fun path_split :: "string \<Rightarrow> string \<Rightarrow> string list" where
  "path_split acc [] = [rev acc]"
| "path_split acc (c # cs) = (if c = CHR ''/'' then rev acc # path_split [] cs else path_split (c # acc) cs)"

fun clean_parts :: "bool \<Rightarrow> string list \<Rightarrow> string list \<Rightarrow> string list" where
  "clean_parts rooted acc [] = rev acc"
| "clean_parts rooted acc (p # ps) =
     (if p = [] \<or> p = ''.'' then clean_parts rooted acc ps
      else if p = ''..'' then
        (case acc of
           [] \<Rightarrow> clean_parts rooted (if rooted then [] else [p]) ps
         | a # as \<Rightarrow> if a = ''..'' then clean_parts rooted (p # acc) ps else clean_parts rooted as ps)
      else clean_parts rooted (p # acc) ps)"

fun path_join :: "string list \<Rightarrow> string" where
  "path_join [] = []"
| "path_join [p] = p"
| "path_join (p # ps) = p @ ''/'' @ path_join ps"

definition filepath_Clean :: "string \<Rightarrow> string" where
  "filepath_Clean p =
     (if p = [] then ''.''
      else let rooted = (hd p = CHR ''/''); ps = path_join (clean_parts rooted [] (path_split [] p)) in
        if rooted then CHR ''/'' # ps else if ps = [] then ''.'' else ps)"

definition filepath_Join :: "string list \<Rightarrow> string" where
  "filepath_Join elems =
     (let ps = filter (\<lambda>e. e \<noteq> []) elems in if ps = [] then [] else filepath_Clean (path_join ps))"

record Settings =
  Root :: string
  FileMode :: u32
  BufferSize :: nat
  CheckpointPred :: "(u64 \<Rightarrow> bool) option"
  IgnoreVersionCheck :: bool

record Registry =
  active :: bool
  settings :: Settings

definition defaultFileMode :: u32 where "defaultFileMode = 384"
definition defaultBufferSize :: nat where "defaultBufferSize = 4 * 1024"

definition defaultCheckpoint :: "u64 \<Rightarrow> bool" where
  "defaultCheckpoint filesize \<longleftrightarrow> 10 * 1048576 \<le> filesize"

text \<open>\<open>filepath.Abs\<close> joins a relative path to the working directory of the process, or fails when
  that is unknown: the result of \<open>os.Getwd\<close> is an argument.\<close>

definition filepath_Abs :: "string result \<Rightarrow> string \<Rightarrow> string result" where
  "filepath_Abs cwd p =
     (if p \<noteq> [] \<and> hd p = CHR ''/'' then Inr (filepath_Clean p)
      else bind_result cwd (\<lambda>d. Inr (filepath_Join [d, p])))"

definition memlog_New :: "string result \<Rightarrow> Settings \<Rightarrow> Registry result" where
  "memlog_New cwd st =
     (let st1 = (if FileMode st = 0 then st\<lparr>FileMode := defaultFileMode\<rparr> else st);
          st2 = (if CheckpointPred st1 = None then st1\<lparr>CheckpointPred := Some defaultCheckpoint\<rparr> else st1);
          st3 = (if BufferSize st2 = 0 then st2\<lparr>BufferSize := defaultBufferSize\<rparr> else st2)
      in bind_result (filepath_Abs cwd (Root st3))
           (\<lambda>root. Inr \<lparr>active = True, settings = st3\<lparr>Root := root\<rparr>\<rparr>))"

text \<open>Every home directory is a file system of its own, found by its path.  A nil predicate, which \<open>New\<close>
  never leaves, makes the first call of it panic; it does not occur here.\<close>

definition memlog_Access ::
    "memlog_env \<Rightarrow> string \<Rightarrow> Registry \<Rightarrow> (string \<Rightarrow> fs) \<Rightarrow> (string \<times> store) result \<times> (string \<Rightarrow> fs)" where
  "memlog_Access E name r ws =
     (if \<not> active r then (Inl errRegClosed, ws)
      else let st = settings r; homeDir = filepath_Join [Root st, name] in
        case openStore E homeDir (FileMode st) (BufferSize st) (IgnoreVersionCheck st)
            (case CheckpointPred st of Some p \<Rightarrow> p | None \<Rightarrow> defaultCheckpoint) (ws homeDir) of
          (Inl e, w') \<Rightarrow> (Inl e, ws(homeDir := w'))
        | (Inr s, w') \<Rightarrow> (Inr (homeDir, s), ws(homeDir := w')))"

text \<open>No code adds to the wait group \<open>wg\<close>, so waiting for it returns at once.\<close>

definition memlog_Close :: "Registry \<Rightarrow> error option \<times> Registry" where
  "memlog_Close r = (None, r\<lparr>active := False\<rparr>)"

end
