(* ===== verification/Memlog_Recovery.thy ===== *)
theory Memlog_Recovery
  imports Memlog_Checkpoint Memlog_Store
begin

text \<open>
  What survives a crash: an invariant that ties a diskstore and its home directory to the table a
  new process finds there, whatever system calls fail; every operation keeps it, and opening the
  directory again gives exactly that table.
\<close>

section \<open>The durable table\<close>

definition logbytes :: "fs \<Rightarrow> bytes" where
  "logbytes w = (case fmlookup (dir w) logFileName of Some (RegFile d m) \<Rightarrow> d | _ \<Rightarrow> [])"

definition meta_ok :: "fs \<Rightarrow> bool" where
  "meta_ok w \<longleftrightarrow> (\<exists>c m. fmlookup (dir w) metaFileName = Some (RegFile c m)
     \<and> bind_result (dec_Decode None c) (\<lambda>(v, rest). unmarshal_meta v) = Inr \<lparr>Version = storeVersion\<rparr>)"

text \<open>
  Transaction ids are compared in a ring: they make sense as long as the oldest id on disk lies
  less than \<open>2 ^ 63\<close> transactions back.  \<open>N\<close> bounds that distance.
\<close>

definition file_ok :: "nat \<Rightarrow> diskstore \<Rightarrow> dataFileInfo \<Rightarrow> bool" where
  "file_ok N s f \<longleftrightarrow> data_name (path f) (txid f) \<and> age (nextTxID s) (txid f) \<le> N
     \<and> (f = activeDataFile s \<or>
        age (nextTxID s) (txid (activeDataFile s)) < age (nextTxID s) (txid f))"

definition files_ok :: "nat \<Rightarrow> diskstore \<Rightarrow> fs \<Rightarrow> bool" where
  "files_ok N s w \<longleftrightarrow> 0 < age (nextTxID s) (txid (activeDataFile s)) \<and> age (nextTxID s) (txid (activeDataFile s)) \<le> N
     \<and> (\<forall>f. is_data_file w f \<longrightarrow> file_ok N s f)
     \<and> (\<forall>f \<in> set (oldDataFiles s). file_ok N s f \<and> f \<noteq> activeDataFile s)"

text \<open>The table in the active data file.\<close>

definition data_ok :: "fs \<Rightarrow> dataFileInfo \<Rightarrow> table \<Rightarrow> bool" where
  "data_ok w f T \<longleftrightarrow>
     (if path f = [] then f = noDataFile \<and> T = fmempty \<and> (\<forall>g. \<not> is_data_file w g)
      else \<exists>c m kvs. data_name (path f) (txid f) \<and> fmlookup (dir w) (path f) = Some (RegFile c m)
        \<and> decodeDataFile None c = Inr kvs \<and> foldl (\<lambda>t (k, v). fmupd k v t) fmempty kvs = T)"

definition torn :: "memlog_env \<Rightarrow> bytes \<Rightarrow> bool" where
  "torn E tail \<longleftrightarrow> tail = [] \<or> (\<exists>op0 tid. op_codec E op0 \<and> strict_prefix tail (core_bytes E op0 tid))"

text \<open>The log: records, then the torn rest of a record.  Replaying the records on the data file's table
  gives the durable table \<open>t\<close> and its last id \<open>lid\<close>.\<close>

definition log_ok :: "memlog_env \<Rightarrow> nat \<Rightarrow> diskstore \<Rightarrow> table \<Rightarrow> table \<Rightarrow> (memlog_op \<times> u64) list \<Rightarrow> bytes \<Rightarrow> bytes \<Rightarrow> u64 \<Rightarrow> bool" where
  "log_ok E N s T t es L tail lid \<longleftrightarrow> log_of E es L \<and> torn E tail
     \<and> (\<exists>n. replay applyEntry es (T, txid (activeDataFile s), 0) = (None, (t, lid, n)))
     \<and> (\<forall>(op0, tid) \<in> set es. age (nextTxID s) tid \<le> N)"

text \<open>What the open store knows of the log.\<close>

definition handle_ok :: "diskstore \<Rightarrow> fs \<Rightarrow> table \<Rightarrow> table \<Rightarrow> bytes \<Rightarrow> u64 \<Rightarrow> bool" where
  "handle_ok s w T t tail lid \<longleftrightarrow> logFilePath s = logFileName
     \<and> (if logInvalid s then lid + 1 = nextTxID s \<or> lid = nextTxID s else tail = [] \<and> lid + 1 = nextTxID s)
     \<and> (\<forall>fh b. logOut s = Some (fh, b) \<longrightarrow> fh_name fh = logFileName
          \<and> (bw_err b = None \<longrightarrow> bw_buf b = [])
          \<and> (\<exists>m. fmlookup (dir w) logFileName = Some (RegFile (logbytes w) m)
                \<and> (\<not> logInvalid s \<longrightarrow> log_open s m (logbytes w) w)))
     \<and> (logOut s = None \<and> logNeedsTruncate s \<and> \<not> logInvalid s \<longrightarrow> T = t \<and> lid = txid (activeDataFile s))"

definition home_ok :: "fs \<Rightarrow> bool" where
  "home_ok w \<longleftrightarrow> all_regular w \<and> home w = HomeDir \<and> meta_ok w"

definition DInv :: "memlog_env \<Rightarrow> nat \<Rightarrow> diskstore \<Rightarrow> fs \<Rightarrow> table \<Rightarrow> bool" where
  "DInv E N s w t \<longleftrightarrow> home_ok w \<and> files_ok N s w
     \<and> (\<exists>T es L tail lid. data_ok w (activeDataFile s) T \<and> logbytes w = L @ tail
          \<and> log_ok E N s T t es L tail lid \<and> handle_ok s w T t tail lid)"

section \<open>Frames\<close>

definition plain :: "string set \<Rightarrow> bool" where
  "plain A \<longleftrightarrow> (\<forall>n \<in> A. n \<noteq> metaFileName \<and> (\<forall>tid. \<not> data_name n tid))"

lemma plain_simps [simp]: "plain {}" "plain (insert n A) \<longleftrightarrow> n \<noteq> metaFileName \<and> (\<forall>tid. \<not> data_name n tid) \<and> plain A"
  by (auto simp: plain_def)

lemma names_distinct [simp]:
  "logFileName \<noteq> metaFileName" "activeDataFileName \<noteq> metaFileName" "activeDataTmpFileName \<noteq> metaFileName"
  "checkpointTmpFileName \<noteq> metaFileName" "logFileName \<noteq> activeDataFileName" "logFileName \<noteq> activeDataTmpFileName"
  "logFileName \<noteq> checkpointTmpFileName" "logFileName \<noteq> []"
  by (simp_all add: logFileName_def metaFileName_def activeDataFileName_def activeDataTmpFileName_def checkpointTmpFileName_def)

declare names_distinct [symmetric, simp]

lemma home_ok_frame:
  assumes "home_ok w" and "only A w w'" and "metaFileName \<notin> A"
  shows "home_ok w'"
  using assms by (auto simp: home_ok_def only_def meta_ok_def)

lemma is_data_file_frame: "only A w w' \<Longrightarrow> plain A \<Longrightarrow> is_data_file w' f = is_data_file w f"
  unfolding is_data_file_def plain_def only_def by metis

lemma data_ok_frame:
  assumes "data_ok w f T" and "only A w w'" and "plain A"
  shows "data_ok w' f T"
proof (cases "path f = []")
  case True
  then show ?thesis using assms is_data_file_frame [OF assms(2,3)] by (simp add: data_ok_def)
next
  case False
  then have "path f \<notin> A" using assms(1,3) by (auto simp: data_ok_def plain_def)
  then show ?thesis using assms(1,2) False by (simp add: data_ok_def only_def)
qed

lemma files_ok_frame: "files_ok N s w \<Longrightarrow> only A w w' \<Longrightarrow> plain A \<Longrightarrow> files_ok N s w'"
  by (simp add: files_ok_def is_data_file_frame)

lemma logbytes_frame: "only A w w' \<Longrightarrow> logFileName \<notin> A \<Longrightarrow> logbytes w' = logbytes w"
  by (simp add: logbytes_def only_def)

lemma handle_ok_frame:
  assumes "handle_ok s w T t tail lid" and "only A w w'" and "logFileName \<notin> A"
  shows "handle_ok s w' T t tail lid"
proof -
  have l: "fmlookup (dir w') logFileName = fmlookup (dir w) logFileName" using assms by (simp add: only_def)
  have o: "log_open s m L w' = log_open s m L w" for m L by (simp add: log_open_def at_end_def l)
  show ?thesis using assms(1) unfolding handle_ok_def l o logbytes_frame [OF assms(2,3)] .
qed

lemma DInv_frame:
  assumes "DInv E N s w t" and "only A w w'" and "plain A" and "logFileName \<notin> A"
  shows "DInv E N s w' t"
proof -
  have "metaFileName \<notin> A" using assms(3) by (auto simp: plain_def)
  then show ?thesis
    using assms home_ok_frame files_ok_frame data_ok_frame handle_ok_frame logbytes_frame
    unfolding DInv_def by metis
qed

section \<open>Replaying\<close>

definition applyOp :: "memlog_op \<Rightarrow> table \<Rightarrow> table" where
  "applyOp op0 t = (case op0 of opSet k v \<Rightarrow> memstore_Set k v t | opRemove k \<Rightarrow> snd (memstore_Remove k t))"

text \<open>Entries that are not newer than the data file are skipped.\<close>

lemma replay_skip:
  assumes "\<forall>(op0, tid) \<in> set es. age c tid < 2 ^ 63"
  shows "replay applyEntry es (T, c, n) = (None, (T, c, n))"
  using assms
proof (induction es)
  case (Cons e es)
  obtain op0 tid where e: "e = (op0, tid)" by fastforce
  then have "isTxIDLessEqual tid c" using Cons.prems isTxIDLessEqual_age [of c tid c] by simp
  then show ?case using Cons e by (simp add: applyEntry_def)
qed simp

lemma isTxIDLessEqual_next: "\<not> isTxIDLessEqual (c + 1) c"
  using isTxIDLessEqual_age [of "c + 1" "c + 1" c] by (simp add: age_def)

lemma applyEntry_next: "applyEntry op0 (lid + 1) (t, lid, n) = (None, (applyOp op0 t, lid + 1, n + 1))"
  by (simp add: applyEntry_def isTxIDLessEqual_next applyOp_def split: memlog_op.splits)

lemma replay_next:
  assumes "replay applyEntry es st = (None, (t, lid, n))"
  shows "replay applyEntry (es @ [(op0, lid + 1)]) st = (None, (applyOp op0 t, lid + 1, n + 1))"
  using assms by (simp add: replay_append applyEntry_next)

section \<open>The next transaction id\<close>

lemma file_ok_mono: "file_ok N s f \<Longrightarrow> N \<le> N' \<Longrightarrow> file_ok N' s f"
  by (simp add: file_ok_def)

lemma files_ok_mono: "files_ok N s w \<Longrightarrow> N \<le> N' \<Longrightarrow> files_ok N' s w"
  by (auto simp: files_ok_def intro: file_ok_mono)

lemma log_ok_mono: "log_ok E N s T t es L tail lid \<Longrightarrow> N \<le> N' \<Longrightarrow> log_ok E N' s T t es L tail lid"
  unfolding log_ok_def by (elim conjE, intro conjI) auto

lemma DInv_mono: "DInv E N s w t \<Longrightarrow> N \<le> N' \<Longrightarrow> DInv E N' s w t"
  unfolding DInv_def by (elim conjE exE, intro conjI exI) (auto intro: files_ok_mono log_ok_mono)

lemma age_step: "age c a \<le> N \<Longrightarrow> N < 2 ^ 63 \<Longrightarrow> age (c + 1) a = age c a + 1"
  by (rule age_Suc) simp

lemma file_ok_Suc:
  assumes "file_ok N s f" and "N < 2 ^ 63" and "age (nextTxID s) (txid (activeDataFile s)) \<le> N"
    and "nextTxID s' = nextTxID s + 1" and "activeDataFile s' = activeDataFile s"
  shows "file_ok (N + 1) s' f"
  using assms by (auto simp: file_ok_def age_step)

lemma files_ok_Suc:
  assumes "files_ok N s w" and "N < 2 ^ 63" and "nextTxID s' = nextTxID s + 1"
    and "activeDataFile s' = activeDataFile s" and "oldDataFiles s' = oldDataFiles s"
  shows "files_ok (N + 1) s' w"
  using assms file_ok_Suc [OF _ assms(2) _ assms(3,4)] by (auto simp: files_ok_def age_step)

lemma files_ok_same:
  assumes "files_ok N s w" and "nextTxID s' = nextTxID s"
    and "activeDataFile s' = activeDataFile s" and "oldDataFiles s' = oldDataFiles s"
  shows "files_ok N s' w"
proof -
  have "file_ok N s' f = file_ok N s f" for f using assms by (simp add: file_ok_def)
  then show ?thesis using assms by (simp add: files_ok_def)
qed

section \<open>Opening the log\<close>

lemma at_end_logbytes: "at_end logFileName m L fh w \<Longrightarrow> logbytes w = L"
  by (simp add: at_end_def logbytes_def)

lemma tryOpenLog_effect:
  assumes "tryOpenLog s w = (err, s', w')" and "logFilePath s = logFileName" and "all_regular w"
  shows "only {logFileName} w w'
    \<and> (logbytes w' = logbytes w \<or> (logNeedsTruncate s \<and> logbytes w' = []))
    \<and> (err \<noteq> None \<longrightarrow> s' = s)
    \<and> (err = None \<longrightarrow> logbytes w' = (if logNeedsTruncate s then [] else logbytes w)
        \<and> (\<exists>m. log_open s' m (logbytes w') w')
        \<and> s' = s\<lparr>logOut := logOut s', logNeedsTruncate := False, logFileSize := logFileSize s', logEntries := logEntries s'\<rparr>)
    \<and> (faults w = [] \<and> home w = HomeDir \<longrightarrow> err = None)"
proof -
  obtain r1 w1 where 1: "os_OpenFile True (logNeedsTruncate s) (fileMode s) logFileName w = (r1, w1)" by fastforce
  have o1: "only {logFileName} w w1" using os_OpenFile_only [of logFileName w] 1 by (metis snd_conv)
  show ?thesis
  proof (cases r1)
    case (Inl e)
    then have "only {} w w1" using os_OpenFile_fail 1 by blast
    then have "logbytes w1 = logbytes w" by (simp add: logbytes_frame)
    moreover have "\<not> (faults w = [] \<and> home w = HomeDir)"
      using 1 Inl assms(3) by (auto simp: os_OpenFile_def fs_simps all_regular_def split: option.splits node.splits)
    ultimately show ?thesis using assms(1,2) 1 Inl o1 by (auto simp: tryOpenLog_def)
  next
    case (Inr f)
    then obtain m where f: "f = \<lparr>fh_name = logFileName, fh_off = 0\<rparr>"
      and l1: "fmlookup (dir w1) logFileName = Some (RegFile
        (case fmlookup (dir w) logFileName of Some (RegFile d m) \<Rightarrow> if logNeedsTruncate s then [] else d | _ \<Rightarrow> []) m)"
      using 1 by (auto elim: os_OpenFile_result)
    then have lb1: "logbytes w1 = (if logNeedsTruncate s then [] else logbytes w)"
      by (auto simp: logbytes_def split: option.splits node.splits)
    have l1: "fmlookup (dir w1) logFileName = Some (RegFile (logbytes w1) m)"
      using l1 by (simp add: logbytes_def)
    obtain r2 w2 where 2: "file_SeekEnd f w1 = (r2, w2)" by fastforce
    have s2: "only {} w1 w2" using file_SeekEnd_only [of w1 f] 2 by simp
    have o2: "only {logFileName} w w2" by (rule only_trans [OF o1 s2]) simp
    have l2: "fmlookup (dir w2) logFileName = Some (RegFile (logbytes w1) m)" using l1 only_dir [OF s2] by simp
    have close: "only {logFileName} w (snd (file_Close g u))" "logbytes (snd (file_Close g u)) = logbytes u"
      if "only {logFileName} w u" for g u
      using only_trans [OF that file_Close_only] logbytes_frame [OF file_Close_only] by auto
    have lb2: "logbytes w2 = logbytes w1" using logbytes_frame [OF s2] by simp
    have r2: "\<forall>f'. r2 = Inr f' \<longrightarrow> f' = \<lparr>fh_name = logFileName, fh_off = length (logbytes w1)\<rparr>"
      using 2 f l1 unfolding file_SeekEnd_def by (cases rule: syscall_cases) (auto simp: file_size_def)
    have nf1: "faults w1 = []" if "faults w = []" using only_faults [OF o1 that] .
    have nf2: "faults w = [] \<longrightarrow> (\<exists>f'. r2 = Inr f') \<and> faults w2 = []"
      using 2 nf1 by (auto simp: file_SeekEnd_def fs_simps)
    show ?thesis
    proof (cases r2)
      case (Inl e)
      then have "err = Some e" "s' = s" "w' = snd (file_Close f w2)"
        using assms(1,2) 1 2 Inr by (simp_all add: tryOpenLog_def)
      moreover have "faults w \<noteq> []" using nf2 Inl by auto
      ultimately show ?thesis using close [OF o2, of f] lb1 lb2 by simp
    next
      case r2i: (Inr f')
      then have f': "f' = \<lparr>fh_name = logFileName, fh_off = length (logbytes w1)\<rparr>" using r2 by simp
      have open2: "log_open (x\<lparr>logNeedsTruncate := False, logOut := Some (f', NewWriterSize (bufferSize x))\<rparr>) m (logbytes w2) u"
        if "dir u = dir w2" for u and x :: diskstore
        using that f' l2 lb2 by (auto simp: log_open_def at_end_def NewWriterSize_def)
      show ?thesis
      proof (cases "logNeedsTruncate s")
        case True
        then have "err = None" "w' = w2"
          "s' = s\<lparr>logEntries := 0, logFileSize := 0, logNeedsTruncate := False, logOut := Some (f', NewWriterSize (bufferSize s))\<rparr>"
          using assms(1,2) 1 2 Inr r2i by (auto simp: tryOpenLog_def)
        then show ?thesis using True o2 lb1 lb2 open2 [of w2 "s\<lparr>logEntries := 0, logFileSize := 0\<rparr>"]
          by auto
      next
        case False
        obtain r3 w3 where 3: "file_Stat_size f' w2 = (r3, w3)" by fastforce
        have s3: "only {} w2 w3" using file_Stat_size_only [of w2 f'] 3 by simp
        have o3: "only {logFileName} w w3" by (rule only_trans [OF o2 s3]) simp
        have lb3: "logbytes w3 = logbytes w2" using logbytes_frame [OF s3] by simp
        have nf3: "faults w = [] \<longrightarrow> (\<exists>n. r3 = Inr n)"
          using 3 nf2 by (auto simp: file_Stat_size_def fs_simps)
        show ?thesis
        proof (cases r3)
          case (Inl e)
          then have "err = Some e" "s' = s" "w' = snd (file_Close f' w3)"
            using assms(1,2) 1 2 3 \<open>r1 = Inr f\<close> r2i False by (simp_all add: tryOpenLog_def)
          moreover have "faults w \<noteq> []" using nf3 Inl by auto
          ultimately show ?thesis using False close [OF o3, of f'] lb1 lb2 lb3 by simp
        next
          case (Inr n)
          then have "err = None" "w' = w3"
            "s' = s\<lparr>logFileSize := of_nat n, logNeedsTruncate := False, logOut := Some (f', NewWriterSize (bufferSize s))\<rparr>"
            using assms(1,2) 1 2 3 \<open>r1 = Inr f\<close> r2i False by (auto simp: tryOpenLog_def)
          then show ?thesis using False o3 lb1 lb2 lb3 open2 [of w3 "s\<lparr>logFileSize := of_nat n\<rparr>"] only_dir [OF s3]
            by auto
        qed
      qed
    qed
  qed
qed

section \<open>Logging an operation\<close>

text \<open>The pieces of the invariant, for use in proofs.\<close>

lemma DInvE:
  assumes "DInv E N s w t"
  obtains T es L tail lid where "home_ok w" "files_ok N s w" "data_ok w (activeDataFile s) T"
    "logbytes w = L @ tail" "log_ok E N s T t es L tail lid" "handle_ok s w T t tail lid"
  using assms unfolding DInv_def by blast

lemma DInvI:
  assumes "home_ok w" "files_ok N s w" "data_ok w (activeDataFile s) T"
    "logbytes w = L @ tail" "log_ok E N s T t es L tail lid" "handle_ok s w T t tail lid"
  shows "DInv E N s w t"
  using assms unfolding DInv_def by blast

lemma home_frame_log: "home_ok w \<Longrightarrow> only {logFileName} w w' \<Longrightarrow> home_ok w'"
  by (erule (1) home_ok_frame) simp

lemma data_frame_log: "data_ok w f T \<Longrightarrow> only {logFileName} w w' \<Longrightarrow> data_ok w' f T"
  by (erule (1) data_ok_frame) simp

lemma files_frame_log: "files_ok N s w \<Longrightarrow> only {logFileName} w w' \<Longrightarrow> files_ok N s w'"
  by (erule (1) files_ok_frame) simp

lemma log_ok_nil: "log_ok E N s T T [] [] [] (txid (activeDataFile s))"
  by (simp add: log_ok_def torn_def log_nil)

lemma log_ok_same:
  assumes "log_ok E N s T t es L tail lid" and "nextTxID s' = nextTxID s" and "activeDataFile s' = activeDataFile s"
  shows "log_ok E N s' T t es L tail lid"
  using assms by (simp add: log_ok_def)

lemma log_open_lookup: "log_open s m L w \<Longrightarrow> fmlookup (dir w) logFileName = Some (RegFile L m)"
  by (auto simp: log_open_def at_end_def)

lemma tryOpenLog_DInv:
  assumes inv: "DInv E N s w t" and "\<not> logInvalid s" and "logOut s = None"
    and run: "tryOpenLog s w = (err, s', w')"
  shows "(err = None \<longrightarrow> DInv E N s' w' t \<and> logOut s' \<noteq> None \<and> \<not> logInvalid s' \<and> nextTxID s' = nextTxID s)
     \<and> (err \<noteq> None \<longrightarrow> s' = s \<and> DInv E N (s\<lparr>logInvalid := True\<rparr>) w' t)
     \<and> (faults w = [] \<longrightarrow> err = None \<and> faults w' = [])"
proof -
  from inv obtain T es L tail lid where i: "home_ok w" "files_ok N s w" "data_ok w (activeDataFile s) T"
    "logbytes w = L @ tail" "log_ok E N s T t es L tail lid" "handle_ok s w T t tail lid"
    by (rule DInvE)
  have h: "logFilePath s = logFileName" "tail = []" "lid + 1 = nextTxID s"
      "logNeedsTruncate s \<longrightarrow> T = t \<and> lid = txid (activeDataFile s)"
    using i(6) assms(2,3) by (auto simp: handle_ok_def)
  have "all_regular w" "home w = HomeDir" using i(1) by (auto simp: home_ok_def)
  note e = tryOpenLog_effect [OF run h(1) this(1)]
  have o: "only {logFileName} w w'" using e by simp
  note f = home_frame_log [OF i(1) o] files_frame_log [OF i(2) o] data_frame_log [OF i(3) o]
  obtain es' L' where l: "logbytes w' = L' @ []" "log_ok E N s T t es' L' [] lid"
  proof (cases "logbytes w' = logbytes w")
    case True
    then show thesis using that i(4,5) h(2) by simp
  next
    case False
    then have "logNeedsTruncate s" "logbytes w' = []" using e by auto
    then show thesis using that [of "[]" "[]"] h(4) log_ok_nil [of E N s T] by simp
  qed
  show ?thesis
  proof (intro conjI impI)
    assume "err = None"
    then obtain m where s': "log_open s' m (logbytes w') w'"
        "s' = s\<lparr>logOut := logOut s', logNeedsTruncate := False, logFileSize := logFileSize s', logEntries := logEntries s'\<rparr>"
      using e by blast
    have eq: "nextTxID s' = nextTxID s" "activeDataFile s' = activeDataFile s" "oldDataFiles s' = oldDataFiles s"
      "\<not> logInvalid s'" "logFilePath s' = logFilePath s" "\<not> logNeedsTruncate s'"
      by (subst s'(2), simp add: assms(2))+
    have "handle_ok s' w' T t [] lid"
      using s'(1) log_open_lookup [OF s'(1)] eq h(1,3) by (auto simp: handle_ok_def) (auto simp: log_open_def at_end_def)
    then show "DInv E N s' w' t"
      using DInvI [OF f(1) files_ok_same [OF f(2) eq(1,2,3)] _ l(1) log_ok_same [OF l(2) eq(1,2)]] f(3) eq(2) by simp
    show "logOut s' \<noteq> None" using s'(1) by (auto simp: log_open_def)
    show "\<not> logInvalid s'" "nextTxID s' = nextTxID s" by (rule eq)+
  next
    assume "err \<noteq> None"
    then show "s' = s" using e by simp
    have "handle_ok (s\<lparr>logInvalid := True\<rparr>) w' T t [] lid"
      using h assms(3) by (simp add: handle_ok_def)
    then show "DInv E N (s\<lparr>logInvalid := True\<rparr>) w' t"
      using DInvI [OF f(1) files_ok_same [OF f(2), of "s\<lparr>logInvalid := True\<rparr>"] _ l(1) log_ok_same [OF l(2)]] f(3) by simp
  next
    assume "faults w = []"
    then show "err = None" "faults w' = []" using e \<open>home w = HomeDir\<close> only_faults [OF o] by simp_all
  qed
qed

lemma log_ok_torn:
  assumes "log_ok E N s T t es L [] lid" and "torn E tail"
    and "nextTxID s' = nextTxID s" and "activeDataFile s' = activeDataFile s"
  shows "log_ok E N s' T t es L tail lid"
  using assms by (simp add: log_ok_def)

lemma log_ok_ids_Suc:
  assumes "\<forall>(op0, tid) \<in> set es. age c tid \<le> N" and "N < 2 ^ 63"
  shows "\<forall>(op0, tid) \<in> set es. age (c + 1) tid \<le> N + 1"
  using assms age_step by fastforce

text \<open>A record that made it to the file as a whole, acknowledged or not.\<close>

lemma log_ok_record:
  assumes "log_ok E N s T t es L [] lid" and "lid + 1 = nextTxID s" and "N < 2 ^ 63"
    and "log_of E (es @ [(op0, nextTxID s)]) L'"
    and "nextTxID s' = nextTxID s \<or> nextTxID s' = nextTxID s + 1" and "activeDataFile s' = activeDataFile s"
  shows "log_ok E (N + 1) s' T (applyOp op0 t) (es @ [(op0, nextTxID s)]) L' [] (nextTxID s)"
proof -
  obtain n where r: "replay applyEntry es (T, txid (activeDataFile s), 0) = (None, (t, lid, n))"
      "\<forall>(op0, tid) \<in> set es. age (nextTxID s) tid \<le> N"
    using assms(1) unfolding log_ok_def by blast
  have "replay applyEntry (es @ [(op0, nextTxID s)]) (T, txid (activeDataFile s'), 0) = (None, (applyOp op0 t, nextTxID s, n + 1))"
    using replay_next [OF r(1), of op0] assms(2,6) by simp
  moreover have "\<forall>(op0, tid) \<in> set es. age (nextTxID s') tid \<le> N + 1"
    using assms(5) r(2) log_ok_ids_Suc [OF r(2) assms(3)] by fastforce
  moreover have "age (nextTxID s') (nextTxID s) \<le> N + 1"
    using assms(5) by (auto simp: age_def)
  ultimately show ?thesis using assms(4) by (auto simp: log_ok_def torn_def)
qed

lemma LogOperation_open_DInv:
  assumes inv: "DInv E N s w t" and codec: "op_codec E op0" and N: "N + 1 < 2 ^ 63"
    and valid: "\<not> logInvalid s" and opn: "logOut s \<noteq> None"
    and run: "LogOperation E op0 s w = (err, s', w')"
  shows "(err = None \<longrightarrow> DInv E (N + 1) s' w' (applyOp op0 t) \<and> \<not> logInvalid s')
     \<and> (err \<noteq> None \<longrightarrow> (DInv E (N + 1) s' w' t \<or> DInv E (N + 1) s' w' (applyOp op0 t)) \<and> logInvalid s')
     \<and> (faults w = [] \<longrightarrow> err = None \<and> faults w' = [])"
proof -
  from inv obtain T es L tail lid where i: "home_ok w" "files_ok N s w" "data_ok w (activeDataFile s) T"
    "logbytes w = L @ tail" "log_ok E N s T t es L tail lid" "handle_ok s w T t tail lid"
    by (rule DInvE)
  obtain m where h: "logFilePath s = logFileName" "tail = []" "lid + 1 = nextTxID s" "log_open s m L w"
    using i(4,6) valid opn by (auto simp: handle_ok_def)
  have N': "N < 2 ^ 63" using N by simp
  obtain L' n where r: "w' = set_file logFileName m L' (faults w') w" "prefix L L'"
      "prefix L' (L @ record_bytes E op0 (nextTxID s))" "faults w = [] \<longrightarrow> err = None \<and> faults w' = []"
      "err = None \<longrightarrow> L' = L @ record_bytes E op0 (nextTxID s) \<and> log_open s' m L' w'
       \<and> s' = s\<lparr>logOut := logOut s', logFileSize := n, logEntries := logEntries s + 1, nextTxID := nextTxID s + 1\<rparr>"
      "err \<noteq> None \<longrightarrow> s' = s\<lparr>logOut := logOut s', logFileSize := n, logInvalid := True\<rparr>
       \<and> (\<exists>fh b. logOut s' = Some (fh, b) \<and> fh_name fh = logFileName \<and> bw_err b \<noteq> None)"
    by (rule LogOperation_open [OF run codec valid h(4)], rule that)
  have o: "only {logFileName} w w'"
    by (subst r(1), rule set_file_only) (use r(4) in auto)
  have lb: "fmlookup (dir w') logFileName = Some (RegFile L' m)" by (subst r(1)) simp
  then have lb': "logbytes w' = L'" by (simp add: logbytes_def)
  note f = home_frame_log [OF i(1) o] files_frame_log [OF i(2) o] data_frame_log [OF i(3) o]
  have lo: "log_of E es L" "log_ok E N s T t es L [] lid" using i(5) h(2) by (auto simp: log_ok_def)
  show ?thesis
  proof (intro conjI impI)
    assume ok: "err = None"
    then have L': "L' = L @ record_bytes E op0 (nextTxID s)" "log_open s' m L' w'"
        and s': "s' = s\<lparr>logOut := logOut s', logFileSize := n, logEntries := logEntries s + 1, nextTxID := nextTxID s + 1\<rparr>"
      using r(5) by blast+
    have eq: "nextTxID s' = nextTxID s + 1" "activeDataFile s' = activeDataFile s" "oldDataFiles s' = oldDataFiles s"
      "\<not> logInvalid s'" "logFilePath s' = logFilePath s"
      by (subst s', simp add: valid)+
    have lg: "log_ok E (N + 1) s' T (applyOp op0 t) (es @ [(op0, nextTxID s)]) L' [] (nextTxID s)"
      using log_ok_record [OF lo(2) h(3) N'] log_record [OF lo(1) codec] L'(1) eq(1,2) by simp
    have "handle_ok s' w' T (applyOp op0 t) [] (nextTxID s)"
      using L'(2) lb lb' eq h(1) by (auto simp: handle_ok_def) (auto simp: log_open_def at_end_def)
    then show "DInv E (N + 1) s' w' (applyOp op0 t)"
      using DInvI [OF f(1) files_ok_Suc [OF f(2) N' eq(1,2,3)] _ _ lg] f(3) eq(2) lb' by simp
    show "\<not> logInvalid s'" by (rule eq)
  next
    assume bad: "err \<noteq> None"
    then obtain fh b where s': "s' = s\<lparr>logOut := logOut s', logFileSize := n, logInvalid := True\<rparr>"
        and out: "logOut s' = Some (fh, b)" "fh_name fh = logFileName" "bw_err b \<noteq> None"
      using r(6) by blast
    have eq: "nextTxID s' = nextTxID s" "activeDataFile s' = activeDataFile s" "oldDataFiles s' = oldDataFiles s"
      "logInvalid s'" "logFilePath s' = logFilePath s"
      by (subst s', simp)+
    show "logInvalid s'" by (rule eq)
    have fo: "files_ok (N + 1) s' w'" using files_ok_mono [OF files_ok_same [OF f(2) eq(1,2,3)]] by simp
    have da: "data_ok w' (activeDataFile s') T" using f(3) eq(2) by simp
    have ho: "handle_ok s' w' T x y l" if "l = lid \<or> l = nextTxID s" for x y l
      using that out lb lb' eq h(1,3) by (auto simp: handle_ok_def)
    obtain p where p: "L' = L @ p" "prefix p (record_bytes E op0 (nextTxID s))"
      using r(2,3) by (metis prefixE same_prefix_prefix)
    from codec p(2) show "DInv E (N + 1) s' w' t \<or> DInv E (N + 1) s' w' (applyOp op0 t)"
    proof (cases rule: log_torn_cases)
      case whole
      then have "log_of E (es @ [(op0, nextTxID s)]) L'"
        using log_record [OF lo(1) codec] log_snoc [OF lo(1) codec] p(1) by auto
      from log_ok_record [OF lo(2) h(3) N' this, of s'] eq(1,2)
      have "log_ok E (N + 1) s' T (applyOp op0 t) (es @ [(op0, nextTxID s)]) L' [] (nextTxID s)" by simp
      from DInvI [OF f(1) fo da _ this ho] show ?thesis using lb' by simp
    next
      case torn
      then have "torn E p" using codec by (auto simp: torn_def)
      from log_ok_mono [OF log_ok_torn [OF lo(2) this eq(1,2)]]
      have "log_ok E (N + 1) s' T t es L p lid" by simp
      from DInvI [OF f(1) fo da _ this ho] show ?thesis using lb' p(1) by simp
    qed
  next
    assume "faults w = []"
    then show "err = None" "faults w' = []" using r(4) by simp_all
  qed
qed

theorem LogOperation_DInv:
  assumes inv: "DInv E N s w t" and codec: "op_codec E op0" and N: "N + 1 < 2 ^ 63"
    and run: "LogOperation E op0 s w = (err, s', w')"
  shows "\<exists>t'. DInv E (N + 1) s' w' t' \<and> (t' = t \<or> (t' = applyOp op0 t \<and> \<not> logInvalid s))
     \<and> (err = None \<longrightarrow> t' = applyOp op0 t \<and> \<not> logInvalid s') \<and> (err \<noteq> None \<longrightarrow> logInvalid s')
     \<and> (faults w = [] \<longrightarrow> faults w' = [] \<and> (\<not> logInvalid s \<longrightarrow> err = None))"
proof (cases "logInvalid s")
  case True
  then have "err = Some errLogInvalid" "s' = s" "w' = w" using run by (auto simp: LogOperation_def)
  then show ?thesis using True DInv_mono [OF inv, of "N + 1"] by (intro exI [of _ t]) simp
next
  case valid: False
  show ?thesis
  proof (cases "logOut s")
    case (Some x)
    then have "logOut s \<noteq> None" by simp
    from LogOperation_open_DInv [OF inv codec N valid this run] valid show ?thesis by blast
  next
    case None
    obtain e s1 w1 where op: "tryOpenLog s w = (e, s1, w1)" by (metis prod.exhaust)
    note t = tryOpenLog_DInv [OF inv valid None op]
    show ?thesis
    proof (cases e)
      case (Some x)
      then have r: "err = Some x" "s' = s\<lparr>logInvalid := True\<rparr>" "w' = w1"
        using run valid None op t by (auto simp: LogOperation_def)
      have "DInv E N (s\<lparr>logInvalid := True\<rparr>) w1 t" "faults w \<noteq> []" using t Some by auto
      then have "DInv E (N + 1) s' w' t" using DInv_mono r by simp
      then show ?thesis using r \<open>faults w \<noteq> []\<close> by (intro exI [of _ t]) simp
    next
      case e: None
      then have s1: "DInv E N s1 w1 t" "logOut s1 \<noteq> None" "\<not> logInvalid s1" using t by auto
      then obtain x where "logOut s1 = Some x" by blast
      then have "LogOperation E op0 s1 w1 = (err, s', w')"
        using run valid None op e s1(3) by (simp add: LogOperation_def)
      note o = LogOperation_open_DInv [OF s1(1) codec N s1(3,2) this]
      have "faults w = [] \<longrightarrow> faults w1 = []" using t by blast
      with o valid show ?thesis by blast
    qed
  qed
qed

section \<open>Checkpoints\<close>

lemma age_Suc_self [simp]: "age (c + 1) c = 1"
  by (simp add: age_def)

lemma old_files_facts:
  assumes "files_ok N s w" and "data_ok w (activeDataFile s) T" and "f \<in> old_files s"
  shows "data_name (path f) (txid f)" and "0 < age (nextTxID s) (txid f)" and "age (nextTxID s) (txid f) \<le> N"
  using assms by (auto simp: files_ok_def file_ok_def old_files_def data_ok_def)

lemma data_name_age:
  assumes "data_name (path f) (txid f)" and "0 < age (nextTxID s) (txid f)"
  shows "path f \<noteq> dataFileName (nextTxID s)"
  using assms data_name_dataFileName [of "nextTxID s"] data_name_fun by fastforce

text \<open>The home directory after a checkpoint, seen from the one before.\<close>

lemma WriteCheckpoint_home:
  assumes inv: "files_ok N s w" "data_ok w (activeDataFile s) T" "home_ok w"
    and o1: "only {checkpointTmpFileName, dataFileName (nextTxID s)} w w1"
    and o2: "only {logFileName} w1 w2"
    and o4: "only {activeDataFileName, activeDataTmpFileName} w2 w4"
    and rm: "set fs = old_files s" "removeFiles fs w4 = (rest, w5)" "only {checkpointTmpFileName} w5 w'"
  shows "home_ok w'" and "fmlookup (dir w') (dataFileName (nextTxID s)) = fmlookup (dir w1) (dataFileName (nextTxID s))"
    and "fmlookup (dir w') logFileName = fmlookup (dir w2) logFileName"
    and "\<And>f. is_data_file w' f \<Longrightarrow> path f \<noteq> dataFileName (nextTxID s) \<Longrightarrow> is_data_file w f"
    and "set rest \<subseteq> old_files s" and "faults w = [] \<Longrightarrow> faults w' = []"
proof -
  note r = removeFiles_effect [OF rm(2), unfolded rm(1)]
  have o5: "only (path ` old_files s) w4 w5" using r by simp
  have old: "data_name (path f) (txid f)" "path f \<noteq> dataFileName (nextTxID s)" if "f \<in> old_files s" for f
    using old_files_facts [OF inv(1,2) that] data_name_age by blast+
  have notold: "n \<notin> path ` old_files s" if "\<And>tid. \<not> data_name n tid" for n
    using old(1) that by blast
  have m: "metaFileName \<notin> path ` old_files s" "logFileName \<notin> path ` old_files s"
    by (rule notold, simp)+
  have cp: "dataFileName (nextTxID s) \<notin> path ` old_files s" using old(2) by force
  have h1: "home_ok w1" by (rule home_ok_frame [OF inv(3) o1]) (simp add: cp_distinct(5) [symmetric])
  have h2: "home_ok w2" by (rule home_ok_frame [OF h1 o2]) simp
  have h4: "home_ok w4" by (rule home_ok_frame [OF h2 o4]) simp
  have h5: "home_ok w5" by (rule home_ok_frame [OF h4 o5]) (rule m)
  show "home_ok w'" by (rule home_ok_frame [OF h5 rm(3)]) simp
  show "fmlookup (dir w') (dataFileName (nextTxID s)) = fmlookup (dir w1) (dataFileName (nextTxID s))"
    using onlyD [OF o2] onlyD [OF o4] onlyD [OF o5 cp] onlyD [OF rm(3)] by simp
  show "fmlookup (dir w') logFileName = fmlookup (dir w2) logFileName"
    using onlyD [OF o4] onlyD [OF o5 m(2)] onlyD [OF rm(3)] by simp
  show "set rest \<subseteq> old_files s" using r by simp
  show "faults w' = []" if "faults w = []"
    using only_faults [OF o1 that] only_faults o2 o4 o5 rm(3) by blast
  show "is_data_file w f" if d: "is_data_file w' f" and n: "path f \<noteq> dataFileName (nextTxID s)" for f
  proof -
    have dn: "data_name (path f) (txid f)" using d by (simp add: is_data_file_def)
    then have ne: "path f \<noteq> checkpointTmpFileName" "path f \<noteq> logFileName" "path f \<noteq> activeDataFileName" "path f \<noteq> activeDataTmpFileName"
      using data_name_other by metis+
    have "fmlookup (dir w') (path f) = fmlookup (dir w5) (path f)" using onlyD [OF rm(3)] ne by simp
    moreover have "fmlookup (dir w5) (path f) = None \<or> fmlookup (dir w5) (path f) = fmlookup (dir w4) (path f)" using r by blast
    moreover have "fmlookup (dir w4) (path f) = fmlookup (dir w) (path f)"
      using onlyD [OF o4] onlyD [OF o2] onlyD [OF o1] ne n by simp
    ultimately show ?thesis using d by (auto simp: is_data_file_def)
  qed
qed

lemma files_ok_checkpoint:
  assumes "files_ok N s w" and "data_ok w (activeDataFile s) T" and "N < 2 ^ 63"
    and new: "\<And>f. is_data_file w' f \<Longrightarrow> path f \<noteq> dataFileName (nextTxID s) \<Longrightarrow> is_data_file w f"
    and rest: "set (oldDataFiles s') \<subseteq> old_files s"
    and s': "nextTxID s' = nextTxID s + 1" "activeDataFile s' = \<lparr>path = dataFileName (nextTxID s), txid = nextTxID s\<rparr>"
  shows "files_ok (N + 1) s' w'"
proof -
  have older: "file_ok (N + 1) s' f \<and> f \<noteq> activeDataFile s'"
    if "data_name (path f) (txid f)" "0 < age (nextTxID s) (txid f)" "age (nextTxID s) (txid f) \<le> N" for f
    using that s' assms(3) age_step [OF that(3) assms(3)] by (auto simp: file_ok_def)
  have "file_ok (N + 1) s' f" if d: "is_data_file w' f" for f
  proof (cases "path f = dataFileName (nextTxID s)")
    case True
    then have "f = activeDataFile s'"
      using d s'(2) data_name_fun data_name_dataFileName [of "nextTxID s"] by (auto simp: is_data_file_def)
    then show ?thesis using s' data_name_dataFileName by (simp add: file_ok_def)
  next
    case False
    from new [OF d this] have "is_data_file w f" .
    then have "file_ok N s f" "0 < age (nextTxID s) (txid (activeDataFile s))" using assms(1) by (auto simp: files_ok_def)
    then have "0 < age (nextTxID s) (txid f)" by (auto simp: file_ok_def)
    moreover have "data_name (path f) (txid f)" "age (nextTxID s) (txid f) \<le> N"
      using \<open>file_ok N s f\<close> by (simp_all add: file_ok_def)
    ultimately show ?thesis using older by blast
  qed
  moreover have "file_ok (N + 1) s' f \<and> f \<noteq> activeDataFile s'" if "f \<in> set (oldDataFiles s')" for f
    using older old_files_facts [OF assms(1,2)] rest that by blast
  ultimately show ?thesis using s' by (simp add: files_ok_def)
qed

text \<open>All records of the log are older than the checkpoint.\<close>

lemma log_ok_checkpoint:
  assumes "log_ok E N s T t es L tail lid" and "N < 2 ^ 63"
    and "nextTxID s' = nextTxID s + 1" and "activeDataFile s' = \<lparr>path = p, txid = nextTxID s\<rparr>"
  shows "log_ok E (N + 1) s' T' T' es L tail (nextTxID s)"
proof -
  have a: "\<forall>(op0, tid) \<in> set es. age (nextTxID s) tid \<le> N" using assms(1) by (simp add: log_ok_def)
  then have "\<forall>(op0, tid) \<in> set es. age (nextTxID s) tid < 2 ^ 63" using assms(2) by fastforce
  from replay_skip [OF this] have "replay applyEntry es (T', nextTxID s, 0) = (None, (T', nextTxID s, 0))" .
  then show ?thesis using assms(1,3,4) log_ok_ids_Suc [OF a assms(2)] by (auto simp: log_ok_def)
qed

lemma os_Rename_no_faults:
  assumes "faults w = []" and "fmlookup (dir w) a = Some nd" and "all_regular w"
  shows "\<exists>w'. os_Rename a b w = (Inr (), w')"
  using assms by (simp add: os_Rename_def fs_simps all_regular_def)

lemma WriteCheckpoint_no_faults:
  assumes "faults w = []" and "home_ok w" and "entries_codec E (rangeTable E t)"
    and run: "WriteCheckpoint E t s w = (err, s', w')"
  shows "err = None"
proof -
  let ?tmp = checkpointTmpFileName
  obtain r1 w1 where 1: "checkpointTmpFile E ?tmp t s w = (r1, w1)" by fastforce
  note e = checkpointTmpFile_effect [OF 1 assms(3)]
  have "fmlookup (dir w) ?tmp \<noteq> Some SubDir" "home w = HomeDir" "all_regular w"
    using assms(2) by (auto simp: home_ok_def all_regular_def)
  then have r1: "r1 = Inr ?tmp" using e assms(1) by simp
  then obtain m where m: "fmlookup (dir w1) ?tmp = Some (RegFile (data_bytes E t) m)" using e by auto
  have o: "only {?tmp} w w1" using e by simp
  obtain w2 where "os_Rename ?tmp (dataFileName (nextTxID s)) w1 = (Inr (), w2)"
    using os_Rename_no_faults [OF only_faults [OF o assms(1)] m only_regular [OF o \<open>all_regular w\<close>]] by blast
  then show ?thesis using run 1 r1 by (simp add: WriteCheckpoint_def Let_def split: prod.splits)
qed

theorem WriteCheckpoint_DInv:
  assumes inv: "DInv E N s w t" and codec: "entries_codec E (rangeTable E t')" "range_spec E" and N: "N + 1 < 2 ^ 63"
    and run: "WriteCheckpoint E t' s w = (err, s', w')"
  shows "(err = None \<longrightarrow> DInv E (N + 1) s' w' t' \<and> (logInvalid s \<longrightarrow> logInvalid s'))
     \<and> (err \<noteq> None \<longrightarrow> s' = s \<and> DInv E N s w' t)
     \<and> (faults w = [] \<longrightarrow> err = None \<and> faults w' = [] \<and> (\<not> logInvalid s \<longrightarrow> \<not> logInvalid s'))"
proof -
  from inv obtain T es L tail lid where i: "home_ok w" "files_ok N s w" "data_ok w (activeDataFile s) T"
    "logbytes w = L @ tail" "log_ok E N s T t es L tail lid" "handle_ok s w T t tail lid"
    by (rule DInvE)
  have N': "N < 2 ^ 63" using N by simp
  show ?thesis
  proof (cases err)
    case (Some e)
    note f = WriteCheckpoint_fail [OF run [unfolded Some] codec(1)]
    moreover from this have "DInv E N s w' t" by (intro DInv_frame [OF inv conjunct2 [OF f]]) simp_all
    moreover have "faults w \<noteq> []" using WriteCheckpoint_no_faults [OF _ i(1) codec(1) run] Some by auto
    ultimately show ?thesis using Some by simp
  next
    case None
    obtain w1 s2 w2 rest w4 fs w5 where c:
        "only {checkpointTmpFileName, dataFileName (nextTxID s)} w w1"
        "\<exists>m. fmlookup (dir w1) (dataFileName (nextTxID s)) = Some (RegFile (data_bytes E t') m)"
        "checkpointClearLog s w1 = (s2, w2)"
        "s' = s2\<lparr>nextTxID := nextTxID s + 1, oldDataFiles := rest,
           activeDataFile := \<lparr>path = dataFileName (nextTxID s), txid = nextTxID s\<rparr>\<rparr>"
        "only {activeDataFileName, activeDataTmpFileName} w2 w4"
        "set fs = old_files s" "removeFiles fs w4 = (rest, w5)" "only {checkpointTmpFileName} w5 w'"
      using WriteCheckpoint_ok [OF run [unfolded None] codec(1)] by metis
    have logw1: "fmlookup (dir w1) logFileName = fmlookup (dir w) logFileName"
      using onlyD [OF c(1)] by (simp add: cp_distinct(4) [symmetric])
    have out: "\<forall>fh b. logOut s = Some (fh, b) \<longrightarrow> fh_name fh = logFileName"
      using i(6) unfolding handle_ok_def by blast
    have out2: "\<exists>m. fmlookup (dir w1) logFileName = Some (RegFile (logbytes w) m)" if "logOut s \<noteq> None"
    proof -
      from that obtain fh b where "logOut s = Some (fh, b)" by auto
      then show ?thesis using i(6) unfolding handle_ok_def logw1 by blast
    qed
    obtain m where m: "logOut s \<noteq> None \<longrightarrow> fmlookup (dir w1) logFileName = Some (RegFile (logbytes w) m)"
      using out2 by blast
    note cl = checkpointClearLog_effect [OF c(3) out m]
    have o2: "only {logFileName} w1 w2" using cl by simp
    note h = WriteCheckpoint_home [OF i(2,3,1) c(1) o2 c(5-8)]
    have s': "nextTxID s' = nextTxID s + 1" "activeDataFile s' = \<lparr>path = dataFileName (nextTxID s), txid = nextTxID s\<rparr>"
      "oldDataFiles s' = rest" "logInvalid s' = logInvalid s2" "logOut s' = logOut s2" "logFilePath s' = logFilePath s2"
      "logNeedsTruncate s' = logNeedsTruncate s2"
      using c(4) by simp_all
    have fo: "files_ok (N + 1) s' w'" using files_ok_checkpoint [OF i(2,3) N' h(4)] h(5) s' by simp
    have da: "data_ok w' (activeDataFile s') t'"
      using c(2) h(2) s'(2) decodeDataFile_data_bytes [OF codec, of None] data_name_dataFileName
      by (auto simp: data_ok_def)
    note lg = log_ok_checkpoint [OF i(5) N' s'(1,2), of t']
    have lg0: "log_ok E (N + 1) s' t' t' [] [] [] (nextTxID s)"
      using log_ok_nil [of E "N + 1" s' t'] s'(2) by simp
    have lb: "logbytes w' = logbytes w2" using h(3) by (simp add: logbytes_def)
    have path: "logFilePath s = logFileName" using i(6) by (simp add: handle_ok_def)
    have D: "DInv E (N + 1) s' w' t' \<and> (logInvalid s \<longrightarrow> logInvalid s') \<and> (faults w = [] \<longrightarrow> \<not> logInvalid s \<longrightarrow> \<not> logInvalid s')"
    proof (cases "logOut s")
      case None
      then have "w2 = w1" "s2 = s\<lparr>logNeedsTruncate := True\<rparr>" using cl by simp_all
      then have "logbytes w' = L @ tail" "logInvalid s' = logInvalid s" "logOut s' = None" "logFilePath s' = logFileName"
        using lb logw1 i(4) s' None path by (simp_all add: logbytes_def)
      moreover from this have "handle_ok s' w' t' t' tail (nextTxID s)"
        using i(6) s'(1,2) by (auto simp: handle_ok_def)
      ultimately show ?thesis using DInvI [OF h(1) fo da _ lg] by simp
    next
      case (Some x)
      obtain fh b where x: "x = (fh, b)" by fastforce
      consider (ok) "s2 = s\<lparr>logOut := Some (fh\<lparr>fh_off := 0\<rparr>, b), logEntries := 0, logFileSize := 0\<rparr>"
           "fmlookup (dir w2) logFileName = Some (RegFile [] m)"
        | (bad) "s2 = s\<lparr>logOut := None, logNeedsTruncate := True, logInvalid := True, logEntries := 0, logFileSize := 0\<rparr>"
           "fmlookup (dir w2) logFileName \<in> {Some (RegFile (logbytes w) m), Some (RegFile [] m)}" "faults w1 \<noteq> []"
        using cl Some x by auto
      then show ?thesis
      proof cases
        case ok
        have n: "fh_name fh = logFileName" using out Some x by simp
        have l0: "logbytes w' = []" "fmlookup (dir w') logFileName = Some (RegFile [] m)"
          using lb ok(2) h(3) by (simp_all add: logbytes_def)
        have "log_open s' m [] w'" if valid: "\<not> logInvalid s"
        proof -
          obtain k where "log_open s k (logbytes w) w" using i(6) Some x valid by (auto simp: handle_ok_def)
          then show ?thesis using l0 ok(1) s'(5) Some x n by (auto simp: log_open_def at_end_def)
        qed
        moreover have "bw_err b = None \<longrightarrow> bw_buf b = []" using i(6) Some x by (simp add: handle_ok_def)
        ultimately have "handle_ok s' w' t' t' [] (nextTxID s)"
          using l0 ok(1) s' n path by (auto simp: handle_ok_def)
        then show ?thesis using DInvI [OF h(1) fo da _ lg0] l0(1) ok(1) s'(4) by simp
      next
        case bad
        have ho: "handle_ok s' w' t' t' x (nextTxID s)" for x
          using bad(1) s' path by (auto simp: handle_ok_def)
        have "faults w \<noteq> []" using only_faults [OF c(1)] bad(3) by blast
        moreover have "logInvalid s'" using bad(1) s'(4) by simp
        moreover have "DInv E (N + 1) s' w' t'"
          using bad(2) DInvI [OF h(1) fo da _ lg ho] DInvI [OF h(1) fo da _ lg0 ho] lb i(4)
          by (auto simp: logbytes_def)
        ultimately show ?thesis by simp
      qed
    qed
    then show ?thesis using None h(6) by simp
  qed
qed

end
