(* ===== verification/Memlog_Reopen.thy ===== *)
theory Memlog_Reopen
  imports Memlog_Recovery
begin

unbundle bit_operations_syntax

text \<open>
  Opening a home directory again without failures finds the durable table of the invariant, and the
  store that results satisfies the invariant.
\<close>

section \<open>Changes of permissions\<close>

definition content :: "fs \<Rightarrow> string \<Rightarrow> bytes option option" where
  "content w n = map_option (\<lambda>nd. case nd of RegFile d m \<Rightarrow> Some d | SubDir \<Rightarrow> None) (fmlookup (dir w) n)"

text \<open>Both directories have the same files with the same bytes, and no call fails any more.\<close>

definition same_data :: "fs \<Rightarrow> fs \<Rightarrow> bool" where
  "same_data w w' \<longleftrightarrow> home w' = home w \<and> faults w = [] \<and> faults w' = [] \<and> content w' = content w"

lemma same_data_refl: "faults w = [] \<Longrightarrow> same_data w w"
  by (simp add: same_data_def)

lemma same_data_trans: "same_data w w1 \<Longrightarrow> same_data w1 w2 \<Longrightarrow> same_data w w2"
  by (simp add: same_data_def)

lemma content_Some: "content w n = Some (Some d) \<longleftrightarrow> (\<exists>m. fmlookup (dir w) n = Some (RegFile d m))"
proof (cases "fmlookup (dir w) n")
  case (Some nd)
  then show ?thesis by (cases nd) (auto simp: content_def)
qed (simp add: content_def)

lemma content_regular: "all_regular w \<longleftrightarrow> (\<forall>n. content w n \<noteq> Some None)"
  by (auto simp: all_regular_def content_def split: node.splits)

lemma logbytes_content: "logbytes w = (case content w logFileName of Some (Some d) \<Rightarrow> d | _ \<Rightarrow> [])"
  by (auto simp: logbytes_def content_def split: option.splits node.splits)

lemma is_data_file_content: "is_data_file w f \<longleftrightarrow> data_name (path f) (txid f) \<and> (\<exists>d. content w (path f) = Some (Some d))"
  by (auto simp: is_data_file_def content_Some)

lemma data_ok_content:
  "data_ok w f T \<longleftrightarrow>
     (if path f = [] then f = noDataFile \<and> T = fmempty \<and> (\<forall>g. \<not> is_data_file w g)
      else \<exists>c kvs. data_name (path f) (txid f) \<and> content w (path f) = Some (Some c)
        \<and> decodeDataFile None c = Inr kvs \<and> foldl (\<lambda>t (k, v). fmupd k v t) fmempty kvs = T)"
  by (auto simp: data_ok_def content_Some)

lemma meta_ok_content:
  "meta_ok w \<longleftrightarrow> (\<exists>c. content w metaFileName = Some (Some c)
     \<and> bind_result (dec_Decode None c) (\<lambda>(v, rest). unmarshal_meta v) = Inr \<lparr>Version = storeVersion\<rparr>)"
  by (auto simp: meta_ok_def content_Some)

lemma same_data_facts:
  assumes "same_data w w'"
  shows "home_ok w' = home_ok w" and "is_data_file w' f = is_data_file w f" and "data_ok w' f T = data_ok w f T"
    and "logbytes w' = logbytes w" and "files_ok N s w' = files_ok N s w"
  using assms
  by (simp_all add: same_data_def home_ok_def content_regular meta_ok_content is_data_file_content data_ok_content
      logbytes_content files_ok_def)

lemma chmod_same:
  assumes "fmlookup (dir w) n = Some (RegFile d m)" and "faults w = []"
  shows "same_data w (w\<lparr>dir := fmupd n (RegFile d m') (dir w)\<rparr>)"
  using assms by (auto simp: same_data_def content_def fun_eq_iff)

lemma pathEnsurePermissions_same:
  assumes "faults w = []" and "all_regular w"
  obtains w' where "pathEnsurePermissions n mode w = (Inr (), w')" and "same_data w w'"
proof (cases "fmlookup (dir w) n")
  case None
  then show thesis using that [of w] assms
    by (simp add: pathEnsurePermissions_def os_OpenFile_def fs_simps IsNotExist_def same_data_refl)
next
  case (Some nd)
  then obtain d m where nd: "fmlookup (dir w) n = Some (RegFile d m)"
    using assms(2) by (cases nd) (auto simp: all_regular_def)
  let ?f = "\<lparr>fh_name = n, fh_off = 0\<rparr>"
  have o: "os_OpenFile False False mode n w = (Inr ?f, w)" "file_Stat_mode ?f w = (Inr m, w)"
    using nd assms(1) by (simp_all add: os_OpenFile_def file_Stat_mode_def fs_simps)
  have c: "file_Chmod k ?f w = (Inr (), w\<lparr>dir := fmupd n (RegFile d k) (dir w)\<rparr>)" for k
    using nd assms(1) by (simp add: file_Chmod_def fs_simps)
  have cl: "snd (file_Close ?f u) = u" if "faults u = []" for u
    using that by (simp add: file_Close_def fs_simps)
  show thesis
  proof (cases "mode AND ModePerm = m AND ModePerm")
    case True
    then show thesis using that [of w] o cl [OF assms(1)] assms(1)
      by (simp add: pathEnsurePermissions_def fileEnsurePermissions_def Let_def same_data_refl)
  next
    case False
    then show thesis using that [OF _ chmod_same [OF nd assms(1)]] o c cl assms(1)
      by (simp add: pathEnsurePermissions_def fileEnsurePermissions_def Let_def)
  qed
qed

lemma ensureDataFiles_same:
  assumes "faults w = []" and "all_regular w"
  shows "\<exists>w'. ensureDataFiles fs mode w = (None, w') \<and> same_data w w'"
  using assms
proof (induction fs arbitrary: w)
  case (Cons f fs)
  obtain w1 where 1: "pathEnsurePermissions (path f) mode w = (Inr (), w1)" "same_data w w1"
    using Cons.prems by (rule pathEnsurePermissions_same)
  then have "faults w1 = []" "all_regular w1" using Cons.prems by (auto simp: same_data_def content_regular)
  from Cons.IH [OF this] 1 show ?case using same_data_trans by (auto simp: )
qed (simp add: same_data_refl)

section \<open>Reading\<close>

lemma read_existing:
  assumes "fmlookup (dir w) n = Some (RegFile d m)" and "faults w = []"
  shows "os_OpenFile False False mode n w = (Inr \<lparr>fh_name = n, fh_off = 0\<rparr>, w)"
    and "file_ReadAll \<lparr>fh_name = n, fh_off = 0\<rparr> w = ((d, None), w)"
    and "file_Close fh w = (Inr (), w)"
  using assms by (simp_all add: os_OpenFile_def file_ReadAll_def file_Close_def fs_simps)

lemma checkVersion_ok:
  assumes "meta_ok w" and "faults w = []"
  shows "checkVersion ign w = (None, w)"
proof -
  obtain c m where c: "fmlookup (dir w) metaFileName = Some (RegFile c m)"
      "bind_result (dec_Decode None c) (\<lambda>(v, rest). unmarshal_meta v) = Inr \<lparr>Version = storeVersion\<rparr>"
    using assms(1) by (auto simp: meta_ok_def)
  show ?thesis using c(2) read_existing [OF c(1) assms(2)] by (simp add: checkVersion_def readMetaFile_def checkMeta_def)
qed

lemma loadLogFile_ok:
  assumes "all_regular w" and "faults w = []"
  shows "loadLogFile T a w = (readLogLoop applyEntry None (logbytes w) (T, a, 0), w)"
proof (cases "fmlookup (dir w) logFileName")
  case None
  then show ?thesis using assms
    by (simp add: loadLogFile_def readLogFile_def os_OpenFile_def fs_simps IsNotExist_def logbytes_def)
next
  case (Some nd)
  then obtain d m where nd: "fmlookup (dir w) logFileName = Some (RegFile d m)"
    using assms(1) by (cases nd) (auto simp: all_regular_def)
  then show ?thesis using read_existing [OF nd assms(2)] by (simp add: loadLogFile_def readLogFile_def logbytes_def)
qed

lemma loadActive_ok:
  assumes "data_ok w f T" and "faults w = []" and "if path f = [] then fs = [] else fs \<noteq> [] \<and> last fs = f"
  shows "loadActive fs w = (Inr (T, txid f), w)"
proof (cases "path f = []")
  case True
  then show ?thesis using assms by (simp add: data_ok_def loadActive_def noDataFile_def)
next
  case False
  then obtain c m kvs where c: "fmlookup (dir w) (path f) = Some (RegFile c m)" "decodeDataFile None c = Inr kvs"
      "foldl (\<lambda>t (k, v). fmupd k v t) fmempty kvs = T"
    using assms(1) by (auto simp: data_ok_def)
  show ?thesis using False assms(3) c(2,3) read_existing [OF c(1) assms(2)]
    by (simp add: loadActive_def loadDataFile_def readDataFile_def)
qed

section \<open>Reading back the invariant\<close>

text \<open>The files \<open>listDataFiles\<close> finds end with the active file of the store that wrote them.\<close>

lemma listDataFiles_active:
  assumes "files_ok N s w" and "data_ok w (activeDataFile s) T" and "N < 2 ^ 63" and "faults w = []"
  obtains fs where "listDataFiles w = (Inr fs, w)"
    and "if path (activeDataFile s) = [] then fs = [] else fs \<noteq> [] \<and> last fs = activeDataFile s"
    and "\<forall>f \<in> set (butlast fs). file_ok N s f \<and> f \<noteq> activeDataFile s"
proof -
  obtain fs where fs: "listDataFiles w = (Inr fs, w)" "distinct (map path fs)" "set fs = {f. is_data_file w f}"
    "\<forall>c. in_window c fs \<longrightarrow> sorted (rev (map (age c \<circ> txid) fs))"
    by (rule listDataFiles_no_faults [OF assms(4)])
  show thesis
  proof (cases "path (activeDataFile s) = []")
    case True
    then have "fs = []" using fs(3) assms(2) by (auto simp: data_ok_def)
    then show thesis using that [of fs] fs(1) True by simp
  next
    case False
    then have act: "activeDataFile s \<in> set fs" using fs(3) assms(2) by (auto simp: data_ok_def is_data_file_def)
    then have ne: "fs \<noteq> []" by auto
    have ok: "file_ok N s f" if "f \<in> set fs" for f using that fs(3) assms(1) by (auto simp: files_ok_def)
    have "in_window (nextTxID s) fs" using ok assms(3) by (fastforce simp: in_window_def file_ok_def)
    with fs(4) have "sorted (rev (map (age (nextTxID s) \<circ> txid) fs))" by blast
    from sorted_rev_last [OF this act] ok [OF last_in_set [OF ne]] have last: "last fs = activeDataFile s"
      by (auto simp: file_ok_def)
    have "file_ok N s f \<and> f \<noteq> activeDataFile s" if f: "f \<in> set (butlast fs)" for f
    proof -
      have "distinct fs" using fs(2) by (simp add: distinct_map)
      then have "last fs \<notin> set (butlast fs)"
        by (metis append_butlast_last_id distinct.simps(2) ne rotate1.simps(2) distinct1_rotate)
      then show ?thesis using f last ok in_set_butlastD by metis
    qed
    then show thesis using that [of fs] fs(1) ne last False by simp
  qed
qed

lemma log_of_ws: "log_of E es L \<Longrightarrow> \<forall>c \<in> set ws. is_ws c \<Longrightarrow> log_of E es (L @ ws)"
proof (induction ws rule: rev_induct)
  case (snoc c ws)
  then show ?case using log_ws [of E es "L @ ws" c] by simp
qed simp

lemma readLogLoop_durable:
  assumes "log_ok E N s T t es L tail lid"
  obtains e n where "readLogLoop applyEntry None (L @ tail) (T, txid (activeDataFile s), 0) = (e, (t, lid, n))"
    and "e = None \<longrightarrow> log_of E es (L @ tail)"
proof -
  obtain n where r: "replay applyEntry es (T, txid (activeDataFile s), 0) = (None, (t, lid, n))" "log_of E es L" "torn E tail"
    using assms by (auto simp: log_ok_def)
  have l: "readLogLoop applyEntry None (L @ tail) (T, txid (activeDataFile s), 0) = readLogLoop applyEntry None tail (t, lid, n)"
    by (rule readLogLoop_log_of [OF r(2,1)])
  show thesis
  proof (cases "tail = []")
    case True
    then show thesis using that [of None n] l r(2) by simp
  next
    case False
    then obtain op0 tid where "op_codec E op0" "strict_prefix tail (core_bytes E op0 tid)"
      using r(3) by (auto simp: torn_def)
    from readLogLoop_torn [OF this, of applyEntry None "(t, lid, n)"]
    obtain e where "readLogLoop applyEntry None tail (t, lid, n) = (e, (t, lid, n))" "e = None \<longrightarrow> (\<forall>c \<in> set tail. is_ws c)"
      by blast
    then show thesis using that [of e n] l log_of_ws [OF r(2)] by simp
  qed
qed

section \<open>Opening\<close>

lemma os_Remove_no_faults:
  assumes "faults w = []" and "all_regular w"
  shows "\<exists>r w'. os_Remove n w = (r, w') \<and> unlessNotExist r = None"
  using assms
  by (auto simp: os_Remove_def fs_simps unlessNotExist_def IsNotExist_def all_regular_def split: option.splits node.splits)

lemma newDiskStore_ok:
  assumes "faults w = []" and "all_regular w" and "home w = HomeDir"
  obtains d w' m where "newDiskStore h fs lid mode k ivd bufSz pred w = (Inr d, w')"
    and "only {checkpointTmpFileName, activeDataTmpFileName, logFileName} w w'" and "logbytes w' = logbytes w"
    and "log_open d m (logbytes w) w'" and "nextTxID d = lid + 1" and "logInvalid d = ivd" and "logFilePath d = logFileName"
    and "activeDataFile d = (if fs \<noteq> [] then last fs else noDataFile)" and "set (oldDataFiles d) = set (butlast fs)"
    and "\<not> logNeedsTruncate d"
proof -
  let ?A = "{checkpointTmpFileName, activeDataTmpFileName, logFileName}"
  obtain r1 w1 where 1: "os_Remove checkpointTmpFileName w = (r1, w1)" "unlessNotExist r1 = None"
    using os_Remove_no_faults [OF assms(1,2)] by blast
  have o1: "only {checkpointTmpFileName} w w1" using os_Remove_only [of checkpointTmpFileName w] 1(1) by simp
  obtain r2 w2 where 2: "os_Remove activeDataTmpFileName w1 = (r2, w2)" "unlessNotExist r2 = None"
    using os_Remove_no_faults [OF only_faults [OF o1 assms(1)] only_regular [OF o1 assms(2)]] by blast
  have o12: "only {activeDataTmpFileName} w1 w2" using os_Remove_only [of activeDataTmpFileName w1] 2(1) by simp
  have o2: "only {checkpointTmpFileName, activeDataTmpFileName} w w2" by (rule only_trans [OF o1 o12]) simp
  define s where "s = \<lparr>checkpointPred = pred, fileMode = mode, bufferSize = bufSz, homePath = h,
               logFilePath = logFileName,
               oldDataFiles = (if fs \<noteq> [] then butlast fs else fs),
               activeDataFile = (if fs \<noteq> [] then last fs else noDataFile),
               nextTxID = lid + 1, logOut = None, logFileSize = 0, logEntries = k,
               logInvalid = ivd, logNeedsTruncate = False\<rparr>"
  obtain err d w3 where 3: "tryOpenLog s w2 = (err, d, w3)" by (metis prod.exhaust)
  have s: "logFilePath s = logFileName" "\<not> logNeedsTruncate s" by (simp_all add: s_def)
  note t = tryOpenLog_effect [OF 3 s(1) only_regular [OF o2 assms(2)]]
  have e: "err = None" using t only_faults [OF o2 assms(1)] only_home [OF o2] assms(3) by simp
  then obtain m where m: "log_open d m (logbytes w3) w3" and lb: "logbytes w3 = logbytes w2"
      and d: "d = s\<lparr>logOut := logOut d, logNeedsTruncate := False, logFileSize := logFileSize d, logEntries := logEntries d\<rparr>"
    using t s(2) by auto
  have lb2: "logbytes w2 = logbytes w" using logbytes_frame [OF o2] by simp
  show thesis
  proof (rule that)
    show "newDiskStore h fs lid mode k ivd bufSz pred w = (Inr d, w3)"
      unfolding newDiskStore_def s_def [symmetric] Let_def using 1 2 3 by simp
    show "only ?A w w3" using t by (intro only_trans [OF o2, of "{logFileName}"]) auto
    show "logbytes w3 = logbytes w" "log_open d m (logbytes w) w3" using m lb lb2 by simp_all
  qed (subst d, simp add: s_def)+
qed

text \<open>What \<open>openStore\<close> does once the home directory is known to be one: the invariant of the store
  that wrote the directory is only used as far as it concerns the files.\<close>

lemma openStore_from:
  assumes oh: "openHome E mode w0 = (None, w)" and nf: "faults w = []" and N: "N + 1 < 2 ^ 63"
    and i: "home_ok w" "files_ok N s w" "data_ok w (activeDataFile s) T" "logbytes w = L @ tail"
      "log_ok E N s T t es L tail lid" "lid + 1 = nextTxID s \<or> lid = nextTxID s"
  shows "\<exists>s' w'. openStore E h mode bufSz ign cp w0 = (Inr s', w') \<and> mem s' = Some t
     \<and> DInv E (N + 1) (disk s') w' t \<and> faults w' = []"
proof -
  have N': "N < 2 ^ 63" using N by simp
  define good where "good w' \<longleftrightarrow> same_data w w'" for w'
  have good: "home_ok w'" "all_regular w'" "home w' = HomeDir" "meta_ok w'" "faults w' = []" "files_ok N s w'"
      "data_ok w' (activeDataFile s) T" "logbytes w' = L @ tail" if "good w'" for w'
    using that i same_data_facts [of w w'] by (auto simp: good_def home_ok_def same_data_def)
  have step: "\<exists>w2. pathEnsurePermissions n mode w1 = (Inr (), w2) \<and> good w2" if "good w1" for n w1
    using pathEnsurePermissions_same [of w1 n mode] good [OF that] that same_data_trans unfolding good_def by metis
  have g0: "good w" using nf by (simp add: good_def same_data_refl)
  have cv: "checkVersion ign w = (None, w)" using checkVersion_ok good [OF g0] by simp
  obtain w3 where 3: "pathEnsurePermissions activeDataFileName mode w = (Inr (), w3)" "good w3" using step [OF g0] by blast
  obtain fs where fs: "listDataFiles w3 = (Inr fs, w3)"
      "if path (activeDataFile s) = [] then fs = [] else fs \<noteq> [] \<and> last fs = activeDataFile s"
      "\<forall>f \<in> set (butlast fs). file_ok N s f \<and> f \<noteq> activeDataFile s"
    using listDataFiles_active [OF good(6,7) [OF 3(2)] N' good(5) [OF 3(2)]] by blast
  obtain w5 where "ensureDataFiles fs mode w3 = (None, w5)" "same_data w3 w5"
    using ensureDataFiles_same [of w3 fs mode] good [OF 3(2)] by blast
  then have 5: "ensureDataFiles fs mode w3 = (None, w5)" "good w5"
    using 3(2) same_data_trans unfolding good_def by blast+
  obtain w6 where 6: "pathEnsurePermissions logFileName mode w5 = (Inr (), w6)" "good w6" using step [OF 5(2)] by blast
  note g6 = good [OF 6(2)]
  have la: "loadActive fs w6 = (Inr (T, txid (activeDataFile s)), w6)" by (rule loadActive_ok [OF g6(7,5) fs(2)])
  obtain e n where r: "readLogLoop applyEntry None (L @ tail) (T, txid (activeDataFile s), 0) = (e, (t, lid, n))"
      "e = None \<longrightarrow> log_of E es (L @ tail)"
    by (rule readLogLoop_durable [OF i(5)])
  have ll: "loadLogFile T (txid (activeDataFile s)) w6 = ((e, (t, lid, n)), w6)"
    using loadLogFile_ok [OF g6(2,5)] g6(8) r(1) by simp
  obtain d w9 m where 9: "newDiskStore h fs lid mode n (e \<noteq> None) bufSz cp w6 = (Inr d, w9)"
      "only {checkpointTmpFileName, activeDataTmpFileName, logFileName} w6 w9" "logbytes w9 = logbytes w6"
      "log_open d m (logbytes w6) w9" "nextTxID d = lid + 1" "logInvalid d = (e \<noteq> None)" "logFilePath d = logFileName"
      "activeDataFile d = (if fs \<noteq> [] then last fs else noDataFile)" "set (oldDataFiles d) = set (butlast fs)"
      "\<not> logNeedsTruncate d"
    by (rule newDiskStore_ok [OF g6(5,2,3)])
  have run: "openStore E h mode bufSz ign cp w0 = (Inr \<lparr>disk = d, mem = Some t\<rparr>, w9)"
    unfolding openStore_def using oh cv 3(1) fs(1) 5(1) 6(1) la ll 9(1) by simp
  have act: "activeDataFile d = activeDataFile s" using 9(8) fs(2) i(3) by (auto simp: data_ok_def split: if_splits)
  have nx: "nextTxID d = nextTxID s \<or> nextTxID d = nextTxID s + 1"
    using 9(5) i(6) by auto
  have h9: "home_ok w9" by (rule home_ok_frame [OF g6(1) 9(2)]) simp
  have d9: "data_ok w9 (activeDataFile d) T" using data_ok_frame [OF g6(7) 9(2)] act by simp
  have f9: "files_ok (N + 1) d w9"
  proof -
    define d' where "d' = d\<lparr>nextTxID := nextTxID s\<rparr>"
    have "file_ok N d' f = file_ok N s f" for f using act by (simp add: file_ok_def d'_def)
    then have "files_ok N d' w6" using g6(6) fs(3) act 9(9) by (auto simp: files_ok_def d'_def)
    then have f: "files_ok N d' w9" using files_ok_frame [OF _ 9(2)] by simp
    show ?thesis
    proof (cases "nextTxID d = nextTxID s")
      case True
      from files_ok_mono [OF files_ok_same [OF f, of d]] True show ?thesis by (simp add: d'_def)
    next
      case False
      then show ?thesis using files_ok_Suc [OF f N', of d] nx by (simp add: d'_def)
    qed
  qed
  have ids: "\<forall>(op0, tid) \<in> set es. age (nextTxID d) tid \<le> N + 1"
    using i(5) nx log_ok_ids_Suc [of es "nextTxID s" N] N' by (fastforce simp: log_ok_def)
  have rp: "\<exists>n. replay applyEntry es (T, txid (activeDataFile d), 0) = (None, (t, lid, n))" "log_of E es L" "torn E tail"
    using i(5) act by (auto simp: log_ok_def)
  have hd: "handle_ok d w9 T t x lid" if "e = None \<longrightarrow> x = []" for x
    using that 9 log_open_lookup [OF 9(4)] by (auto simp: handle_ok_def) (auto simp: log_open_def at_end_def)
  have "DInv E (N + 1) d w9 t"
  proof (cases "e = None")
    case True
    then have "log_ok E (N + 1) d T t es (L @ tail) [] lid" using r(2) rp(1) ids by (simp add: log_ok_def torn_def)
    from DInvI [OF h9 f9 d9 _ this hd] show ?thesis using 9(3) g6(8) by simp
  next
    case False
    then have "log_ok E (N + 1) d T t es L tail lid" using rp ids by (simp add: log_ok_def)
    from DInvI [OF h9 f9 d9 _ this hd] show ?thesis using 9(3) g6(8) False by simp
  qed
  then show ?thesis using run only_faults [OF 9(2) g6(5)] by simp
qed

lemma openHome_existing:
  assumes "home_ok w" and "faults w = []"
  obtains w1 where "openHome E mode w = (None, w1)" and "same_data w w1"
proof -
  obtain w1 where "pathEnsurePermissions metaFileName mode w = (Inr (), w1)" "same_data w w1"
    using pathEnsurePermissions_same [of w metaFileName mode] assms by (auto simp: home_ok_def)
  then show thesis using that [of w1] assms by (simp add: openHome_def os_Stat_home_def fs_simps home_ok_def)
qed

text \<open>The part of the invariant that lies on disk; the store itself may be gone.\<close>

definition Durable :: "memlog_env \<Rightarrow> nat \<Rightarrow> diskstore \<Rightarrow> fs \<Rightarrow> table \<Rightarrow> bool" where
  "Durable E N s w t \<longleftrightarrow> home_ok w \<and> files_ok N s w
     \<and> (\<exists>T es L tail lid. data_ok w (activeDataFile s) T \<and> logbytes w = L @ tail
          \<and> log_ok E N s T t es L tail lid \<and> (lid + 1 = nextTxID s \<or> lid = nextTxID s))"

lemma DInv_Durable: "DInv E N s w t \<Longrightarrow> Durable E N s w t"
  unfolding DInv_def Durable_def handle_ok_def by metis

lemma Durable_frame:
  assumes "Durable E N s w t" and "only A w w'" and "plain A" and "logFileName \<notin> A"
  shows "Durable E N s w' t"
proof -
  have "metaFileName \<notin> A" using assms(3) by (auto simp: plain_def)
  then show ?thesis
    using assms home_ok_frame files_ok_frame data_ok_frame logbytes_frame unfolding Durable_def by metis
qed

lemma Durable_faults: "Durable E N s (w\<lparr>faults := fl\<rparr>) t = Durable E N s w t"
proof -
  have "is_data_file (w\<lparr>faults := fl\<rparr>) f = is_data_file w f" for f by (simp add: is_data_file_def)
  then show ?thesis
    by (simp add: Durable_def home_ok_def all_regular_def meta_ok_def files_ok_def data_ok_def logbytes_def)
qed

lemma DInv_faults: "DInv E N s (w\<lparr>faults := fl\<rparr>) t = DInv E N s w t"
proof -
  have "is_data_file (w\<lparr>faults := fl\<rparr>) f = is_data_file w f" for f by (simp add: is_data_file_def)
  moreover have "log_open s m L (w\<lparr>faults := fl\<rparr>) = log_open s m L w" for m L by (simp add: log_open_def at_end_def)
  moreover have "logbytes (w\<lparr>faults := fl\<rparr>) = logbytes w" by (simp add: logbytes_def)
  ultimately show ?thesis
    by (simp add: DInv_def home_ok_def all_regular_def meta_ok_def files_ok_def data_ok_def handle_ok_def)
qed

lemma openStore_recovers:
  assumes inv: "Durable E N s w t" and N: "N + 1 < 2 ^ 63" and nf: "faults w = []"
  shows "\<exists>s' w'. openStore E h mode bufSz ign cp w = (Inr s', w') \<and> mem s' = Some t
     \<and> DInv E (N + 1) (disk s') w' t \<and> faults w' = []"
proof -
  from inv obtain T es L tail lid where i: "home_ok w" "files_ok N s w" "data_ok w (activeDataFile s) T"
    "logbytes w = L @ tail" "log_ok E N s T t es L tail lid" "lid + 1 = nextTxID s \<or> lid = nextTxID s"
    unfolding Durable_def by blast
  obtain w1 where 1: "openHome E mode w = (None, w1)" "same_data w w1"
    using openHome_existing [OF i(1) nf] by blast
  note s = same_data_facts [OF 1(2)]
  show ?thesis
    using openStore_from [OF 1(1) _ N, of s T L tail t es lid] i s 1(2) by (simp add: same_data_def)
qed

section \<open>The first opening\<close>

lemma write_chunks_ensure:
  assumes "at_end n m d fh w" and "faults w = []"
  shows "\<exists>fh'. write_chunks (\<lambda>p (fh, w). ensure_Write 0 p fh w) cs (fh, w) =
     (None, fh', set_file n m (d @ concat cs) [] w) \<and> at_end n m (d @ concat cs) fh' (set_file n m (d @ concat cs) [] w)"
  using assms
proof (induction cs arbitrary: fh w d)
  case Nil
  then have "set_file n m d [] w = w" using set_file_id [of w n d m] by (simp add: at_end_def)
  then show ?case using Nil by simp
next
  case (Cons c cs)
  obtain k e fh1 w1 where en: "ensure_Write 0 c fh w = ((k, e), fh1, w1)" by (metis prod.exhaust)
  from ensure_Write_append [OF en Cons.prems(1)] Cons.prems(2)
  have a: "at_end n m (d @ c) fh1 w1" "w1 = set_file n m (d @ c) [] w" "e = None" by auto
  from Cons.IH [OF a(1)] a(2) obtain fh' where
    "write_chunks (\<lambda>p (fh, w). ensure_Write 0 p fh w) cs (fh1, w1) = (None, fh', set_file n m ((d @ c) @ concat cs) [] w1)"
    "at_end n m ((d @ c) @ concat cs) fh' (set_file n m ((d @ c) @ concat cs) [] w1)" by auto
  then show ?case using en a(2,3) by simp
qed

text \<open>A home directory that does not exist yet.\<close>

definition fresh :: "fs \<Rightarrow> bool" where
  "fresh w \<longleftrightarrow> home w = HomeMissing \<and> dir w = fmempty \<and> faults w = []"

lemma openHome_fresh:
  assumes "fresh w" and "meta_codec E"
  obtains w1 where "openHome E mode w = (None, w1)" and "home_ok w1" and "faults w1 = []"
    and "\<forall>n. n \<noteq> metaFileName \<longrightarrow> fmlookup (dir w1) n = None"
proof -
  define u where "u = w\<lparr>home := HomeDir\<rparr>"
  let ?f = "\<lparr>fh_name = metaFileName, fh_off = 0\<rparr>"
  define w2 where "w2 = u\<lparr>dir := fmupd metaFileName (RegFile [] (mode AND NOT (umask u))) (dir u)\<rparr>"
  have u: "faults u = []" "home u = HomeDir" "dir u = fmempty" using assms(1) by (simp_all add: u_def fresh_def)
  have o: "os_OpenFile True True mode metaFileName u = (Inr ?f, w2)"
    using u by (simp add: os_OpenFile_def fs_simps w2_def)
  let ?v = "foldMeta E \<lparr>Version = storeVersion\<rparr>"
  have v: "snd ?v = None" using assms(2) by (simp add: meta_codec_def encodes_def)
  let ?c = "concat (fst ?v)"
  let ?m = "mode AND NOT (umask u)"
  define w3 where "w3 = set_file metaFileName ?m ?c [] w2"
  have "at_end metaFileName ?m [] ?f w2" "faults w2 = []" using u by (simp_all add: at_end_def w2_def)
  from write_chunks_ensure [OF this, of "fst ?v"] obtain f' where
    wc: "write_chunks (\<lambda>p (fh, w). ensure_Write 0 p fh w) (fst ?v) (?f, w2) = (None, f', w3)" by (auto simp: w3_def)
  have en: "Encode (\<lambda>p (fh, w). ensure_Write 0 p fh w) ?v (?f, w2) = (None, f', w3)"
    unfolding Encode_def wc by (simp add: v)
  have f3: "faults w3 = []" by (simp add: w3_def)
  define w4 where "w4 = trySyncPath w3"
  have o4: "only {} w3 w4" unfolding w4_def by (rule trySyncPath_only)
  have wm: "writeMetaFile E mode u = (None, w4)"
    unfolding writeMetaFile_def using o en f3 by (simp add: syncFile_no_faults file_Close_def fs_simps w4_def)
  have oh: "openHome E mode w = (None, w4)"
    using wm assms(1) by (simp add: openHome_def os_Stat_home_def os_MkdirAll_def fs_simps fresh_def IsNotExist_def u_def)
  have d4: "dir w4 = fmupd metaFileName (RegFile ?c ?m) fmempty"
    using only_dir [OF o4] u(3) by (simp add: w3_def w2_def)
  obtain ps where ps: "run SValue [] ?c = POk (JObj ps) []" "unmarshal_meta (JObj ps) = Inr \<lparr>Version = storeVersion\<rparr>"
    using assms(2) by (auto simp: meta_codec_def encodes_def)
  have "meta_ok w4" using d4 ps by (simp add: meta_ok_def dec_Decode_def del: unmarshal_meta.simps)
  moreover have "home w4 = HomeDir" using only_home [OF o4] u(2) by (simp add: w3_def w2_def)
  ultimately have "home_ok w4" using d4 by (simp add: home_ok_def all_regular_def)
  moreover have "\<forall>n. n \<noteq> metaFileName \<longrightarrow> fmlookup (dir w4) n = None" using d4 by simp
  ultimately show thesis using that [OF oh] only_faults [OF o4 f3] by blast
qed

lemma openStore_fresh:
  assumes "fresh w" and "meta_codec E"
  shows "\<exists>s' w'. openStore E h mode bufSz ign cp w = (Inr s', w') \<and> mem s' = Some fmempty
     \<and> DInv E 2 (disk s') w' fmempty \<and> faults w' = []"
proof -
  obtain w1 where 1: "openHome E mode w = (None, w1)" "home_ok w1" "faults w1 = []"
    "\<forall>n. n \<noteq> metaFileName \<longrightarrow> fmlookup (dir w1) n = None" by (rule openHome_fresh [OF assms])
  define s :: diskstore where "s = \<lparr>checkpointPred = cp, fileMode = mode, bufferSize = bufSz, homePath = h,
               logFilePath = logFileName, oldDataFiles = [], activeDataFile = noDataFile,
               nextTxID = 1, logOut = None, logFileSize = 0, logEntries = 0,
               logInvalid = False, logNeedsTruncate = False\<rparr>"
  have none: "\<not> is_data_file w1 f" for f
  proof
    assume d: "is_data_file w1 f"
    then have "path f \<noteq> metaFileName" by (metis data_name_other(2) is_data_file_def)
    with d 1(4) show False by (simp add: is_data_file_def)
  qed
  have "files_ok 1 s w1" using none by (simp add: files_ok_def s_def noDataFile_def age_def)
  moreover have "data_ok w1 (activeDataFile s) fmempty" using none by (simp add: data_ok_def s_def noDataFile_def)
  moreover have "logbytes w1 = [] @ []" using 1(4) by (simp add: logbytes_def)
  moreover have "txid (activeDataFile s) + 1 = nextTxID s \<or> txid (activeDataFile s) = nextTxID s"
    by (simp add: s_def noDataFile_def)
  moreover have "(1 :: nat) + 1 < 2 ^ 63" by simp
  ultimately have "\<exists>s' w'. openStore E h mode bufSz ign cp w = (Inr s', w') \<and> mem s' = Some fmempty
     \<and> DInv E (1 + 1) (disk s') w' fmempty \<and> faults w' = []"
    using openStore_from [OF 1(1,3) _ 1(2) _ _ _ log_ok_nil] by blast
  then show ?thesis by (simp only: one_add_one)
qed

end
