(* ===== verification/Memlog_Encoder.thy ===== *)
theory Memlog_Encoder
  imports Memlog_Checkpoint
begin

text \<open>
  The hypotheses on the JSON encoder can be met: a concrete encoder, for values whose fields are
  strings, and the proof that what it writes decodes to the value.  The witnesses of the memlog
  properties use it.  The encoder of the program is that of \<open>go-structform\<close>.
\<close>

section \<open>The encoder\<close>

definition plain_string :: "string \<Rightarrow> bool" where
  "plain_string s \<longleftrightarrow> (\<forall>c \<in> set s. 32 \<le> (of_char c :: nat) \<and> c \<noteq> CHR 0x22 \<and> c \<noteq> CHR 0x5C)"

definition quote :: "string \<Rightarrow> string" where
  "quote s = CHR 0x22 # s @ [CHR 0x22]"

definition enc_field :: "string \<times> string \<Rightarrow> string" where
  "enc_field kv = quote (fst kv) @ CHR '':'' # quote (snd kv)"

fun enc_rest :: "(string \<times> string) list \<Rightarrow> string" where
  "enc_rest [] = []"
| "enc_rest (kv # kvs) = CHR '','' # enc_field kv @ enc_rest kvs"

fun enc_obj :: "(string \<times> string) list \<Rightarrow> string" where
  "enc_obj [] = ''{}''"
| "enc_obj (kv # kvs) = CHR ''{'' # enc_field kv @ enc_rest kvs @ ''}''"

definition string_fields :: "mapstr \<Rightarrow> (string \<times> string) list" where
  "string_fields v = map (\<lambda>k. (k, case fmlookup v k of Some (VStr s) \<Rightarrow> s | _ \<Rightarrow> [])) (sorted_list_of_fset (fmdom v))"

definition plain_env :: memlog_env where
  "plain_env =
     \<lparr>foldAction = (\<lambda>a. ([CHR ''{'' # enc_field (''op'', Op a) @ CHR '','' # quote ''id'' @ CHR '':'' # show_nat (unat (ID a)) @ ''}''], None)),
      foldOp = (\<lambda>op0. case op0 of
         opSet k v \<Rightarrow> ([CHR ''{'' # enc_field (''K'', k) @ CHR '','' # quote ''V'' @ CHR '':'' # enc_obj (string_fields v), ''}''], None)
       | opRemove k \<Rightarrow> ([enc_obj [(''K'', k)]], None)),
      foldEntry = (\<lambda>e. ([enc_obj ((keyField, Key e) # string_fields (EFields e))], None)),
      foldMeta = (\<lambda>m. ([enc_obj [(''version'', Version m)]], None)),
      rangeTable = (\<lambda>t. map (\<lambda>k. (k, the (fmlookup t k))) (sorted_list_of_fset (fmdom t)))\<rparr>"

section \<open>Scanning its output\<close>

lemma unquote_Raw [simp]: "unquote (map Raw s) = s"
  by (induction s) auto

lemma run_plain:
  assumes "plain_string s"
  shows "run (SStr acc) st (s @ rest) = run (SStr (rev (map Raw s) @ acc)) st rest"
  using assms
proof (induction s arbitrary: acc)
  case (Cons c s)
  then show ?case by (auto simp: plain_string_def)
qed simp

lemma run_key:
  assumes "plain_string k" and "s = SKeyOrEnd \<or> s = SKey"
  shows "run s (InObj ps None # st) (quote k @ CHR '':'' # rest) = run SValue (InObj ps (Some k) # st) rest"
  using assms run_plain [OF assms(1), of "[]"] by (auto simp: quote_def is_ws_def rev_map)

lemma run_string_value:
  assumes "plain_string v"
  shows "run SValue (InObj ps (Some k) # st) (quote v @ rest) = run SAfter (InObj ((k, JStr v) # ps) None # st) rest"
  using assms run_plain [OF assms(1), of "[]"] by (auto simp: quote_def is_ws_def begin_value_def rev_map)

lemma run_field:
  assumes "plain_string (fst kv)" and "plain_string (snd kv)" and "s = SKeyOrEnd \<or> s = SKey"
  shows "run s (InObj ps None # st) (enc_field kv @ rest) = run SAfter (InObj ((fst kv, JStr (snd kv)) # ps) None # st) rest"
  using run_key [OF assms(1,3)] run_string_value [OF assms(2)] by (simp add: enc_field_def)

definition jfields :: "(string \<times> string) list \<Rightarrow> (string \<times> json) list" where
  "jfields kvs = map (\<lambda>(k, v). (k, JStr v)) kvs"

abbreviation plain_fields :: "(string \<times> string) list \<Rightarrow> bool" where
  "plain_fields kvs \<equiv> \<forall>(k, v) \<in> set kvs. plain_string k \<and> plain_string v"

lemma run_rest:
  assumes "plain_fields kvs"
  shows "run SAfter (InObj ps None # st) (enc_rest kvs @ CHR ''}'' # rest) = resume (JObj (rev ps @ jfields kvs)) st rest"
  using assms
proof (induction kvs arbitrary: ps)
  case Nil
  then show ?case by (simp add: jfields_def resume_def is_ws_def split: action.splits) (metis finish_kinds)
next
  case (Cons kv kvs)
  obtain k v where kv: "kv = (k, v)" by fastforce
  have "run SKey (InObj ps None # st) (enc_field kv @ enc_rest kvs @ CHR ''}'' # rest)
      = run SAfter (InObj ((k, JStr v) # ps) None # st) (enc_rest kvs @ CHR ''}'' # rest)"
    using run_field [of kv SKey] Cons.prems kv by auto
  then show ?case using Cons kv by (simp add: jfields_def is_ws_def)
qed

lemma run_obj:
  assumes "plain_fields kvs"
  shows "run SValue st (enc_obj kvs @ rest) = resume (JObj (jfields kvs)) st rest"
proof (cases kvs)
  case Nil
  then show ?thesis
    by (simp add: jfields_def resume_def is_ws_def begin_value_def split: action.splits) (metis finish_kinds)
next
  case (Cons kv kvs')
  obtain k v where kv: "kv = (k, v)" by fastforce
  have "run SKeyOrEnd (InObj [] None # st) (enc_field kv @ enc_rest kvs' @ CHR ''}'' # rest)
      = run SAfter (InObj [(k, JStr v)] None # st) (enc_rest kvs' @ CHR ''}'' # rest)"
    using run_field [of kv SKeyOrEnd] assms Cons kv by auto
  then show ?thesis using Cons kv assms run_rest [of kvs' "[(k, JStr v)]"]
    by (simp add: jfields_def is_ws_def begin_value_def)
qed

corollary run_obj_top:
  assumes "plain_fields kvs"
  shows "run SValue [] (enc_obj kvs) = POk (JObj (jfields kvs)) []"
  using run_obj [OF assms, of "[]" "[]"] by (simp add: resume_def)

text \<open>Numbers.\<close>

lemma show_nat_cases:
  "\<exists>c cs. show_nat n = c # cs \<and> is_digit c \<and> (\<forall>d \<in> set cs. is_digit d) \<and> (c = CHR ''0'' \<longrightarrow> cs = [])"
proof (induction n rule: show_nat.induct)
  case (1 n)
  have dig: "is_digit (char_of (48 + d))" if "d < 10" for d :: nat using that by (simp add: is_digit_def)
  show ?case
  proof (cases "n < 10")
    case True
    then show ?thesis using dig by (subst show_nat.simps) simp
  next
    case False
    obtain c cs where c: "show_nat (n div 10) = c # cs" "is_digit c" "\<forall>d \<in> set cs. is_digit d" "c = CHR ''0'' \<longrightarrow> cs = []"
      using 1 False by blast
    have "c \<noteq> CHR ''0''"
    proof
      assume z: "c = CHR ''0''"
      then have "digits_value 0 (show_nat (n div 10)) = Some 0" using c by (simp add: is_digit_def)
      then show False using False digits_value_show_nat [of "n div 10"] by simp
    qed
    then show ?thesis using c dig [of "n mod 10"] False by (subst show_nat.simps) simp
  qed
qed

lemma run_digits:
  assumes "\<forall>d \<in> set ds. is_digit d"
  shows "run (SNum NInt lit) st (ds @ CHR ''}'' # rest) = run (SNum NInt (rev ds @ lit)) st (CHR ''}'' # rest)"
  using assms by (induction ds arbitrary: lit) (auto simp: next_num_def)

lemma run_number_value:
  "run SValue (InObj ps (Some k) # st) (show_nat n @ CHR ''}'' # rest) = resume (JObj (rev ps @ [(k, JNum (show_nat n))])) st rest"
proof -
  obtain c cs where c: "show_nat n = c # cs" "is_digit c" "\<forall>d \<in> set cs. is_digit d" "c = CHR ''0'' \<longrightarrow> cs = []"
    using show_nat_cases by blast
  have st: "begin_value s c = Cont (SNum (if c = CHR ''0'' then NZero else NInt) [c]) s" "\<not> is_ws c" for s
    using c(2) by (auto simp: begin_value_def is_ws_def is_digit_def)
  have fin: "run (SNum x (rev l)) (InObj ps (Some k) # st) (CHR ''}'' # rest) = resume (JObj (rev ps @ [(k, JNum l)])) st rest"
    if "x = NZero \<or> x = NInt" for x l
    using that by (auto simp: next_num_def num_complete_def end_number_def is_ws_def is_digit_def resume_def split: action.splits)
      (metis finish_kinds)+
  show ?thesis
  proof (cases "c = CHR ''0''")
    case True
    then show ?thesis using c st fin [of NZero "[c]"] by simp
  next
    case False
    then show ?thesis using c st fin [of NInt "c # cs"] run_digits [OF c(3), of "[c]"] by simp
  qed
qed

section \<open>The hypotheses hold\<close>

definition flat :: "mapstr \<Rightarrow> bool" where
  "flat v \<longleftrightarrow> (\<forall>k x. fmlookup v k = Some x \<longrightarrow> plain_string k \<and> k \<noteq> keyField \<and> (\<exists>s. x = VStr s \<and> plain_string s))"

lemma set_string_fields: "set (map fst (string_fields v)) = fset (fmdom v)" "distinct (map fst (string_fields v))"
  by (simp_all add: string_fields_def image_image sorted_list_of_fset.rep_eq o_def)

lemma string_fields_plain:
  assumes "flat v"
  shows "plain_fields (string_fields v)"
proof -
  have "plain_string k \<and> plain_string (case fmlookup v k of Some (VStr s) \<Rightarrow> s | _ \<Rightarrow> [])" if "k |\<in>| fmdom v" for k
  proof -
    from that obtain x where "fmlookup v k = Some x" by auto
    with assms show ?thesis by (fastforce simp: flat_def)
  qed
  then show ?thesis by (auto simp: string_fields_def)
qed

lemma to_pairs_jfields: "to_pairs (jfields kvs) m = foldl (\<lambda>t (k, v). fmupd k v t) m (map (\<lambda>(k, s). (k, VStr s)) kvs)"
  by (induction kvs arbitrary: m) (auto simp: jfields_def)

lemma fmap_of_graph: "fmap_of_list (map (\<lambda>k. (k, the (fmlookup m k))) (sorted_list_of_fset (fmdom m))) = m"
  by (rule fmap_ext) (auto simp: fmlookup_of_list map_of_map_restrict restrict_map_def fmdom_notD)

lemma map_string_fields:
  assumes "flat v"
  shows "map (\<lambda>(k, s). (k, VStr s)) (string_fields v) = map (\<lambda>k. (k, the (fmlookup v k))) (sorted_list_of_fset (fmdom v))"
proof -
  have "VStr (case fmlookup v k of Some (VStr s) \<Rightarrow> s | _ \<Rightarrow> []) = the (fmlookup v k)" if "k |\<in>| fmdom v" for k
  proof -
    from that obtain x where "fmlookup v k = Some x" by auto
    with assms show ?thesis by (fastforce simp: flat_def)
  qed
  then show ?thesis by (simp add: string_fields_def)
qed

lemma to_pairs_string_fields:
  assumes "flat v"
  shows "to_pairs (jfields (string_fields v)) m = m ++\<^sub>f v"
proof -
  have "distinct (map fst (map (\<lambda>k. (k, the (fmlookup v k))) (sorted_list_of_fset (fmdom v))))"
    by (simp add: o_def sorted_list_of_fset.rep_eq)
  from foldl_table [OF this, of m] show ?thesis
    unfolding to_pairs_jfields map_string_fields [OF assms] fmap_of_graph .
qed

lemma plain_op_names: "plain_string ''op''" "plain_string ''id''" "plain_string ''K''" "plain_string ''V''"
  "plain_string ''version''" "plain_string keyField" "plain_string (op_name op0)" "plain_string storeVersion"
  by (cases op0; simp add: plain_string_def keyField_def storeVersion_def opValSet_def opValRemove_def)+

lemma eqfold_names [simp]:
  "eqfold ''op'' ''op''" "\<not> eqfold ''id'' ''op''" "eqfold ''id'' ''id''" "eqfold ''K'' ''k''"
  "\<not> eqfold ''V'' ''k''" "eqfold ''V'' ''v''" "eqfold ''version'' ''Version''"
  by code_simp+

lemma plain_action:
  "encodes (foldAction plain_env \<lparr>Op = op_name op0, ID = tid\<rparr>) (\<lambda>j. unmarshal_action j = Inr \<lparr>Op = op_name op0, ID = tid\<rparr>)"
proof -
  let ?n = "show_nat (unat tid)"
  have "run SValue [] (CHR ''{'' # enc_field (''op'', op_name op0) @ CHR '','' # quote ''id'' @ CHR '':'' # ?n @ ''}'')
      = run SKeyOrEnd [InObj [] None] (enc_field (''op'', op_name op0) @ CHR '','' # quote ''id'' @ CHR '':'' # ?n @ ''}'')"
    by (simp add: begin_value_def is_ws_def)
  also have "\<dots> = run SAfter [InObj [(''op'', JStr (op_name op0))] None] (CHR '','' # quote ''id'' @ CHR '':'' # ?n @ ''}'')"
    using run_field [of "(''op'', op_name op0)" SKeyOrEnd "[]" "[]"] plain_op_names by simp
  also have "\<dots> = run SKey [InObj [(''op'', JStr (op_name op0))] None] (quote ''id'' @ CHR '':'' # ?n @ ''}'')"
    by (simp add: is_ws_def)
  also have "\<dots> = run SValue [InObj [(''op'', JStr (op_name op0))] (Some ''id'')] (?n @ ''}'')"
    using run_key [of "''id''" SKey] plain_op_names by simp
  also have "\<dots> = POk (JObj [(''op'', JStr (op_name op0)), (''id'', JNum ?n)]) []"
    using run_number_value [of "[(''op'', JStr (op_name op0))]" "''id''" "[]" "unat tid" "[]"] by (simp add: resume_def)
  finally show ?thesis
    by (simp add: encodes_def plain_env_def ParseUint_show_nat)
qed

lemma plain_set:
  assumes "plain_string k" and "flat v"
  shows "encodes (foldOp plain_env (opSet k v)) (\<lambda>j. unmarshal_op opValSet j = Inr (opSet k v))"
proof -
  let ?o = "enc_obj (string_fields v)"
  have "run SValue [] (CHR ''{'' # enc_field (''K'', k) @ CHR '','' # quote ''V'' @ CHR '':'' # ?o @ ''}'')
      = run SKeyOrEnd [InObj [] None] (enc_field (''K'', k) @ CHR '','' # quote ''V'' @ CHR '':'' # ?o @ ''}'')"
    by (simp add: begin_value_def is_ws_def)
  also have "\<dots> = run SAfter [InObj [(''K'', JStr k)] None] (CHR '','' # quote ''V'' @ CHR '':'' # ?o @ ''}'')"
    using run_field [of "(''K'', k)" SKeyOrEnd "[]" "[]"] plain_op_names assms(1) by simp
  also have "\<dots> = run SKey [InObj [(''K'', JStr k)] None] (quote ''V'' @ CHR '':'' # ?o @ ''}'')"
    by (simp add: is_ws_def)
  also have "\<dots> = run SValue [InObj [(''K'', JStr k)] (Some ''V'')] (?o @ ''}'')"
    using run_key [of "''V''" SKey] plain_op_names by simp
  also have "\<dots> = POk (JObj [(''K'', JStr k), (''V'', JObj (jfields (string_fields v)))]) []"
    using run_obj [OF string_fields_plain [OF assms(2)], of "[InObj [(''K'', JStr k)] (Some ''V'')]" "''}''"]
    by (simp add: resume_def is_ws_def)
  finally show ?thesis
    using to_pairs_string_fields [OF assms(2), of fmempty]
    by (simp add: encodes_def plain_env_def unmarshal_op_def)
qed

lemma plain_remove:
  assumes "plain_string k"
  shows "encodes (foldOp plain_env (opRemove k)) (\<lambda>j. unmarshal_op opValRemove j = Inr (opRemove k))"
  using run_obj_top [of "[(''K'', k)]"] assms plain_op_names
  by (simp add: encodes_def plain_env_def unmarshal_op_def jfields_def opValSet_def opValRemove_def)

lemma plain_op_codec:
  "plain_string k \<Longrightarrow> flat v \<Longrightarrow> op_codec plain_env (opSet k v)"
  "plain_string k \<Longrightarrow> op_codec plain_env (opRemove k)"
  using plain_action plain_set plain_remove by (simp_all add: op_codec_def del: op_name.simps) (simp_all add: plain_action)

lemma plain_entry_codec:
  assumes "plain_string k" and "flat v"
  shows "entry_codec plain_env k v"
proof -
  have "fmlookup v keyField = None"
    using assms(2) by (metis flat_def not_None_eq)
  moreover have "run SValue [] (enc_obj ((keyField, k) # string_fields v)) = POk (JObj (jfields ((keyField, k) # string_fields v))) []"
    using run_obj_top [of "(keyField, k) # string_fields v"] string_fields_plain [OF assms(2)] assms(1) plain_op_names by simp
  moreover have "to_pairs (jfields ((keyField, k) # string_fields v)) fmempty = fmupd keyField (VStr k) v"
  proof -
    have "to_pairs (jfields ((keyField, k) # string_fields v)) fmempty = fmupd keyField (VStr k) fmempty ++\<^sub>f v"
      using to_pairs_string_fields [OF assms(2), of "fmupd keyField (VStr k) fmempty"] by (simp add: jfields_def)
    also have "\<dots> = fmupd keyField (VStr k) v"
      using \<open>fmlookup v keyField = None\<close> by (intro fmap_ext) (auto simp: fmdom_notI)
    finally show ?thesis .
  qed
  ultimately show ?thesis by (simp add: entry_codec_def encodes_def plain_env_def del: enc_obj.simps)
qed

lemma plain_meta_codec: "meta_codec plain_env"
  using run_obj_top [of "[(''version'', storeVersion)]"] plain_op_names
  by (simp add: meta_codec_def encodes_def plain_env_def jfields_def)

lemma plain_range_spec: "range_spec plain_env"
proof -
  have "distinct (map fst (map (\<lambda>k. (k, the (fmlookup t k))) (sorted_list_of_fset (fmdom t))))" for t :: table
    by (simp add: o_def sorted_list_of_fset.rep_eq)
  then show ?thesis unfolding range_spec_def plain_env_def memlog_env.simps fmap_of_graph by blast
qed

lemmas plain_codecs = plain_op_codec plain_entry_codec plain_meta_codec plain_range_spec

end
