(* ===== verification/Memlog_Durability.thy ===== *)
theory Memlog_Durability
  imports Memlog_Reopen Memlog_Encoder
begin

text \<open>
  Runs of a memlog store: a sequence of \<open>Set\<close>, \<open>Remove\<close> and \<open>Checkpoint\<close> calls under any failures,
  a crash included, and what the next process finds.
\<close>

section \<open>The invariant of an open store\<close>

definition SInv :: "memlog_env \<Rightarrow> nat \<Rightarrow> store \<Rightarrow> fs \<Rightarrow> table \<Rightarrow> bool" where
  "SInv E N s w t \<longleftrightarrow> DInv E N (disk s) w t \<and> mem s \<noteq> None
     \<and> (\<not> logInvalid (disk s) \<longrightarrow> mem s = Some t)"

definition table_codec :: "memlog_env \<Rightarrow> table \<Rightarrow> bool" where
  "table_codec E t \<longleftrightarrow> (\<forall>k v. fmlookup t k = Some v \<longrightarrow> entry_codec E k v)"

lemma table_codec_entries:
  assumes "table_codec E t" and "range_spec E"
  shows "entries_codec E (rangeTable E t)"
proof -
  have "fmlookup t k = Some v" if "(k, v) \<in> set (rangeTable E t)" for k v
    using assms(2) that unfolding range_spec_def by (metis fmlookup_of_list map_of_is_SomeI)
  then show ?thesis using assms(1) by (auto simp: table_codec_def)
qed

text \<open>The step shared by \<open>Set\<close> and \<open>Remove\<close>: the table in memory is already the new one, \<open>m\<close>.\<close>

lemma logOperation_step:
  assumes inv: "DInv E N (disk s) w t" and m: "mem s = Some m" "\<not> logInvalid (disk s) \<longrightarrow> m = applyOp op0 t"
    and codec: "op_codec E op0" "table_codec E m" "range_spec E" and N: "N + 1 < 2 ^ 63"
    and run: "logOperation E op0 s w = (err, s', w')"
  shows "mem s' = Some m \<and> (\<exists>t'. SInv E (N + 1) s' w' t' \<and> (t' = t \<or> t' = m) \<and> (err = None \<longrightarrow> t' = m))
     \<and> (faults w = [] \<longrightarrow> err = None \<and> faults w' = [])"
proof -
  note ec = table_codec_entries [OF codec(2,3)]
  have mt: "mem_table s = m" using m(1) by (simp add: mem_table_def)
  show ?thesis
  proof (cases "mustCheckpoint (disk s)")
    case True
    obtain e d w1 where wc: "WriteCheckpoint E m (disk s) w = (e, d, w1)" by (metis prod.exhaust)
    note c = WriteCheckpoint_DInv [OF inv ec codec(3) N wc]
    show ?thesis
    proof (cases e)
      case None
      then have "err = None" "s' = s\<lparr>disk := d\<rparr>" "w' = w1" using run True wc mt by (auto simp: logOperation_def)
      then show ?thesis using c None m(1) by (auto simp: SInv_def)
    next
      case (Some x)
      then have d: "d = disk s" "DInv E N (disk s) w1 t" "faults w \<noteq> []" using c by auto
      obtain e2 d2 w2 where lo: "LogOperation E op0 (disk s) w1 = (e2, d2, w2)" by (metis prod.exhaust)
      have r: "err = Some x" "s' = s\<lparr>disk := d2\<rparr>" "w' = w2"
        using run True wc mt Some d(1) lo by (auto simp: logOperation_def)
      obtain t' where t': "DInv E (N + 1) d2 w2 t'" "t' = t \<or> (t' = applyOp op0 t \<and> \<not> logInvalid (disk s))"
          "e2 = None \<longrightarrow> t' = applyOp op0 t" "e2 \<noteq> None \<longrightarrow> logInvalid d2"
        using LogOperation_DInv [OF d(2) codec(1) N lo] by blast
      have "e2 = None \<longrightarrow> \<not> logInvalid (disk s)" using lo by (auto simp: LogOperation_def)
      then have "\<not> logInvalid d2 \<longrightarrow> t' = m" using t'(3,4) m(2) by auto
      then have "SInv E (N + 1) s' w' t'" "t' = t \<or> t' = m" using t' r m by (auto simp: SInv_def)
      then show ?thesis using r m(1) d(3) by auto
    qed
  next
    case False
    then have valid: "\<not> logInvalid (disk s)" by (simp add: mustCheckpoint_def)
    obtain e2 d2 w2 where lo: "LogOperation E op0 (disk s) w = (e2, d2, w2)" by (metis prod.exhaust)
    have r: "err = e2" "s' = s\<lparr>disk := d2\<rparr>" "w' = w2" using run False lo by (auto simp: logOperation_def)
    obtain t' where t': "DInv E (N + 1) d2 w2 t'" "t' = t \<or> t' = m"
        "e2 = None \<longrightarrow> t' = m" "e2 \<noteq> None \<longrightarrow> logInvalid d2" "faults w = [] \<longrightarrow> faults w2 = [] \<and> e2 = None"
      using LogOperation_DInv [OF inv codec(1) N lo] m(2) valid by blast
    then have "SInv E (N + 1) s' w' t'" using r m(1) by (auto simp: SInv_def)
    then show ?thesis using t' r m(1) by auto
  qed
qed

section \<open>Runs\<close>

datatype call = CSet string mapstr | CRemove string | CCheckpoint

text \<open>A call that \<open>typeconv.Convert\<close> has prepared, and its effect on the table in memory.\<close>

definition exec :: "memlog_env \<Rightarrow> call \<Rightarrow> store \<Rightarrow> fs \<Rightarrow> error option \<times> store \<times> fs" where
  "exec E c s w =
     (case c of
        CSet k v \<Rightarrow> store_Set E Inr k v s w
      | CRemove k \<Rightarrow> store_Remove E k s w
      | CCheckpoint \<Rightarrow> store_Checkpoint E s w)"

fun effect :: "call \<Rightarrow> table \<Rightarrow> table" where
  "effect (CSet k v) t = fmupd k v t"
| "effect (CRemove k) t = fmdrop k t"
| "effect CCheckpoint t = t"

fun runs :: "memlog_env \<Rightarrow> call list \<Rightarrow> store \<Rightarrow> fs \<Rightarrow> error option list \<times> store \<times> fs" where
  "runs E [] s w = ([], s, w)"
| "runs E (c # cs) s w =
     (case exec E c s w of (err, s1, w1) \<Rightarrow>
        (case runs E cs s1 w1 of (errs, s2, w2) \<Rightarrow> (err # errs, s2, w2)))"

definition effects :: "call list \<Rightarrow> table \<Rightarrow> table" where
  "effects cs t = fold effect cs t"

definition call_codec :: "memlog_env \<Rightarrow> call \<Rightarrow> bool" where
  "call_codec E c \<longleftrightarrow>
     (case c of
        CSet k v \<Rightarrow> op_codec E (opSet k v) \<and> entry_codec E k v
      | CRemove k \<Rightarrow> op_codec E (opRemove k)
      | CCheckpoint \<Rightarrow> True)"

lemma memstore_effects:
  "memstore_Set k v t = fmupd k v t" "snd (memstore_Remove k t) = fmdrop k t"
  by (auto simp: memstore_Set_def memstore_Remove_def intro!: fmap_ext)

lemma table_codec_effect:
  "table_codec E t \<Longrightarrow> call_codec E c \<Longrightarrow> table_codec E (effect c t)"
  by (cases c) (auto simp: table_codec_def call_codec_def split: if_splits)

lemma exec_step:
  assumes inv: "SInv E N s w t" "mem s = Some m" and codec: "call_codec E c" "table_codec E m" "range_spec E"
    and N: "N + 1 < 2 ^ 63" and run: "exec E c s w = (err, s', w')"
  shows "mem s' = Some (effect c m)
     \<and> (\<exists>t'. SInv E (N + 1) s' w' t' \<and> (t' = t \<or> t' = effect c m) \<and> (err = None \<longrightarrow> t' = effect c m))
     \<and> (faults w = [] \<longrightarrow> err = None \<and> faults w' = [])"
proof -
  note tc = table_codec_effect [OF codec(2,1)]
  have D: "DInv E N (disk s) w t" "\<not> logInvalid (disk s) \<longrightarrow> m = t" using inv by (auto simp: SInv_def)
  show ?thesis
  proof (cases c)
    case (CSet k v)
    let ?s = "s\<lparr>mem := Some (effect c m)\<rparr>"
    have "logOperation E (opSet k v) ?s w = (err, s', w')"
      using run CSet inv(2) by (simp add: exec_def store_Set_def memstore_effects)
    moreover have "DInv E N (disk ?s) w t" using D(1) by simp
    moreover have "\<not> logInvalid (disk ?s) \<longrightarrow> effect c m = applyOp (opSet k v) t"
      using D(2) CSet by (simp add: applyOp_def memstore_effects)
    moreover have "op_codec E (opSet k v)" using codec(1) CSet by (simp add: call_codec_def)
    ultimately show ?thesis using logOperation_step [of E N ?s w t "effect c m" "opSet k v" err s' w'] tc codec(3) N by simp
  next
    case (CRemove k)
    let ?s = "s\<lparr>mem := Some (effect c m)\<rparr>"
    have "logOperation E (opRemove k) ?s w = (err, s', w')"
      using run CRemove inv(2) by (simp add: exec_def store_Remove_def memstore_effects)
    moreover have "DInv E N (disk ?s) w t" using D(1) by simp
    moreover have "\<not> logInvalid (disk ?s) \<longrightarrow> effect c m = applyOp (opRemove k) t"
      using D(2) CRemove by (simp add: applyOp_def memstore_effects)
    moreover have "op_codec E (opRemove k)" using codec(1) CRemove by (simp add: call_codec_def)
    ultimately show ?thesis using logOperation_step [of E N ?s w t "effect c m" "opRemove k" err s' w'] tc codec(3) N by simp
  next
    case CCheckpoint
    obtain d where wc: "WriteCheckpoint E m (disk s) w = (err, d, w')" "s' = s\<lparr>disk := d\<rparr>"
      using run CCheckpoint inv(2) by (auto simp: exec_def store_Checkpoint_def mem_table_def split: prod.splits)
    note w = WriteCheckpoint_DInv [OF D(1) table_codec_entries [OF codec(2,3)] codec(3) N wc(1)]
    show ?thesis
    proof (cases err)
      case None
      then show ?thesis using w wc(2) inv(2) CCheckpoint by (auto simp: SInv_def)
    next
      case (Some e)
      then have "DInv E (N + 1) (disk s) w' t" "s' = s" "faults w \<noteq> []" using w wc(2) DInv_mono by auto
      then show ?thesis using Some inv CCheckpoint by (auto simp: SInv_def)
    qed
  qed
qed

text \<open>The durable table is the one after the first \<open>k\<close> calls, and every acknowledged call is among them.\<close>

lemma runs_durable:
  assumes "SInv E N s w t" and "mem s = Some m" and "table_codec E m" and "range_spec E"
    and "\<forall>c \<in> set cs. call_codec E c" and "N + length cs < 2 ^ 63" and "runs E cs s w = (errs, s', w')"
  shows "mem s' = Some (effects cs m) \<and> length errs = length cs
     \<and> (\<exists>t'. SInv E (N + length cs) s' w' t'
          \<and> ((t' = t \<and> (\<forall>i < length cs. errs ! i \<noteq> None)) \<or>
             (\<exists>k < length cs. t' = effects (take (Suc k) cs) m \<and> (\<forall>i < length cs. errs ! i = None \<longrightarrow> i \<le> k))))
     \<and> (faults w = [] \<longrightarrow> faults w' = [] \<and> (\<forall>e \<in> set errs. e = None))"
  using assms
proof (induction cs arbitrary: N s w t m errs)
  case Nil
  then show ?case by (auto simp: effects_def)
next
  case (Cons c cs)
  obtain e s1 w1 where 1: "exec E c s w = (e, s1, w1)" by (metis prod.exhaust)
  obtain es where es: "runs E cs s1 w1 = (es, s', w')" "errs = e # es"
    using Cons.prems(7) 1 by (auto split: prod.splits)
  have N: "N + 1 < 2 ^ 63" "N + 1 + length cs < 2 ^ 63" using Cons.prems(6) by auto
  have cc: "call_codec E c" "\<forall>c \<in> set cs. call_codec E c" using Cons.prems(5) by auto
  from exec_step [OF Cons.prems(1,2) cc(1) Cons.prems(3,4) N(1) 1] obtain t1 where t1:
    "mem s1 = Some (effect c m)" "SInv E (N + 1) s1 w1 t1" "t1 = t \<or> t1 = effect c m" "e = None \<longrightarrow> t1 = effect c m"
    "faults w = [] \<longrightarrow> e = None \<and> faults w1 = []" by blast
  note IH = Cons.IH [OF t1(2,1) table_codec_effect [OF Cons.prems(3) cc(1)] Cons.prems(4) cc(2) N(2) es(1)]
  have eff: "effects (c # xs) m = effects xs (effect c m)" for xs by (simp add: effects_def)
  obtain t' where t': "SInv E (N + 1 + length cs) s' w' t'"
      "(t' = t1 \<and> (\<forall>i < length cs. es ! i \<noteq> None)) \<or>
       (\<exists>k < length cs. t' = effects (take (Suc k) cs) (effect c m) \<and> (\<forall>i < length cs. es ! i = None \<longrightarrow> i \<le> k))"
    using IH by blast
  have "(t' = t \<and> (\<forall>i < length (c # cs). errs ! i \<noteq> None)) \<or>
     (\<exists>k < length (c # cs). t' = effects (take (Suc k) (c # cs)) m \<and> (\<forall>i < length (c # cs). errs ! i = None \<longrightarrow> i \<le> k))"
    using t'(2)
  proof
    assume a: "t' = t1 \<and> (\<forall>i < length cs. es ! i \<noteq> None)"
    show ?thesis
    proof (cases "e = None")
      case True
      then have "t' = effects (take (Suc 0) (c # cs)) m" using a t1(4) by (simp add: effects_def)
      then show ?thesis using a es(2) by (auto intro!: exI [of _ 0] simp: nth_Cons split: nat.splits)
    next
      case False
      then have none: "\<forall>i < length (c # cs). errs ! i \<noteq> None" using a es(2) by (auto simp: nth_Cons split: nat.splits)
      show ?thesis
      proof (cases "t1 = t")
        case True
        then show ?thesis using none a by blast
      next
        case False
        then have "t' = effects (take (Suc 0) (c # cs)) m" using a t1(3) by (simp add: effects_def)
        then show ?thesis using none by blast
      qed
    qed
  next
    assume "\<exists>k < length cs. t' = effects (take (Suc k) cs) (effect c m) \<and> (\<forall>i < length cs. es ! i = None \<longrightarrow> i \<le> k)"
    then obtain k where k: "k < length cs" "t' = effects (take (Suc k) cs) (effect c m)" "\<forall>i < length cs. es ! i = None \<longrightarrow> i \<le> k"
      by blast
    have "\<forall>i < length (c # cs). errs ! i = None \<longrightarrow> i \<le> Suc k"
      using k(3) es(2) by (auto simp: nth_Cons split: nat.splits)
    moreover have "t' = effects (take (Suc (Suc k)) (c # cs)) m" using k(2) by (simp add: eff)
    ultimately show ?thesis using k(1) by (intro disjI2 exI [of _ "Suc k"]) simp
  qed
  moreover have "SInv E (N + length (c # cs)) s' w' t'" using t'(1) by simp
  ultimately show ?case using IH es(2) t1(5) eff [of cs] by auto
qed

section \<open>Shutting down\<close>

lemma diskstore_Close_effect:
  assumes "DInv E N s w t" and "diskstore_Close s w = (err, s', w')"
  shows "only {} w w' \<and> s' = s\<lparr>logOut := None\<rparr> \<and> (faults w = [] \<and> \<not> logInvalid s \<longrightarrow> err = None)"
proof (cases "logOut s")
  case None
  then show ?thesis using assms(2) by (simp add: diskstore_Close_def)
next
  case (Some x)
  obtain fh b where x: "x = (fh, b)" by fastforce
  have b: "bw_err b = None \<longrightarrow> bw_buf b = []" "\<not> logInvalid s \<longrightarrow> bw_err b = None"
    using assms(1) Some x unfolding DInv_def handle_ok_def log_open_def by auto
  have fl: "bw_Flush (b, fh, w) = (bw_err b, b, fh, w)" using b(1) by (auto simp: bw_Flush_def)
  obtain r w2 where sy: "syncFile fh w = (r, w2)" by fastforce
  have o: "only {} w w2" using syncFile_only [of w fh] sy by simp
  have close: "only {} w (snd (file_Close fh u))" if "only {} w u" for u
    using only_trans [OF that file_Close_only] by simp
  have "faults w = [] \<longrightarrow> r = Inr ()" using sy syncFile_no_faults [of w fh] by auto
  then show ?thesis
    using assms(2) Some x fl sy close [OF o] close [of w] b(2)
    by (auto simp: diskstore_Close_def split: option.splits sum.splits)
qed

lemma Durable_handle: "Durable E N (s\<lparr>logOut := h\<rparr>) w t = Durable E N s w t"
proof -
  have "file_ok N (s\<lparr>logOut := h\<rparr>) f = file_ok N s f" for f by (simp add: file_ok_def)
  then show ?thesis by (simp add: Durable_def files_ok_def log_ok_def)
qed

lemma store_Close_Durable:
  assumes "DInv E N (disk s) w t" and "store_Close s w = (err, s', w')"
  shows "Durable E N (disk s') w' t \<and> (faults w = [] \<longrightarrow> faults w' = []) \<and> (faults w = [] \<and> \<not> logInvalid (disk s) \<longrightarrow> err = None)"
proof -
  obtain d where d: "diskstore_Close (disk s) w = (err, d, w')" "s' = s\<lparr>disk := d, mem := None\<rparr>"
    using assms(2) by (auto simp: store_Close_def split: prod.splits)
  note c = diskstore_Close_effect [OF assms(1) d(1)]
  have "Durable E N (disk s) w' t" using Durable_frame [OF DInv_Durable [OF assms(1)] conjunct1 [OF c]] by simp
  moreover have "disk s' = (disk s)\<lparr>logOut := None\<rparr>" using c d(2) by simp
  ultimately have "Durable E N (disk s') w' t" using Durable_handle by metis
  then show ?thesis using c only_faults by blast
qed

section \<open>Crash consistency\<close>

text \<open>
  A run on a directory that did not exist before: the store is opened, used, possibly closed; any
  system call on the way may fail, or the machine may stop there.
\<close>

definition session :: "memlog_env \<Rightarrow> string \<Rightarrow> u32 \<Rightarrow> nat \<Rightarrow> bool \<Rightarrow> (u64 \<Rightarrow> bool) \<Rightarrow> call list \<Rightarrow> fault list \<Rightarrow> bool \<Rightarrow> fs \<Rightarrow> (error option list \<times> fs) option" where
  "session E h mode bufSz ign cp cs fl close w =
     (case openStore E h mode bufSz ign cp w of
        (Inl e, w1) \<Rightarrow> None
      | (Inr s, w1) \<Rightarrow>
          (case runs E cs s (w1\<lparr>faults := fl\<rparr>) of
             (errs, s', w2) \<Rightarrow>
               Some (errs, if close then snd (snd (store_Close s' w2)) else w2)))"

text \<open>The table the next process finds.\<close>

definition reopened :: "memlog_env \<Rightarrow> string \<Rightarrow> u32 \<Rightarrow> nat \<Rightarrow> bool \<Rightarrow> (u64 \<Rightarrow> bool) \<Rightarrow> fs \<Rightarrow> table option" where
  "reopened E h mode bufSz ign cp w =
     (case openStore E h mode bufSz ign cp (w\<lparr>faults := []\<rparr>) of
        (Inl e, w1) \<Rightarrow> None
      | (Inr s, w1) \<Rightarrow> mem s)"

lemma table_codec_empty: "table_codec E fmempty"
  by (simp add: table_codec_def)

lemma session_durable:
  assumes "fresh w" and "meta_codec E" and "range_spec E" and "\<forall>c \<in> set cs. call_codec E c"
    and "length cs + 3 < 2 ^ 63"
  obtains errs w' t' where "session E h mode bufSz ign cp cs fl close w = Some (errs, w')" and "length errs = length cs"
    and "(t' = fmempty \<and> (\<forall>i < length cs. errs ! i \<noteq> None)) \<or>
         (\<exists>k < length cs. t' = effects (take (Suc k) cs) fmempty \<and> (\<forall>i < length cs. errs ! i = None \<longrightarrow> i \<le> k))"
    and "reopened E h mode bufSz ign cp w' = Some t'"
    and "fl = [] \<longrightarrow> (\<forall>e \<in> set errs. e = None)"
proof -
  obtain s w1 where op: "openStore E h mode bufSz ign cp w = (Inr s, w1)" "mem s = Some fmempty"
      "DInv E 2 (disk s) w1 fmempty" "faults w1 = []"
    using openStore_fresh [OF assms(1,2)] by metis
  let ?w1 = "w1\<lparr>faults := fl\<rparr>"
  have "DInv E 2 (disk s) ?w1 fmempty" using op(3) by (simp add: DInv_faults)
  then have S: "SInv E 2 s ?w1 fmempty" using op(2) by (simp add: SInv_def)
  obtain errs s' w2 where r: "runs E cs s ?w1 = (errs, s', w2)" by (metis prod.exhaust)
  have N: "2 + length cs < 2 ^ 63" using assms(5) by simp
  note R = runs_durable [OF S op(2) table_codec_empty assms(3,4) N r]
  then obtain t' where t': "SInv E (2 + length cs) s' w2 t'"
     "(t' = fmempty \<and> (\<forall>i < length cs. errs ! i \<noteq> None)) \<or>
      (\<exists>k < length cs. t' = effects (take (Suc k) cs) fmempty \<and> (\<forall>i < length cs. errs ! i = None \<longrightarrow> i \<le> k))"
    by blast
  have D: "DInv E (2 + length cs) (disk s') w2 t'" using t'(1) by (simp add: SInv_def)
  define w3 where "w3 = (if close then snd (snd (store_Close s' w2)) else w2)"
  obtain s3 where "Durable E (2 + length cs) s3 w3 t'"
  proof (cases close)
    case True
    obtain e c w' where "store_Close s' w2 = (e, c, w')" by (metis prod.exhaust)
    with store_Close_Durable [OF D this] True that show thesis by (auto simp: w3_def)
  next
    case False
    then show thesis using that DInv_Durable [OF D] by (simp add: w3_def)
  qed
  then have du: "Durable E (2 + length cs) s3 (w3\<lparr>faults := []\<rparr>) t'" by (simp add: Durable_faults)
  have N3: "2 + length cs + 1 < 2 ^ 63" "faults (w3\<lparr>faults := []\<rparr>) = []" using assms(5) by simp_all
  from openStore_recovers [OF du N3] obtain s4 w4 where
    "openStore E h mode bufSz ign cp (w3\<lparr>faults := []\<rparr>) = (Inr s4, w4)" "mem s4 = Some t'"
    by blast
  then have re: "reopened E h mode bufSz ign cp w3 = Some t'" by (simp add: reopened_def)
  have "session E h mode bufSz ign cp cs fl close w = Some (errs, w3)" using op(1) r by (simp add: session_def w3_def)
  then show thesis using that R t'(2) re by simp
qed

text \<open>C1. Crash consistency of the memlog store.  Start from a home directory that does not exist, open a
  store, and run any calls of \<open>Set\<close>, \<open>Remove\<close> and \<open>Checkpoint\<close> while any system call fails, writes are
  torn, or the machine stops at some call; close the store or do not.  The next process opens
  the directory without an error and finds the table as it was after some prefix of the calls.
  Every call that reported success is part of that prefix: nothing acknowledged is lost, and no
  state that never existed in memory appears.  The calls may trigger checkpoints at any time.\<close>

theorem memlog_crash_consistent:
  assumes "fresh w" and "meta_codec E" and "range_spec E" and "\<forall>c \<in> set cs. call_codec E c"
    and "length cs + 3 < 2 ^ 63"
  shows "\<exists>errs w'. session E h mode bufSz ign cp cs fl close w = Some (errs, w') \<and>
     ((reopened E h mode bufSz ign cp w' = Some fmempty \<and> (\<forall>i < length cs. errs ! i \<noteq> None)) \<or>
      (\<exists>k < length cs. reopened E h mode bufSz ign cp w' = Some (effects (take (Suc k) cs) fmempty)
         \<and> (\<forall>i < length cs. errs ! i = None \<longrightarrow> i \<le> k)))"
  by (rule session_durable [OF assms, of h mode bufSz ign cp fl close]) auto

text \<open>Three calls, the first interrupted by a full disk, and a machine that stops soon after.\<close>

definition no_home :: fs where
  "no_home = \<lparr>home = HomeMissing, dir = fmempty, umask = 0, faults = []\<rparr>"

definition sample_value :: mapstr where
  "sample_value = fmupd ''cursor'' (VStr ''17'') fmempty"

definition sample_calls :: "call list" where
  "sample_calls = [CSet ''log'' sample_value, CCheckpoint, CRemove ''log'']"

lemma fresh_no_home: "fresh no_home"
  by (simp add: fresh_def no_home_def)

lemma sample_codec: "\<forall>c \<in> set sample_calls. call_codec plain_env c"
proof -
  have "plain_string ''log''" "flat sample_value"
    by (auto simp: plain_string_def flat_def sample_value_def keyField_def split: if_splits)
  then show ?thesis using plain_codecs by (simp add: sample_calls_def call_codec_def)
qed

theorem memlog_crash_consistent_witness:
  "\<exists>errs w'. session plain_env ''home'' 384 4096 False defaultCheckpoint sample_calls
       [NoFault, Partial 3 ENOSPC, Crash] False no_home = Some (errs, w') \<and>
     ((reopened plain_env ''home'' 384 4096 False defaultCheckpoint w' = Some fmempty
        \<and> (\<forall>i < length sample_calls. errs ! i \<noteq> None)) \<or>
      (\<exists>k < length sample_calls. reopened plain_env ''home'' 384 4096 False defaultCheckpoint w' =
          Some (effects (take (Suc k) sample_calls) fmempty)
         \<and> (\<forall>i < length sample_calls. errs ! i = None \<longrightarrow> i \<le> k)))"
  by (rule memlog_crash_consistent [OF fresh_no_home plain_meta_codec plain_range_spec sample_codec])
    (simp add: sample_calls_def)

text \<open>C2. Round trip of the memlog store.  When no system call fails, every call succeeds, and after the
  store was closed or just abandoned, the next process finds exactly the table the calls built up.\<close>

theorem memlog_round_trip:
  assumes "fresh w" and "meta_codec E" and "range_spec E" and "\<forall>c \<in> set cs. call_codec E c"
    and "length cs + 3 < 2 ^ 63"
  shows "\<exists>errs w'. session E h mode bufSz ign cp cs [] close w = Some (errs, w') \<and> errs = replicate (length cs) None
     \<and> reopened E h mode bufSz ign cp w' = Some (effects cs fmempty)"
proof (rule session_durable [OF assms, of h mode bufSz ign cp "[]" close])
  fix errs w' t'
  assume a: "session E h mode bufSz ign cp cs [] close w = Some (errs, w')" "length errs = length cs"
    "(t' = fmempty \<and> (\<forall>i < length cs. errs ! i \<noteq> None)) \<or>
     (\<exists>k < length cs. t' = effects (take (Suc k) cs) fmempty \<and> (\<forall>i < length cs. errs ! i = None \<longrightarrow> i \<le> k))"
    "reopened E h mode bufSz ign cp w' = Some t'" "[] = [] \<longrightarrow> (\<forall>e \<in> set errs. e = None)"
  have ok: "errs = replicate (length cs) None" using a(2,5) by (simp add: list_eq_iff_nth_eq)
  have "t' = effects cs fmempty"
  proof (cases cs rule: rev_cases)
    case Nil
    then show ?thesis using a(3) by (simp add: effects_def)
  next
    case (snoc ds d)
    then obtain k where k: "k < length cs" "t' = effects (take (Suc k) cs) fmempty" "\<forall>i < length cs. errs ! i = None \<longrightarrow> i \<le> k"
      using a(3) ok by auto
    have "length cs - 1 \<le> k" using k(3) ok snoc by (metis diff_less length_greater_0_conv nth_replicate snoc_eq_iff_butlast zero_less_one)
    then have "Suc k = length cs" using k(1) by simp
    then show ?thesis using k(2) by simp
  qed
  then show ?thesis using a ok by blast
qed

theorem memlog_round_trip_witness:
  "\<exists>errs w'. session plain_env ''home'' 384 4096 False defaultCheckpoint sample_calls [] True no_home = Some (errs, w')
     \<and> errs = replicate (length sample_calls) None
     \<and> reopened plain_env ''home'' 384 4096 False defaultCheckpoint w' = Some (effects sample_calls fmempty)"
  by (rule memlog_round_trip [OF fresh_no_home plain_meta_codec plain_range_spec sample_codec])
    (simp add: sample_calls_def)

end
