(* ===== verification/Memlog_Properties.thy ===== *)
theory Memlog_Properties
  imports Memlog_Durability
begin

text \<open>
  Properties of single operations of the memlog backend: torn logs, the order of transaction ids and
  of data files, checkpoints, retried writes, and what the store does when the directory or the
  log cannot be used.
\<close>

section \<open>Torn logs\<close>

text \<open>The records a store with last id \<open>cur\<close> appends for these operations.\<close>

fun log_entries :: "u64 \<Rightarrow> memlog_op list \<Rightarrow> (memlog_op \<times> u64) list" where
  "log_entries cur [] = []"
| "log_entries cur (op0 # ops) = (op0, cur + 1) # log_entries (cur + 1) ops"

definition log_file :: "memlog_env \<Rightarrow> u64 \<Rightarrow> memlog_op list \<Rightarrow> bytes" where
  "log_file E cur ops = concat (map (\<lambda>(op0, tid). record_bytes E op0 tid) (log_entries cur ops))"

lemma log_file_Cons: "log_file E cur (op0 # ops) = record_bytes E op0 (cur + 1) @ log_file E (cur + 1) ops"
  by (simp add: log_file_def)

lemma torn_log_reads:
  assumes "\<forall>op0 \<in> set ops. op_codec E op0" and "prefix d (log_file E cur ops)"
  shows "\<exists>k e. k \<le> length ops
     \<and> readLogLoop applyEntry rd d (t, cur, n) = (e, (fold applyOp (take k ops) t, cur + of_nat k, n + of_nat k))
     \<and> length (log_file E cur (take k ops)) \<le> length d + 1
     \<and> (k < length ops \<longrightarrow> length d + 1 < length (log_file E cur (take (Suc k) ops)))"
  using assms
proof (induction ops arbitrary: cur d t n)
  case Nil
  then show ?case by (simp add: log_file_def)
next
  case (Cons op0 ops)
  let ?r = "record_bytes E op0 (cur + 1)" and ?c = "core_bytes E op0 (cur + 1)"
  have codec: "op_codec E op0" using Cons.prems(1) by simp
  have pre: "prefix d (?r @ log_file E (cur + 1) ops)" using Cons.prems(2) by (simp add: log_file_Cons)
  have step: "readLogLoop applyEntry rd (?c @ rest) (t, cur, n) = readLogLoop applyEntry rd rest (applyOp op0 t, cur + 1, n + 1)" for rest
    by (simp add: readLogLoop_core [OF codec] applyEntry_next)
  consider (torn) "strict_prefix d ?c" | (core) "d = ?c" | (whole) d' where "d = ?r @ d'" "prefix d' (log_file E (cur + 1) ops)"
  proof (cases "length d < length ?r")
    case True
    then have "prefix d ?r" using pre by (intro prefix_length_prefix [OF pre]) simp_all
    then show thesis using True that(1,2) by (auto simp: record_bytes_def prefix_snoc strict_prefix_def)
  next
    case False
    then obtain d' where "d = ?r @ d'" using pre by (metis append_eq_append_conv_if append_take_drop_id leI prefix_def)
    then show thesis using that(3) pre by simp
  qed
  then show ?case
  proof cases
    case torn
    then obtain e where "readLogLoop applyEntry rd d (t, cur, n) = (e, (t, cur, n))"
      using readLogLoop_torn [OF codec torn, of applyEntry rd "(t, cur, n)"] by blast
    moreover have "length d < length ?c" using torn by (simp add: prefix_length_less)
    ultimately show ?thesis
      by (intro exI [of _ 0]) (simp add: log_file_Cons, simp add: log_file_def record_bytes_def)
  next
    case core
    have "readLogLoop applyEntry rd d (t, cur, n) = (None, (applyOp op0 t, cur + 1, n + 1))"
      using step [of "[]"] core by simp
    moreover have "ops \<noteq> [] \<longrightarrow> 1 < length (log_file E (cur + 1) [hd ops])"
      by (simp add: log_file_def record_bytes_def core_bytes_def)
    ultimately show ?thesis using core
      by (intro exI [of _ 1]) (cases ops; simp add: log_file_Cons; simp add: log_file_def record_bytes_def)
  next
    case whole
    from Cons.IH [OF _ whole(2), of "applyOp op0 t" "n + 1"] Cons.prems(1) obtain k e where k: "k \<le> length ops"
      "readLogLoop applyEntry rd d' (applyOp op0 t, cur + 1, n + 1) =
         (e, (fold applyOp (take k ops) (applyOp op0 t), cur + 1 + of_nat k, n + 1 + of_nat k))"
      "length (log_file E (cur + 1) (take k ops)) \<le> length d' + 1"
      "k < length ops \<longrightarrow> length d' + 1 < length (log_file E (cur + 1) (take (Suc k) ops))" by auto
    have "readLogLoop applyEntry rd d (t, cur, n) = readLogLoop applyEntry rd d' (applyOp op0 t, cur + 1, n + 1)"
      using step [of "nl # d'"] whole(1) by (simp add: record_bytes_def readLogLoop_ws)
    then show ?thesis using k whole(1)
      by (intro exI [of _ "Suc k"]) (simp add: log_file_Cons add.commute add.left_commute)
  qed
qed

text \<open>C3. Loading a torn update log.  Whatever prefix of the bytes of a log of consecutive operations reached
  the file, \<open>loadLogFile\<close> applies a prefix of the operations to the table: all those whose record is in
  the file as a whole (its final newline may be missing), and no part of the next one.  It reports
  the id and the number of the operations it applied.\<close>

theorem torn_log_loads_prefix:
  assumes "\<forall>op0 \<in> set ops. op_codec E op0" and "fmlookup (dir w) logFileName = Some (RegFile d m)"
    and "prefix d (log_file E cur ops)" and "faults w = []"
  shows "\<exists>k e. k \<le> length ops
     \<and> loadLogFile t cur w = ((e, (fold applyOp (take k ops) t, cur + of_nat k, of_nat k)), w)
     \<and> length (log_file E cur (take k ops)) \<le> length d + 1
     \<and> (k < length ops \<longrightarrow> length d + 1 < length (log_file E cur (take (Suc k) ops)))"
proof -
  have "loadLogFile t cur w = (readLogLoop applyEntry None d (t, cur, 0), w)"
    using read_existing [OF assms(2,4)] by (simp add: loadLogFile_def readLogFile_def)
  then show ?thesis using torn_log_reads [OF assms(1,3), of None t 0] by simp
qed

definition sample_ops :: "memlog_op list" where
  "sample_ops = [opSet ''log'' sample_value, opRemove ''log'']"

definition sample_log_fs :: fs where
  "sample_log_fs = \<lparr>home = HomeDir, dir = fmupd logFileName (RegFile (take 40 (log_file plain_env 7 sample_ops)) 384) fmempty,
     umask = 0, faults = []\<rparr>"

lemma sample_ops_codec: "\<forall>op0 \<in> set sample_ops. op_codec plain_env op0"
  using sample_codec by (simp add: sample_ops_def sample_calls_def call_codec_def)

theorem torn_log_loads_prefix_witness:
  "\<exists>k e. k \<le> length sample_ops
     \<and> loadLogFile fmempty 7 sample_log_fs =
         ((e, (fold applyOp (take k sample_ops) fmempty, 7 + of_nat k, of_nat k)), sample_log_fs)
     \<and> length (log_file plain_env 7 (take k sample_ops)) \<le> length (take 40 (log_file plain_env 7 sample_ops)) + 1
     \<and> (k < length sample_ops \<longrightarrow>
         length (take 40 (log_file plain_env 7 sample_ops)) + 1 < length (log_file plain_env 7 (take (Suc k) sample_ops)))"
  by (rule torn_log_loads_prefix [OF sample_ops_codec, where m = 384])
    (simp_all add: sample_log_fs_def take_is_prefix)

section \<open>Transaction ids and data files\<close>

lemma isTxIDLessEqual_uint: "isTxIDLessEqual a b \<longleftrightarrow> uint (b - a) \<le> 2 ^ 63"
proof -
  let ?x = "uint (b - a)"
  have r: "0 \<le> ?x" "?x < 2 ^ 64" using uint_bounded [of "b - a"] by simp_all
  have "uint (- y) = (- uint y) mod 2 ^ 64" for y :: u64 by (simp add: uint_word_ariths)
  from this [of "b - a"] have "uint (a - b) = (- ?x) mod 2 ^ 64" by simp
  then have "sint (a - b) = ((- ?x) mod 2 ^ 64 + 2 ^ 63) mod 2 ^ 64 - 2 ^ 63"
    by (simp add: sint_uint signed_take_bit_eq_take_bit_shift take_bit_eq_mod)
  also have "\<dots> = (- ?x + 2 ^ 63) mod 2 ^ 64 - 2 ^ 63" by (simp only: mod_add_left_eq)
  finally have s: "sint (a - b) = (- ?x + 2 ^ 63) mod 2 ^ 64 - 2 ^ 63" .
  show ?thesis
  proof (cases "?x \<le> 2 ^ 63")
    case True
    have p: "(2 :: int) ^ 64 = 2 ^ 63 + 2 ^ 63" "(0 :: int) < 2 ^ 63" by simp_all
    have "(- ?x + 2 ^ 63) mod 2 ^ 64 = - ?x + 2 ^ 63"
      using r True p by (intro mod_pos_pos_trivial) linarith+
    then show ?thesis using s True r by (simp add: isTxIDLessEqual_def)
  next
    case False
    have "(- ?x + 2 ^ 63) mod 2 ^ 64 = (- ?x + 2 ^ 63 + 2 ^ 64) mod 2 ^ 64" by (simp only: mod_add_self2)
    also have "\<dots> = - ?x + 2 ^ 63 + 2 ^ 64" using r False by (intro mod_pos_pos_trivial) simp_all
    finally show ?thesis using s False r by (simp add: isTxIDLessEqual_def)
  qed
qed

lemma uint_diff_swap: "uint (a - b) = (if a = b then 0 else 2 ^ 64 - uint (b - a))" for a b :: u64
proof (cases "a = b")
  case False
  let ?x = "uint (b - a)"
  have "?x \<noteq> 0" using False by (metis eq_iff_diff_eq_0 unsigned_eq_0_iff)
  then have r: "0 < ?x" "?x < 2 ^ 64" using uint_bounded [of "b - a"] uint_nonnegative [of "b - a"] by (simp_all add: order_less_le)
  have "uint (- y) = (- uint y) mod 2 ^ 64" for y :: u64 by (simp add: uint_word_ariths)
  from this [of "b - a"] have "uint (a - b) = (- ?x) mod 2 ^ 64" by simp
  also have "\<dots> = (- ?x + 2 ^ 64) mod 2 ^ 64" by (simp only: mod_add_self2)
  also have "\<dots> = - ?x + 2 ^ 64" using r by (intro mod_pos_pos_trivial) simp_all
  finally show ?thesis using False by simp
qed simp

text \<open>C5. \<open>isTxIDLessEqual\<close> compares ids on a ring of \<open>2 ^ 64\<close>: \<open>a\<close> counts as not after \<open>b\<close> exactly when
  \<open>b\<close> is reached from \<open>a\<close> in at most \<open>2 ^ 63\<close> steps.  Every two ids are comparable, but at the
  distance \<open>2 ^ 63\<close> both orders hold, and the relation is not transitive.\<close>

theorem isTxIDLessEqual_ring:
  "(isTxIDLessEqual a b \<longleftrightarrow> uint (b - a) \<le> 2 ^ 63)
   \<and> (isTxIDLessEqual a b \<or> isTxIDLessEqual b a)
   \<and> ((isTxIDLessEqual a b \<and> isTxIDLessEqual b a) = (a = b \<or> uint (b - a) = 2 ^ 63))
   \<and> (\<exists>x y z. isTxIDLessEqual x y \<and> isTxIDLessEqual y z \<and> \<not> isTxIDLessEqual x z)"
proof (intro conjI)
  show "isTxIDLessEqual a b \<longleftrightarrow> uint (b - a) \<le> 2 ^ 63" by (rule isTxIDLessEqual_uint)
  show "isTxIDLessEqual a b \<or> isTxIDLessEqual b a"
    unfolding isTxIDLessEqual_uint uint_diff_swap [of a b] by auto
  show "(isTxIDLessEqual a b \<and> isTxIDLessEqual b a) = (a = b \<or> uint (b - a) = 2 ^ 63)"
    unfolding isTxIDLessEqual_uint uint_diff_swap [of a b] by auto
  have "isTxIDLessEqual 0 9223372036854775808" "isTxIDLessEqual 9223372036854775808 9223372036854775809"
    "\<not> isTxIDLessEqual 0 9223372036854775809"
    by (simp_all add: isTxIDLessEqual_uint)
  then show "\<exists>x y z. isTxIDLessEqual x y \<and> isTxIDLessEqual y z \<and> \<not> isTxIDLessEqual x z" by blast
qed

text \<open>C6. \<open>listDataFiles\<close> returns the regular files of the directory that are named by a number and the
  suffix \<open>.json\<close>, each once and with the id of its name, and orders them from the oldest to the
  newest, for ids on either side of the overflow of the counter, as long as they lie within \<open>2 ^ 63\<close>
  of each other.  The name a checkpoint gives its file reads back as the id of the checkpoint.\<close>

theorem listDataFiles_sorted:
  assumes "faults w = []"
  shows "\<exists>fs. listDataFiles w = (Inr fs, w) \<and> distinct (map path fs)
     \<and> set fs = {f. is_data_file w f}
     \<and> ((\<forall>f \<in> set fs. unat (c - txid f) < 2 ^ 63) \<longrightarrow> sorted (rev (map (\<lambda>f. unat (c - txid f)) fs)))
     \<and> data_name (dataFileName c) c"
proof (rule listDataFiles_no_faults [OF assms])
  fix fs
  assume "listDataFiles w = (Inr fs, w)" "distinct (map path fs)" "set fs = {f. is_data_file w f}"
    "\<forall>c. in_window c fs \<longrightarrow> sorted (rev (map (age c \<circ> txid) fs))"
  moreover from this(4) have "(\<forall>f \<in> set fs. unat (c - txid f) < 2 ^ 63) \<longrightarrow> sorted (rev (map (\<lambda>f. unat (c - txid f)) fs))"
    by (simp add: in_window_def age_def o_def)
  ultimately show ?thesis using data_name_dataFileName by blast
qed

definition two_files :: fs where
  "two_files = \<lparr>home = HomeDir, dir = fmupd (dataFileName 3) (RegFile [] 384) (fmupd (dataFileName 18446744073709551615) (RegFile [] 384) fmempty),
     umask = 0, faults = []\<rparr>"

theorem listDataFiles_sorted_witness:
  "\<exists>fs. listDataFiles two_files = (Inr fs, two_files) \<and> distinct (map path fs)
     \<and> set fs = {f. is_data_file two_files f}
     \<and> ((\<forall>f \<in> set fs. unat (4 - txid f) < 2 ^ 63) \<longrightarrow> sorted (rev (map (\<lambda>f. unat (4 - txid f)) fs)))
     \<and> data_name (dataFileName 4) 4"
  by (rule listDataFiles_sorted) (simp add: two_files_def)

section \<open>Checkpoints\<close>

lemma checkpointClearLog_only:
  assumes "\<forall>fh b. logOut s = Some (fh, b) \<longrightarrow> fh_name fh = logFileName" and "checkpointClearLog s w = (s', w')"
  shows "only {logFileName} w w'"
proof (cases "logOut s")
  case None
  then show ?thesis using assms(2) by (simp add: checkpointClearLog_def)
next
  case (Some x)
  obtain fh b where x: "x = (fh, b)" by fastforce
  obtain r1 w1 where 1: "file_Truncate0 fh w = (r1, w1)" by fastforce
  obtain r2 w2 where 2: "file_SeekStart fh w1 = (r2, w2)" by fastforce
  have o1: "only {logFileName} w w1" using file_Truncate0_only [of fh w] 1 assms(1) Some x by simp
  have o2: "only {logFileName} w w2" using only_trans [OF o1] file_SeekStart_only [of w1 fh] 2 by (metis Un_empty_right order_refl snd_conv)
  have "only {logFileName} w (snd (file_Close fh u))" if "only {logFileName} w u" for u
    using only_trans [OF that file_Close_only] by simp
  from this [OF o1] this [OF o2] o1 o2 show ?thesis
    using assms(2) Some x 1 2 by (auto simp: checkpointClearLog_def split: sum.splits)
qed

lemma WriteCheckpoint_frame:
  assumes inv: "DInv E N s w t" and ec: "entries_codec E (rangeTable E t')" and rs: "range_spec E"
    and run: "WriteCheckpoint E t' s w = (None, s', w')"
  shows "data_ok w' \<lparr>path = dataFileName (nextTxID s), txid = nextTxID s\<rparr> t'"
    and "n \<noteq> dataFileName (nextTxID s) \<Longrightarrow> n \<notin> cp_files \<Longrightarrow> n \<noteq> logFileName \<Longrightarrow>
      fmlookup (dir w') n = fmlookup (dir w) n \<or> (n \<in> path ` old_files s \<and> fmlookup (dir w') n = None)"
    and "nextTxID s' = nextTxID s + 1"
    and "activeDataFile s' = \<lparr>path = dataFileName (nextTxID s), txid = nextTxID s\<rparr>"
proof -
  from inv obtain T es L tail lid where i: "home_ok w" "files_ok N s w" "data_ok w (activeDataFile s) T"
      "handle_ok s w T t tail lid" by (rule DInvE)
  then have logn: "\<forall>fh b. logOut s = Some (fh, b) \<longrightarrow> fh_name fh = logFileName" unfolding handle_ok_def by blast
  obtain w1 s2 w2 rest w4 fs w5 where c:
      "only {checkpointTmpFileName, dataFileName (nextTxID s)} w w1"
      "\<exists>m. fmlookup (dir w1) (dataFileName (nextTxID s)) = Some (RegFile (data_bytes E t') m)"
      "checkpointClearLog s w1 = (s2, w2)"
      "s' = s2\<lparr>nextTxID := nextTxID s + 1, oldDataFiles := rest,
         activeDataFile := \<lparr>path = dataFileName (nextTxID s), txid = nextTxID s\<rparr>\<rparr>"
      "only {activeDataFileName, activeDataTmpFileName} w2 w4"
      "set fs = old_files s" "removeFiles fs w4 = (rest, w5)" "only {checkpointTmpFileName} w5 w'"
    using WriteCheckpoint_ok [OF run ec] by metis
  note o2 = checkpointClearLog_only [OF logn c(3)]
  note h = WriteCheckpoint_home [OF i(2,3,1) c(1) o2 c(5-8)]
  show "data_ok w' \<lparr>path = dataFileName (nextTxID s), txid = nextTxID s\<rparr> t'"
    using c(2) h(2) decodeDataFile_data_bytes [OF ec rs, of None] data_name_dataFileName by (auto simp: data_ok_def)
  show "nextTxID s' = nextTxID s + 1" "activeDataFile s' = \<lparr>path = dataFileName (nextTxID s), txid = nextTxID s\<rparr>"
    using c(4) by simp_all
  assume n: "n \<noteq> dataFileName (nextTxID s)" "n \<notin> cp_files" "n \<noteq> logFileName"
  have "fmlookup (dir w4) n = fmlookup (dir w) n"
    using onlyD [OF c(1)] onlyD [OF o2] onlyD [OF c(5)] n by simp
  moreover note r = removeFiles_effect [OF c(7), unfolded c(6)]
  moreover have "fmlookup (dir w5) n = fmlookup (dir w4) n" if "n \<notin> path ` old_files s" using r onlyD that by blast
  ultimately show "fmlookup (dir w') n = fmlookup (dir w) n \<or> (n \<in> path ` old_files s \<and> fmlookup (dir w') n = None)"
    using onlyD [OF c(8)] n by (metis insertI1 singletonD)
qed

text \<open>C4. A checkpoint either happens or it does not.  When \<open>WriteCheckpoint\<close> reports an error, the diskstore is
  unchanged and so is every file but the temporary one; when it reports success, the file named by
  the next transaction id decodes to the table and is the active one, every other file of the
  directory, apart from the marker files and the log, is as before or, where it is an old data
  file, gone, and the id after the checkpoint's comes next.\<close>

theorem WriteCheckpoint_atomic:
  assumes "DInv E N s w t" and "table_codec E t'" and "range_spec E" and "N + 1 < 2 ^ 63"
    and "WriteCheckpoint E t' s w = (err, s', w')"
  shows "(err \<noteq> None \<longrightarrow> s' = s \<and> (\<forall>n. n \<noteq> checkpointTmpFileName \<longrightarrow> fmlookup (dir w') n = fmlookup (dir w) n))
     \<and> (err = None \<longrightarrow>
          data_ok w' \<lparr>path = dataFileName (nextTxID s), txid = nextTxID s\<rparr> t'
          \<and> activeDataFile s' = \<lparr>path = dataFileName (nextTxID s), txid = nextTxID s\<rparr>
          \<and> nextTxID s' = nextTxID s + 1
          \<and> (\<forall>n. n \<noteq> dataFileName (nextTxID s) \<and> n \<notin> cp_files \<and> n \<noteq> logFileName \<longrightarrow>
               fmlookup (dir w') n = fmlookup (dir w) n \<or> (n \<in> path ` old_files s \<and> fmlookup (dir w') n = None)))"
proof (cases err)
  case (Some e)
  note ec = table_codec_entries [OF assms(2,3)]
  from WriteCheckpoint_fail [OF assms(5) [unfolded Some] ec] Some show ?thesis by (auto dest: onlyD)
next
  case None
  note ec = table_codec_entries [OF assms(2,3)]
  note f = WriteCheckpoint_frame [OF assms(1) ec assms(3) assms(5) [unfolded None]]
  show ?thesis using None f(1,3,4) f(2) by simp
qed

text \<open>The state right after a first opening, for the witnesses.\<close>

definition sample_open :: "store \<times> fs" where
  "sample_open =
     (case openStore plain_env ''home'' 384 4096 False defaultCheckpoint no_home of (Inr s, w) \<Rightarrow> (s, w))"

lemma sample_open_inv:
  "DInv plain_env 2 (disk (fst sample_open)) (snd sample_open) fmempty \<and> mem (fst sample_open) = Some fmempty
     \<and> faults (snd sample_open) = []"
  using openStore_fresh [OF fresh_no_home plain_meta_codec, of "''home''" 384 4096 False defaultCheckpoint]
  by (auto simp: sample_open_def)

definition sample_table :: table where
  "sample_table = fmupd ''log'' sample_value fmempty"

lemma sample_table_codec: "table_codec plain_env sample_table"
  using sample_codec by (simp add: table_codec_def sample_table_def sample_calls_def call_codec_def)

theorem WriteCheckpoint_atomic_witness:
  "\<exists>err s' w'. WriteCheckpoint plain_env sample_table (disk (fst sample_open)) (snd sample_open) = (err, s', w')
     \<and> (err \<noteq> None \<longrightarrow> s' = disk (fst sample_open)
         \<and> (\<forall>n. n \<noteq> checkpointTmpFileName \<longrightarrow> fmlookup (dir w') n = fmlookup (dir (snd sample_open)) n))"
proof -
  obtain err s' w' where run: "WriteCheckpoint plain_env sample_table (disk (fst sample_open)) (snd sample_open) = (err, s', w')"
    by (metis prod.exhaust)
  from WriteCheckpoint_atomic [OF conjunct1 [OF sample_open_inv] sample_table_codec plain_range_spec _ run] run
  show ?thesis by auto
qed

section \<open>Writing through interruptions\<close>

text \<open>\<open>ensureWriter\<close> on a file open at its end: whatever the system does, a prefix of the buffer is
  appended, in order and once, and the count tells how long it is; the call gives up only on an
  error that is neither \<open>EINTR\<close> nor \<open>EAGAIN\<close>, so interruptions alone never lose data.\<close>

lemma ensure_Write_appends:
  assumes "ensure_Write 0 p fh w = ((k, err), fh', w')"
    and "fmlookup (dir w) (fh_name fh) = Some (RegFile d m)" and "fh_off fh = length d"
  shows "fmlookup (dir w') (fh_name fh) = Some (RegFile (d @ take k p) m) \<and> k \<le> length p
     \<and> fh' = fh\<lparr>fh_off := length d + k\<rparr>
     \<and> (\<forall>n. n \<noteq> fh_name fh \<longrightarrow> fmlookup (dir w') n = fmlookup (dir w) n)
     \<and> (case err of None \<Rightarrow> k = length p | Some e \<Rightarrow> \<not> isRetryErr e)"
proof -
  have "at_end (fh_name fh) m d fh w" using assms(2,3) by (simp add: at_end_def)
  note a = ensure_Write_append [OF assms(1) this]
  have k: "k \<le> length p" using a by simp
  have "dir w' = fmupd (fh_name fh) (RegFile (d @ take k p) m) (dir w)" using a by (metis diff_zero set_file_simps(4))
  moreover have "fh' = fh\<lparr>fh_off := length d + k\<rparr>" using a k by (cases fh, cases fh') (simp add: at_end_def)
  ultimately show ?thesis using a k by (cases err) auto
qed

lemma ensure_Write_appends_witness:
  "let w = sample_log_fs\<lparr>faults := [Partial 2 EINTR, Fail EAGAIN]\<rparr>;
       fh = \<lparr>fh_name = logFileName, fh_off = 40\<rparr>; d = take 40 (log_file plain_env 7 sample_ops) in
   \<exists>k err fh' w'. ensure_Write 0 ''more'' fh w = ((k, err), fh', w')
     \<and> fmlookup (dir w') logFileName = Some (RegFile (d @ take k ''more'') 384)
     \<and> (case err of None \<Rightarrow> k = length ''more'' | Some e \<Rightarrow> \<not> isRetryErr e)"
proof -
  let ?w = "sample_log_fs\<lparr>faults := [Partial 2 EINTR, Fail EAGAIN]\<rparr>"
  let ?fh = "\<lparr>fh_name = logFileName, fh_off = 40\<rparr>"
  obtain k err fh' w' where e: "ensure_Write 0 ''more'' ?fh ?w = ((k, err), fh', w')" by (metis prod.exhaust)
  have "plain_string ''log''" by (simp add: plain_string_def)
  have len: "40 \<le> length (log_file plain_env 7 sample_ops)"
    by (simp add: log_file_def sample_ops_def record_bytes_def core_bytes_def action_bytes_def op_bytes_def plain_env_def
        enc_field_def quote_def opValSet_def opValRemove_def Let_def)
  from ensure_Write_appends [OF e, of "take 40 (log_file plain_env 7 sample_ops)" 384] e show ?thesis
    using len by (simp add: sample_log_fs_def Let_def)
qed

section \<open>A log that was given up\<close>

lemma WriteCheckpoint_keeps_invalid:
  assumes "logInvalid s"
  shows "logInvalid (fst (snd (WriteCheckpoint E t s w)))"
proof -
  have cl: "logInvalid (fst (checkpointClearLog s u))" for u
    using assms by (auto simp: checkpointClearLog_def split: option.splits prod.splits sum.splits)
  obtain r1 w1 where 1: "checkpointTmpFile E checkpointTmpFileName t s w = (r1, w1)" by fastforce
  obtain r2 w2 where 2: "os_Rename (case r1 of Inr p \<Rightarrow> p | Inl e \<Rightarrow> []) (dataFileName (nextTxID s)) w1 = (r2, w2)" by fastforce
  obtain s3 w3 where 3: "checkpointClearLog s (trySyncPath w2) = (s3, w3)" by fastforce
  have "logInvalid s3" using cl [of "trySyncPath w2"] 3 by simp
  then show ?thesis using assms 1 2 3
    by (cases r1; cases r2) (auto simp: WriteCheckpoint_def Let_def removeOldDataFiles_def split: prod.splits)
qed

lemma LogOperation_keeps_invalid: "logInvalid s \<Longrightarrow> LogOperation E op0 s w = (Some errLogInvalid, s, w)"
  by (simp add: LogOperation_def)

lemma exec_keeps_invalid:
  assumes "logInvalid (disk s)" and "exec E c s w = (err, s', w')"
  shows "logInvalid (disk s')"
proof -
  have wc: "logInvalid d" if "WriteCheckpoint E t (disk s) w = (e, d, u)" for t e d u
    using WriteCheckpoint_keeps_invalid [OF assms(1), of E t w] that by simp
  have lo: "logInvalid (disk s2)" if "logOperation E op0 s1 w = (e, s2, u)" "disk s1 = disk s" for op0 s1 e s2 u
    using that assms(1) by (auto simp: logOperation_def mustCheckpoint_def LogOperation_keeps_invalid split: prod.splits option.splits dest: wc)
  show ?thesis
    using assms lo wc
    by (cases c) (auto simp: exec_def store_Set_def store_Remove_def store_Checkpoint_def split: option.splits prod.splits)
qed

text \<open>C7. Once the log was found invalid it stays so for the life of the store: no operation, not even a
  successful checkpoint that empties the log, resets \<open>logInvalid\<close>.  From then on every update writes
  a complete checkpoint, and none is ever appended to the log.\<close>

theorem invalid_log_is_permanent:
  assumes "logInvalid (disk s)" and "runs E cs s w = (errs, s', w')"
  shows "mustCheckpoint (disk s') \<and> LogOperation E op0 (disk s') u = (Some errLogInvalid, disk s', u)"
proof -
  have "logInvalid (disk s')"
    using assms
  proof (induction cs arbitrary: s w errs)
    case (Cons c cs)
    then show ?case using exec_keeps_invalid by (fastforce split: prod.splits)
  qed simp
  then show ?thesis by (simp add: mustCheckpoint_def LogOperation_keeps_invalid)
qed

theorem invalid_log_is_permanent_witness:
  "let s = (fst sample_open)\<lparr>disk := (disk (fst sample_open))\<lparr>logInvalid := True\<rparr>\<rparr> in
   \<exists>errs s' w'. runs plain_env [CCheckpoint] s (snd sample_open) = (errs, s', w') \<and> mustCheckpoint (disk s')"
proof -
  let ?s = "(fst sample_open)\<lparr>disk := (disk (fst sample_open))\<lparr>logInvalid := True\<rparr>\<rparr>"
  obtain errs s' w' where r: "runs plain_env [CCheckpoint] ?s (snd sample_open) = (errs, s', w')" by (metis prod.exhaust)
  from invalid_log_is_permanent [OF _ r] r show ?thesis by (simp add: Let_def)
qed

section \<open>Opening a directory in a bad state\<close>

text \<open>C8. \<open>readLogFile\<close> only knows the error for a missing file.  When the log cannot be opened for another
  reason, say missing permissions or too many open files, loading reports success with the table
  of the data file alone, so the store opens as if the log were empty and does not mark it invalid.\<close>

theorem log_open_error_ignored:
  assumes "faults w = Fail e # fl" and "e \<noteq> ENOENT"
  shows "loadLogFile tbl tid w = ((None, (tbl, tid, 0)), w\<lparr>faults := fl\<rparr>)"
  using assms by (simp add: loadLogFile_def readLogFile_def os_OpenFile_def syscall_def next_fault_def IsNotExist_def)

theorem log_open_error_ignored_witness:
  "loadLogFile fmempty 7 (sample_log_fs\<lparr>faults := [Fail EACCES]\<rparr>) =
     ((None, (fmempty, 7, 0)), sample_log_fs\<lparr>faults := []\<rparr>)"
  using log_open_error_ignored [of "sample_log_fs\<lparr>faults := [Fail EACCES]\<rparr>" EACCES "[]" fmempty 7] by simp

text \<open>C9. A crash between the creation of the home directory and the write of the meta file leaves a
  directory that can never be opened again with the version check on: the next process takes the
  directory for an initialised one, and every attempt fails on the missing meta file.\<close>

theorem crash_before_meta_file:
  assumes "fresh w" and "openStore E h mode bufSz False cp (w\<lparr>faults := [NoFault, NoFault, Crash]\<rparr>) = (r, w1)"
  shows "r = Inl (Errno EIO) \<and> home w1 = HomeDir
     \<and> openStore E h mode bufSz False cp (w1\<lparr>faults := []\<rparr>) = (Inl (Errno ENOENT), w1\<lparr>faults := []\<rparr>)"
proof -
  have "r = Inl (Errno EIO) \<and> w1 = w\<lparr>faults := [Crash], home := HomeDir\<rparr>"
    using assms by (simp add: fresh_def openStore_def openHome_def os_Stat_home_def os_MkdirAll_def writeMetaFile_def
        os_OpenFile_def syscall_def next_fault_def IsNotExist_def)
  moreover have "openStore E h mode bufSz False cp (w\<lparr>home := HomeDir, faults := []\<rparr>)
      = (Inl (Errno ENOENT), w\<lparr>home := HomeDir, faults := []\<rparr>)"
    using assms(1) by (simp add: fresh_def openStore_def openHome_def os_Stat_home_def pathEnsurePermissions_def
        checkVersion_def readMetaFile_def os_OpenFile_def fs_simps IsNotExist_def)
  ultimately show ?thesis by simp
qed

theorem crash_before_meta_file_witness:
  "\<exists>r w1. openStore plain_env ''home'' 384 4096 False defaultCheckpoint (no_home\<lparr>faults := [NoFault, NoFault, Crash]\<rparr>) = (r, w1)
     \<and> openStore plain_env ''home'' 384 4096 False defaultCheckpoint (w1\<lparr>faults := []\<rparr>) = (Inl (Errno ENOENT), w1\<lparr>faults := []\<rparr>)"
proof -
  obtain r w1 where o: "openStore plain_env ''home'' 384 4096 False defaultCheckpoint (no_home\<lparr>faults := [NoFault, NoFault, Crash]\<rparr>) = (r, w1)"
    by (metis prod.exhaust)
  from crash_before_meta_file [OF fresh_no_home o] o show ?thesis by blast
qed

text \<open>The version check.  A home directory whose meta file names another version is refused with an error
  that tells the version, before anything in it is read or changed, file permissions apart; with
  \<open>IgnoreVersionCheck\<close> the check passes.\<close>

lemma wrong_version_refused:
  assumes "all_regular w" and "home w = HomeDir" and "faults w = []"
    and "fmlookup (dir w) metaFileName = Some (RegFile c m)"
    and "bind_result (dec_Decode None c) (\<lambda>(v, rest). unmarshal_meta v) = Inr \<lparr>Version = ver\<rparr>" and "ver \<noteq> storeVersion"
  shows "\<exists>w'. openStore E h mode bufSz False cp w = (Inl (errVersion ver), w') \<and> content w' = content w
     \<and> checkVersion True w = (None, w)"
proof -
  obtain w1 where p: "pathEnsurePermissions metaFileName mode w = (Inr (), w1)" "same_data w w1"
    using pathEnsurePermissions_same [OF assms(3,1)] by blast
  then have w1: "faults w1 = []" "content w1 = content w" by (auto simp: same_data_def)
  moreover have "content w metaFileName = Some (Some c)" using assms(4) by (simp add: content_def)
  ultimately obtain m' where m': "fmlookup (dir w1) metaFileName = Some (RegFile c m')" by (metis content_Some)
  have "checkVersion False w1 = (Some (errVersion ver), w1)"
    using assms(5,6) read_existing [OF m' w1(1)] by (simp add: checkVersion_def readMetaFile_def checkMeta_def)
  moreover have "openHome E mode w = (None, w1)" using p(1) assms(2,3) by (simp add: openHome_def os_Stat_home_def fs_simps)
  ultimately show ?thesis using w1(2) by (simp add: openStore_def checkVersion_def)
qed

lemma wrong_version_refused_witness:
  "let w = \<lparr>home = HomeDir, dir = fmupd metaFileName (RegFile (enc_obj [(''version'', ''2'')]) 384) fmempty, umask = 0, faults = []\<rparr> in
   \<exists>w'. openStore plain_env ''home'' 384 4096 False defaultCheckpoint w = (Inl (errVersion ''2''), w')
     \<and> content w' = content w \<and> checkVersion True w = (None, w)"
proof -
  have "run SValue [] (enc_obj [(''version'', ''2'')]) = POk (JObj (jfields [(''version'', ''2'')])) []"
    by (rule run_obj_top) (simp add: plain_string_def)
  then show ?thesis
    unfolding Let_def
    by (intro wrong_version_refused [where c = "enc_obj [(''version'', ''2'')]" and m = 384])
      (simp_all add: all_regular_def dec_Decode_def jfields_def storeVersion_def del: enc_obj.simps)
qed

end
