(* ===== verification/Backend.thy ===== *)
theory Backend
  imports Prelude
begin

text \<open>
  \<open>pkg/statestore/backend/backend.go\<close>: the interfaces \<open>Registry\<close>, \<open>Store\<close> and
  \<open>ValueDecoder\<close> as a record of operations over a world that holds all state, and the contract
  of a \<open>Store\<close> as a locale: an open store behaves like a dictionary.  The memlog store and the
  in-memory store of \<open>storetest\<close> are interpretations of it, the stores of \<open>statestore\<close> its clients.
\<close>

section \<open>The interfaces\<close>

text \<open>
  \<open>'h\<close> is the pointer to a backend store, \<open>'w\<close> the world the calls act on, \<open>'v\<close> the Go value passed
  to \<open>Set\<close> and filled in by \<open>Get\<close>, \<open>'u\<close> the state of the function passed to \<open>Each\<close>.  That function
  gets the key and what the \<open>ValueDecoder\<close> decodes to.
\<close>

type_synonym ('v, 'u) each_fn = "string \<Rightarrow> 'v result \<Rightarrow> 'u \<Rightarrow> (bool \<times> error option) \<times> 'u"

record ('h, 'v, 'u, 'w) backend =
  bAccess :: "string \<Rightarrow> 'w \<Rightarrow> 'h result \<times> 'w"
  bRegClose :: "'w \<Rightarrow> error option \<times> 'w"
  bClose :: "'h \<Rightarrow> 'w \<Rightarrow> error option \<times> 'w"
  bHas :: "'h \<Rightarrow> string \<Rightarrow> 'w \<Rightarrow> bool result \<times> 'w"
  bGet :: "'h \<Rightarrow> string \<Rightarrow> 'w \<Rightarrow> 'v result \<times> 'w"
  bSet :: "'h \<Rightarrow> string \<Rightarrow> 'v \<Rightarrow> 'w \<Rightarrow> error option \<times> 'w"
  bRemove :: "'h \<Rightarrow> string \<Rightarrow> 'w \<Rightarrow> error option \<times> 'w"
  bEach :: "'h \<Rightarrow> ('v, 'u) each_fn \<Rightarrow> 'u \<Rightarrow> 'w \<Rightarrow> (error option \<times> 'u) \<times> 'w"

section \<open>The dictionary a store promises to be\<close>

datatype 'v kcall = KHas string | KGet string | KSet string 'v | KRemove string

datatype 'v kres = RHas "bool result" | RGet "'v result" | RErr "error option"

definition kv_call :: "('h, 'v, 'u, 'w) backend \<Rightarrow> 'h \<Rightarrow> 'v kcall \<Rightarrow> 'w \<Rightarrow> 'v kres \<times> 'w" where
  "kv_call B h c w =
     (case c of
        KHas k \<Rightarrow> apfst RHas (bHas B h k w)
      | KGet k \<Rightarrow> apfst RGet (bGet B h k w)
      | KSet k v \<Rightarrow> apfst RErr (bSet B h k v w)
      | KRemove k \<Rightarrow> apfst RErr (bRemove B h k w))"

fun kv_calls :: "('h, 'v, 'u, 'w) backend \<Rightarrow> 'h \<Rightarrow> 'v kcall list \<Rightarrow> 'w \<Rightarrow> 'v kres list \<times> 'w" where
  "kv_calls B h [] w = ([], w)"
| "kv_calls B h (c # cs) w =
     (case kv_call B h c w of (r, w1) \<Rightarrow> case kv_calls B h cs w1 of (rs, w2) \<Rightarrow> (r # rs, w2))"

text \<open>
  The specification: a partial function from keys to encoded values.  Where the value can be
  encoded, \<open>Set\<close> and \<open>Remove\<close> take effect on the dictionary whatever they return: an
  error of the disk is reported, but the store holds the value.
\<close>

fun dict_step :: "('v \<Rightarrow> 'r result) \<Rightarrow> 'v kcall \<Rightarrow> (string \<rightharpoonup> 'r) \<Rightarrow> (string \<rightharpoonup> 'r)" where
  "dict_step enc (KSet k v) d = (case enc v of Inl e \<Rightarrow> d | Inr r \<Rightarrow> d(k \<mapsto> r))"
| "dict_step enc (KRemove k) d = d(k := None)"
| "dict_step enc c d = d"

fun dict_ok :: "('v \<Rightarrow> 'r result) \<Rightarrow> ('r \<Rightarrow> 'v result) \<Rightarrow> error \<Rightarrow> (string \<rightharpoonup> 'r) \<Rightarrow> 'v kcall \<Rightarrow> 'v kres \<Rightarrow> bool" where
  "dict_ok enc dec unknown d (KHas k) (RHas r) \<longleftrightarrow> r = Inr (d k \<noteq> None)"
| "dict_ok enc dec unknown d (KGet k) (RGet r) \<longleftrightarrow>
     r = (case d k of None \<Rightarrow> Inl unknown | Some x \<Rightarrow> dec x)"
| "dict_ok enc dec unknown d (KSet k v) (RErr r) \<longleftrightarrow> (\<forall>e. enc v = Inl e \<longrightarrow> r = Some e)"
| "dict_ok enc dec unknown d (KRemove k) (RErr r) \<longleftrightarrow> True"
| "dict_ok enc dec unknown d _ _ \<longleftrightarrow> False"

fun dict_trace :: "('v \<Rightarrow> 'r result) \<Rightarrow> ('r \<Rightarrow> 'v result) \<Rightarrow> error \<Rightarrow> (string \<rightharpoonup> 'r) \<Rightarrow> 'v kcall list \<Rightarrow> 'v kres list \<Rightarrow> bool" where
  "dict_trace enc dec unknown d [] [] \<longleftrightarrow> True"
| "dict_trace enc dec unknown d (c # cs) (r # rs) \<longleftrightarrow>
     dict_ok enc dec unknown d c r \<and> dict_trace enc dec unknown (dict_step enc c d) cs rs"
| "dict_trace enc dec unknown d _ _ \<longleftrightarrow> False"

text \<open>The store \<open>h\<close> has content \<open>c\<close> afterwards, every other store is as before.\<close>

definition becomes ::
    "('h \<Rightarrow> 'w \<Rightarrow> bool) \<Rightarrow> ('h \<Rightarrow> 'w \<Rightarrow> 'c) \<Rightarrow> 'h \<Rightarrow> 'c \<Rightarrow> 'w \<Rightarrow> 'w \<Rightarrow> bool" where
  "becomes opened content h c w w' \<longleftrightarrow> opened h w' \<and> content h w' = c
     \<and> (\<forall>h'. h' \<noteq> h \<longrightarrow> opened h' w' = opened h' w \<and> content h' w' = content h' w)"

lemma becomes_refl [simp]: "becomes opened content h c w w \<longleftrightarrow> opened h w \<and> content h w = c"
  by (simp add: becomes_def)

lemma becomes_trans:
  "becomes opened content h c w w' \<Longrightarrow> becomes opened content h c' w' w'' \<Longrightarrow> becomes opened content h c' w w''"
  by (simp add: becomes_def)

section \<open>The contract of a store\<close>

locale kv_backend =
  fixes B :: "('h, 'v, 'u, 'w) backend"
    and opened :: "'h \<Rightarrow> 'w \<Rightarrow> bool" and content :: "'h \<Rightarrow> 'w \<Rightarrow> (string \<rightharpoonup> 'r)"
    and enc :: "'v \<Rightarrow> 'r result" and dec :: "'r \<Rightarrow> 'v result" and unknown :: error
  assumes has_law: "opened h w \<Longrightarrow> bHas B h k w = (r, w') \<Longrightarrow>
      r = Inr (content h w k \<noteq> None) \<and> becomes opened content h (content h w) w w'"
    and get_law: "opened h w \<Longrightarrow> bGet B h k w = (g, w') \<Longrightarrow>
      g = (case content h w k of None \<Rightarrow> Inl unknown | Some x \<Rightarrow> dec x)
      \<and> becomes opened content h (content h w) w w'"
    and set_law: "opened h w \<Longrightarrow> bSet B h k v w = (err, w') \<Longrightarrow>
      (case enc v of Inl e \<Rightarrow> err = Some e \<and> becomes opened content h (content h w) w w'
       | Inr x \<Rightarrow> becomes opened content h ((content h w)(k \<mapsto> x)) w w')"
    and remove_law: "opened h w \<Longrightarrow> bRemove B h k w = (err, w') \<Longrightarrow>
      becomes opened content h ((content h w)(k := None)) w w'"
begin

lemma call_dict:
  assumes "opened h w" and "kv_call B h c w = (r, w')"
  shows "dict_ok enc dec unknown (content h w) c r
     \<and> becomes opened content h (dict_step enc c (content h w)) w w'"
proof (cases c)
  case (KHas k)
  then show ?thesis using assms has_law by (cases "bHas B h k w") (auto simp: kv_call_def)
next
  case (KGet k)
  then show ?thesis using assms get_law by (cases "bGet B h k w") (auto simp: kv_call_def)
next
  case (KSet k v)
  then obtain err where s: "bSet B h k v w = (err, w')" "r = RErr err"
    using assms(2) by (cases "bSet B h k v w") (auto simp: kv_call_def)
  show ?thesis using set_law [OF assms(1) s(1)] s(2) KSet by (auto split: sum.splits)
next
  case (KRemove k)
  then show ?thesis using assms remove_law by (cases "bRemove B h k w") (auto simp: kv_call_def)
qed

lemma calls_dict:
  assumes "opened h w" and "kv_calls B h cs w = (rs, w')"
  shows "dict_trace enc dec unknown (content h w) cs rs
     \<and> becomes opened content h (fold (dict_step enc) cs (content h w)) w w'"
  using assms
proof (induction cs arbitrary: w rs)
  case (Cons c cs)
  obtain r w1 where c: "kv_call B h c w = (r, w1)" by (metis prod.exhaust)
  obtain rs' where cs: "kv_calls B h cs w1 = (rs', w')" "rs = r # rs'"
    using Cons.prems(2) c by (auto split: prod.splits)
  note step = call_dict [OF Cons.prems(1) c]
  then have "opened h w1" by (simp add: becomes_def)
  from Cons.IH [OF this cs(1)] step show ?case
    using cs(2) by (auto simp: becomes_def)
qed simp

text \<open>What the last write to a key leaves there is what every later read finds.\<close>

lemma set_get:
  assumes "opened h w" and "bSet B h k v w = (err, w1)" and "enc v = Inr x"
  shows "fst (bGet B h k w1) = dec x" and "fst (bHas B h k w1) = Inr True"
proof -
  have o: "opened h w1" "content h w1 k = Some x"
    using set_law [OF assms(1,2)] assms(3) by (auto simp: becomes_def)
  show "fst (bGet B h k w1) = dec x"
    using get_law [OF o(1), of k] o(2) by (cases "bGet B h k w1") auto
  show "fst (bHas B h k w1) = Inr True"
    using has_law [OF o(1), of k] o(2) by (cases "bHas B h k w1") auto
qed

end

section \<open>Comparing two stores\<close>

text \<open>
  Two results agree when both fail, or both give the same value.  Two stores convert the Go values they are given each in its
  own way: their contents agree when what is decoded from them does, and they treat a value alike when both refuse it
  or both take it and give the same back.
\<close>

fun same_result :: "'v result \<Rightarrow> 'v result \<Rightarrow> bool" where
  "same_result (Inr x) (Inr y) \<longleftrightarrow> x = y"
| "same_result (Inl _) (Inl _) \<longleftrightarrow> True"
| "same_result _ _ \<longleftrightarrow> False"

definition same_content ::
    "('r \<Rightarrow> 'v result) \<Rightarrow> ('s \<Rightarrow> 'v result) \<Rightarrow> (string \<rightharpoonup> 'r) \<Rightarrow> (string \<rightharpoonup> 's) \<Rightarrow> bool" where
  "same_content dec1 dec2 c d \<longleftrightarrow>
     (\<forall>k. case (c k, d k) of (None, None) \<Rightarrow> True | (Some x, Some y) \<Rightarrow> same_result (dec1 x) (dec2 y) | _ \<Rightarrow> False)"

definition treat_alike ::
    "('v \<Rightarrow> 'r result) \<Rightarrow> ('r \<Rightarrow> 'v result) \<Rightarrow> ('v \<Rightarrow> 's result) \<Rightarrow> ('s \<Rightarrow> 'v result) \<Rightarrow> 'v \<Rightarrow> bool" where
  "treat_alike enc1 dec1 enc2 dec2 v \<longleftrightarrow>
     (case (enc1 v, enc2 v) of
        (Inl _, Inl _) \<Rightarrow> True | (Inr x, Inr y) \<Rightarrow> same_result (dec1 x) (dec2 y) | _ \<Rightarrow> False)"

text \<open>
  The answers of a store on disk and of a store in memory: the same to \<open>Has\<close>, agreeing to \<open>Get\<close>; a write fails on
  disk when it fails in memory, and, if the disk is \<open>intact\<close>, only then.
\<close>

fun alike :: "bool \<Rightarrow> 'v kres \<Rightarrow> 'v kres \<Rightarrow> bool" where
  "alike intact (RHas a) (RHas b) \<longleftrightarrow> a = b"
| "alike intact (RGet a) (RGet b) \<longleftrightarrow> same_result a b"
| "alike intact (RErr e) (RErr f) \<longleftrightarrow> (f \<noteq> None \<longrightarrow> e \<noteq> None) \<and> (intact \<and> f = None \<longrightarrow> e = None)"
| "alike intact _ _ \<longleftrightarrow> False"

lemma same_content_upd:
  "same_content dec1 dec2 c d \<Longrightarrow> same_result (dec1 a) (dec2 b) \<Longrightarrow> same_content dec1 dec2 (c(k \<mapsto> a)) (d(k \<mapsto> b))"
  by (simp add: same_content_def)

lemma same_content_step:
  assumes "same_content dec1 dec2 c d" and "\<And>k v. x = KSet k v \<Longrightarrow> treat_alike enc1 dec1 enc2 dec2 v"
  shows "same_content dec1 dec2 (dict_step enc1 x c) (dict_step enc2 x d)"
proof (cases x)
  case (KSet k v)
  then show ?thesis using assms(1) assms(2) [OF KSet]
    by (auto simp: treat_alike_def same_content_upd split: sum.splits)
qed (use assms(1) in \<open>auto simp: same_content_def\<close>)

text \<open>Answers of two dictionaries are alike where the writes are.\<close>

lemma dict_ok_alike:
  assumes "same_content dec1 dec2 c d" and "dict_ok enc1 dec1 u1 c x r1" and "dict_ok enc2 dec2 u2 d x r2"
    and "\<And>e f. r1 = RErr e \<Longrightarrow> r2 = RErr f \<Longrightarrow> alike b r1 r2"
  shows "alike b r1 r2"
proof (cases x)
  case (KHas k)
  then show ?thesis using assms(1-3) by (cases r1; cases r2) (auto simp: same_content_def split: option.splits dest!: spec [of _ k])
next
  case (KGet k)
  then show ?thesis using assms(1-3) by (cases r1; cases r2) (auto simp: same_content_def split: option.splits dest!: spec [of _ k])
qed (use assms(2-4) in \<open>cases r1; cases r2; simp\<close>)+

end
