(* ===== verification/Statestore.thy ===== *)
theory Statestore
  imports Backend
begin

text \<open>
  \<open>pkg/statestore\<close>: \<open>registry.go\<close>, \<open>store.go\<close> and \<open>error.go\<close>.  Stores opened from a \<open>Registry\<close>
  share one backend store per name; a reference count and the registry's lock decide when it is closed.
  The section on goroutines breaks the operations at the points where another goroutine may run.
\<close>

section \<open>Errors\<close>

text \<open>The methods of the three struct errors; \<open>text\<close> is the \<open>Error\<close> method of the cause.\<close>

fun Error_Store :: "error \<Rightarrow> string option" where
  "Error_Store (ErrorAccess name cause) = Some name"
| "Error_Store (ErrorClosed name operation) = Some name"
| "Error_Store (ErrorOperation name operation cause) = Some name"
| "Error_Store _ = None"

fun Error_Operation :: "error \<Rightarrow> string option" where
  "Error_Operation (ErrorClosed name operation) = Some operation"
| "Error_Operation (ErrorOperation name operation cause) = Some operation"
| "Error_Operation _ = None"

definition quoted :: "string \<Rightarrow> string" where
  "quoted name = CHR 0x27 # name @ [CHR 0x27]"

fun statestore_Error :: "(error \<Rightarrow> string) \<Rightarrow> error \<Rightarrow> string" where
  "statestore_Error text (ErrorAccess name cause) = ''failed to open store '' @ quoted name @ '': '' @ text cause"
| "statestore_Error text (ErrorClosed name operation) =
     ''can not executed '' @ operation @ '' operation on closed store '' @ quoted name"
| "statestore_Error text (ErrorOperation name operation cause) =
     ''failed in '' @ operation @ '' operation on store '' @ quoted name @ '': '' @ text cause"
| "statestore_Error text e = text e"

fun is_ErrorClosed :: "error \<Rightarrow> bool" where
  "is_ErrorClosed (ErrorClosed name operation) = True"
| "is_ErrorClosed _ = False"

definition IsClosed :: "error \<Rightarrow> bool" where
  "IsClosed err \<longleftrightarrow> errors_As is_ErrorClosed err \<noteq> None"

section \<open>The wait group of a store\<close>

text \<open>
  \<open>unison.SafeWaitGroup\<close> of the module \<open>go-concert\<close> is a parameter: its zero value and its methods.
  \<open>wg_idle\<close> tells whether \<open>Wait\<close> returns.  What the code relies on is that \<open>Add\<close> fails exactly
  once the group is closed and that \<open>Wait\<close> returns once every added operation is done.
\<close>

record 'g wait_group =
  wg_new :: 'g
  wg_Add :: "'g \<Rightarrow> error option \<times> 'g"
  wg_Done :: "'g \<Rightarrow> 'g"
  wg_Close :: "'g \<Rightarrow> 'g"
  wg_idle :: "'g \<Rightarrow> bool"

definition wait_group_spec :: "'g wait_group \<Rightarrow> ('g \<Rightarrow> bool) \<Rightarrow> ('g \<Rightarrow> nat) \<Rightarrow> bool" where
  "wait_group_spec W cl n \<longleftrightarrow>
     \<not> cl (wg_new W) \<and> n (wg_new W) = 0
     \<and> (\<forall>g e g'. wg_Add W g = (e, g') \<longrightarrow> cl g' = cl g \<and> (e = None) = (\<not> cl g) \<and> n g' = (if cl g then n g else n g + 1))
     \<and> (\<forall>g. cl (wg_Done W g) = cl g \<and> (0 < n g \<longrightarrow> n (wg_Done W g) = n g - 1))
     \<and> (\<forall>g. cl (wg_Close W g) \<and> n (wg_Close W g) = n g)
     \<and> (\<forall>g. wg_idle W g = (n g = 0))"

section \<open>State\<close>

text \<open>Pointers to shared stores and to stores are positions in the lists of those allocated.\<close>

record 'h sharedStore =
  refCount :: int
  sname :: string
  sbackend :: 'h

record 'g Store =
  shared :: nat
  activeOps :: 'g

record ('h, 'g, 'w) sstate =
  reg_active :: "(string, nat) fmap"
  reg_wg :: int
  heap :: "'h sharedStore list"
  stores :: "'g Store list"
  world :: 'w

definition NewRegistry :: "'w \<Rightarrow> ('h, 'g, 'w) sstate" where
  "NewRegistry w = \<lparr>reg_active = fmempty, reg_wg = 0, heap = [], stores = [], world = w\<rparr>"

definition newSharedStore :: "string \<Rightarrow> 'h \<Rightarrow> ('h, 'g, 'w) sstate \<Rightarrow> nat \<times> ('h, 'g, 'w) sstate" where
  "newSharedStore name h st =
     (length (heap st), st\<lparr>heap := heap st @ [\<lparr>refCount = 1, sname = name, sbackend = h\<rparr>]\<rparr>)"

definition set_count :: "nat \<Rightarrow> int \<Rightarrow> ('h, 'g, 'w) sstate \<Rightarrow> ('h, 'g, 'w) sstate" where
  "set_count a n st = st\<lparr>heap := (heap st)[a := (heap st ! a)\<lparr>refCount := n\<rparr>]\<rparr>"

definition Retain :: "nat \<Rightarrow> ('h, 'g, 'w) sstate \<Rightarrow> ('h, 'g, 'w) sstate" where
  "Retain a st = set_count a (refCount (heap st ! a) + 1) st"

definition Dec :: "nat \<Rightarrow> ('h, 'g, 'w) sstate \<Rightarrow> int \<times> ('h, 'g, 'w) sstate" where
  "Dec a st = (refCount (heap st ! a) - 1, set_count a (refCount (heap st ! a) - 1) st)"

definition newStore :: "'g wait_group \<Rightarrow> nat \<Rightarrow> ('h, 'g, 'w) sstate \<Rightarrow> nat \<times> ('h, 'g, 'w) sstate" where
  "newStore W a st =
     (let st1 = Retain a st in
      (length (stores st1), st1\<lparr>stores := stores st1 @ [\<lparr>shared = a, activeOps = wg_new W\<rparr>]\<rparr>))"

section \<open>The registry\<close>

text \<open>Both may panic: for an unknown store, and in \<open>sync.WaitGroup\<close> for a negative counter.\<close>

definition unregisterStore :: "nat \<Rightarrow> ('h, 'g, 'w) sstate \<Rightarrow> error option \<times> ('h, 'g, 'w) sstate" where
  "unregisterStore a st =
     (let name = sname (heap st ! a) in
      if fmlookup (reg_active st) name = None then (Some (Panic ''removing an unknown store''), st)
      else let st1 = st\<lparr>reg_active := fmdrop name (reg_active st)\<rparr> in
        if reg_wg st1 \<le> 0 then (Some (Panic ''sync: negative WaitGroup counter''), st1)
        else (None, st1\<lparr>reg_wg := reg_wg st1 - 1\<rparr>))"

definition tryUnregister :: "nat \<Rightarrow> ('h, 'g, 'w) sstate \<Rightarrow> bool result \<times> ('h, 'g, 'w) sstate" where
  "tryUnregister a st =
     (if refCount (heap st ! a) > 0 then (Inr False, st)
      else case unregisterStore a st of
          (Some p, st1) \<Rightarrow> (Inl p, st1)
        | (None, st1) \<Rightarrow> (Inr True, st1))"

definition close_backend :: "('h, 'v, 'u, 'w) backend \<Rightarrow> nat \<Rightarrow> ('h, 'g, 'w) sstate \<Rightarrow> error option \<times> ('h, 'g, 'w) sstate" where
  "close_backend B a st =
     (case bClose B (sbackend (heap st ! a)) (world st) of (e, w) \<Rightarrow> (e, st\<lparr>world := w\<rparr>))"

definition Release :: "('h, 'v, 'u, 'w) backend \<Rightarrow> nat \<Rightarrow> ('h, 'g, 'w) sstate \<Rightarrow> error option \<times> ('h, 'g, 'w) sstate" where
  "Release B a st =
     (case Dec a st of
        (n, st1) \<Rightarrow>
          if n = 0 then
            (case tryUnregister a st1 of
               (Inl p, st2) \<Rightarrow> (Some p, st2)
             | (Inr b, st2) \<Rightarrow> if b then close_backend B a st2 else (None, st2))
          else (None, st1))"

text \<open>
  \<open>Get\<close> runs under the registry's lock.  Its deferred \<open>Release\<close> would wait for that lock forever if it
  took the last reference.
\<close>

definition Registry_Get ::
    "('h, 'v, 'u, 'w) backend \<Rightarrow> 'g wait_group \<Rightarrow> string \<Rightarrow> ('h, 'g, 'w) sstate \<Rightarrow> nat result \<times> ('h, 'g, 'w) sstate" where
  "Registry_Get B W name st =
     (case fmlookup (reg_active st) name of
        Some a \<Rightarrow> (case newStore W a st of (s, st1) \<Rightarrow> (Inr s, st1))
      | None \<Rightarrow>
          (case bAccess B name (world st) of
             (Inl e, w) \<Rightarrow> (Inl (ErrorAccess name e), st\<lparr>world := w\<rparr>)
           | (Inr h, w) \<Rightarrow>
               (case newSharedStore name h (st\<lparr>world := w\<rparr>) of
                  (a, st1) \<Rightarrow>
                    (case newStore W a (st1\<lparr>reg_active := fmupd name a (reg_active st1), reg_wg := reg_wg st1 + 1\<rparr>) of
                       (s, st2) \<Rightarrow>
                         (case Dec a st2 of
                            (n, st3) \<Rightarrow> if n = 0 then (Inl (Panic ''deadlock''), st3) else (Inr s, st3))))))"

text \<open>\<open>Close\<close> waits for the registry's wait group: \<open>None\<close> while it blocks.\<close>

definition Registry_Close ::
    "('h, 'v, 'u, 'w) backend \<Rightarrow> ('h, 'g, 'w) sstate \<Rightarrow> (error option \<times> ('h, 'g, 'w) sstate) option" where
  "Registry_Close B st =
     (if reg_wg st \<noteq> 0 then None
      else case bRegClose B (world st) of (e, w) \<Rightarrow> Some (e, st\<lparr>world := w\<rparr>))"

section \<open>Stores\<close>

definition set_active :: "nat \<Rightarrow> 'g \<Rightarrow> ('h, 'g, 'w) sstate \<Rightarrow> ('h, 'g, 'w) sstate" where
  "set_active s g st = st\<lparr>stores := (stores st)[s := (stores st ! s)\<lparr>activeOps := g\<rparr>]\<rparr>"

definition active_Add :: "'g wait_group \<Rightarrow> nat \<Rightarrow> ('h, 'g, 'w) sstate \<Rightarrow> error option \<times> ('h, 'g, 'w) sstate" where
  "active_Add W s st = (case wg_Add W (activeOps (stores st ! s)) of (e, g) \<Rightarrow> (e, set_active s g st))"

definition active_Done :: "'g wait_group \<Rightarrow> nat \<Rightarrow> ('h, 'g, 'w) sstate \<Rightarrow> ('h, 'g, 'w) sstate" where
  "active_Done W s st = set_active s (wg_Done W (activeOps (stores st ! s))) st"

definition active_Close :: "'g wait_group \<Rightarrow> nat \<Rightarrow> ('h, 'g, 'w) sstate \<Rightarrow> ('h, 'g, 'w) sstate" where
  "active_Close W s st = set_active s (wg_Close W (activeOps (stores st ! s))) st"

definition store_name :: "nat \<Rightarrow> ('h, 'g, 'w) sstate \<Rightarrow> string" where
  "store_name s st = sname (heap st ! shared (stores st ! s))"

definition store_backend :: "nat \<Rightarrow> ('h, 'g, 'w) sstate \<Rightarrow> 'h" where
  "store_backend s st = sbackend (heap st ! shared (stores st ! s))"

text \<open>The frame of the operations: \<open>Add\<close>, a call of the backend, the deferred \<open>Done\<close>.\<close>

definition active_call ::
    "'g wait_group \<Rightarrow> nat \<Rightarrow> 'r \<Rightarrow> ('w \<Rightarrow> 'r \<times> 'w) \<Rightarrow> ('h, 'g, 'w) sstate \<Rightarrow> 'r \<times> ('h, 'g, 'w) sstate" where
  "active_call W s closedErr body st =
     (case active_Add W s st of
        (Some e, st1) \<Rightarrow> (closedErr, st1)
      | (None, st1) \<Rightarrow> (case body (world st1) of (r, w) \<Rightarrow> (r, active_Done W s (st1\<lparr>world := w\<rparr>))))"

definition Store_Has ::
    "('h, 'v, 'u, 'w) backend \<Rightarrow> 'g wait_group \<Rightarrow> nat \<Rightarrow> string \<Rightarrow> ('h, 'g, 'w) sstate \<Rightarrow> bool result \<times> ('h, 'g, 'w) sstate" where
  "Store_Has B W s key st =
     (let operation = ''store/has''; name = store_name s st in
      active_call W s (Inl (ErrorClosed name operation))
        (\<lambda>w. case bHas B (store_backend s st) key w of
            (Inl e, w1) \<Rightarrow> (Inl (ErrorOperation name operation e), w1)
          | (Inr b, w1) \<Rightarrow> (Inr b, w1)) st)"

definition Store_Get ::
    "('h, 'v, 'u, 'w) backend \<Rightarrow> 'g wait_group \<Rightarrow> nat \<Rightarrow> string \<Rightarrow> ('h, 'g, 'w) sstate \<Rightarrow> 'v result \<times> ('h, 'g, 'w) sstate" where
  "Store_Get B W s key st =
     (let operation = ''store/get''; name = store_name s st in
      active_call W s (Inl (ErrorClosed name operation))
        (\<lambda>w. case bGet B (store_backend s st) key w of
            (Inl e, w1) \<Rightarrow> (Inl (ErrorOperation name operation e), w1)
          | (Inr v, w1) \<Rightarrow> (Inr v, w1)) st)"

definition wrap_error :: "string \<Rightarrow> string \<Rightarrow> error option \<Rightarrow> error option" where
  "wrap_error name operation e = map_option (ErrorOperation name operation) e"

text \<open>\<open>Set\<close> names its operation \<open>store/get\<close>, as the source does.\<close>

definition Store_Set ::
    "('h, 'v, 'u, 'w) backend \<Rightarrow> 'g wait_group \<Rightarrow> nat \<Rightarrow> string \<Rightarrow> 'v \<Rightarrow> ('h, 'g, 'w) sstate \<Rightarrow> error option \<times> ('h, 'g, 'w) sstate" where
  "Store_Set B W s key from st =
     (let operation = ''store/get''; name = store_name s st in
      active_call W s (Some (ErrorClosed name operation))
        (\<lambda>w. apfst (wrap_error name operation) (bSet B (store_backend s st) key from w)) st)"

definition Store_Remove ::
    "('h, 'v, 'u, 'w) backend \<Rightarrow> 'g wait_group \<Rightarrow> nat \<Rightarrow> string \<Rightarrow> ('h, 'g, 'w) sstate \<Rightarrow> error option \<times> ('h, 'g, 'w) sstate" where
  "Store_Remove B W s key st =
     (let operation = ''store/remove''; name = store_name s st in
      active_call W s (Some (ErrorClosed name operation))
        (\<lambda>w. apfst (wrap_error name operation) (bRemove B (store_backend s st) key w)) st)"

definition Store_Each ::
    "('h, 'v, 'u, 'w) backend \<Rightarrow> 'g wait_group \<Rightarrow> nat \<Rightarrow> ('v, 'u) each_fn \<Rightarrow> 'u \<Rightarrow> ('h, 'g, 'w) sstate
     \<Rightarrow> (error option \<times> 'u) \<times> ('h, 'g, 'w) sstate" where
  "Store_Each B W s fn u st =
     active_call W s (Some (ErrorClosed (store_name s st) ''store/each''), u)
       (bEach B (store_backend s st) fn u) st"

text \<open>\<open>Close\<close> blocks, \<open>None\<close>, while operations of the store are active.\<close>

definition Store_Close ::
    "('h, 'v, 'u, 'w) backend \<Rightarrow> 'g wait_group \<Rightarrow> nat \<Rightarrow> ('h, 'g, 'w) sstate \<Rightarrow> (error option \<times> ('h, 'g, 'w) sstate) option" where
  "Store_Close B W s st =
     (case active_Add W s st of
        (Some e, st1) \<Rightarrow> Some (Some (ErrorClosed (store_name s st) ''store/close''), st1)
      | (None, st1) \<Rightarrow>
          (let st2 = active_Done W s (active_Close W s st1) in
           if \<not> wg_idle W (activeOps (stores st2 ! s)) then None
           else Some (Release B (shared (stores st2 ! s)) st2)))"

section \<open>Lemmas on the state\<close>

lemma nth_list_update_same: "f x = f (xs ! a) \<Longrightarrow> f (xs[a := x] ! b) = f (xs ! b)"
  by (cases "a < length xs"; cases "a = b") (simp_all add: list_update_beyond)

lemma set_count_simps [simp]:
  "reg_active (set_count a n st) = reg_active st" "reg_wg (set_count a n st) = reg_wg st"
  "stores (set_count a n st) = stores st" "world (set_count a n st) = world st"
  "length (heap (set_count a n st)) = length (heap st)"
  "sname (heap (set_count a n st) ! b) = sname (heap st ! b)"
  "sbackend (heap (set_count a n st) ! b) = sbackend (heap st ! b)"
  by (simp_all add: set_count_def nth_list_update_same)

lemma refCount_set_count [simp]:
  "a < length (heap st) \<Longrightarrow> refCount (heap (set_count a n st) ! b) = (if b = a then n else refCount (heap st ! b))"
  by (simp add: set_count_def)

lemma set_active_simps [simp]:
  "reg_active (set_active s g st) = reg_active st" "reg_wg (set_active s g st) = reg_wg st"
  "heap (set_active s g st) = heap st" "world (set_active s g st) = world st"
  "length (stores (set_active s g st)) = length (stores st)"
  "shared (stores (set_active s g st) ! t) = shared (stores st ! t)"
  by (simp_all add: set_active_def nth_list_update_same)

lemma activeOps_set_active [simp]:
  "s < length (stores st) \<Longrightarrow> activeOps (stores (set_active s g st) ! t) = (if t = s then g else activeOps (stores st ! t))"
  by (simp add: set_active_def)

lemma store_name_simps [simp]:
  "store_name s (set_active t g st) = store_name s st" "store_backend s (set_active t g st) = store_backend s st"
  "store_name s (st\<lparr>world := w\<rparr>) = store_name s st" "store_backend s (st\<lparr>world := w\<rparr>) = store_backend s st"
  by (simp_all add: store_name_def store_backend_def)

text \<open>A closed group refuses, an open one is as before when the operation is over.\<close>

definition same_ops :: "('g \<Rightarrow> bool) \<Rightarrow> ('g \<Rightarrow> nat) \<Rightarrow> ('h, 'g, 'w) sstate \<Rightarrow> ('h, 'g, 'w) sstate \<Rightarrow> bool" where
  "same_ops cl n st st' \<longleftrightarrow> length (stores st') = length (stores st) \<and>
     (\<forall>t < length (stores st). shared (stores st' ! t) = shared (stores st ! t)
        \<and> cl (activeOps (stores st' ! t)) = cl (activeOps (stores st ! t))
        \<and> n (activeOps (stores st' ! t)) = n (activeOps (stores st ! t)))"

lemma active_call_closed:
  assumes "wait_group_spec W cl n" and "s < length (stores st)" and "cl (activeOps (stores st ! s))"
    and "active_call W s closedErr body st = (r, st')"
  shows "r = closedErr \<and> heap st' = heap st \<and> reg_active st' = reg_active st \<and> reg_wg st' = reg_wg st
     \<and> world st' = world st \<and> same_ops cl n st st'"
  using assms by (auto simp: active_call_def active_Add_def wait_group_spec_def same_ops_def split: prod.splits option.splits if_splits)

lemma active_call_open:
  assumes "wait_group_spec W cl n" and "s < length (stores st)" and "\<not> cl (activeOps (stores st ! s))"
    and "active_call W s closedErr body st = (r, st')"
  shows "body (world st) = (r, world st') \<and> heap st' = heap st \<and> reg_active st' = reg_active st \<and> reg_wg st' = reg_wg st
     \<and> same_ops cl n st st'"
proof -
  obtain e g where a: "wg_Add W (activeOps (stores st ! s)) = (e, g)" by (metis prod.exhaust)
  then have g: "e = None" "\<not> cl g" "n g = n (activeOps (stores st ! s)) + 1"
    using assms(1,3) by (auto simp: wait_group_spec_def)
  then have "cl (wg_Done W g) = cl g" "n (wg_Done W g) = n (activeOps (stores st ! s))"
    using assms(1) by (auto simp: wait_group_spec_def)
  with g assms(2,3,4) a show ?thesis
    by (auto simp: active_call_def active_Add_def active_Done_def same_ops_def split: prod.splits if_splits)
qed

section \<open>Open stores\<close>

definition store_call ::
    "('h, 'v, 'u, 'w) backend \<Rightarrow> 'g wait_group \<Rightarrow> nat \<Rightarrow> 'v kcall \<Rightarrow> ('h, 'g, 'w) sstate \<Rightarrow> 'v kres \<times> ('h, 'g, 'w) sstate" where
  "store_call B W s c st =
     (case c of
        KHas k \<Rightarrow> apfst RHas (Store_Has B W s k st)
      | KGet k \<Rightarrow> apfst RGet (Store_Get B W s k st)
      | KSet k v \<Rightarrow> apfst RErr (Store_Set B W s k v st)
      | KRemove k \<Rightarrow> apfst RErr (Store_Remove B W s k st))"

fun store_calls ::
    "('h, 'v, 'u, 'w) backend \<Rightarrow> 'g wait_group \<Rightarrow> nat \<Rightarrow> 'v kcall list \<Rightarrow> ('h, 'g, 'w) sstate \<Rightarrow> 'v kres list \<times> ('h, 'g, 'w) sstate" where
  "store_calls B W s [] st = ([], st)"
| "store_calls B W s (c # cs) st =
     (case store_call B W s c st of (r, st1) \<Rightarrow> case store_calls B W s cs st1 of (rs, st2) \<Rightarrow> (r # rs, st2))"

text \<open>The answer of a store named \<open>name\<close> where its backend answers \<open>r\<close>.\<close>

fun wrapped :: "string \<Rightarrow> 'v kcall \<Rightarrow> 'v kres \<Rightarrow> 'v kres" where
  "wrapped name (KHas k) (RHas (Inl e)) = RHas (Inl (ErrorOperation name ''store/has'' e))"
| "wrapped name (KGet k) (RGet (Inl e)) = RGet (Inl (ErrorOperation name ''store/get'' e))"
| "wrapped name (KSet k v) (RErr (Some e)) = RErr (Some (ErrorOperation name ''store/get'' e))"
| "wrapped name (KRemove k) (RErr (Some e)) = RErr (Some (ErrorOperation name ''store/remove'' e))"
| "wrapped name c r = r"

fun closed_error :: "string \<Rightarrow> 'v kcall \<Rightarrow> 'v kres" where
  "closed_error name (KHas k) = RHas (Inl (ErrorClosed name ''store/has''))"
| "closed_error name (KGet k) = RGet (Inl (ErrorClosed name ''store/get''))"
| "closed_error name (KSet k v) = RErr (Some (ErrorClosed name ''store/get''))"
| "closed_error name (KRemove k) = RErr (Some (ErrorClosed name ''store/remove''))"

lemma wrapped_RErr [simp]:
  "wrapped name (KSet k v) (RErr x) = RErr (wrap_error name ''store/get'' x)"
  "wrapped name (KRemove k) (RErr x) = RErr (wrap_error name ''store/remove'' x)"
  by (cases x; simp add: wrap_error_def)+

lemma store_call_open:
  assumes "wait_group_spec W cl n" and "s < length (stores st)" and "\<not> cl (activeOps (stores st ! s))"
    and "store_call B W s c st = (r, st')"
  shows "\<exists>r0. kv_call B (store_backend s st) c (world st) = (r0, world st') \<and> r = wrapped (store_name s st) c r0
     \<and> heap st' = heap st \<and> reg_active st' = reg_active st \<and> reg_wg st' = reg_wg st \<and> same_ops cl n st st'"
proof -
  note open_call = active_call_open [OF assms(1,2,3)]
  show ?thesis
    using assms(4)
    by (cases c)
      (auto simp: store_call_def Store_Has_def Store_Get_def Store_Set_def Store_Remove_def Let_def kv_call_def
        apfst_def map_prod_def dest!: open_call split: prod.splits sum.splits option.splits)
qed

lemma store_calls_open:
  assumes "wait_group_spec W cl n" and "s < length (stores st)" and "\<not> cl (activeOps (stores st ! s))"
    and "store_calls B W s cs st = (rs, st')"
  shows "\<exists>rs0. kv_calls B (store_backend s st) cs (world st) = (rs0, world st')
     \<and> rs = map2 (wrapped (store_name s st)) cs rs0
     \<and> heap st' = heap st \<and> reg_active st' = reg_active st \<and> reg_wg st' = reg_wg st \<and> same_ops cl n st st'"
  using assms(2-4)
proof (induction cs arbitrary: st rs)
  case Nil
  then show ?case by (simp add: same_ops_def)
next
  case (Cons c cs)
  obtain r st1 where c: "store_call B W s c st = (r, st1)" by (metis prod.exhaust)
  obtain rs1 where cs: "store_calls B W s cs st1 = (rs1, st')" "rs = r # rs1"
    using Cons.prems(3) c by (auto split: prod.splits)
  obtain r0 where o: "kv_call B (store_backend s st) c (world st) = (r0, world st1)" "r = wrapped (store_name s st) c r0"
    "heap st1 = heap st" "reg_active st1 = reg_active st" "reg_wg st1 = reg_wg st" "same_ops cl n st st1"
    using store_call_open [OF assms(1) Cons.prems(1,2) c] by blast
  have same: "store_backend s st1 = store_backend s st" "store_name s st1 = store_name s st"
    "s < length (stores st1)" "\<not> cl (activeOps (stores st1 ! s))"
    using o Cons.prems(1,2) by (auto simp: store_backend_def store_name_def same_ops_def)
  from Cons.IH [OF same(3,4) cs(1)] show ?case
    using o same(1,2) cs(2) by (auto simp: same_ops_def)
qed

text \<open>A closed store answers with its \<open>ErrorClosed\<close> and reaches neither the backend nor the registry.\<close>

lemma store_call_closed:
  assumes "wait_group_spec W cl n" and "s < length (stores st)" and "cl (activeOps (stores st ! s))"
    and "store_call B W s c st = (r, st')"
  shows "r = closed_error (store_name s st) c \<and> heap st' = heap st \<and> reg_active st' = reg_active st
     \<and> reg_wg st' = reg_wg st \<and> world st' = world st \<and> same_ops cl n st st'"
proof -
  note closed_call = active_call_closed [OF assms(1,2,3)]
  show ?thesis
    using assms(4)
    by (cases c)
      (auto simp: store_call_def Store_Has_def Store_Get_def Store_Set_def Store_Remove_def Let_def
        apfst_def map_prod_def dest!: closed_call split: prod.splits)
qed

context kv_backend
begin

text \<open>A store of the registry is a dictionary too: its answers are those of the dictionary, the errors wrapped.\<close>

lemma store_calls_dict:
  assumes "wait_group_spec W cl n" and "s < length (stores st)" and "\<not> cl (activeOps (stores st ! s))"
    and "opened (store_backend s st) (world st)" and "store_calls B W s cs st = (rs, st')"
  shows "\<exists>rs0. kv_calls B (store_backend s st) cs (world st) = (rs0, world st')
     \<and> rs = map2 (wrapped (store_name s st)) cs rs0
     \<and> dict_trace enc dec unknown (content (store_backend s st) (world st)) cs rs0
     \<and> becomes opened content (store_backend s st)
         (fold (dict_step enc) cs (content (store_backend s st) (world st))) (world st) (world st')
     \<and> heap st' = heap st \<and> reg_active st' = reg_active st \<and> reg_wg st' = reg_wg st \<and> same_ops cl n st st'"
  using store_calls_open [OF assms(1-3,5)] calls_dict [OF assms(4)] by blast

end

end
