(* ===== verification/Storetest.thy ===== *)
theory Storetest
  imports Backend
begin

text \<open>
  \<open>pkg/statestore/storetest/storetest.go\<close>: the in-memory backend \<open>MemoryStore\<close> with its
  \<open>MapStore\<close> tables.  A \<open>MapStore\<close> is created once for a name and never removed from \<open>Stores\<close>, so
  the name stands for the pointer to it.  \<open>typeconv.Convert\<close> is a parameter, in the two directions the
  code uses it: \<open>enc\<close> into an \<open>interface{}\<close>, \<open>dec\<close> into the caller's target.  So is the order
  in which a \<open>range\<close> over a map visits it.  The critical section of each mutex is one step.
\<close>

section \<open>MapStore\<close>

definition errMapStoreClosed :: error where "errMapStoreClosed = ErrNew ''store closed''"
definition errUnknownKey :: error where "errUnknownKey = ErrNew ''unknown key''"

record 'r MapStore =
  closed :: bool
  Table :: "(string, 'r) fmap option"

definition MapStore_init :: "'r MapStore \<Rightarrow> 'r MapStore" where
  "MapStore_init s = (if Table s = None then s\<lparr>Table := Some fmempty\<rparr> else s)"

abbreviation tbl :: "'r MapStore \<Rightarrow> (string, 'r) fmap" where
  "tbl s \<equiv> the (Table (MapStore_init s))"

definition MapStore_Reopen :: "'r MapStore \<Rightarrow> 'r MapStore" where
  "MapStore_Reopen s = s\<lparr>closed := False\<rparr>"

definition MapStore_Close :: "'r MapStore \<Rightarrow> error option \<times> 'r MapStore" where
  "MapStore_Close s = (None, s\<lparr>closed := True\<rparr>)"

definition MapStore_IsClosed :: "'r MapStore \<Rightarrow> bool" where
  "MapStore_IsClosed s \<longleftrightarrow> closed s"

definition MapStore_Has :: "string \<Rightarrow> 'r MapStore \<Rightarrow> bool result \<times> 'r MapStore" where
  "MapStore_Has key s =
     (if closed s then (Inl errMapStoreClosed, s)
      else let s = MapStore_init s in (Inr (fmlookup (tbl s) key \<noteq> None), s))"

definition MapStore_Get :: "('r \<Rightarrow> 'v result) \<Rightarrow> string \<Rightarrow> 'r MapStore \<Rightarrow> 'v result \<times> 'r MapStore" where
  "MapStore_Get dec key s =
     (if closed s then (Inl errMapStoreClosed, s)
      else let s = MapStore_init s in
        case fmlookup (tbl s) key of None \<Rightarrow> (Inl errUnknownKey, s) | Some val \<Rightarrow> (dec val, s))"

definition MapStore_Set :: "('v \<Rightarrow> 'r result) \<Rightarrow> string \<Rightarrow> 'v \<Rightarrow> 'r MapStore \<Rightarrow> error option \<times> 'r MapStore" where
  "MapStore_Set enc key from s =
     (if closed s then (Some errMapStoreClosed, s)
      else let s = MapStore_init s in
        case enc from of
          Inl e \<Rightarrow> (Some e, s)
        | Inr tmp \<Rightarrow> (None, s\<lparr>Table := Some (fmupd key tmp (tbl s))\<rparr>))"

definition MapStore_Remove :: "string \<Rightarrow> 'r MapStore \<Rightarrow> error option \<times> 'r MapStore" where
  "MapStore_Remove key s =
     (if closed s then (Some errMapStoreClosed, s)
      else let s = MapStore_init s in (None, s\<lparr>Table := Some (fmdrop key (tbl s))\<rparr>))"

fun range_loop :: "('r \<Rightarrow> 'v result) \<Rightarrow> ('v, 'u) each_fn \<Rightarrow> (string \<times> 'r) list \<Rightarrow> 'u \<Rightarrow> error option \<times> 'u" where
  "range_loop dec fn [] u = (None, u)"
| "range_loop dec fn ((k, v) # kvs) u =
     (case fn k (dec v) u of
        ((cont, err), u') \<Rightarrow> if \<not> cont \<or> err \<noteq> None then (err, u') else range_loop dec fn kvs u')"

definition MapStore_Each ::
    "((string, 'r) fmap \<Rightarrow> (string \<times> 'r) list) \<Rightarrow> ('r \<Rightarrow> 'v result) \<Rightarrow> ('v, 'u) each_fn \<Rightarrow> 'u \<Rightarrow> 'r MapStore
     \<Rightarrow> (error option \<times> 'u) \<times> 'r MapStore" where
  "MapStore_Each order dec fn u s =
     (if closed s then ((Some errMapStoreClosed, u), s)
      else let s = MapStore_init s in (range_loop dec fn (order (tbl s)) u, s))"

section \<open>MemoryStore\<close>

type_synonym 'r MemoryStore = "(string, 'r MapStore) fmap option"

definition NewMemoryStoreBackend :: "'r MemoryStore" where
  "NewMemoryStoreBackend = None"

definition MemoryStore_init :: "'r MemoryStore \<Rightarrow> (string, 'r MapStore) fmap" where
  "MemoryStore_init m = (case m of None \<Rightarrow> fmempty | Some ss \<Rightarrow> ss)"

definition MemoryStore_Access :: "string \<Rightarrow> 'r MemoryStore \<Rightarrow> string result \<times> 'r MemoryStore" where
  "MemoryStore_Access name m =
     (let ss = MemoryStore_init m in
      case fmlookup ss name of
        None \<Rightarrow> (Inr name, Some (fmupd name \<lparr>closed = False, Table = None\<rparr> ss))
      | Some s \<Rightarrow> (Inr name, Some (fmupd name (MapStore_Reopen s) ss)))"

definition MemoryStore_Close :: "'r MemoryStore \<Rightarrow> error option \<times> 'r MemoryStore" where
  "MemoryStore_Close m = (None, m)"

text \<open>A method called through a pointer.  A pointer that was never handed out does not occur.\<close>

definition deref :: "'a \<Rightarrow> ('r MapStore \<Rightarrow> 'a \<times> 'r MapStore) \<Rightarrow> string \<Rightarrow> 'r MemoryStore \<Rightarrow> 'a \<times> 'r MemoryStore" where
  "deref nilres f p m =
     (case fmlookup (MemoryStore_init m) p of
        None \<Rightarrow> (nilres, m)
      | Some s \<Rightarrow> (case f s of (r, s') \<Rightarrow> (r, Some (fmupd p s' (MemoryStore_init m)))))"

definition nil_pointer :: error where "nil_pointer = Panic ''nil pointer dereference''"

definition storetest_backend ::
    "('v \<Rightarrow> 'r result) \<Rightarrow> ('r \<Rightarrow> 'v result) \<Rightarrow> ((string, 'r) fmap \<Rightarrow> (string \<times> 'r) list)
     \<Rightarrow> (string, 'v, 'u, 'r MemoryStore) backend" where
  "storetest_backend enc dec order =
     \<lparr>bAccess = MemoryStore_Access,
      bRegClose = MemoryStore_Close,
      bClose = deref (Some nil_pointer) MapStore_Close,
      bHas = (\<lambda>p k. deref (Inl nil_pointer) (MapStore_Has k) p),
      bGet = (\<lambda>p k. deref (Inl nil_pointer) (MapStore_Get dec k) p),
      bSet = (\<lambda>p k v. deref (Some nil_pointer) (MapStore_Set enc k v) p),
      bRemove = (\<lambda>p k. deref (Some nil_pointer) (MapStore_Remove k) p),
      bEach = (\<lambda>p fn u. deref (Some nil_pointer, u) (MapStore_Each order dec fn u) p)\<rparr>"

section \<open>The contract of the store interface\<close>

definition mem_opened :: "string \<Rightarrow> 'r MemoryStore \<Rightarrow> bool" where
  "mem_opened p m = (case fmlookup (MemoryStore_init m) p of None \<Rightarrow> False | Some s \<Rightarrow> \<not> closed s)"

definition mem_content :: "string \<Rightarrow> 'r MemoryStore \<Rightarrow> (string \<rightharpoonup> 'r)" where
  "mem_content p m = (case fmlookup (MemoryStore_init m) p of None \<Rightarrow> Map.empty | Some s \<Rightarrow> fmlookup (tbl s))"

lemma MapStore_init_simps [simp]:
  "closed (MapStore_init s) = closed s" "MapStore_init (MapStore_init s) = MapStore_init s"
  "MapStore_init (s\<lparr>Table := Some t\<rparr>) = s\<lparr>Table := Some t\<rparr>"
  "MapStore_init (s\<lparr>closed := b\<rparr>) = (MapStore_init s)\<lparr>closed := b\<rparr>"
  by (auto simp: MapStore_init_def)

lemma MemoryStore_init_Some [simp]: "MemoryStore_init (Some ss) = ss"
  by (simp add: MemoryStore_init_def)

lemma deref_becomes:
  assumes "mem_opened p m" and "deref z f p m = (r, m')"
    and "\<And>s. fmlookup (MemoryStore_init m) p = Some s \<Longrightarrow> \<not> closed s \<Longrightarrow>
      fst (f s) = x \<and> \<not> closed (snd (f s)) \<and> fmlookup (tbl (snd (f s))) = c"
  shows "r = x \<and> becomes mem_opened mem_content p c m m'"
proof -
  obtain s where s: "fmlookup (MemoryStore_init m) p = Some s" "\<not> closed s"
    using assms(1) by (auto simp: mem_opened_def split: option.splits)
  then show ?thesis
    using assms(2) assms(3) [OF s]
    by (auto simp: deref_def becomes_def mem_opened_def mem_content_def split: prod.splits)
qed

lemma mem_content_open: "fmlookup (MemoryStore_init m) p = Some s \<Longrightarrow> mem_content p m = fmlookup (tbl s)"
  by (simp add: mem_content_def)

interpretation mapstore: kv_backend "storetest_backend enc dec order" mem_opened mem_content enc dec errUnknownKey
  for enc dec order
proof
  fix p k m r m'
  assume o: "mem_opened p m" and "bHas (storetest_backend enc dec order) p k m = (r, m')"
  then have "deref (Inl nil_pointer) (MapStore_Has k) p m = (r, m')" by (simp add: storetest_backend_def)
  then show "r = Inr (mem_content p m k \<noteq> None) \<and> becomes mem_opened mem_content p (mem_content p m) m m'"
    by (rule deref_becomes [OF o]) (simp add: MapStore_Has_def Let_def mem_content_open)
next
  fix p k m g m'
  assume o: "mem_opened p m" and "bGet (storetest_backend enc dec order) p k m = (g, m')"
  then have "deref (Inl nil_pointer) (MapStore_Get dec k) p m = (g, m')" by (simp add: storetest_backend_def)
  then show "g = (case mem_content p m k of None \<Rightarrow> Inl errUnknownKey | Some x \<Rightarrow> dec x)
      \<and> becomes mem_opened mem_content p (mem_content p m) m m'"
    by (rule deref_becomes [OF o]) (simp add: MapStore_Get_def Let_def mem_content_open split: option.splits)
next
  fix p k v m err m'
  assume o: "mem_opened p m" and "bSet (storetest_backend enc dec order) p k v m = (err, m')"
  then have "deref (Some nil_pointer) (MapStore_Set enc k v) p m = (err, m')" by (simp add: storetest_backend_def)
  then have run: "deref (Some nil_pointer) (MapStore_Set enc k v) p m = (err, m')" .
  show "case enc v of Inl e \<Rightarrow> err = Some e \<and> becomes mem_opened mem_content p (mem_content p m) m m'
      | Inr x \<Rightarrow> becomes mem_opened mem_content p ((mem_content p m)(k \<mapsto> x)) m m'"
  proof (cases "enc v")
    case (Inl e)
    have "err = Some e \<and> becomes mem_opened mem_content p (mem_content p m) m m'"
      by (rule deref_becomes [OF o run]) (simp add: MapStore_Set_def Let_def mem_content_open Inl)
    then show ?thesis using Inl by simp
  next
    case (Inr x)
    have "err = None \<and> becomes mem_opened mem_content p ((mem_content p m)(k \<mapsto> x)) m m'"
      by (rule deref_becomes [OF o run]) (simp add: MapStore_Set_def Let_def mem_content_open Inr fun_eq_iff)
    then show ?thesis using Inr by simp
  qed
next
  fix p k m err m'
  assume o: "mem_opened p m" and "bRemove (storetest_backend enc dec order) p k m = (err, m')"
  then have "deref (Some nil_pointer) (MapStore_Remove k) p m = (err, m')" by (simp add: storetest_backend_def)
  from deref_becomes [OF o this, of None "(mem_content p m)(k := None)"]
  show "becomes mem_opened mem_content p ((mem_content p m)(k := None)) m m'"
    by (simp add: MapStore_Remove_def Let_def mem_content_open map_drop_def fun_eq_iff map_filter_def)
qed

section \<open>Properties\<close>

text \<open>The in-memory backend of the tests is a dictionary.  Any sequence of \<open>Has\<close>, \<open>Get\<close>, \<open>Set\<close> and
  \<open>Remove\<close> calls on an open \<open>MapStore\<close> answers exactly as a partial function from keys to encoded
  values would, leaves that function as its content, and does not touch the other stores.\<close>

lemma MapStore_is_dictionary:
  assumes "mem_opened p m" and "kv_calls (storetest_backend enc dec order) p cs m = (rs, m')"
  shows "dict_trace enc dec errUnknownKey (mem_content p m) cs rs
     \<and> becomes mem_opened mem_content p (fold (dict_step enc) cs (mem_content p m)) m m'"
  by (rule mapstore.calls_dict [OF assms])

text \<open>A write to an open \<open>MapStore\<close> fails exactly when the value cannot be converted.\<close>

lemma MapStore_write:
  assumes "mem_opened p m" and "kv_call (storetest_backend enc dec order) p c m = (RErr e, m')"
  shows "e = (case c of KSet k v \<Rightarrow> (case enc v of Inl x \<Rightarrow> Some x | Inr y \<Rightarrow> None) | _ \<Rightarrow> None)"
proof -
  obtain s where "fmlookup (MemoryStore_init m) p = Some s" "\<not> closed s"
    using assms(1) by (auto simp: mem_opened_def split: option.splits)
  then show ?thesis using assms(2)
    by (cases c) (auto simp: kv_call_def storetest_backend_def deref_def MapStore_Set_def MapStore_Remove_def
        apfst_def map_prod_def Let_def split: prod.splits sum.splits)
qed

definition nat_backend :: "(string, nat, unit, nat MemoryStore) backend" where
  "nat_backend = storetest_backend Inr Inr (\<lambda>t. [])"

lemma MapStore_is_dictionary_witness:
  "\<exists>rs m'. kv_calls nat_backend ''a'' [KSet ''k'' (1::nat), KGet ''k'', KRemove ''k'', KHas ''k''] (snd (MemoryStore_Access ''a'' None)) = (rs, m')
     \<and> dict_trace Inr Inr errUnknownKey Map.empty [KSet ''k'' (1::nat), KGet ''k'', KRemove ''k'', KHas ''k''] rs
     \<and> rs = [RErr None, RGet (Inr 1), RErr None, RHas (Inr False)]"
proof -
  let ?m = "snd (MemoryStore_Access ''a'' None)"
  let ?cs = "[KSet ''k'' (1::nat), KGet ''k'', KRemove ''k'', KHas ''k'']"
  obtain rs m' where run: "kv_calls nat_backend ''a'' ?cs ?m = (rs, m')"
    by (metis prod.exhaust)
  have o: "mem_opened ''a'' ?m" "mem_content ''a'' ?m = Map.empty"
    by (simp_all add: MemoryStore_Access_def MemoryStore_init_def mem_opened_def mem_content_def MapStore_init_def fun_eq_iff)
  have "rs = [RErr None, RGet (Inr 1), RErr None, RHas (Inr False)]"
    using run by (simp add: kv_call_def nat_backend_def storetest_backend_def deref_def MemoryStore_Access_def
        MemoryStore_init_def MapStore_Set_def MapStore_Get_def MapStore_Remove_def MapStore_Has_def MapStore_init_def)
  then have "dict_trace Inr Inr errUnknownKey Map.empty ?cs rs \<and> rs = [RErr None, RGet (Inr 1), RErr None, RHas (Inr False)]"
    using MapStore_is_dictionary [OF o(1) run [unfolded nat_backend_def]] o(2) by simp
  then show ?thesis using run by blast
qed

lemma MapStore_reopened: "\<not> closed s \<Longrightarrow> MapStore_Reopen (s\<lparr>closed := True\<rparr>) = s"
  by (cases s) (simp add: MapStore_Reopen_def)

fun closed_answer :: "'v kcall \<Rightarrow> 'v kres" where
  "closed_answer (KHas k) = RHas (Inl errMapStoreClosed)"
| "closed_answer (KGet k) = RGet (Inl errMapStoreClosed)"
| "closed_answer (KSet k v) = RErr (Some errMapStoreClosed)"
| "closed_answer (KRemove k) = RErr (Some errMapStoreClosed)"

text \<open>Closing and reopening a \<open>MapStore\<close>.  While it is closed every call fails with \<open>store closed\<close>
  and changes nothing; the next \<open>Access\<close> to its name opens it again with all its data.\<close>

lemma MapStore_close_reopen:
  assumes "B = storetest_backend enc dec order" and "mem_opened p m" and "m1 = snd (bClose B p m)"
    and "bAccess B p m1 = (r, m2)"
  shows "kv_call B p c m1 = (closed_answer c, m1) \<and> \<not> mem_opened p m1
     \<and> r = Inr p \<and> becomes mem_opened mem_content p (mem_content p m) m m2"
proof -
  obtain s where s: "fmlookup (MemoryStore_init m) p = Some s" "\<not> closed s"
    using assms(2) by (auto simp: mem_opened_def split: option.splits)
  have m1: "m1 = Some (fmupd p (s\<lparr>closed := True\<rparr>) (MemoryStore_init m))"
    using assms(1,3) s by (simp add: storetest_backend_def deref_def MapStore_Close_def)
  have "kv_call B p c m1 = (closed_answer c, m1)"
    by (cases c) (simp_all add: assms(1) m1 kv_call_def storetest_backend_def deref_def MapStore_Has_def MapStore_Get_def
        MapStore_Set_def MapStore_Remove_def fmupd_same)
  moreover have "r = Inr p \<and> m2 = Some (fmupd p s (MemoryStore_init m))"
    using assms(1,4) s m1 MapStore_reopened [OF s(2)]
    by (auto simp: storetest_backend_def MemoryStore_Access_def Let_def intro: fmap_ext)
  ultimately show ?thesis
    using s m1 by (auto simp: mem_opened_def mem_content_def becomes_def)
qed

lemma MapStore_close_reopen_witness:
  "let B = nat_backend; m = snd (bSet B ''a'' ''k'' (1::nat) (snd (bAccess B ''a'' None)));
       m1 = snd (bClose B ''a'' m) in
     kv_call B ''a'' (KGet ''k'') m1 = (RGet (Inl errMapStoreClosed), m1)
     \<and> mem_content ''a'' (snd (bAccess B ''a'' m1)) ''k'' = Some 1"
proof -
  let ?B = nat_backend
  let ?m = "snd (bSet ?B ''a'' ''k'' (1::nat) (snd (bAccess ?B ''a'' None)))"
  have o: "mem_opened ''a'' ?m" "mem_content ''a'' ?m ''k'' = Some 1"
    by (simp_all add: nat_backend_def storetest_backend_def deref_def MemoryStore_Access_def MemoryStore_init_def
        MapStore_Set_def MapStore_init_def mem_opened_def mem_content_def)
  obtain r m2 where a: "bAccess ?B ''a'' (snd (bClose ?B ''a'' ?m)) = (r, m2)" by (metis prod.exhaust)
  from MapStore_close_reopen [OF nat_backend_def o(1) refl a, of "KGet ''k''"] a o(2) show ?thesis
    by (simp add: Let_def becomes_def)
qed

end
