(* ===== verification/Statestore_Sharing.thy ===== *)
theory Statestore_Sharing
  imports Statestore Storetest
begin

text \<open>
  How the stores of a registry share the backend stores: the effect of \<open>Get\<close> and \<open>Close\<close> on the
  registry, and the invariant of a program whose calls do not overlap.  \<open>Statestore_Race\<close> treats the
  interleavings.
\<close>

section \<open>Reference counts\<close>

text \<open>The stores of a shared store that have not yet given up their reference.\<close>

definition holders :: "('h, 'g, 'w) sstate \<Rightarrow> nat set \<Rightarrow> nat \<Rightarrow> nat set" where
  "holders st rel a = {s. s < length (stores st) \<and> shared (stores st ! s) = a \<and> s \<notin> rel}"

definition RInv :: "('h, 'g, 'w) sstate \<Rightarrow> nat set \<Rightarrow> bool" where
  "RInv st rel \<longleftrightarrow> rel \<subseteq> {..<length (stores st)}
     \<and> (\<forall>s < length (stores st). shared (stores st ! s) < length (heap st))
     \<and> (\<forall>name a. fmlookup (reg_active st) name = Some a \<longrightarrow> a < length (heap st) \<and> sname (heap st ! a) = name)
     \<and> (\<forall>a < length (heap st). refCount (heap st ! a) = int (card (holders st rel a)))"

lemma finite_holders [simp]: "finite (holders st rel a)"
  by (rule finite_subset [of _ "{..<length (stores st)}"]) (auto simp: holders_def)

lemma RInv_new: "RInv (NewRegistry w) {}"
  by (simp add: RInv_def NewRegistry_def)

lemma holders_append:
  assumes "stores st' = stores st @ [\<lparr>shared = b, activeOps = g\<rparr>]" and "rel \<subseteq> {..<length (stores st)}"
  shows "holders st' rel a = (if a = b then insert (length (stores st)) (holders st rel a) else holders st rel a)"
  using assms by (auto simp: holders_def nth_append)

lemma holders_release:
  "stores st' = stores st \<Longrightarrow> holders st' (insert s rel) a = holders st rel a - {s}"
  by (auto simp: holders_def)

lemma card_holders_pos: "s \<in> holders st rel a \<Longrightarrow> 0 < card (holders st rel a)"
  by (auto simp: card_gt_0_iff)

section \<open>Get\<close>

text \<open>The three outcomes: a registered store is shared, a new one is made, or the backend refuses.\<close>

lemma Registry_Get_cases:
  assumes "Registry_Get B W name st = (r, st')" and "RInv st rel"
  obtains (share) a where "fmlookup (reg_active st) name = Some a" and "r = Inr (length (stores st))"
      and "reg_active st' = reg_active st" and "reg_wg st' = reg_wg st" and "world st' = world st"
      and "stores st' = stores st @ [\<lparr>shared = a, activeOps = wg_new W\<rparr>]"
      and "heap st' = heap (set_count a (refCount (heap st ! a) + 1) st)"
    | (fresh) h where "fmlookup (reg_active st) name = None" and "bAccess B name (world st) = (Inr h, world st')"
      and "r = Inr (length (stores st))" and "reg_active st' = fmupd name (length (heap st)) (reg_active st)"
      and "reg_wg st' = reg_wg st + 1" and "stores st' = stores st @ [\<lparr>shared = length (heap st), activeOps = wg_new W\<rparr>]"
      and "heap st' = heap st @ [\<lparr>refCount = 1, sname = name, sbackend = h\<rparr>]"
    | (refused) e where "fmlookup (reg_active st) name = None" and "bAccess B name (world st) = (Inl e, world st')"
      and "r = Inl (ErrorAccess name e)" and "heap st' = heap st" and "stores st' = stores st"
      and "reg_active st' = reg_active st" and "reg_wg st' = reg_wg st"
proof (cases "fmlookup (reg_active st) name")
  case (Some a)
  then show ?thesis using assms(1) share by (auto simp: Registry_Get_def newStore_def Retain_def Let_def set_count_def)
next
  case None
  obtain q w where acc: "bAccess B name (world st) = (q, w)" by (metis prod.exhaust)
  show ?thesis
  proof (cases q)
    case (Inl e)
    then show ?thesis using assms(1) None acc refused by (auto simp: Registry_Get_def)
  next
    case (Inr h)
    then show ?thesis using assms(1) None acc fresh [of h]
      by (auto simp: Registry_Get_def newSharedStore_def newStore_def Retain_def Dec_def Let_def set_count_def nth_append)
  qed
qed

lemma Registry_Get_RInv:
  assumes "Registry_Get B W name st = (r, st')" and "RInv st rel"
  shows "RInv st' rel"
proof (cases rule: Registry_Get_cases [OF assms, consumes 0, case_names share fresh refused])
  case (share a)
  have a: "a < length (heap st)" "rel \<subseteq> {..<length (stores st)}" using assms(2) share(1) by (auto simp: RInv_def)
  have "length (stores st) \<notin> holders st rel a" by (simp add: holders_def)
  then show ?thesis using assms(2) share a holders_append [OF share(6) a(2)]
    by (auto simp: RInv_def nth_append less_Suc_eq)
next
  case (fresh h)
  have rel: "rel \<subseteq> {..<length (stores st)}" using assms(2) by (auto simp: RInv_def)
  have "holders st rel (length (heap st)) = {}" using assms(2) by (fastforce simp: RInv_def holders_def)
  then show ?thesis using assms(2) fresh holders_append [OF fresh(6) rel]
    by (auto simp: RInv_def nth_append less_Suc_eq)
next
  case (refused e)
  then show ?thesis using assms(2) by (simp add: RInv_def holders_def)
qed

section \<open>Giving up a reference\<close>

lemma Dec_RInv:
  assumes "RInv st rel" and "s < length (stores st)" and "s \<notin> rel" and "Dec (shared (stores st ! s)) st = (n, st')"
  shows "RInv st' (insert s rel)"
    and "n = int (card (holders st' (insert s rel) (shared (stores st ! s))))"
    and "stores st' = stores st" and "reg_active st' = reg_active st" and "reg_wg st' = reg_wg st"
    and "world st' = world st" and "length (heap st') = length (heap st)"
    and "sname (heap st' ! a) = sname (heap st ! a)" and "sbackend (heap st' ! a) = sbackend (heap st ! a)"
proof -
  let ?a = "shared (stores st ! s)"
  have a: "?a < length (heap st)" using assms(1,2) by (simp add: RInv_def)
  have st': "st' = set_count ?a (refCount (heap st ! ?a) - 1) st" "n = refCount (heap st ! ?a) - 1"
    using assms(4) by (auto simp: Dec_def)
  have s: "s \<in> holders st rel ?a" using assms(2,3) by (simp add: holders_def)
  have h: "holders st' (insert s rel) b = holders st rel b - {s}" for b
    by (rule holders_release) (simp add: st'(1))
  have rc: "refCount (heap st ! b) = int (card (holders st rel b))" if "b < length (heap st)" for b
    using assms(1) that by (simp add: RInv_def)
  have other: "holders st rel b - {s} = holders st rel b" if "b \<noteq> ?a" for b using that by (auto simp: holders_def)
  have one: "int (card (holders st rel ?a - {s})) = refCount (heap st ! ?a) - 1"
    using rc [OF a] s card_holders_pos [OF s] by (simp add: card_Diff_singleton)
  have same: "stores st' = stores st" "reg_active st' = reg_active st" "length (heap st') = length (heap st)"
    "sname (heap st' ! b) = sname (heap st ! b)"
    "refCount (heap st' ! b) = (if b = ?a then refCount (heap st ! b) - 1 else refCount (heap st ! b))" for b
    using a by (simp_all add: st'(1))
  show "RInv st' (insert s rel)"
    using assms(1,2) one [unfolded rc [OF a]] by (auto simp: RInv_def h same other)
  show "n = int (card (holders st' (insert s rel) ?a))" by (simp add: h one st'(2))
qed (use assms(4) in \<open>auto simp: Dec_def\<close>)

lemma tryUnregister_RInv:
  assumes "RInv st rel" and "tryUnregister a st = (r, st')"
  shows "RInv st' rel" and "stores st' = stores st" and "heap st' = heap st" and "world st' = world st"
  using assms
  by (auto simp: tryUnregister_def unregisterStore_def Let_def RInv_def holders_def split: if_splits prod.splits option.splits)

section \<open>Calls that do not overlap\<close>

definition is_open :: "('g \<Rightarrow> bool) \<Rightarrow> ('h, 'g, 'w) sstate \<Rightarrow> nat \<Rightarrow> bool" where
  "is_open cl st s \<longleftrightarrow> s < length (stores st) \<and> \<not> cl (activeOps (stores st ! s))"

definition closed_set :: "('g \<Rightarrow> bool) \<Rightarrow> ('h, 'g, 'w) sstate \<Rightarrow> nat set" where
  "closed_set cl st = {s. s < length (stores st) \<and> cl (activeOps (stores st ! s))}"

text \<open>Registered are exactly the shared stores that some open store uses.\<close>

definition Sharing :: "('g \<Rightarrow> bool) \<Rightarrow> ('g \<Rightarrow> nat) \<Rightarrow> ('h, 'g, 'w) sstate \<Rightarrow> bool" where
  "Sharing cl n st \<longleftrightarrow> RInv st (closed_set cl st)
     \<and> (\<forall>s < length (stores st). n (activeOps (stores st ! s)) = 0)
     \<and> (\<forall>s. is_open cl st s \<longrightarrow> fmlookup (reg_active st) (store_name s st) = Some (shared (stores st ! s)))
     \<and> (\<forall>name a. fmlookup (reg_active st) name = Some a \<longrightarrow> (\<exists>s. is_open cl st s \<and> shared (stores st ! s) = a))
     \<and> reg_wg st = int (fcard (fmdom (reg_active st)))"

lemma SharingI:
  assumes "RInv st (closed_set cl st)" and "\<And>s. s < length (stores st) \<Longrightarrow> n (activeOps (stores st ! s)) = 0"
    and "\<And>s. is_open cl st s \<Longrightarrow> fmlookup (reg_active st) (store_name s st) = Some (shared (stores st ! s))"
    and "\<And>name a. fmlookup (reg_active st) name = Some a \<Longrightarrow> \<exists>s. is_open cl st s \<and> shared (stores st ! s) = a"
    and "reg_wg st = int (fcard (fmdom (reg_active st)))"
  shows "Sharing cl n st"
  using assms by (simp add: Sharing_def)

lemma SharingD:
  assumes "Sharing cl n st"
  shows "RInv st (closed_set cl st)" and "s < length (stores st) \<Longrightarrow> n (activeOps (stores st ! s)) = 0"
    and "is_open cl st s \<Longrightarrow> fmlookup (reg_active st) (store_name s st) = Some (shared (stores st ! s))"
    and "fmlookup (reg_active st) name = Some a \<Longrightarrow> \<exists>s. is_open cl st s \<and> shared (stores st ! s) = a"
    and "reg_wg st = int (fcard (fmdom (reg_active st)))"
  using assms by (simp_all add: Sharing_def)

lemma same_name_iff:
  assumes "Sharing cl n st" and "is_open cl st s" and "is_open cl st t"
  shows "store_name t st = store_name s st \<longleftrightarrow> shared (stores st ! t) = shared (stores st ! s)"
proof
  assume "store_name t st = store_name s st"
  then show "shared (stores st ! t) = shared (stores st ! s)"
    using SharingD(3) [OF assms(1,2)] SharingD(3) [OF assms(1,3)] by simp
qed (simp add: store_name_def)

lemma Sharing_new: "Sharing cl n (NewRegistry w)"
  by (simp add: Sharing_def RInv_def NewRegistry_def closed_set_def is_open_def)

lemma holders_open: "s \<in> holders st (closed_set cl st) a \<longleftrightarrow> is_open cl st s \<and> shared (stores st ! s) = a"
  by (auto simp: holders_def closed_set_def is_open_def)

lemma Sharing_cong:
  assumes "same_ops cl n st st'" and "heap st' = heap st" and "reg_active st' = reg_active st" and "reg_wg st' = reg_wg st"
    and "Sharing cl n st"
  shows "Sharing cl n st'"
proof -
  have same: "is_open cl st' = is_open cl st" and c: "closed_set cl st' = closed_set cl st"
    using assms(1) by (auto simp: same_ops_def is_open_def closed_set_def fun_eq_iff)
  have nm: "store_name s st' = store_name s st" if "is_open cl st s" for s
    using assms(1,2) that by (simp add: same_ops_def store_name_def is_open_def)
  from c moreover have "holders st' rel a = holders st rel a" for rel a
    using assms(1) by (auto simp: same_ops_def holders_def)
  ultimately have "RInv st' (closed_set cl st')"
    using assms by (simp add: RInv_def same_ops_def SharingD(1) [OF assms(5), unfolded RInv_def])
  then show ?thesis
  proof (rule SharingI)
    fix name a
    assume "fmlookup (reg_active st') name = Some a"
    then obtain s where "is_open cl st s" "shared (stores st ! s) = a" using SharingD(4) [OF assms(5)] assms(3) by metis
    then show "\<exists>s. is_open cl st' s \<and> shared (stores st' ! s) = a"
      using assms(1) same by (auto simp: same_ops_def is_open_def)
  qed (use assms(1-4) nm SharingD [OF assms(5)] same in \<open>auto simp: same_ops_def is_open_def\<close>)
qed

text \<open>A store more, of the shared store \<open>a\<close> that has the name in the registry.\<close>

lemma another_store:
  assumes "Sharing cl n st" and "RInv st' (closed_set cl st)" and "stores st' = stores st @ [\<lparr>shared = a, activeOps = g\<rparr>]"
    and "\<not> cl g" and "n g = 0" and "reg_active st' = fmupd name a (reg_active st)" and "store_name (length (stores st)) st' = name"
    and "\<And>s. s < length (stores st) \<Longrightarrow> store_name s st' = store_name s st"
    and "\<And>b. fmlookup (reg_active st) name = Some b \<Longrightarrow> b = a"
    and "reg_wg st' = int (fcard (fmdom (reg_active st')))"
  shows "Sharing cl n st'"
proof (rule SharingI)
  let ?k = "length (stores st)"
  have o: "is_open cl st' s \<longleftrightarrow> is_open cl st s \<or> s = ?k" for s
    using assms(4) by (auto simp: is_open_def assms(3) nth_append)
  have old: "s < ?k" "shared (stores st' ! s) = shared (stores st ! s)" if "is_open cl st s" for s
    using that by (simp_all add: is_open_def assms(3) nth_append)
  have "closed_set cl st' = closed_set cl st" using assms(4) by (auto simp: closed_set_def assms(3) nth_append)
  then show "RInv st' (closed_set cl st')" using assms(2) by simp
  show "n (activeOps (stores st' ! s)) = 0" if "s < length (stores st')" for s
    using SharingD(2) [OF assms(1), of s] assms(5) that by (auto simp: assms(3) nth_append less_Suc_eq)
  show "fmlookup (reg_active st') (store_name s st') = Some (shared (stores st' ! s))" if "is_open cl st' s" for s
  proof (cases "s = ?k")
    case True
    then show ?thesis by (simp add: assms(3,6,7))
  next
    case False
    then have s: "is_open cl st s" using that o by blast
    then have "store_name s st = name \<Longrightarrow> shared (stores st ! s) = a" using SharingD(3) [OF assms(1)] assms(9) by blast
    then show ?thesis using SharingD(3) [OF assms(1) s] old [OF s] by (simp add: assms(6,8))
  qed
  show "\<exists>s. is_open cl st' s \<and> shared (stores st' ! s) = b" if look: "fmlookup (reg_active st') nm = Some b" for nm b
  proof (cases "nm = name")
    case True
    then show ?thesis using look by (intro exI [of _ ?k]) (simp add: o assms(3,6))
  next
    case False
    with look have "fmlookup (reg_active st) nm = Some b" by (simp add: assms(6))
    then obtain s where "is_open cl st s" "shared (stores st ! s) = b" using SharingD(4) [OF assms(1)] by blast
    then show ?thesis using old [of s] o by (intro exI [of _ s]) simp
  qed
qed (rule assms(10))

lemma Registry_Get_Sharing:
  assumes "wait_group_spec W cl n" and "Sharing cl n st" and "Registry_Get B W name st = (r, st')"
  shows "Sharing cl n st'"
proof -
  have new: "\<not> cl (wg_new W)" "n (wg_new W) = 0" using assms(1) by (simp_all add: wait_group_spec_def)
  have R: "RInv st (closed_set cl st)" using assms(2) by (simp add: Sharing_def)
  have sh: "shared (stores st ! s) < length (heap st)" if "s < length (stores st)" for s
    using R that by (simp add: RInv_def)
  note add = another_store [OF assms(2) Registry_Get_RInv [OF assms(3) R] _ new]
  show ?thesis
  proof (cases rule: Registry_Get_cases [OF assms(3) R, consumes 0, case_names share fresh refused])
    case (share a)
    have "sname (heap st ! a) = name" using R share(1) by (auto simp: RInv_def)
    then show ?thesis
      using SharingD(5) [OF assms(2)] share(1)
      by (intro add [OF share(6), where name = name])
        (auto simp: share(3,4,6,7) fmupd_same store_name_def nth_append)
  next
    case (fresh h)
    have "name |\<notin>| fmdom (reg_active st)" using fresh(1) by (rule fmdom_notI)
    then have "reg_wg st' = int (fcard (fmdom (reg_active st')))"
      using SharingD(5) [OF assms(2)] by (simp add: fresh(4,5) fcard_finsert_disjoint)
    then show ?thesis
      using sh fresh(1) by (intro add [OF fresh(6) fresh(4)]) (auto simp: fresh(6,7) store_name_def nth_append)
  next
    case (refused e)
    show ?thesis by (rule Sharing_cong [OF _ refused(4,6,7) assms(2)]) (simp add: same_ops_def refused(5))
  qed
qed

text \<open>\<open>Close\<close>, for a store with no operation running: the last one closes the backend.\<close>

definition used_elsewhere :: "('g \<Rightarrow> bool) \<Rightarrow> ('h, 'g, 'w) sstate \<Rightarrow> nat \<Rightarrow> bool" where
  "used_elsewhere cl st s \<longleftrightarrow> (\<exists>t. t \<noteq> s \<and> is_open cl st t \<and> store_name t st = store_name s st)"

text \<open>The state \<open>u\<close> after \<open>Close\<close> of store \<open>s\<close> has released its reference, before anything is unregistered.\<close>

definition gave_up :: "('g \<Rightarrow> bool) \<Rightarrow> ('g \<Rightarrow> nat) \<Rightarrow> nat \<Rightarrow> ('h, 'g, 'w) sstate \<Rightarrow> ('h, 'g, 'w) sstate \<Rightarrow> bool" where
  "gave_up cl n s st u \<longleftrightarrow> RInv u (closed_set cl u)
     \<and> (\<forall>t. is_open cl u t \<longleftrightarrow> is_open cl st t \<and> t \<noteq> s) \<and> (\<forall>t < length (stores u). n (activeOps (stores u ! t)) = 0)
     \<and> (\<forall>t. shared (stores u ! t) = shared (stores st ! t)) \<and> length (heap u) = length (heap st)
     \<and> (\<forall>b. sname (heap u ! b) = sname (heap st ! b) \<and> sbackend (heap u ! b) = sbackend (heap st ! b))
     \<and> reg_active u = reg_active st \<and> reg_wg u = reg_wg st \<and> world u = world st"

lemma gave_upD:
  assumes "gave_up cl n s st u"
  shows "RInv u (closed_set cl u)" "is_open cl u t \<longleftrightarrow> is_open cl st t \<and> t \<noteq> s"
    "t < length (stores u) \<Longrightarrow> n (activeOps (stores u ! t)) = 0" "shared (stores u ! t) = shared (stores st ! t)"
    "length (heap u) = length (heap st)" "sname (heap u ! b) = sname (heap st ! b)" "sbackend (heap u ! b) = sbackend (heap st ! b)"
    "reg_active u = reg_active st" "reg_wg u = reg_wg st" "world u = world st" "store_name t u = store_name t st"
  using assms by (simp_all add: gave_up_def store_name_def)

lemma Store_Close_gives_up:
  assumes "wait_group_spec W cl n" and "Sharing cl n st" and "is_open cl st s"
  obtains v k u where "Store_Close B W s st = Some (Release B (shared (stores st ! s)) v)"
    and "Dec (shared (stores st ! s)) v = (k, u)" and "gave_up cl n s st u"
    and "k = int (card (holders u (closed_set cl u) (shared (stores st ! s))))"
proof -
  let ?a = "shared (stores st ! s)"
  define rel where "rel = closed_set cl st"
  have s: "s < length (stores st)" "\<not> cl (activeOps (stores st ! s))" "s \<notin> rel"
    using assms(3) by (auto simp: is_open_def rel_def closed_set_def)
  have R: "RInv st rel" using assms(2) by (simp add: Sharing_def rel_def)
  obtain e g where add: "wg_Add W (activeOps (stores st ! s)) = (e, g)" by (metis prod.exhaust)
  define g3 where "g3 = wg_Done W (wg_Close W g)"
  have g: "e = None" "cl g3" "n g3 = 0" "wg_idle W g3"
    using assms(1,2) s add by (auto simp: wait_group_spec_def Sharing_def g3_def)
  define v where "v = set_active s g3 (set_active s (wg_Close W g) (set_active s g st))"
  have v: "heap v = heap st" "reg_active v = reg_active st" "reg_wg v = reg_wg st" "world v = world st"
    "length (stores v) = length (stores st)" "shared (stores v ! t) = shared (stores st ! t)"
    "activeOps (stores v ! t) = (if t = s then g3 else activeOps (stores st ! t))" for t
    using s by (simp_all add: v_def)
  have run: "Store_Close B W s st = Some (Release B ?a v)"
    using g s by (simp add: Store_Close_def active_Add_def active_Done_def active_Close_def add v_def g3_def Let_def)
  have "RInv v rel" using R by (simp add: RInv_def holders_def v)
  moreover obtain k u where dec: "Dec (shared (stores v ! s)) v = (k, u)" by (metis prod.exhaust)
  moreover have "s < length (stores v)" using s v by simp
  ultimately have D: "RInv u (insert s rel)" "k = int (card (holders u (insert s rel) ?a))" "stores u = stores v"
      "reg_active u = reg_active v" "reg_wg u = reg_wg v" "world u = world v" "length (heap u) = length (heap v)"
      "sname (heap u ! b) = sname (heap v ! b)" "sbackend (heap u ! b) = sbackend (heap v ! b)" for b
    using Dec_RInv [of v rel s k u] s(3) v(6) by simp_all
  have closed: "closed_set cl u = insert s rel" using D(3) g(2) s by (auto simp: closed_set_def v rel_def)
  have open_u: "is_open cl u t \<longleftrightarrow> is_open cl st t \<and> t \<noteq> s" for t using D(3) g(2) by (auto simp: is_open_def v)
  have "gave_up cl n s st u"
    using D assms(2) g(3) by (simp add: gave_up_def closed open_u v Sharing_def)
  with run dec D(2) show thesis by (intro that) (simp_all add: closed v)
qed

lemma gave_up_used:
  assumes "Sharing cl n st" and "is_open cl st s" and "gave_up cl n s st u"
  shows "used_elsewhere cl st s \<longleftrightarrow> (\<exists>t. t \<in> holders u (closed_set cl u) (shared (stores st ! s)))"
  using same_name_iff [OF assms(1,2)] gave_upD(2,4) [OF assms(3)] unfolding used_elsewhere_def holders_open by metis

text \<open>The name stays registered while another store of it is open.\<close>

lemma gave_up_shared:
  assumes "Sharing cl n st" and "is_open cl st s" and "gave_up cl n s st u" and "used_elsewhere cl st s"
  shows "Sharing cl n u"
proof (rule SharingI)
  note u = gave_upD [OF assms(3)]
  obtain t where t: "is_open cl u t" "shared (stores st ! t) = shared (stores st ! s)"
    using gave_up_used [OF assms(1-3)] assms(4) u(4) by (auto simp: holders_open)
  show "\<exists>t. is_open cl u t \<and> shared (stores u ! t) = b" if "fmlookup (reg_active u) nm = Some b" for nm b
  proof -
    from that have "fmlookup (reg_active st) nm = Some b" by (simp add: u(8))
    then obtain q where q: "is_open cl st q" "shared (stores st ! q) = b" using SharingD(4) [OF assms(1)] by blast
    show ?thesis
    proof (cases "q = s")
      case True
      then show ?thesis using t q(2) by (intro exI [of _ t]) (simp add: u(4))
    next
      case False
      then show ?thesis using q by (intro exI [of _ q]) (simp add: u(2,4))
    qed
  qed
  show "fmlookup (reg_active u) (store_name t u) = Some (shared (stores u ! t))" if "is_open cl u t" for t
    using SharingD(3) [OF assms(1), of t] that u(2,4) by (simp add: u(8,11))
qed (use gave_upD [OF assms(3)] SharingD(5) [OF assms(1)] in simp_all)

text \<open>The last store of a name unregisters it.\<close>

lemma gave_up_last:
  assumes "Sharing cl n st" and "is_open cl st s" and "gave_up cl n s st u" and "\<not> used_elsewhere cl st s"
  defines "u' \<equiv> u\<lparr>reg_active := fmdrop (store_name s st) (reg_active st), reg_wg := reg_wg st - 1\<rparr>"
  shows "tryUnregister (shared (stores st ! s)) u = (Inr True, u')" and "Sharing cl n (u'\<lparr>world := w\<rparr>)"
proof -
  let ?a = "shared (stores st ! s)" and ?nm = "store_name s st"
  note u = gave_upD [OF assms(3)]
  have R: "RInv st (closed_set cl st)" using assms(1) by (simp add: Sharing_def)
  have a: "?a < length (heap st)" using R assms(2) by (simp add: RInv_def is_open_def)
  have lookup: "fmlookup (reg_active st) ?nm = Some ?a" using SharingD(3) [OF assms(1,2)] .
  then have dom: "?nm |\<in>| fmdom (reg_active st)" by (rule fmdomI)
  have wg: "reg_wg st = int (fcard (fmdom (reg_active st)))" "0 < reg_wg st"
    using SharingD(5) [OF assms(1)] dom by (auto simp: card_gt_0_iff fcard.rep_eq)
  have "holders u (closed_set cl u) ?a = {}" using gave_up_used [OF assms(1-3)] assms(4) by auto
  then have rc: "refCount (heap u ! ?a) = 0" using u(1,5) a by (simp add: RInv_def)
  have name: "sname (heap u ! ?a) = ?nm" using u(6) by (simp add: store_name_def)
  show "tryUnregister ?a u = (Inr True, u')"
    using rc lookup wg(2) by (simp add: tryUnregister_def unregisterStore_def Let_def name u'_def u(8,9))
  let ?v = "u'\<lparr>world := w\<rparr>"
  have v: "heap ?v = heap u" "stores ?v = stores u" "reg_wg ?v = reg_wg st - 1" "reg_active ?v = fmdrop ?nm (reg_active st)"
    by (simp_all add: u'_def)
  have same: "is_open cl ?v t = is_open cl u t" "store_name t u' = store_name t st" "closed_set cl ?v = closed_set cl u" for t
    using u(11) by (simp_all add: is_open_def store_name_def closed_set_def v u'_def)
  show "Sharing cl n ?v"
  proof (rule SharingI)
    show "RInv ?v (closed_set cl ?v)"
      using u(1) unfolding same(3) by (auto simp: RInv_def holders_def v u(8))
    show "\<exists>t. is_open cl ?v t \<and> shared (stores ?v ! t) = b" if "fmlookup (reg_active ?v) nm = Some b" for nm b
    proof -
      have hyp: "fmlookup (reg_active st) nm = Some b" "nm \<noteq> ?nm" using that by (auto simp: v split: if_splits)
      obtain q where q: "is_open cl st q" "shared (stores st ! q) = b" using SharingD(4) [OF assms(1) hyp(1)] by blast
      moreover have "sname (heap st ! b) = nm" using R hyp(1) by (simp add: RInv_def)
      ultimately have "q \<noteq> s" using hyp(2) by (auto simp: store_name_def)
      then show ?thesis using q u(2,4) by (auto simp: same v)
    qed
    show "fmlookup (reg_active ?v) (store_name t ?v) = Some (shared (stores ?v ! t))" if "is_open cl ?v t" for t
    proof -
      have t: "is_open cl st t" "t \<noteq> s" using that u(2) by (simp_all add: same)
      then have "store_name t st \<noteq> ?nm" using assms(4) by (auto simp: used_elsewhere_def)
      then show ?thesis using SharingD(3) [OF assms(1) t(1)] by (simp add: same v u(4))
    qed
    show "reg_wg ?v = int (fcard (fmdom (reg_active ?v)))" using wg dom by (simp add: v fcard_fminus_fsingleton)
  qed (use u(3) in \<open>simp add: v\<close>)
qed

lemma Store_Close_effect:
  assumes "wait_group_spec W cl n" and "Sharing cl n st" and "is_open cl st s"
  shows "\<exists>err st'. Store_Close B W s st = Some (err, st') \<and> Sharing cl n st'
     \<and> (\<forall>t. is_open cl st' t \<longleftrightarrow> is_open cl st t \<and> t \<noteq> s)
     \<and> (if used_elsewhere cl st s then err = None \<and> world st' = world st \<and> reg_active st' = reg_active st
        else bClose B (store_backend s st) (world st) = (err, world st')
          \<and> reg_active st' = fmdrop (store_name s st) (reg_active st))"
proof -
  let ?a = "shared (stores st ! s)"
  obtain v k u where run: "Store_Close B W s st = Some (Release B ?a v)" "Dec ?a v = (k, u)"
    and gave: "gave_up cl n s st u" and k: "k = int (card (holders u (closed_set cl u) ?a))"
    using Store_Close_gives_up [OF assms] by blast
  note u = gave_upD [OF gave] and used = gave_up_used [OF assms(2,3) gave]
  show ?thesis
  proof (cases "used_elsewhere cl st s")
    case True
    then have "k \<noteq> 0" using k used by (auto dest: card_holders_pos)
    then have "Release B ?a v = (None, u)" using run(2) by (simp add: Release_def)
    then show ?thesis using run(1) True gave_up_shared [OF assms(2,3) gave True] u by simp
  next
    case False
    then have "holders u (closed_set cl u) ?a = {}" using used by auto
    then have k0: "k = 0" using k by simp
    note last = gave_up_last [OF assms(2,3) gave False]
    obtain err w where cls: "bClose B (store_backend s st) (world st) = (err, w)" by (metis prod.exhaust)
    let ?u = "u\<lparr>reg_active := fmdrop (store_name s st) (reg_active st), reg_wg := reg_wg st - 1\<rparr>"
    have "Release B ?a v = (err, ?u\<lparr>world := w\<rparr>)"
      using run(2) k0 last(1) cls u(7,10) by (simp add: Release_def close_backend_def store_backend_def)
    moreover have "is_open cl (?u\<lparr>world := w\<rparr>) t = is_open cl u t" for t by (simp add: is_open_def)
    ultimately show ?thesis using run(1) False last(2) [of w] cls u(2) by (intro exI [of _ err]) simp
  qed
qed

lemma Store_Each_closed:
  assumes "wait_group_spec W cl n" and "s < length (stores st)" and "cl (activeOps (stores st ! s))"
    and "Store_Each B W s fn u st = (r, st')"
  shows "r = (Some (ErrorClosed (store_name s st) ''store/each''), u) \<and> heap st' = heap st \<and> reg_active st' = reg_active st
     \<and> reg_wg st' = reg_wg st \<and> world st' = world st \<and> same_ops cl n st st'"
  by (rule active_call_closed [OF assms(1-3) assms(4) [unfolded Store_Each_def]])

lemma Store_Close_closed:
  assumes "wait_group_spec W cl n" and "s < length (stores st)" and "cl (activeOps (stores st ! s))"
  shows "\<exists>st'. Store_Close B W s st = Some (Some (ErrorClosed (store_name s st) ''store/close''), st')
     \<and> heap st' = heap st \<and> reg_active st' = reg_active st \<and> reg_wg st' = reg_wg st \<and> world st' = world st
     \<and> same_ops cl n st st'"
proof -
  obtain e g where a: "wg_Add W (activeOps (stores st ! s)) = (e, g)" by (metis prod.exhaust)
  then have "e \<noteq> None" "cl g" "n g = n (activeOps (stores st ! s))" using assms(1,3) by (auto simp: wait_group_spec_def)
  then show ?thesis using a assms(2,3) by (auto simp: Store_Close_def active_Add_def same_ops_def)
qed

section \<open>Programs\<close>

text \<open>A program calls \<open>Get\<close>, \<open>Close\<close> and the store operations one after the other, on stores it was given.\<close>

datatype 'v scall = SGet string | SClose nat | SCall nat "'v kcall"

fun srun ::
    "('h, 'v, 'u, 'w) backend \<Rightarrow> 'g wait_group \<Rightarrow> 'v scall list \<Rightarrow> ('h, 'g, 'w) sstate \<Rightarrow> ('h, 'g, 'w) sstate option" where
  "srun B W [] st = Some st"
| "srun B W (SGet name # cs) st = srun B W cs (snd (Registry_Get B W name st))"
| "srun B W (SClose s # cs) st =
     (if s < length (stores st) then
        (case Store_Close B W s st of None \<Rightarrow> None | Some (e, st1) \<Rightarrow> srun B W cs st1)
      else srun B W cs st)"
| "srun B W (SCall s c # cs) st =
     srun B W cs (if s < length (stores st) then snd (store_call B W s c st) else st)"

lemma store_call_Sharing:
  assumes "wait_group_spec W cl n" and "Sharing cl n st" and "s < length (stores st)"
  shows "Sharing cl n (snd (store_call B W s c st))"
proof -
  obtain r st' where c: "store_call B W s c st = (r, st')" by (metis prod.exhaust)
  show ?thesis
  proof (cases "cl (activeOps (stores st ! s))")
    case True
    then show ?thesis using Sharing_cong [OF _ _ _ _ assms(2)] store_call_closed [OF assms(1,3) True c] c by simp
  next
    case False
    show ?thesis using store_call_open [OF assms(1,3) False c] Sharing_cong [OF _ _ _ _ assms(2)] c by auto
  qed
qed

lemma Store_Close_Sharing:
  assumes "wait_group_spec W cl n" and "Sharing cl n st" and "s < length (stores st)"
  shows "\<exists>e st'. Store_Close B W s st = Some (e, st') \<and> Sharing cl n st'"
proof (cases "cl (activeOps (stores st ! s))")
  case True
  then show ?thesis using Store_Close_closed [OF assms(1,3) True] Sharing_cong [OF _ _ _ _ assms(2)] by metis
next
  case False
  then have "is_open cl st s" using assms(3) by (simp add: is_open_def)
  then show ?thesis using Store_Close_effect [OF assms(1,2)] by blast
qed

lemma srun_Sharing:
  assumes "wait_group_spec W cl n" and "Sharing cl n st"
  shows "\<exists>st'. srun B W cs st = Some st' \<and> Sharing cl n st'"
  using assms(2)
proof (induction cs arbitrary: st)
  case (Cons c cs)
  show ?case
  proof (cases c)
    case (SGet name)
    then show ?thesis
      using Cons.IH Registry_Get_Sharing [OF assms(1) Cons.prems] by (metis prod.collapse srun.simps(2))
  next
    case (SClose s)
    then show ?thesis
      using Cons.IH Cons.prems Store_Close_Sharing [OF assms(1) Cons.prems, of s B] by fastforce
  next
    case (SCall s d)
    then show ?thesis using Cons.IH Cons.prems store_call_Sharing [OF assms(1) Cons.prems, of s B d] by simp
  qed
qed simp

lemma Sharing_refCount:
  assumes "Sharing cl n st" and "is_open cl st s"
  shows "refCount (heap st ! shared (stores st ! s)) = int (card {t. is_open cl st t \<and> store_name t st = store_name s st})"
proof -
  let ?a = "shared (stores st ! s)"
  have "{t. is_open cl st t \<and> store_name t st = store_name s st} = holders st (closed_set cl st) ?a"
    using holders_open [of _ st cl ?a] same_name_iff [OF assms] by auto
  then show ?thesis using SharingD(1) [OF assms(1)] assms(2) by (simp add: RInv_def is_open_def)
qed

section \<open>Properties\<close>

text \<open>C12. Sharing.  However a program opens, uses and closes stores one call after the other, no call
  blocks; a name is registered exactly while a store of that name is open, all open stores of a
  name share one backend store, its reference count is their number, and \<open>Registry.Close\<close> blocks exactly
  while some store is open.\<close>

theorem registry_sharing:
  assumes "wait_group_spec W cl n"
  shows "\<exists>st. srun B W cs (NewRegistry w) = Some st
     \<and> (\<forall>name. (fmlookup (reg_active st) name \<noteq> None) = (\<exists>s. is_open cl st s \<and> store_name s st = name))
     \<and> (\<forall>s t. is_open cl st s \<and> is_open cl st t \<and> store_name s st = store_name t st
          \<longrightarrow> shared (stores st ! s) = shared (stores st ! t))
     \<and> (\<forall>s. is_open cl st s \<longrightarrow> refCount (heap st ! shared (stores st ! s))
          = int (card {t. is_open cl st t \<and> store_name t st = store_name s st}))
     \<and> (Registry_Close B st = None) = (\<exists>s. is_open cl st s)"
proof -
  obtain st where run: "srun B W cs (NewRegistry w) = Some st" and S: "Sharing cl n st"
    using srun_Sharing [OF assms Sharing_new, of B cs w] by blast
  have names: "(fmlookup (reg_active st) name \<noteq> None) = (\<exists>s. is_open cl st s \<and> store_name s st = name)" for name
  proof
    assume "fmlookup (reg_active st) name \<noteq> None"
    then obtain a where a: "fmlookup (reg_active st) name = Some a" by blast
    then have "sname (heap st ! a) = name" using SharingD(1) [OF S] by (simp add: RInv_def)
    then show "\<exists>s. is_open cl st s \<and> store_name s st = name"
      using SharingD(4) [OF S a] by (auto simp: store_name_def)
  qed (use SharingD(3) [OF S] in auto)
  have "reg_wg st \<noteq> 0 \<longleftrightarrow> fmdom (reg_active st) \<noteq> {||}" using SharingD(5) [OF S] by simp
  also have "\<dots> \<longleftrightarrow> (\<exists>name. fmlookup (reg_active st) name \<noteq> None)"
    by (metis all_not_fin_conv fmdom_notD fmdom_notI)
  also have "\<dots> \<longleftrightarrow> (\<exists>s. is_open cl st s)" using names by blast
  finally have block: "(Registry_Close B st = None) = (\<exists>s. is_open cl st s)"
    by (auto simp: Registry_Close_def split: prod.splits)
  have sh: "shared (stores st ! s) = shared (stores st ! t)"
    if "is_open cl st s" "is_open cl st t" "store_name s st = store_name t st" for s t
    using same_name_iff [OF S that(2,1)] that(3) by simp
  show ?thesis
    by (intro exI [of _ st] conjI allI impI, rule run, rule names, elim conjE, erule (2) sh, erule Sharing_refCount [OF S], rule block)
qed

definition plain_wait_group :: "(bool \<times> nat) wait_group" where
  "plain_wait_group =
     \<lparr>wg_new = (False, 0),
      wg_Add = (\<lambda>(c, k). if c then (Some (ErrNew ''group is closed''), (c, k)) else (None, (c, k + 1))),
      wg_Done = (\<lambda>(c, k). (c, k - 1)), wg_Close = (\<lambda>(c, k). (True, k)), wg_idle = (\<lambda>(c, k). k = 0)\<rparr>"

lemma plain_wait_group_spec: "wait_group_spec plain_wait_group fst snd"
  by (auto simp: wait_group_spec_def plain_wait_group_def split: if_splits)

lemmas sample_eval = nat_backend_def storetest_backend_def plain_wait_group_def NewRegistry_def Registry_Get_def
  MemoryStore_Access_def MemoryStore_init_def newSharedStore_def newStore_def Retain_def Dec_def set_count_def Let_def
  store_call_def Store_Set_def active_call_def active_Add_def active_Done_def set_active_def store_name_def
  store_backend_def deref_def MapStore_Set_def MapStore_init_def MapStore_Close_def MapStore_Reopen_def Store_Close_def
  active_Close_def Release_def tryUnregister_def unregisterStore_def close_backend_def is_open_def

definition sample_program :: "nat scall list" where
  "sample_program = [SGet ''a'', SGet ''a'', SCall 0 (KSet ''k'' 1), SClose 0]"

theorem registry_sharing_witness:
  "\<exists>st. srun nat_backend plain_wait_group sample_program (NewRegistry None) = Some st
     \<and> is_open fst st 1 \<and> refCount (heap st ! shared (stores st ! 1)) = 1
     \<and> (Registry_Close nat_backend st = None)"
proof -
  obtain st where run: "srun nat_backend plain_wait_group sample_program (NewRegistry None) = Some st"
    and c: "(Registry_Close nat_backend st = None) = (\<exists>s. is_open fst st s)"
    using registry_sharing [OF plain_wait_group_spec, of nat_backend sample_program None]
    by (elim exE conjE) (rule that)
  have "the (srun nat_backend plain_wait_group sample_program (NewRegistry None)) = st" using run by simp
  then have "is_open fst st 1 \<and> refCount (heap st ! shared (stores st ! 1)) = 1"
    by (auto simp: sample_program_def sample_eval)
  then show ?thesis using run c by blast
qed

text \<open>C13. The last close.  In every program whose calls do not overlap, closing an open store returns; the
  backend store is closed, and its name unregistered, exactly when no other open store has that name, and
  \<open>Close\<close> then reports the backend's error.  Otherwise the backend is not touched.\<close>

theorem last_close_closes_backend:
  assumes "wait_group_spec W cl n" and "srun B W cs (NewRegistry w) = Some st" and "is_open cl st s"
  shows "\<exists>err st'. Store_Close B W s st = Some (err, st') \<and> (\<forall>t. is_open cl st' t \<longleftrightarrow> is_open cl st t \<and> t \<noteq> s)
     \<and> (if \<exists>t. t \<noteq> s \<and> is_open cl st t \<and> store_name t st = store_name s st
        then err = None \<and> world st' = world st \<and> reg_active st' = reg_active st
        else bClose B (store_backend s st) (world st) = (err, world st')
          \<and> reg_active st' = fmdrop (store_name s st) (reg_active st))"
proof -
  have "Sharing cl n st" using srun_Sharing [OF assms(1) Sharing_new, of B cs w] assms(2) by auto
  from Store_Close_effect [OF assms(1) this assms(3)] show ?thesis unfolding used_elsewhere_def by blast
qed

theorem last_close_closes_backend_witness:
  "\<exists>st err st'. srun nat_backend plain_wait_group sample_program (NewRegistry None) = Some st
     \<and> Store_Close nat_backend plain_wait_group 1 st = Some (err, st') \<and> err = None \<and> \<not> mem_opened ''a'' (world st')"
proof -
  obtain st where run: "srun nat_backend plain_wait_group sample_program (NewRegistry None) = Some st"
    using srun_Sharing [OF plain_wait_group_spec Sharing_new, of nat_backend sample_program None] by blast
  then have st: "st = the (srun nat_backend plain_wait_group sample_program (NewRegistry None))" by simp
  have o: "is_open fst st s \<longleftrightarrow> s = 1" for s
    unfolding st by (auto simp: sample_program_def sample_eval nth_Cons')
  have h: "store_backend 1 st = ''a''" "mem_opened ''a'' (world st)"
    unfolding st by (simp_all add: sample_program_def sample_eval mem_opened_def)
  obtain err st' where c: "Store_Close nat_backend plain_wait_group 1 st = Some (err, st')"
    and e: "bClose nat_backend ''a'' (world st) = (err, world st')"
    using last_close_closes_backend [OF plain_wait_group_spec run, of 1] h(1)
    by (auto simp: o simp del: One_nat_def)
  have "err = None \<and> \<not> mem_opened ''a'' (world st')"
    using e h(2) by (auto simp: nat_backend_def storetest_backend_def deref_def MapStore_Close_def mem_opened_def dest!: sym [of _ "world st'"]
        split: option.splits)
  then show ?thesis using run c by blast
qed

text \<open>The error inside an answer.\<close>

fun answer_error :: "'v kres \<Rightarrow> error option" where
  "answer_error (RHas (Inl e)) = Some e"
| "answer_error (RGet (Inl e)) = Some e"
| "answer_error (RErr e) = e"
| "answer_error _ = None"

lemma closed_error_IsClosed: "\<exists>e. answer_error (closed_error name c) = Some e \<and> IsClosed e \<and> Error_Store e = Some name"
  by (cases c) (simp_all add: IsClosed_def errors_As.simps)

text \<open>C16. A closed store.  Every operation of a store that was closed, \<open>Has\<close>, \<open>Get\<close>, \<open>Set\<close>, \<open>Remove\<close>, \<open>Each\<close> and a second
  \<open>Close\<close>, returns an \<open>ErrorClosed\<close> that names the store and the operation (\<open>Set\<close> names
  \<open>store/get\<close>), \<open>Each\<close> without having called its function.  \<open>IsClosed\<close>
  recognises each of these errors, also inside another error, and none of the calls changes the backends, the
  registry or the shared stores.\<close>

theorem closed_store_refuses:
  assumes "wait_group_spec W cl n" and "s < length (stores st)" and "cl (activeOps (stores st ! s))"
    and "store_call B W s c st = (r, st1)" and "Store_Each B W s fn u st = ((eacherr, u'), st2)"
    and "Store_Close B W s st = Some (closeerr, st3)"
  shows "r = closed_error (store_name s st) c \<and> u' = u
     \<and> eacherr = Some (ErrorClosed (store_name s st) ''store/each'')
     \<and> closeerr = Some (ErrorClosed (store_name s st) ''store/close'')
     \<and> list_all (\<lambda>err. \<exists>e. err = Some e \<and> IsClosed e \<and> IsClosed (ErrorAccess name e) \<and> IsClosed (ErrWrap msg e)
          \<and> Error_Store e = Some (store_name s st)) [answer_error r, eacherr, closeerr]
     \<and> list_all (\<lambda>st'. world st' = world st \<and> reg_active st' = reg_active st \<and> reg_wg st' = reg_wg st \<and> heap st' = heap st)
          [st1, st2, st3]"
proof -
  have r: "r = closed_error (store_name s st) c" using store_call_closed [OF assms(1-4)] by blast
  obtain e where e: "answer_error r = Some e" "IsClosed e" "Error_Store e = Some (store_name s st)"
    using closed_error_IsClosed [of "store_name s st" c] r by blast
  have inside: "IsClosed (ErrorAccess name e) \<and> IsClosed (ErrWrap msg e)" if "IsClosed e" for e
    using that by (simp add: IsClosed_def errors_As.simps)
  have "IsClosed (ErrorClosed nm operation)" for nm operation by (simp add: IsClosed_def errors_As.simps)
  then show ?thesis
    using store_call_closed [OF assms(1-4)] Store_Each_closed [OF assms(1-3,5)] Store_Close_closed [OF assms(1-3), of B]
      assms(6) e inside by auto
qed

theorem closed_store_refuses_witness:
  "\<exists>st r st1 eacherr u' st2 closeerr st3. srun nat_backend plain_wait_group sample_program (NewRegistry None) = Some st
     \<and> store_call nat_backend plain_wait_group 0 (KGet ''k'') st = (r, st1)
     \<and> r = RGet (Inl (ErrorClosed ''a'' ''store/get''))
     \<and> Store_Each nat_backend plain_wait_group 0 (\<lambda>k v u. ((True, None), u)) () st = ((eacherr, u'), st2)
     \<and> eacherr = Some (ErrorClosed ''a'' ''store/each'')
     \<and> Store_Close nat_backend plain_wait_group 0 st = Some (closeerr, st3) \<and> IsClosed (the closeerr)"
proof -
  let ?fn = "\<lambda>k v u. ((True, None), u) :: (bool \<times> error option) \<times> unit"
  obtain st where run: "srun nat_backend plain_wait_group sample_program (NewRegistry None) = Some st"
    and S: "Sharing fst snd st"
    using srun_Sharing [OF plain_wait_group_spec Sharing_new, of nat_backend sample_program None] by blast
  then have st: "st = the (srun nat_backend plain_wait_group sample_program (NewRegistry None))" by simp
  have o: "0 < length (stores st)" "fst (activeOps (stores st ! 0))" "store_name 0 st = ''a''"
    unfolding st by (auto simp: sample_program_def sample_eval nth_Cons')
  obtain r st1 where c: "store_call nat_backend plain_wait_group 0 (KGet ''k'') st = (r, st1)" by (metis prod.exhaust)
  obtain eacherr u' st2 where e: "Store_Each nat_backend plain_wait_group 0 ?fn () st = ((eacherr, u'), st2)"
    by (metis prod.exhaust)
  obtain closeerr st3 where d: "Store_Close nat_backend plain_wait_group 0 st = Some (closeerr, st3)"
    using Store_Close_Sharing [OF plain_wait_group_spec S o(1)] by blast
  note q = closed_store_refuses [OF plain_wait_group_spec o(1,2) c e d, of "''a''" "''b''", unfolded o(3) list.pred_inject]
  have "r = RGet (Inl (ErrorClosed ''a'' ''store/get''))" "eacherr = Some (ErrorClosed ''a'' ''store/each'')"
    "IsClosed (the closeerr)"
    using q by auto
  then show ?thesis using run c d e by blast
qed

end
