(* ===== verification/Statestore_Race.thy ===== *)
theory Statestore_Race
  imports Statestore_Sharing
begin

text \<open>
  Goroutines on a shared registry.  The operations of \<open>store.go\<close> are cut at the points where another
  goroutine may run: the calls of the wait group, the backend call, the atomic decrement of the
  reference count, the critical section of \<open>tryUnregister\<close>, the close of the backend.  The state of each
  goroutine inside an operation is an element of a multiset; \<open>Registry.Get\<close> holds the lock
  throughout and is one step.
\<close>

section \<open>The system\<close>

datatype pc =
    Running nat         \<comment> \<open>an operation of the store, \<open>active.Add\<close> done\<close>
  | Finished nat        \<comment> \<open>its backend call returned\<close>
  | CloseAdded nat      \<comment> \<open>\<open>Close\<close>, \<open>active.Add\<close> done\<close>
  | WaitActive nat      \<comment> \<open>\<open>Close\<close>, at \<open>active.Wait\<close>\<close>
  | Releasing nat       \<comment> \<open>\<open>Close\<close>, at the decrement in \<open>Release\<close>\<close>
  | Unregistering nat   \<comment> \<open>\<open>Release\<close> of a shared store, before the lock of \<open>tryUnregister\<close>\<close>
  | ClosingBackend nat  \<comment> \<open>\<open>Release\<close>, at \<open>backend.Close\<close>\<close>
  | Panicked

text \<open>
  Two history variables: the stores that gave up their reference, and the shared stores whose
  \<open>backend.Close\<close> was called, in order.
\<close>

record ('h, 'g, 'w) system =
  sst :: "('h, 'g, 'w) sstate"
  pool :: "pc multiset"
  released :: "nat set"
  bclosed :: "nat list"

definition sys_init :: "'w \<Rightarrow> ('h, 'g, 'w) system" where
  "sys_init w = \<lparr>sst = NewRegistry w, pool = {#}, released = {}, bclosed = []\<rparr>"

datatype ('v, 'u) act =
    AGet string
  | AOp nat
  | ACall nat "'v kcall"
  | AEach nat "('v, 'u) each_fn" 'u
  | ADone nat
  | AClose nat
  | AMark nat
  | AWait nat
  | ADec nat
  | AUnregister nat
  | ABackendClose nat

text \<open>A goroutine goes from one state to the next; \<open>None\<close> leaves the operation.\<close>

definition move :: "pc \<Rightarrow> pc option \<Rightarrow> pc multiset \<Rightarrow> pc multiset" where
  "move p q M = (M - {#p#}) + (case q of None \<Rightarrow> {#} | Some q \<Rightarrow> {#q#})"

text \<open>
  One step of some goroutine, \<open>None\<close> where it is not enabled.  \<open>active.Close\<close> and the \<open>Done\<close> after it are
  one step: no operation can start in between.  Two \<open>Close\<close> calls of the same store do not overlap:
  the source asks each goroutine to open a store of its own.
\<close>

fun sys_step ::
    "('h, 'v, 'u, 'w) backend \<Rightarrow> 'g wait_group \<Rightarrow> ('v, 'u) act \<Rightarrow> ('h, 'g, 'w) system \<Rightarrow> ('h, 'g, 'w) system option" where
  "sys_step B W (AGet name) c = Some (c\<lparr>sst := snd (Registry_Get B W name (sst c))\<rparr>)"
| "sys_step B W (AOp s) c =
     (if s < length (stores (sst c)) then
        (case active_Add W s (sst c) of
           (Some e, st') \<Rightarrow> Some (c\<lparr>sst := st'\<rparr>)
         | (None, st') \<Rightarrow> Some (c\<lparr>sst := st', pool := add_mset (Running s) (pool c)\<rparr>))
      else None)"
| "sys_step B W (ACall s k) c =
     (if Running s \<in># pool c then
        Some (c\<lparr>sst := (sst c)\<lparr>world := snd (kv_call B (store_backend s (sst c)) k (world (sst c)))\<rparr>,
                pool := move (Running s) (Some (Finished s)) (pool c)\<rparr>)
      else None)"
| "sys_step B W (AEach s fn u) c =
     (if Running s \<in># pool c then
        Some (c\<lparr>sst := (sst c)\<lparr>world := snd (bEach B (store_backend s (sst c)) fn u (world (sst c)))\<rparr>,
                pool := move (Running s) (Some (Finished s)) (pool c)\<rparr>)
      else None)"
| "sys_step B W (ADone s) c =
     (if Finished s \<in># pool c then
        Some (c\<lparr>sst := active_Done W s (sst c), pool := move (Finished s) None (pool c)\<rparr>)
      else None)"
| "sys_step B W (AClose s) c =
     (if s < length (stores (sst c)) \<and> CloseAdded s \<notin># pool c then
        (case active_Add W s (sst c) of
           (Some e, st') \<Rightarrow> Some (c\<lparr>sst := st'\<rparr>)
         | (None, st') \<Rightarrow> Some (c\<lparr>sst := st', pool := add_mset (CloseAdded s) (pool c)\<rparr>))
      else None)"
| "sys_step B W (AMark s) c =
     (if CloseAdded s \<in># pool c then
        Some (c\<lparr>sst := active_Done W s (active_Close W s (sst c)),
                pool := move (CloseAdded s) (Some (WaitActive s)) (pool c)\<rparr>)
      else None)"
| "sys_step B W (AWait s) c =
     (if WaitActive s \<in># pool c \<and> wg_idle W (activeOps (stores (sst c) ! s)) then
        Some (c\<lparr>pool := move (WaitActive s) (Some (Releasing s)) (pool c)\<rparr>)
      else None)"
| "sys_step B W (ADec s) c =
     (if Releasing s \<in># pool c then
        (case Dec (shared (stores (sst c) ! s)) (sst c) of
           (k, st') \<Rightarrow>
             Some (c\<lparr>sst := st', released := insert s (released c),
                pool := move (Releasing s)
                  (if k = 0 then Some (Unregistering (shared (stores (sst c) ! s))) else None) (pool c)\<rparr>))
      else None)"
| "sys_step B W (AUnregister a) c =
     (if Unregistering a \<in># pool c then
        (case tryUnregister a (sst c) of
           (r, st') \<Rightarrow>
             Some (c\<lparr>sst := st', pool := move (Unregistering a)
                (case r of Inl p \<Rightarrow> Some Panicked
                 | Inr b \<Rightarrow> if b then Some (ClosingBackend a) else None) (pool c)\<rparr>))
      else None)"
| "sys_step B W (ABackendClose a) c =
     (if ClosingBackend a \<in># pool c then
        Some (c\<lparr>sst := snd (close_backend B a (sst c)), bclosed := bclosed c @ [a],
                pool := move (ClosingBackend a) None (pool c)\<rparr>)
      else None)"

inductive reachable ::
    "('h, 'v, 'u, 'w) backend \<Rightarrow> 'g wait_group \<Rightarrow> 'w \<Rightarrow> ('h, 'g, 'w) system \<Rightarrow> bool" for B W w where
  reach_init: "reachable B W w (sys_init w)"
| reach_step: "reachable B W w c \<Longrightarrow> sys_step B W a c = Some c' \<Longrightarrow> reachable B W w c'"

fun sys_run ::
    "('h, 'v, 'u, 'w) backend \<Rightarrow> 'g wait_group \<Rightarrow> ('v, 'u) act list \<Rightarrow> ('h, 'g, 'w) system \<Rightarrow> ('h, 'g, 'w) system option" where
  "sys_run B W [] c = Some c"
| "sys_run B W (a # as) c = (case sys_step B W a c of None \<Rightarrow> None | Some c' \<Rightarrow> sys_run B W as c')"

lemma reachable_run:
  "reachable B W w c \<Longrightarrow> sys_run B W as c = Some c' \<Longrightarrow> reachable B W w c'"
  by (induction as arbitrary: c) (auto split: option.splits intro: reach_step)

section \<open>The invariant\<close>

definition busy :: "pc multiset \<Rightarrow> nat \<Rightarrow> nat" where
  "busy M s = count M (Running s) + count M (Finished s) + count M (CloseAdded s)"

definition closing :: "pc multiset \<Rightarrow> nat \<Rightarrow> nat" where
  "closing M s = count M (WaitActive s) + count M (Releasing s)"

text \<open>What the goroutines inside a store know about its wait group.\<close>

definition store_ok :: "('g \<Rightarrow> bool) \<Rightarrow> ('g \<Rightarrow> nat) \<Rightarrow> 'g \<Rightarrow> pc multiset \<Rightarrow> nat set \<Rightarrow> nat \<Rightarrow> bool" where
  "store_ok cl n g M rel s \<longleftrightarrow> n g = busy M s
     \<and> (cl g \<longrightarrow> count M (CloseAdded s) = 0 \<and> closing M s = (if s \<in> rel then 0 else 1))
     \<and> (\<not> cl g \<longrightarrow> count M (CloseAdded s) \<le> 1 \<and> closing M s = 0 \<and> s \<notin> rel)
     \<and> (Releasing s \<in># M \<or> s \<in> rel \<longrightarrow> n g = 0)"

text \<open>No store holds a shared store that is being closed, and no later \<open>Get\<close> can find it.\<close>

definition backend_ok :: "('h, 'g, 'w) system \<Rightarrow> nat \<Rightarrow> bool" where
  "backend_ok c a \<longleftrightarrow> (ClosingBackend a \<in># pool c \<or> a \<in> set (bclosed c) \<longrightarrow>
     a < length (heap (sst c)) \<and> refCount (heap (sst c) ! a) = 0
     \<and> fmlookup (reg_active (sst c)) (sname (heap (sst c) ! a)) \<noteq> Some a)"

definition in_range :: "('h, 'g, 'w) system \<Rightarrow> bool" where
  "in_range c \<longleftrightarrow> (\<forall>p \<in># pool c. case p of
      Running s \<Rightarrow> s < length (stores (sst c)) | Finished s \<Rightarrow> s < length (stores (sst c))
    | CloseAdded s \<Rightarrow> s < length (stores (sst c)) | WaitActive s \<Rightarrow> s < length (stores (sst c))
    | Releasing s \<Rightarrow> s < length (stores (sst c)) | Unregistering a \<Rightarrow> a < length (heap (sst c))
    | ClosingBackend a \<Rightarrow> a < length (heap (sst c)) | Panicked \<Rightarrow> True)"

definition SysInv :: "('g \<Rightarrow> bool) \<Rightarrow> ('g \<Rightarrow> nat) \<Rightarrow> ('h, 'g, 'w) system \<Rightarrow> bool" where
  "SysInv cl n c \<longleftrightarrow> RInv (sst c) (released c) \<and> in_range c
     \<and> (\<forall>s < length (stores (sst c)). store_ok cl n (activeOps (stores (sst c) ! s)) (pool c) (released c) s)
     \<and> (\<forall>a. backend_ok c a)"

lemma SysInv_init: "SysInv cl n (sys_init w)"
  by (simp add: SysInv_def sys_init_def RInv_new in_range_def backend_ok_def) (simp add: NewRegistry_def)

section \<open>Preservation\<close>

definition pcs_of :: "nat \<Rightarrow> pc set" where
  "pcs_of s = {Running s, Finished s, CloseAdded s, WaitActive s, Releasing s}"

lemma count_move [simp]:
  "p \<in># M \<Longrightarrow> count (move p q M) x = (if x = p then count M x - 1 else count M x) + (if q = Some x then 1 else 0)"
  by (auto simp: move_def split: option.splits)

lemma SysInvD:
  assumes "SysInv cl n c"
  shows "RInv (sst c) (released c)" and "in_range c" and "backend_ok c a"
    and "s < length (stores (sst c)) \<Longrightarrow> store_ok cl n (activeOps (stores (sst c) ! s)) (pool c) (released c) s"
  using assms by (simp_all add: SysInv_def)

text \<open>A step that concerns a single store.\<close>

lemma SysInv_store_step:
  assumes "SysInv cl n c" and "s < length (stores (sst c))"
    and "heap (sst c') = heap (sst c)" and "reg_active (sst c') = reg_active (sst c)"
    and "length (stores (sst c')) = length (stores (sst c))"
    and "\<And>t. shared (stores (sst c') ! t) = shared (stores (sst c) ! t)"
    and "\<And>t. t \<noteq> s \<Longrightarrow> activeOps (stores (sst c') ! t) = activeOps (stores (sst c) ! t)"
    and "released c' = released c" and "bclosed c' = bclosed c"
    and "\<And>p. p \<notin> pcs_of s \<Longrightarrow> count (pool c') p = count (pool c) p"
    and "store_ok cl n (activeOps (stores (sst c') ! s)) (pool c') (released c) s"
  shows "SysInv cl n c'"
proof -
  have mem: "p \<in># pool c' \<longleftrightarrow> p \<in># pool c" if "p \<notin> pcs_of s" for p
    using assms(10) [OF that] by (metis count_eq_zero_iff)
  have "in_range c'"
    unfolding in_range_def
  proof
    fix p
    assume "p \<in># pool c'"
    then show "case p of Running s \<Rightarrow> s < length (stores (sst c')) | Finished s \<Rightarrow> s < length (stores (sst c'))
      | CloseAdded s \<Rightarrow> s < length (stores (sst c')) | WaitActive s \<Rightarrow> s < length (stores (sst c'))
      | Releasing s \<Rightarrow> s < length (stores (sst c')) | Unregistering a \<Rightarrow> a < length (heap (sst c'))
      | ClosingBackend a \<Rightarrow> a < length (heap (sst c')) | Panicked \<Rightarrow> True"
      using SysInvD(2) [OF assms(1)] mem [of p] assms(2,3,5)
      by (cases "p \<in> pcs_of s") (auto simp: pcs_of_def in_range_def split: pc.splits)
  qed
  moreover have "backend_ok c' a" for a
    using SysInvD(3) [OF assms(1), of a] mem [of "ClosingBackend a"] assms(3,4,9)
    by (simp add: backend_ok_def pcs_of_def)
  moreover have "store_ok cl n (activeOps (stores (sst c') ! t)) (pool c') (released c') t"
    if "t < length (stores (sst c'))" for t
  proof (cases "t = s")
    case False
    then have "count (pool c') p = count (pool c) p" if "p \<in> pcs_of t" for p
      using that by (intro assms(10)) (auto simp: pcs_of_def)
    then show ?thesis
      using SysInvD(4) [OF assms(1), of t] that False assms(5,7,8) mem [of "Releasing t"]
      by (auto simp: store_ok_def busy_def closing_def pcs_of_def)
  qed (use assms(8,11) in simp)
  moreover have "RInv (sst c') (released c')"
    using SysInvD(1) [OF assms(1)] assms(3-6,8) by (simp add: RInv_def holders_def)
  ultimately show ?thesis by (simp add: SysInv_def)
qed

lemma wait_group_Add:
  assumes "wait_group_spec W cl n" and "active_Add W s st = (e, st')" and "s < length (stores st)"
  obtains g where "st' = set_active s g st" and "cl g = cl (activeOps (stores st ! s))"
    and "(e = None) = (\<not> cl (activeOps (stores st ! s)))"
    and "n g = (if cl g then n (activeOps (stores st ! s)) else n (activeOps (stores st ! s)) + 1)"
  using assms by (auto simp: wait_group_spec_def active_Add_def split: prod.splits)

lemma store_ok_begin:
  assumes "store_ok cl n g0 M rel s" and "cl g = cl g0" and "n g = (if cl g then n g0 else n g0 + 1)"
    and "p = Running s \<or> p = CloseAdded s \<and> count M p = 0"
  shows "store_ok cl n g (if cl g then M else add_mset p M) rel s"
proof (cases "cl g")
  case False
  then have "count M (Releasing s) = 0" "s \<notin> rel" using assms(1,2) by (simp_all add: store_ok_def closing_def)
  then show ?thesis
    using assms False by (auto simp: store_ok_def busy_def closing_def not_in_iff)
qed (use assms in \<open>auto simp: store_ok_def\<close>)

lemma sys_step_begin:
  assumes "wait_group_spec W cl n" and "SysInv cl n c" and "s < length (stores (sst c))"
    and "p = Running s \<or> p = CloseAdded s \<and> count (pool c) p = 0"
    and "c' = (case active_Add W s (sst c) of
         (Some e, st') \<Rightarrow> c\<lparr>sst := st'\<rparr> | (None, st') \<Rightarrow> c\<lparr>sst := st', pool := add_mset p (pool c)\<rparr>)"
  shows "SysInv cl n c'"
proof -
  obtain e st' where a: "active_Add W s (sst c) = (e, st')" by (metis prod.exhaust)
  obtain g where g: "st' = set_active s g (sst c)" "cl g = cl (activeOps (stores (sst c) ! s))"
    "(e = None) = (\<not> cl (activeOps (stores (sst c) ! s)))"
    "n g = (if cl g then n (activeOps (stores (sst c) ! s)) else n (activeOps (stores (sst c) ! s)) + 1)"
    by (rule wait_group_Add [OF assms(1) a assms(3)])
  have c': "c' = c\<lparr>sst := set_active s g (sst c), pool := if cl g then pool c else add_mset p (pool c)\<rparr>"
    using a g(1-3) by (cases e) (simp_all add: assms(5))
  show ?thesis
    using store_ok_begin [OF SysInvD(4) [OF assms(2,3)] g(2,4) assms(4)] assms(3,4)
    by (intro SysInv_store_step [OF assms(2,3)]) (auto simp: c' pcs_of_def)
qed

lemma sys_step_AOp:
  assumes "wait_group_spec W cl n" and "SysInv cl n c" and "sys_step B W (AOp s) c = Some c'"
  shows "SysInv cl n c'"
  using assms(3) by (intro sys_step_begin [OF assms(1,2), of s "Running s"]) (auto split: if_splits prod.splits option.splits)

lemma sys_step_AClose:
  assumes "wait_group_spec W cl n" and "SysInv cl n c" and "sys_step B W (AClose s) c = Some c'"
  shows "SysInv cl n c'"
  using assms(3)
  by (intro sys_step_begin [OF assms(1,2), of s "CloseAdded s"]) (auto simp: not_in_iff split: if_splits prod.splits option.splits)

lemma in_range_store:
  "in_range c \<Longrightarrow> p \<in># pool c \<Longrightarrow> p \<in> pcs_of s \<Longrightarrow> s < length (stores (sst c))"
  unfolding in_range_def pcs_of_def by fastforce

text \<open>A store with an operation running has not been released.\<close>

lemma store_ok_running:
  assumes "store_ok cl n g M rel s" and "p \<in># M" and "p \<in> {Running s, Finished s, CloseAdded s}"
  shows "0 < n g" and "Releasing s \<notin># M" and "s \<notin> rel"
proof -
  have "0 < count M p" using assms(2) by (simp add: count_greater_zero_iff)
  then have "0 < busy M s" using assms(3) by (auto simp: busy_def)
  then show "0 < n g" "Releasing s \<notin># M" "s \<notin> rel" using assms(1) by (auto simp: store_ok_def)
qed

lemma store_ok_move:
  assumes "store_ok cl n g M rel s" and "p \<in># M"
    and "(p, q) = (Running s, Some (Finished s)) \<and> g' = g
       \<or> (p, q) = (Finished s, None) \<and> cl g' = cl g \<and> n g' = n g - 1
       \<or> (p, q) = (CloseAdded s, Some (WaitActive s)) \<and> cl g' \<and> n g' = n g - 1
       \<or> (p, q) = (WaitActive s, Some (Releasing s)) \<and> g' = g \<and> n g = 0"
  shows "store_ok cl n g' (move p q M) rel s"
proof -
  have pos: "0 < count M p" using assms(2) by (simp add: count_greater_zero_iff)
  consider "p = Running s" | "p = Finished s" | "p = CloseAdded s" | "p = WaitActive s" using assms(3) by auto
  then show ?thesis
  proof cases
    case 1
    then show ?thesis using assms pos store_ok_running [OF assms(1,2)]
      by (simp add: store_ok_def busy_def closing_def count_greater_zero_iff [symmetric] del: count_greater_zero_iff)
  next
    case 2
    then show ?thesis using assms pos store_ok_running [OF assms(1,2)]
      by (simp add: store_ok_def busy_def closing_def count_greater_zero_iff [symmetric] del: count_greater_zero_iff)
  next
    case 3
    have "cl g \<longrightarrow> count M (CloseAdded s) = 0" using assms(1) by (simp add: store_ok_def)
    then have "\<not> cl g" using pos 3 by (metis less_irrefl)
    moreover from this have "count M (CloseAdded s) \<le> 1" using assms(1) by (simp add: store_ok_def)
    then have "count M (CloseAdded s) = 1" using pos by (simp add: 3 le_antisym Suc_leI del: count_greater_zero_iff)
    ultimately show ?thesis using 3 assms pos store_ok_running [OF assms(1,2)]
      by (simp add: store_ok_def busy_def closing_def count_greater_zero_iff [symmetric] del: count_greater_zero_iff)
  next
    case 4
    have "\<not> cl g \<longrightarrow> closing M s = 0" using assms(1) by (simp add: store_ok_def)
    moreover have "closing M s \<noteq> 0" using pos 4 unfolding closing_def by (metis add_is_0 less_irrefl)
    ultimately have "cl g" by blast
    then show ?thesis using 4 assms pos
      by (auto simp: store_ok_def busy_def closing_def count_greater_zero_iff [symmetric] simp del: count_greater_zero_iff)
  qed
qed

lemma wait_group_simps:
  assumes "wait_group_spec W cl n"
  shows "cl (wg_Done W g) = cl g" and "0 < n g \<Longrightarrow> n (wg_Done W g) = n g - 1"
    and "cl (wg_Close W g)" and "n (wg_Close W g) = n g" and "wg_idle W g = (n g = 0)"
  using assms by (simp_all add: wait_group_spec_def)

lemma sys_step_move:
  assumes "SysInv cl n c" and "p \<in># pool c" and "p \<in> {Running s, Finished s, CloseAdded s, WaitActive s}"
    and "heap (sst c') = heap (sst c)" and "reg_active (sst c') = reg_active (sst c)"
    and "stores (sst c') = stores (set_active s g' (sst c))"
    and "released c' = released c" and "bclosed c' = bclosed c" and "pool c' = move p q (pool c)"
    and "g = activeOps (stores (sst c) ! s)"
    and "(p, q) = (Running s, Some (Finished s)) \<and> g' = g
       \<or> (p, q) = (Finished s, None) \<and> cl g' = cl g \<and> n g' = n g - 1
       \<or> (p, q) = (CloseAdded s, Some (WaitActive s)) \<and> cl g' \<and> n g' = n g - 1
       \<or> (p, q) = (WaitActive s, Some (Releasing s)) \<and> g' = g \<and> n g = 0"
  shows "SysInv cl n c'"
proof -
  have s: "s < length (stores (sst c))"
    using in_range_store [OF SysInvD(2) [OF assms(1)] assms(2)] assms(3) by (auto simp: pcs_of_def)
  note ok = SysInvD(4) [OF assms(1) s, folded assms(10)]
  have q: "q = None \<or> (\<exists>q'. q = Some q' \<and> q' \<in> pcs_of s)" and p: "p \<in> pcs_of s"
    using assms(11) by (auto simp: pcs_of_def)
  show ?thesis
    using store_ok_move [OF ok assms(2,11)] s q p assms(2)
    by (intro SysInv_store_step [OF assms(1) s]) (auto simp: assms(4-9))
qed

lemma set_active_same: "stores (set_active s (activeOps (stores st ! s)) st) = stores st"
  by (simp add: set_active_def)

lemma sys_step_ACall:
  assumes "SysInv cl n c" and "sys_step B W (ACall s k) c = Some c' \<or> sys_step B W (AEach s fn u) c = Some c'"
  shows "SysInv cl n c'"
  using assms(2)
  by (intro sys_step_move [OF assms(1), of "Running s" s c' "activeOps (stores (sst c) ! s)"])
    (auto simp: set_active_same split: if_splits)

lemma sys_step_ADone:
  assumes "wait_group_spec W cl n" and "SysInv cl n c" and "sys_step B W (ADone s) c = Some c'"
  shows "SysInv cl n c'"
proof -
  have p: "Finished s \<in># pool c"
    and c': "c' = c\<lparr>sst := active_Done W s (sst c), pool := move (Finished s) None (pool c)\<rparr>"
    using assms(3) by (auto split: if_splits)
  have s: "s < length (stores (sst c))"
    using in_range_store [OF SysInvD(2) [OF assms(2)] p] by (auto simp: pcs_of_def)
  have "0 < n (activeOps (stores (sst c) ! s))"
    using store_ok_running(1) [OF SysInvD(4) [OF assms(2) s] p] by simp
  then show ?thesis
    using p by (intro sys_step_move [OF assms(2) p, of s]) (auto simp: c' active_Done_def wait_group_simps [OF assms(1)])
qed

lemma sys_step_AMark:
  assumes "wait_group_spec W cl n" and "SysInv cl n c" and "sys_step B W (AMark s) c = Some c'"
  shows "SysInv cl n c'"
proof -
  let ?g = "activeOps (stores (sst c) ! s)"
  have p: "CloseAdded s \<in># pool c"
    and c': "c' = c\<lparr>sst := active_Done W s (active_Close W s (sst c)), pool := move (CloseAdded s) (Some (WaitActive s)) (pool c)\<rparr>"
    using assms(3) by (auto split: if_splits)
  have s: "s < length (stores (sst c))"
    using in_range_store [OF SysInvD(2) [OF assms(2)] p] by (auto simp: pcs_of_def)
  have "0 < n ?g" using store_ok_running(1) [OF SysInvD(4) [OF assms(2) s] p] by simp
  moreover have "stores (sst c') = stores (set_active s (wg_Done W (wg_Close W ?g)) (sst c))"
    using s by (simp add: c' active_Done_def active_Close_def set_active_def)
  ultimately show ?thesis
    using p by (intro sys_step_move [OF assms(2) p, of s _ "wg_Done W (wg_Close W ?g)"])
      (auto simp: c' active_Done_def active_Close_def wait_group_simps [OF assms(1)])
qed

lemma sys_step_AWait:
  assumes "wait_group_spec W cl n" and "SysInv cl n c" and "sys_step B W (AWait s) c = Some c'"
  shows "SysInv cl n c'"
  using assms(3)
  by (intro sys_step_move [OF assms(2), of "WaitActive s" s c' "activeOps (stores (sst c) ! s)"])
    (auto simp: set_active_same wait_group_simps [OF assms(1)] split: if_splits)

text \<open>Steps that touch the registry or a shared store.\<close>

lemma store_ok_cong:
  assumes "store_ok cl n g M rel s" and "\<And>p. p \<in> pcs_of s \<Longrightarrow> count M' p = count M p" and "s \<in> rel' \<longleftrightarrow> s \<in> rel"
  shows "store_ok cl n g M' rel' s"
proof -
  have rel: "Releasing s \<in># M' \<longleftrightarrow> Releasing s \<in># M"
    using assms(2) [of "Releasing s"] unfolding pcs_of_def by (metis count_greater_zero_iff insert_iff)
  have "busy M' s = busy M s" "closing M' s = closing M s" "count M' (CloseAdded s) = count M (CloseAdded s)"
    using assms(2) by (simp_all add: busy_def closing_def pcs_of_def)
  note eqs = this
  show ?thesis using assms(1) unfolding store_ok_def rel assms(3) eqs .
qed

lemma in_range_mono:
  assumes "in_range c" and "length (stores (sst c)) \<le> length (stores (sst c'))"
    and "length (heap (sst c)) \<le> length (heap (sst c'))"
    and "\<And>p. p \<in># pool c' \<Longrightarrow> p \<in># pool c \<or> p = Panicked
      \<or> (\<exists>a < length (heap (sst c')). p = Unregistering a \<or> p = ClosingBackend a)"
  shows "in_range c'"
  unfolding in_range_def
proof
  fix p
  assume "p \<in># pool c'"
  from assms(4) [OF this] show "case p of Running s \<Rightarrow> s < length (stores (sst c')) | Finished s \<Rightarrow> s < length (stores (sst c'))
      | CloseAdded s \<Rightarrow> s < length (stores (sst c')) | WaitActive s \<Rightarrow> s < length (stores (sst c'))
      | Releasing s \<Rightarrow> s < length (stores (sst c')) | Unregistering a \<Rightarrow> a < length (heap (sst c'))
      | ClosingBackend a \<Rightarrow> a < length (heap (sst c')) | Panicked \<Rightarrow> True"
    using assms(1-3) by (fastforce simp: in_range_def split: pc.splits)
qed

lemma mem_move: "x \<in># move p q M \<Longrightarrow> x \<in># M \<or> q = Some x"
  by (auto simp: move_def split: option.splits dest: in_diffD)

lemma RInv_sname: "RInv st rel \<Longrightarrow> fmlookup (reg_active st) name = Some a \<Longrightarrow> a < length (heap st) \<and> sname (heap st ! a) = name"
  by (simp add: RInv_def)

lemma sys_step_AGet:
  assumes "wait_group_spec W cl n" and "SysInv cl n c" and "sys_step B W (AGet name) c = Some c'"
  shows "SysInv cl n c'"
proof -
  obtain r st' where get: "Registry_Get B W name (sst c) = (r, st')" by (metis prod.exhaust)
  have c': "c' = c\<lparr>sst := st'\<rparr>" using assms(3) get by simp
  note R = SysInvD(1) [OF assms(2)] and I = SysInvD(2) [OF assms(2)]
  have new: "\<not> cl (wg_new W)" "n (wg_new W) = 0" using assms(1) by (simp_all add: wait_group_spec_def)
  have none: "count (pool c) p = 0" if "p \<in> pcs_of (length (stores (sst c)))" for p
    using in_range_store [OF I _ that] by (metis less_irrefl not_in_iff)
  have ok_new: "store_ok cl n (wg_new W) (pool c) (released c) (length (stores (sst c)))"
  proof -
    have "length (stores (sst c)) \<notin> released c" using R by (auto simp: RInv_def)
    moreover have "Releasing (length (stores (sst c))) \<notin># pool c"
      using none [of "Releasing (length (stores (sst c)))"] by (simp add: pcs_of_def not_in_iff)
    ultimately show ?thesis using new none by (simp add: store_ok_def busy_def closing_def pcs_of_def)
  qed
  have heap_mono: "length (heap (sst c)) \<le> length (heap st')" "length (stores (sst c)) \<le> length (stores st')"
    by (cases rule: Registry_Get_cases [OF get R, consumes 0]; simp)+
  have ok: "store_ok cl n (activeOps (stores st' ! s)) (pool c) (released c) s" if "s < length (stores st')" for s
  proof (cases "s < length (stores (sst c))")
    case True
    then have "activeOps (stores st' ! s) = activeOps (stores (sst c) ! s)"
      by (cases rule: Registry_Get_cases [OF get R, consumes 0]) (simp_all add: nth_append)
    then show ?thesis using SysInvD(4) [OF assms(2) True] by simp
  next
    case False
    then have "s = length (stores (sst c)) \<and> activeOps (stores st' ! s) = wg_new W"
      using that by (cases rule: Registry_Get_cases [OF get R, consumes 0]) (simp_all add: nth_append)
    then show ?thesis using ok_new by metis
  qed
  have "backend_ok c' b" for b
  proof (cases "ClosingBackend b \<in># pool c \<or> b \<in> set (bclosed c)")
    case True
    then have b: "b < length (heap (sst c))" "refCount (heap (sst c) ! b) = 0"
      "fmlookup (reg_active (sst c)) (sname (heap (sst c) ! b)) \<noteq> Some b"
      using SysInvD(3) [OF assms(2), of b] by (simp_all add: backend_ok_def)
    show ?thesis
    proof (cases rule: Registry_Get_cases [OF get R, consumes 0, case_names share fresh refused])
      case (share a)
      then have "a \<noteq> b" using b(3) RInv_sname [OF R share(1)] by auto
      then show ?thesis using b share(1,3,7) RInv_sname [OF R share(1)] by (simp add: backend_ok_def c')
    next
      case (fresh h)
      then show ?thesis using b by (simp add: backend_ok_def c' nth_append)
    next
      case refused
      then show ?thesis using b by (simp add: backend_ok_def c')
    qed
  next
    case False
    then show ?thesis by (simp add: backend_ok_def c')
  qed
  moreover have "in_range c'" by (rule in_range_mono [OF I]) (simp_all add: c' heap_mono)
  ultimately show ?thesis
    using Registry_Get_RInv [OF get R] ok by (simp add: SysInv_def c')
qed

lemma sys_step_ADec:
  assumes "wait_group_spec W cl n" and "SysInv cl n c" and "sys_step B W (ADec s) c = Some c'"
  shows "SysInv cl n c'"
proof -
  let ?a = "shared (stores (sst c) ! s)"
  obtain k st' where dec: "Dec ?a (sst c) = (k, st')" by (metis prod.exhaust)
  have p: "Releasing s \<in># pool c"
    and c': "c' = c\<lparr>sst := st', released := insert s (released c),
         pool := move (Releasing s) (if k = 0 then Some (Unregistering ?a) else None) (pool c)\<rparr>"
    using assms(3) dec by (auto split: if_splits)
  have s: "s < length (stores (sst c))"
    using in_range_store [OF SysInvD(2) [OF assms(2)] p] by (auto simp: pcs_of_def)
  note ok = SysInvD(4) [OF assms(2) s]
  have pos: "0 < count (pool c) (Releasing s)" using p by simp
  then have "closing (pool c) s \<noteq> 0" unfolding closing_def by (metis add_is_0 less_irrefl)
  then have g: "cl (activeOps (stores (sst c) ! s))" "s \<notin> released c" "closing (pool c) s = 1"
    using ok by (auto simp: store_ok_def split: if_splits)
  note R = SysInvD(1) [OF assms(2)]
  note D = Dec_RInv [OF R s g(2) dec]
  have a: "?a < length (heap (sst c))" using R s by (simp add: RInv_def)
  have st': "st' = set_count ?a (refCount (heap (sst c) ! ?a) - 1) (sst c)" using dec by (auto simp: Dec_def)
  have ok_s: "store_ok cl n (activeOps (stores st' ! s)) (pool c') (released c') s"
  proof -
    have "count (pool c) (Releasing s) = 1" "count (pool c) (WaitActive s) = 0"
      using g(3) pos unfolding closing_def by linarith+
    moreover have "n (activeOps (stores (sst c) ! s)) = 0" using ok p by (simp add: store_ok_def)
    ultimately show ?thesis using ok g p by (simp add: store_ok_def busy_def closing_def c' D(3))
  qed
  have "store_ok cl n (activeOps (stores st' ! t)) (pool c') (released c') t" if "t < length (stores st')" for t
  proof (cases "t = s")
    case False
    have "store_ok cl n (activeOps (stores (sst c) ! t)) (pool c) (released c) t"
      using SysInvD(4) [OF assms(2)] that D(3) by simp
    then show ?thesis using False p by (simp add: D(3)) (erule store_ok_cong; auto simp: c' pcs_of_def)
  qed (use ok_s in simp)
  moreover have "backend_ok c' b" for b
  proof (cases "ClosingBackend b \<in># pool c \<or> b \<in> set (bclosed c)")
    case True
    then have b: "b < length (heap (sst c))" "refCount (heap (sst c) ! b) = 0"
      "fmlookup (reg_active (sst c)) (sname (heap (sst c) ! b)) \<noteq> Some b"
      using SysInvD(3) [OF assms(2), of b] by (simp_all add: backend_ok_def)
    have "0 < refCount (heap (sst c) ! ?a)"
      using R a card_holders_pos [of s "sst c" "released c" ?a] s g(2) by (simp add: RInv_def holders_def)
    then have "b \<noteq> ?a" using b(2) by auto
    then show ?thesis using b a by (simp add: backend_ok_def c' st')
  next
    case False
    moreover have "ClosingBackend b \<in># pool c' \<Longrightarrow> ClosingBackend b \<in># pool c"
      by (auto simp: c' dest!: mem_move split: if_splits)
    ultimately show ?thesis by (auto simp: backend_ok_def c')
  qed
  moreover have "in_range c'"
    by (rule in_range_mono [OF SysInvD(2) [OF assms(2)]])
      (use a in \<open>auto simp: c' D(3,7) dest!: mem_move split: if_splits\<close>)
  ultimately show ?thesis using D(1) by (simp add: SysInv_def c')
qed

lemma sys_step_AUnregister:
  assumes "wait_group_spec W cl n" and "SysInv cl n c" and "sys_step B W (AUnregister a) c = Some c'"
  shows "SysInv cl n c'"
proof -
  obtain r st' where un: "tryUnregister a (sst c) = (r, st')" by (metis prod.exhaust)
  define q where "q = (case r of Inl p \<Rightarrow> Some Panicked | Inr b \<Rightarrow> if b then Some (ClosingBackend a) else None)"
  have p: "Unregistering a \<in># pool c"
    and c': "c' = c\<lparr>sst := st', pool := move (Unregistering a) q (pool c)\<rparr>"
    using assms(3) un by (auto simp: q_def split: if_splits)
  note R = SysInvD(1) [OF assms(2)] and I = SysInvD(2) [OF assms(2)]
  note U = tryUnregister_RInv [OF R un]
  have a: "a < length (heap (sst c))" using I p by (auto simp: in_range_def)
  have q: "q \<noteq> None \<Longrightarrow> q = Some Panicked \<or> q = Some (ClosingBackend a) \<and> r = Inr True"
    by (auto simp: q_def split: sum.splits if_splits)
  have keys: "fmlookup (reg_active st') nm = Some b \<Longrightarrow> fmlookup (reg_active (sst c)) nm = Some b" for nm b
    using un by (auto simp: tryUnregister_def unregisterStore_def Let_def split: if_splits prod.splits option.splits)
  have gone: "refCount (heap (sst c) ! a) = 0 \<and> fmlookup (reg_active st') (sname (heap (sst c) ! a)) = None"
    if "r = Inr True"
  proof -
    have "0 \<le> refCount (heap (sst c) ! a)" using R a by (simp add: RInv_def)
    then show ?thesis
      using un that by (auto simp: tryUnregister_def unregisterStore_def Let_def split: if_splits prod.splits option.splits)
  qed
  have "backend_ok c' b" for b
  proof (cases "ClosingBackend b \<in># pool c \<or> b \<in> set (bclosed c)")
    case True
    then show ?thesis
      using SysInvD(3) [OF assms(2), of b] keys by (auto simp: backend_ok_def c' U(3))
  next
    case False
    then have "ClosingBackend b \<in># pool c' \<Longrightarrow> b = a \<and> r = Inr True"
      using q by (auto simp: c' dest!: mem_move)
    then show ?thesis using False a gone by (auto simp: backend_ok_def c' U(3))
  qed
  moreover have "store_ok cl n (activeOps (stores st' ! t)) (pool c') (released c') t" if "t < length (stores st')" for t
  proof -
    have "store_ok cl n (activeOps (stores (sst c) ! t)) (pool c) (released c) t"
      using SysInvD(4) [OF assms(2)] that U(2) by simp
    then show ?thesis
      using p q by (simp add: U(2)) (erule store_ok_cong; auto simp: c' pcs_of_def)
  qed
  moreover have "in_range c'"
    by (rule in_range_mono [OF I]) (use a q in \<open>auto simp: c' U(2,3) dest!: mem_move\<close>)
  ultimately show ?thesis using U(1) by (simp add: SysInv_def c')
qed

lemma sys_step_ABackendClose:
  assumes "SysInv cl n c" and "sys_step B W (ABackendClose a) c = Some c'"
  shows "SysInv cl n c'"
proof -
  have p: "ClosingBackend a \<in># pool c"
    and c': "c' = c\<lparr>sst := snd (close_backend B a (sst c)), bclosed := bclosed c @ [a],
         pool := move (ClosingBackend a) None (pool c)\<rparr>"
    using assms(2) by (auto split: if_splits)
  have same: "heap (sst c') = heap (sst c)" "stores (sst c') = stores (sst c)" "reg_active (sst c') = reg_active (sst c)"
    by (simp_all add: c' close_backend_def split: prod.splits)
  have "backend_ok c' b" for b
  proof -
    have "ClosingBackend b \<in># pool c \<or> b \<in> set (bclosed c)" if "ClosingBackend b \<in># pool c' \<or> b \<in> set (bclosed c')"
      using that p by (auto simp: c' dest!: mem_move)
    then show ?thesis using SysInvD(3) [OF assms(1), of b] by (auto simp: backend_ok_def same)
  qed
  moreover have "store_ok cl n (activeOps (stores (sst c') ! t)) (pool c') (released c') t"
    if "t < length (stores (sst c'))" for t
  proof -
    have "store_ok cl n (activeOps (stores (sst c) ! t)) (pool c) (released c) t"
      using SysInvD(4) [OF assms(1)] that same(2) by simp
    then show ?thesis unfolding same using p by (rule_tac store_ok_cong) (auto simp: c' pcs_of_def)
  qed
  moreover have "in_range c'"
    by (rule in_range_mono [OF SysInvD(2) [OF assms(1)]]) (use p in \<open>auto simp: same, auto simp: c' dest!: mem_move\<close>)
  moreover have "RInv (sst c') (released c')"
    using SysInvD(1) [OF assms(1)] by (simp add: RInv_def holders_def same) (simp add: c')
  ultimately show ?thesis by (simp add: SysInv_def)
qed

lemma reachable_SysInv:
  assumes "reachable B W w c" and "wait_group_spec W cl n"
  shows "SysInv cl n c"
  using assms(1)
proof induction
  case reach_init
  show ?case by (rule SysInv_init)
next
  case (reach_step c a c')
  note inv = reach_step.IH and step = reach_step.hyps(2)
  show ?case
  proof (cases a)
    case (AGet name)
    then show ?thesis using sys_step_AGet [OF assms(2) inv] step by blast
  next
    case (AOp s)
    then show ?thesis using sys_step_AOp [OF assms(2) inv] step by blast
  next
    case (ACall s k)
    show ?thesis by (rule sys_step_ACall [OF inv disjI1 [OF step [unfolded ACall]]])
  next
    case (AEach s fn u)
    show ?thesis by (rule sys_step_ACall [OF inv disjI2 [OF step [unfolded AEach]]])
  next
    case (ADone s)
    then show ?thesis using sys_step_ADone [OF assms(2) inv] step by blast
  next
    case (AClose s)
    then show ?thesis using sys_step_AClose [OF assms(2) inv] step by blast
  next
    case (AMark s)
    then show ?thesis using sys_step_AMark [OF assms(2) inv] step by blast
  next
    case (AWait s)
    then show ?thesis using sys_step_AWait [OF assms(2) inv] step by blast
  next
    case (ADec s)
    then show ?thesis using sys_step_ADec [OF assms(2) inv] step by blast
  next
    case (AUnregister b)
    then show ?thesis using sys_step_AUnregister [OF assms(2) inv] step by blast
  next
    case (ABackendClose b)
    then show ?thesis using sys_step_ABackendClose [OF inv] step by blast
  qed
qed

section \<open>Properties\<close>

text \<open>C10. No backend is closed under a store in use.  In every interleaving of any number of
  goroutines, a store that is not closed, or that has an operation running, uses a shared store whose
  \<open>backend.Close\<close> was not called and is not about to be.\<close>

theorem open_store_backend_not_closed:
  assumes "wait_group_spec W cl n" and "reachable B W w c"
    and "is_open cl (sst c) s \<or> Running s \<in># pool c"
  shows "shared (stores (sst c) ! s) \<notin> set (bclosed c) \<and> ClosingBackend (shared (stores (sst c) ! s)) \<notin># pool c"
proof -
  let ?a = "shared (stores (sst c) ! s)"
  have inv: "SysInv cl n c" by (rule reachable_SysInv [OF assms(2,1)])
  have s: "s < length (stores (sst c))"
    using assms(3) in_range_store [OF SysInvD(2) [OF inv], of "Running s" s] by (auto simp: is_open_def pcs_of_def)
  note ok = SysInvD(4) [OF inv s]
  have "s \<notin> released c"
    using assms(3) ok store_ok_running(3) [OF ok, of "Running s"] by (auto simp: is_open_def store_ok_def)
  then have "0 < card (holders (sst c) (released c) ?a)"
    using s by (intro card_holders_pos [of s]) (simp add: holders_def)
  then have "0 < refCount (heap (sst c) ! ?a)" using SysInvD(1) [OF inv] s by (simp add: RInv_def)
  then show ?thesis using SysInvD(3) [OF inv, of ?a] by (auto simp: backend_ok_def)
qed

definition close_acts :: "nat \<Rightarrow> ('v, 'u) act list" where
  "close_acts s = [AClose s, AMark s, AWait s, ADec s]"

text \<open>One goroutine gives up the last reference and is suspended before the lock; another opens and
  closes a store of the same name.\<close>

definition race_acts :: "(nat, unit) act list" where
  "race_acts = AGet ''a'' # close_acts 0 @ AGet ''a'' # close_acts 1 @ [AUnregister 0, ABackendClose 0]"

theorem open_store_backend_not_closed_witness:
  "\<exists>c. reachable nat_backend plain_wait_group None c \<and> is_open fst (sst c) 0
     \<and> shared (stores (sst c) ! 0) \<notin> set (bclosed c)"
proof -
  let ?c = "the (sys_run nat_backend plain_wait_group [AGet ''a''] (sys_init None))"
  have "sys_run nat_backend plain_wait_group [AGet ''a''] (sys_init None) = Some ?c" by simp
  then have r: "reachable nat_backend plain_wait_group None ?c" by (rule reachable_run [OF reach_init])
  have "is_open fst (sst ?c) 0" by (simp add: sys_init_def sample_eval)
  then show ?thesis using open_store_backend_not_closed [OF plain_wait_group_spec r, of 0] r by blast
qed

lemmas race_eval = race_acts_def close_acts_def sys_init_def move_def sample_eval

text \<open>C11. The race in \<open>Release\<close>.  A reference count that reaches zero twice is released twice.  In one
  interleaving of two goroutines that each open and close a store of the same name, the second
  \<open>tryUnregister\<close> panics.  If a third goroutine opens the name in between, the second \<open>tryUnregister\<close> removes
  that goroutine's entry from the registry and closes the first backend store again: the third store
  is open, but \<open>Registry.Close\<close> does not wait for it, and with the in-memory backend its operations fail
  because its table was closed.\<close>

theorem release_race:
  "(\<exists>c. reachable nat_backend plain_wait_group None c \<and> Panicked \<in># pool c)
   \<and> (\<exists>c. reachable nat_backend plain_wait_group None c \<and> is_open fst (sst c) 2 \<and> bclosed c = [0, 0]
        \<and> Registry_Close nat_backend (sst c) \<noteq> None
        \<and> fst (Store_Has nat_backend plain_wait_group 2 ''k'' (sst c))
            = Inl (ErrorOperation ''a'' ''store/has'' errMapStoreClosed))"
proof (intro conjI)
  let ?as = "race_acts @ [AUnregister 0]"
  let ?c = "the (sys_run nat_backend plain_wait_group ?as (sys_init None))"
  have "sys_run nat_backend plain_wait_group ?as (sys_init None) = Some ?c"
    by (simp add: race_eval)
  then have "reachable nat_backend plain_wait_group None ?c" by (rule reachable_run [OF reach_init])
  moreover have "Panicked \<in># pool ?c" by (simp add: race_eval)
  ultimately show "\<exists>c. reachable nat_backend plain_wait_group None c \<and> Panicked \<in># pool c" by blast
next
  let ?as = "race_acts @ [AGet ''a'', AUnregister 0, ABackendClose 0]"
  let ?c = "the (sys_run nat_backend plain_wait_group ?as (sys_init None))"
  have "sys_run nat_backend plain_wait_group ?as (sys_init None) = Some ?c"
    by (simp add: race_eval)
  then have "reachable nat_backend plain_wait_group None ?c" by (rule reachable_run [OF reach_init])
  moreover have "is_open fst (sst ?c) 2 \<and> bclosed ?c = [0, 0] \<and> Registry_Close nat_backend (sst ?c) \<noteq> None
        \<and> fst (Store_Has nat_backend plain_wait_group 2 ''k'' (sst ?c))
            = Inl (ErrorOperation ''a'' ''store/has'' errMapStoreClosed)"
    by (simp add: race_eval Registry_Close_def Store_Has_def MapStore_Has_def MemoryStore_Close_def)
  ultimately show "\<exists>c. reachable nat_backend plain_wait_group None c \<and> is_open fst (sst c) 2 \<and> bclosed c = [0, 0]
        \<and> Registry_Close nat_backend (sst c) \<noteq> None
        \<and> fst (Store_Has nat_backend plain_wait_group 2 ''k'' (sst c))
            = Inl (ErrorOperation ''a'' ''store/has'' errMapStoreClosed)" by blast
qed

end
