(* ===== verification/Memlog_Backend.thy ===== *)
theory Memlog_Backend
  imports Memlog_Durability Storetest
begin

text \<open>
  The memlog registry as a backend: the interface \<open>backend.Registry\<close> and \<open>backend.Store\<close> on the
  definitions of \<open>Memlog_Store\<close>, its interpretation as a dictionary, and the comparison with the
  in-memory backend of the tests.
\<close>

section \<open>The backend\<close>

text \<open>The world of the process: the registry, the stores it has opened, in order, each with its home
  directory, and the directories.\<close>

record mlog =
  ml_reg :: Registry
  ml_stores :: "(string \<times> store) list"
  ml_files :: "string \<Rightarrow> fs"

definition ml_Access :: "memlog_env \<Rightarrow> string \<Rightarrow> mlog \<Rightarrow> nat result \<times> mlog" where
  "ml_Access E name m =
     (case memlog_Access E name (ml_reg m) (ml_files m) of
        (Inl e, ws) \<Rightarrow> (Inl e, m\<lparr>ml_files := ws\<rparr>)
      | (Inr hs, ws) \<Rightarrow> (Inr (length (ml_stores m)), m\<lparr>ml_stores := ml_stores m @ [hs], ml_files := ws\<rparr>))"

definition ml_RegClose :: "mlog \<Rightarrow> error option \<times> mlog" where
  "ml_RegClose m = (case memlog_Close (ml_reg m) of (e, r) \<Rightarrow> (e, m\<lparr>ml_reg := r\<rparr>))"

text \<open>A call that writes: the store and its directory change.\<close>

definition ml_write :: "(store \<Rightarrow> fs \<Rightarrow> error option \<times> store \<times> fs) \<Rightarrow> nat \<Rightarrow> mlog \<Rightarrow> error option \<times> mlog" where
  "ml_write f p m =
     (let homeDir = fst (ml_stores m ! p) in
      case f (snd (ml_stores m ! p)) (ml_files m homeDir) of
        (e, s, w) \<Rightarrow> (e, m\<lparr>ml_stores := (ml_stores m)[p := (homeDir, s)], ml_files := (ml_files m)(homeDir := w)\<rparr>))"

definition memlog_backend ::
    "memlog_env \<Rightarrow> ('v \<Rightarrow> mapstr result) \<Rightarrow> (mapstr \<Rightarrow> 'v result) \<Rightarrow> (nat, 'v, 'u, mlog) backend" where
  "memlog_backend E enc dec =
     \<lparr>bAccess = ml_Access E,
      bRegClose = ml_RegClose,
      bClose = ml_write store_Close,
      bHas = (\<lambda>p k m. (store_Has k (snd (ml_stores m ! p)), m)),
      bGet = (\<lambda>p k m. (store_Get dec k (snd (ml_stores m ! p)), m)),
      bSet = (\<lambda>p k v. ml_write (store_Set E enc k v) p),
      bRemove = (\<lambda>p k. ml_write (store_Remove E k) p),
      bEach = (\<lambda>p fn u m. (store_Each E (\<lambda>k x. fn k (dec x)) (snd (ml_stores m ! p)) u, m))\<rparr>"

definition ml_opened :: "nat \<Rightarrow> mlog \<Rightarrow> bool" where
  "ml_opened p m \<longleftrightarrow> p < length (ml_stores m) \<and> mem (snd (ml_stores m ! p)) \<noteq> None"

definition ml_content :: "nat \<Rightarrow> mlog \<Rightarrow> (string \<rightharpoonup> mapstr)" where
  "ml_content p m = fmlookup (mem_table (snd (ml_stores m ! p)))"

section \<open>The contract\<close>

lemma logOperation_mem: "logOperation E op0 s w = (err, s', w') \<Longrightarrow> mem s' = mem s"
  by (auto simp: logOperation_def split: prod.splits if_splits option.splits)

lemma ml_write_becomes:
  assumes "ml_opened p m" and "ml_write f p m = (err, m')"
    and "\<And>s w s' w'. mem s = mem (snd (ml_stores m ! p)) \<Longrightarrow> f s w = (err, s', w') \<Longrightarrow>
      \<exists>t. mem s' = Some t \<and> fmlookup t = c"
  shows "becomes ml_opened ml_content p c m m'"
proof -
  obtain s' w' where f: "f (snd (ml_stores m ! p)) (ml_files m (fst (ml_stores m ! p))) = (err, s', w')"
    and m': "ml_stores m' = (ml_stores m)[p := (fst (ml_stores m ! p), s')]"
    using assms(2) by (auto simp: ml_write_def Let_def split: prod.splits)
  obtain t where "mem s' = Some t" "fmlookup t = c" using assms(3) [OF refl f] by blast
  then show ?thesis using assms(1) m'
    by (auto simp: becomes_def ml_opened_def ml_content_def mem_table_def nth_list_update)
qed

interpretation memlog: kv_backend "memlog_backend E enc dec" ml_opened ml_content enc dec errKeyUnknown
  for E enc dec
proof
  fix p k m r m'
  assume "ml_opened p m" and "bHas (memlog_backend E enc dec) p k m = (r, m')"
  then show "r = Inr (ml_content p m k \<noteq> None) \<and> becomes ml_opened ml_content p (ml_content p m) m m'"
    by (auto simp: memlog_backend_def store_Has_def memstore_Has_def ml_content_def fmlookup_dom_iff)
next
  fix p k m g m'
  assume "ml_opened p m" and "bGet (memlog_backend E enc dec) p k m = (g, m')"
  then show "g = (case ml_content p m k of None \<Rightarrow> Inl errKeyUnknown | Some x \<Rightarrow> dec x)
      \<and> becomes ml_opened ml_content p (ml_content p m) m m'"
    by (auto simp: memlog_backend_def store_Get_def memstore_Get_def ml_content_def split: option.splits)
next
  fix p k v m err m'
  assume o: "ml_opened p m" and "bSet (memlog_backend E enc dec) p k v m = (err, m')"
  then have run: "ml_write (store_Set E enc k v) p m = (err, m')" by (simp add: memlog_backend_def)
  obtain t where t: "mem (snd (ml_stores m ! p)) = Some t" using o by (auto simp: ml_opened_def)
  then have c: "ml_content p m = fmlookup t" by (simp add: ml_content_def mem_table_def)
  show "case enc v of Inl e \<Rightarrow> err = Some e \<and> becomes ml_opened ml_content p (ml_content p m) m m'
      | Inr x \<Rightarrow> becomes ml_opened ml_content p ((ml_content p m)(k \<mapsto> x)) m m'"
  proof (cases "enc v")
    case (Inl e)
    then have "err = Some e" using run by (auto simp: ml_write_def store_Set_def Let_def)
    moreover have "becomes ml_opened ml_content p (ml_content p m) m m'"
      by (rule ml_write_becomes [OF o run]) (use Inl t c in \<open>auto simp: store_Set_def\<close>)
    ultimately show ?thesis using Inl by simp
  next
    case (Inr x)
    have "becomes ml_opened ml_content p ((ml_content p m)(k \<mapsto> x)) m m'"
      by (rule ml_write_becomes [OF o run])
        (use Inr t c in \<open>auto simp: store_Set_def memstore_Set_def fun_eq_iff dest: logOperation_mem\<close>)
    then show ?thesis using Inr by simp
  qed
next
  fix p k m err m'
  assume o: "ml_opened p m" and "bRemove (memlog_backend E enc dec) p k m = (err, m')"
  then have run: "ml_write (store_Remove E k) p m = (err, m')" by (simp add: memlog_backend_def)
  obtain t where t: "mem (snd (ml_stores m ! p)) = Some t" using o by (auto simp: ml_opened_def)
  then have c: "ml_content p m = fmlookup t" by (simp add: ml_content_def mem_table_def)
  show "becomes ml_opened ml_content p ((ml_content p m)(k := None)) m m'"
    by (rule ml_write_becomes [OF o run])
      (use t c in \<open>auto simp: store_Remove_def memstore_Remove_def fun_eq_iff fmdomI fmdom_notD dest!: logOperation_mem\<close>)
qed

section \<open>Properties\<close>

text \<open>The memlog store is a dictionary as long as the process lives.  Whatever the disk does, torn
  writes, errors and failed checkpoints included, \<open>Has\<close> and \<open>Get\<close> answer from the table that the
  preceding \<open>Set\<close> and \<open>Remove\<close> calls built, a value that cannot be encoded is refused without a
  change, and no call touches another open store's table.\<close>

lemma memlog_is_dictionary:
  assumes "ml_opened p m" and "kv_calls (memlog_backend E enc dec) p cs m = (rs, m')"
  shows "dict_trace enc dec errKeyUnknown (ml_content p m) cs rs
     \<and> becomes ml_opened ml_content p (fold (dict_step enc) cs (ml_content p m)) m m'"
  by (rule memlog.calls_dict [OF assms])

definition sample_settings :: Settings where
  "sample_settings = \<lparr>Root = ''/r'', FileMode = 384, BufferSize = 4096, CheckpointPred = None, IgnoreVersionCheck = False\<rparr>"

text \<open>A store in its directory, opened, with a disk on which the faults \<open>fl\<close> follow.\<close>

definition sample_mlog :: "fault list \<Rightarrow> mlog" where
  "sample_mlog fl =
     (case openStore plain_env ''/r/a'' 384 4096 False defaultCheckpoint no_home of
        (Inr s, w) \<Rightarrow> \<lparr>ml_reg = \<lparr>active = True, settings = sample_settings\<rparr>, ml_stores = [(''/r/a'', s)],
           ml_files = (\<lambda>d. if d = ''/r/a'' then w\<lparr>faults := fl\<rparr> else no_home)\<rparr>
      | (Inl e, w) \<Rightarrow> \<lparr>ml_reg = \<lparr>active = False, settings = sample_settings\<rparr>, ml_stores = [], ml_files = (\<lambda>d. w)\<rparr>)"

definition failing_mlog :: mlog where
  "failing_mlog = sample_mlog (replicate 10 (Fail EIO))"

lemma sample_mlog_open: "ml_opened 0 (sample_mlog fl) \<and> ml_content 0 (sample_mlog fl) = Map.empty"
proof -
  obtain s w where "openStore plain_env ''/r/a'' 384 4096 False defaultCheckpoint no_home = (Inr s, w)"
    and "mem s = Some fmempty"
    using openStore_fresh [OF fresh_no_home plain_meta_codec] by blast
  then show ?thesis by (simp add: sample_mlog_def ml_opened_def ml_content_def mem_table_def fun_eq_iff)
qed

lemma failing_mlog_open: "ml_opened 0 failing_mlog \<and> ml_content 0 failing_mlog = Map.empty"
  unfolding failing_mlog_def by (rule sample_mlog_open)

lemma memlog_is_dictionary_witness:
  "\<exists>rs m'. kv_calls (memlog_backend plain_env Inr Inr :: (nat, mapstr, unit, mlog) backend) 0
        [KSet ''k'' fmempty, KGet ''k'', KRemove ''k'', KHas ''k''] failing_mlog = (rs, m')
     \<and> dict_trace Inr Inr errKeyUnknown Map.empty [KSet ''k'' (fmempty :: mapstr), KGet ''k'', KRemove ''k'', KHas ''k''] rs"
proof -
  let ?cs = "[KSet ''k'' (fmempty :: mapstr), KGet ''k'', KRemove ''k'', KHas ''k'']"
  obtain rs m' where run: "kv_calls (memlog_backend plain_env Inr Inr :: (nat, mapstr, unit, mlog) backend) 0 ?cs failing_mlog = (rs, m')"
    by (metis prod.exhaust)
  have "dict_trace Inr Inr errKeyUnknown Map.empty ?cs rs"
    using memlog_is_dictionary [OF conjunct1 [OF failing_mlog_open] run] failing_mlog_open by simp
  then show ?thesis using run by blast
qed

section \<open>Memlog against the in-memory backend\<close>

text \<open>
  The store is on a disk without faults, has its table in its files, and can write \<open>n\<close> more calls: the numbers of
  transactions do not run out.  The codecs are those of \<open>Memlog_Log\<close>.
\<close>

definition intact_store :: "memlog_env \<Rightarrow> nat \<Rightarrow> nat \<Rightarrow> mlog \<Rightarrow> bool" where
  "intact_store E n p m \<longleftrightarrow> p < length (ml_stores m) \<and>
     (\<exists>N t. SInv E N (snd (ml_stores m ! p)) (ml_files m (fst (ml_stores m ! p))) t \<and> mem (snd (ml_stores m ! p)) = Some t
        \<and> table_codec E t \<and> faults (ml_files m (fst (ml_stores m ! p))) = [] \<and> N + n < 2 ^ 63)"

definition calls_codec :: "memlog_env \<Rightarrow> ('v \<Rightarrow> mapstr result) \<Rightarrow> 'v kcall list \<Rightarrow> bool" where
  "calls_codec E enc cs \<longleftrightarrow> range_spec E
     \<and> (\<forall>k v x. KSet k v \<in> set cs \<longrightarrow> enc v = Inr x \<longrightarrow> call_codec E (CSet k x))
     \<and> (\<forall>k. KRemove k \<in> set cs \<longrightarrow> call_codec E (CRemove k))"

lemma ml_write_intact:
  assumes "intact_store E (Suc n) p m" and "call_codec E c" and "range_spec E" and "ml_write (exec E c) p m = (err, m')"
  shows "err = None \<and> intact_store E n p m'"
proof -
  let ?h = "fst (ml_stores m ! p)"
  obtain N t where s: "SInv E N (snd (ml_stores m ! p)) (ml_files m ?h) t" "mem (snd (ml_stores m ! p)) = Some t" "table_codec E t"
    "faults (ml_files m ?h) = []" "N + Suc n < 2 ^ 63" "p < length (ml_stores m)"
    using assms(1) unfolding intact_store_def by blast
  obtain e s' w' where run: "exec E c (snd (ml_stores m ! p)) (ml_files m ?h) = (e, s', w')" by (metis prod.exhaust)
  have N: "N + 1 < 2 ^ 63" "N + 1 + n < 2 ^ 63" using s(5) by simp_all
  have w: "err = e" "ml_stores m' = (ml_stores m)[p := (?h, s')]" "ml_files m' = (ml_files m)(?h := w')"
    using assms(4) run by (auto simp: ml_write_def Let_def)
  from exec_step [OF s(1,2) assms(2) s(3) assms(3) N(1) run] s(4)
  have "e = None" "mem s' = Some (effect c t)" "SInv E (N + 1) s' w' (effect c t)" "faults w' = []" by auto
  moreover have "table_codec E (effect c t)" by (rule table_codec_effect [OF s(3) assms(2)])
  ultimately show ?thesis using s(6) N(2) unfolding intact_store_def w(2,3) by (auto simp: w(1) nth_list_update)
qed

lemma intact_store_less: "intact_store E (Suc n) p m \<Longrightarrow> intact_store E n p m"
  unfolding intact_store_def by (metis Suc_lessD add_Suc_right)

text \<open>On an intact disk a write fails only when the value cannot be converted.\<close>

lemma memlog_write_intact:
  assumes "intact_store E (Suc n) p m" and "calls_codec E enc (c # cs)"
    and "kv_call (memlog_backend E enc dec) p c m = (r, m')"
  shows "intact_store E n p m'
     \<and> (\<forall>e. r = RErr e \<longrightarrow> e = (case c of KSet k v \<Rightarrow> (case enc v of Inl x \<Rightarrow> Some x | Inr y \<Rightarrow> None) | _ \<Rightarrow> None))"
proof (cases c)
  case (KSet k v)
  show ?thesis
  proof (cases "enc v")
    case (Inl x)
    let ?h = "fst (ml_stores m ! p)"
    have "m\<lparr>ml_stores := (ml_stores m)[p := ml_stores m ! p], ml_files := (ml_files m)(?h := ml_files m ?h)\<rparr> = m"
      by simp
    then have "m' = m" "r = RErr (Some x)"
      using assms(3) Inl KSet by (auto simp: kv_call_def memlog_backend_def ml_write_def store_Set_def Let_def)
    then show ?thesis using intact_store_less [OF assms(1)] KSet Inl by simp
  next
    case (Inr x)
    then have set: "store_Set E enc k v = exec E (CSet k x)" by (auto simp: exec_def store_Set_def fun_eq_iff)
    obtain e where run: "ml_write (exec E (CSet k x)) p m = (e, m')" "r = RErr e"
      using assms(3) by (auto simp: kv_call_def memlog_backend_def KSet set apfst_def map_prod_def split: prod.splits)
    have "call_codec E (CSet k x)" "range_spec E" using assms(2) Inr KSet unfolding calls_codec_def by auto
    from ml_write_intact [OF assms(1) this run(1)] show ?thesis using run(2) KSet Inr by simp
  qed
next
  case (KRemove k)
  have remove: "store_Remove E k = exec E (CRemove k)" by (auto simp: exec_def fun_eq_iff)
  obtain e where run: "ml_write (exec E (CRemove k)) p m = (e, m')" "r = RErr e"
    using assms(3) by (auto simp: kv_call_def memlog_backend_def KRemove remove apfst_def map_prod_def split: prod.splits)
  have "call_codec E (CRemove k)" "range_spec E" using assms(2) KRemove unfolding calls_codec_def by auto
  from ml_write_intact [OF assms(1) this run(1)] show ?thesis using run(2) KRemove by simp
qed (use assms(3) intact_store_less [OF assms(1)] in \<open>auto simp: kv_call_def memlog_backend_def\<close>)

text \<open>C15. The in-memory backend is a faithful stand-in for memlog.  The two convert values in their own ways; start
  them with contents that decode to the same values, and make the same calls, writing values that both refuse or
  both give back alike.  Then \<open>Has\<close> gets the same answers and \<open>Get\<close> the same values, an error where the other has one, a write that
  fails in memory fails on memlog, and the contents agree again at the end.  On an intact disk the writes
  succeed on both or on neither.\<close>

theorem memlog_MapStore_agree:
  assumes "ml_opened p m" and "mem_opened q n" and "same_content decm decs (ml_content p m) (mem_content q n)"
    and "\<forall>k v. KSet k v \<in> set cs \<longrightarrow> treat_alike encm decm encs decs v"
    and "kv_calls (memlog_backend E encm decm :: (nat, 'v, 'u, mlog) backend) p cs m = (rs, m')"
    and "kv_calls (storetest_backend encs decs order :: (string, 'v, 'x, 'r MemoryStore) backend) q cs n = (ss, n')"
  shows "list_all2 (alike (intact_store E (length cs) p m \<and> calls_codec E encm cs)) rs ss
     \<and> same_content decm decs (ml_content p m') (mem_content q n')"
  using assms
proof (induction cs arbitrary: m n rs ss)
  case (Cons c cs)
  let ?M = "memlog_backend E encm decm :: (nat, 'v, 'u, mlog) backend"
  let ?S = "storetest_backend encs decs order :: (string, 'v, 'x, 'r MemoryStore) backend"
  let ?b = "intact_store E (length (c # cs)) p m \<and> calls_codec E encm (c # cs)"
  obtain r m1 where r: "kv_call ?M p c m = (r, m1)" by fastforce
  obtain s n1 where s: "kv_call ?S q c n = (s, n1)" by fastforce
  obtain rs1 ss1 where rest: "kv_calls ?M p cs m1 = (rs1, m')" "rs = r # rs1"
      "kv_calls ?S q cs n1 = (ss1, n')" "ss = s # ss1"
    using Cons.prems(5,6) r s by (auto split: prod.splits)
  note dm = memlog.call_dict [OF Cons.prems(1) r] and ds = mapstore.call_dict [OF Cons.prems(2) s]
  have treat: "treat_alike encm decm encs decs v" if "c = KSet k v" for k v using Cons.prems(4) that by auto
  have o: "ml_opened p m1" "mem_opened q n1" "same_content decm decs (ml_content p m1) (mem_content q n1)"
    using dm ds same_content_step [OF Cons.prems(3) treat] by (auto simp: becomes_def)
  have "alike ?b r s"
  proof (rule dict_ok_alike [OF Cons.prems(3) conjunct1 [OF dm] conjunct1 [OF ds]])
    fix e f
    assume ef: "r = RErr e" "s = RErr f"
    have f: "f = (case c of KSet k v \<Rightarrow> (case encs v of Inl x \<Rightarrow> Some x | Inr y \<Rightarrow> None) | _ \<Rightarrow> None)"
      using MapStore_write [OF Cons.prems(2)] s ef(2) by blast
    have e: "e = (case c of KSet k v \<Rightarrow> (case encm v of Inl x \<Rightarrow> Some x | Inr y \<Rightarrow> None) | _ \<Rightarrow> None)" if ?b
      using memlog_write_intact [OF _ _ r, of "length cs" cs] that ef(1) by simp
    have "f \<noteq> None \<Longrightarrow> e \<noteq> None"
      using f dm ef treat by (auto simp: treat_alike_def split: kcall.splits sum.splits)
    moreover have "?b \<Longrightarrow> f = None \<Longrightarrow> e = None"
      using f e treat by (auto simp: treat_alike_def split: kcall.splits sum.splits)
    ultimately show "alike ?b r s" using ef by auto
  qed
  moreover have "intact_store E (length cs) p m1 \<and> calls_codec E encm cs" if ?b
    using memlog_write_intact [OF _ _ r, of "length cs" cs] that by (auto simp: calls_codec_def)
  moreover have "list_all2 (alike (intact_store E (length cs) p m1 \<and> calls_codec E encm cs)) rs1 ss1
      \<and> same_content decm decs (ml_content p m') (mem_content q n')"
    using Cons.IH [OF o _ rest(1,3)] Cons.prems(4) by simp
  moreover have "alike True x y \<Longrightarrow> alike b x y" "alike b x y \<Longrightarrow> alike False x y" for b and x y :: "'v kres"
    by (cases x; cases y; auto)+
  ultimately show ?case using rest(2,4) by (cases ?b) (auto elim!: list_all2_mono)
qed simp

lemma sample_mlog_intact: "n + 2 < 2 ^ 63 \<Longrightarrow> intact_store plain_env n 0 (sample_mlog [])"
proof -
  assume n: "n + 2 < 2 ^ 63"
  obtain s w where op: "openStore plain_env ''/r/a'' 384 4096 False defaultCheckpoint no_home = (Inr s, w)"
    "mem s = Some fmempty" "DInv plain_env 2 (disk s) w fmempty" "faults w = []"
    using openStore_fresh [OF fresh_no_home plain_meta_codec] by blast
  then have "SInv plain_env 2 s (w\<lparr>faults := []\<rparr>) fmempty" by (simp add: SInv_def DInv_faults)
  then show ?thesis using op n table_codec_empty
    by (auto simp: intact_store_def sample_mlog_def add.commute intro!: exI [of _ 2] exI [of _ fmempty])
qed

text \<open>The witness: on an intact disk, with a \<open>MapStore\<close> that keeps its values in another type, a write succeeds on both, and a
  value refused by both is not written.\<close>

definition refuse_empty :: "(mapstr \<Rightarrow> 'r) \<Rightarrow> mapstr \<Rightarrow> 'r result" where
  "refuse_empty f v = (if v = fmempty then Inl (ErrNew ''empty'') else Inr (f v))"

theorem memlog_MapStore_agree_witness:
  "let n = snd (MemoryStore_Access ''a'' None); cs = [KSet ''k'' sample_value, KSet ''l'' fmempty, KGet ''k'', KGet ''l''] in
   \<exists>rs m' ss n' a b. kv_calls (memlog_backend plain_env (refuse_empty id) Inr :: (nat, mapstr, unit, mlog) backend) 0 cs (sample_mlog []) = (rs, m')
     \<and> kv_calls (storetest_backend (refuse_empty Some) (\<lambda>x. Inr (the x)) (\<lambda>t. []) :: (string, mapstr, unit, mapstr option MemoryStore) backend)
         ''a'' cs n = (ss, n')
     \<and> ss = [RErr None, RErr (Some (ErrNew ''empty'')), RGet (Inr sample_value), RGet (Inl errUnknownKey)]
     \<and> rs = [RErr None, RErr (Some a), RGet (Inr sample_value), RGet (Inl b)]"
proof -
  let ?n = "snd (MemoryStore_Access ''a'' None) :: mapstr option MemoryStore"
  let ?cs = "[KSet ''k'' sample_value, KSet ''l'' fmempty, KGet ''k'', KGet ''l'']"
  let ?M = "memlog_backend plain_env (refuse_empty id) Inr :: (nat, mapstr, unit, mlog) backend"
  let ?S = "storetest_backend (refuse_empty Some) (\<lambda>x. Inr (the x)) (\<lambda>t. []) :: (string, mapstr, unit, mapstr option MemoryStore) backend"
  obtain rs m' where r: "kv_calls ?M 0 ?cs (sample_mlog []) = (rs, m')" by (metis prod.exhaust)
  obtain ss n' where s: "kv_calls ?S ''a'' ?cs ?n = (ss, n')" by (metis prod.exhaust)
  have v: "sample_value \<noteq> fmempty" by (auto simp: sample_value_def dest: arg_cong [where f = "\<lambda>t. fmlookup t ''cursor''"])
  have o: "mem_opened ''a'' ?n" "mem_content ''a'' ?n = Map.empty"
    by (simp_all add: MemoryStore_Access_def MemoryStore_init_def mem_opened_def mem_content_def MapStore_init_def fun_eq_iff)
  have treat: "treat_alike (refuse_empty id) Inr (refuse_empty Some) (\<lambda>x. Inr (the x)) u" for u
    by (simp add: treat_alike_def refuse_empty_def)
  have "plain_string ''k''" "plain_string ''l''" "flat sample_value"
    by (auto simp: plain_string_def flat_def sample_value_def keyField_def split: if_splits)
  then have codec: "calls_codec plain_env (refuse_empty id) ?cs"
    using plain_codecs plain_range_spec by (auto simp: calls_codec_def call_codec_def refuse_empty_def split: if_splits)
  have "intact_store plain_env (length ?cs) 0 (sample_mlog [])" by (rule sample_mlog_intact) simp
  moreover have "list_all2 (alike (intact_store plain_env (length ?cs) 0 (sample_mlog []) \<and> calls_codec plain_env (refuse_empty id) ?cs)) rs ss"
    using memlog_MapStore_agree [OF conjunct1 [OF sample_mlog_open] o(1) _ _ r s] treat
    by (simp add: sample_mlog_open o(2) same_content_def)
  ultimately have like: "list_all2 (alike True) rs ss" using codec by simp
  have ss: "ss = [RErr None, RErr (Some (ErrNew ''empty'')), RGet (Inr sample_value), RGet (Inl errUnknownKey)]"
    using s v by (auto simp: kv_call_def storetest_backend_def deref_def MemoryStore_Access_def refuse_empty_def
        MemoryStore_init_def MapStore_Set_def MapStore_Get_def MapStore_init_def)
  have like_inv: "alike True x (RErr None) \<Longrightarrow> x = RErr None" "alike True x (RErr (Some f)) \<Longrightarrow> \<exists>a. x = RErr (Some a)"
    "alike True x (RGet (Inr u)) \<Longrightarrow> x = RGet (Inr u)" "alike True x (RGet (Inl f)) \<Longrightarrow> \<exists>b. x = RGet (Inl b)"
    for x and f and u :: mapstr
    by (auto elim: alike.elims same_result.elims)
  from like obtain x1 x2 x3 x4 where "rs = [x1, x2, x3, x4]" "alike True x1 (RErr None)" "alike True x2 (RErr (Some (ErrNew ''empty'')))"
    "alike True x3 (RGet (Inr sample_value))" "alike True x4 (RGet (Inl errUnknownKey))"
    unfolding ss by (auto simp: list_all2_Cons2)
  then obtain a b where "rs = [RErr None, RErr (Some a), RGet (Inr sample_value), RGet (Inl b)]" using like_inv by metis
  then show ?thesis using r s ss unfolding Let_def by blast
qed

end
