(* ===== verification/Statestore_Memlog.thy ===== *)
theory Statestore_Memlog
  imports Statestore_Sharing Memlog_Backend
begin

text \<open>The stores of \<open>statestore\<close> on the memlog backend: the layers of the state store put together.\<close>

text \<open>C14. A store of the registry on memlog.  For any sequence of \<open>Has\<close>, \<open>Get\<close>, \<open>Set\<close> and \<open>Remove\<close> calls on an
  open store, the memlog store behind it gets exactly these calls and no others.  A success is passed on as
  memlog reports it, and every error of memlog comes back as an \<open>ErrorOperation\<close> with the name of the store and the
  operation (\<open>Set\<close> names it \<open>store/get\<close>, as the source does).  memlog's answers are those of
  the dictionary, its table is the dictionary after the calls, all other memlog stores keep theirs, and the
  registry does not change.\<close>

theorem registry_store_on_memlog:
  assumes "wait_group_spec W cl n" and "s < length (stores st)" and "\<not> cl (activeOps (stores st ! s))"
    and "ml_opened (store_backend s st) (world st)"
    and "store_calls (memlog_backend E enc dec :: (nat, 'v, 'u, mlog) backend) W s cs st = (rs, st')"
    and "kv_calls (memlog_backend E enc dec :: (nat, 'v, 'u, mlog) backend) (store_backend s st) cs (world st) = (rs0, w')"
  shows "rs = map2 (wrapped (store_name s st)) cs rs0 \<and> world st' = w'
     \<and> dict_trace enc dec errKeyUnknown (ml_content (store_backend s st) (world st)) cs rs0
     \<and> becomes ml_opened ml_content (store_backend s st)
         (fold (dict_step enc) cs (ml_content (store_backend s st) (world st))) (world st) w'
     \<and> heap st' = heap st \<and> reg_active st' = reg_active st \<and> reg_wg st' = reg_wg st"
  using kv_backend.store_calls_dict [OF memlog.kv_backend_axioms assms(1-5)] assms(6) by auto

definition one_store :: "(nat, bool \<times> nat, mlog) sstate" where
  "one_store = \<lparr>reg_active = fmupd ''a'' 0 fmempty, reg_wg = 1, heap = [\<lparr>refCount = 1, sname = ''a'', sbackend = 0\<rparr>],
     stores = [\<lparr>shared = 0, activeOps = (False, 0)\<rparr>], world = failing_mlog\<rparr>"

text \<open>The witness: the first write to a failing disk, and a key that is not there.\<close>

theorem registry_store_on_memlog_witness:
  "\<exists>rs st' rs0 w'. store_calls (memlog_backend plain_env Inr Inr :: (nat, mapstr, unit, mlog) backend) plain_wait_group 0
        [KSet ''k'' fmempty, KGet ''l''] one_store = (rs, st')
     \<and> rs = map2 (wrapped ''a'') [KSet ''k'' fmempty, KGet ''l''] rs0
     \<and> last rs = RGet (Inl (ErrorOperation ''a'' ''store/get'' errKeyUnknown))
     \<and> ml_content 0 (world st') ''k'' = Some fmempty \<and> world st' = w'"
proof -
  let ?B = "memlog_backend plain_env Inr Inr :: (nat, mapstr, unit, mlog) backend"
  let ?cs = "[KSet ''k'' (fmempty :: mapstr), KGet ''l'']"
  obtain rs st' where run: "store_calls ?B plain_wait_group 0 ?cs one_store = (rs, st')"
    by (metis prod.exhaust)
  obtain rs0 w' where run0: "kv_calls ?B 0 ?cs failing_mlog = (rs0, w')" by (metis prod.exhaust)
  have st: "0 < length (stores one_store)" "\<not> fst (activeOps (stores one_store ! 0))" "store_backend 0 one_store = 0"
    "world one_store = failing_mlog" "store_name 0 one_store = ''a''"
    by (simp_all add: one_store_def store_backend_def store_name_def)
  have q: "rs = map2 (wrapped ''a'') ?cs rs0" "world st' = w'" "dict_trace Inr Inr errKeyUnknown Map.empty ?cs rs0"
    "ml_content 0 w' ''k'' = Some fmempty"
    using registry_store_on_memlog [OF plain_wait_group_spec st(1,2) _ run] run0 failing_mlog_open
    by (auto simp: st(3,4,5) becomes_def)
  obtain a b where ab: "rs0 = [a, b]" using q(3) by (cases rs0; cases "tl rs0"; cases "tl (tl rs0)") auto
  with q(3) have "b = RGet (Inl errKeyUnknown)" by (cases b) auto
  with q(1) ab have "last rs = RGet (Inl (ErrorOperation ''a'' ''store/get'' errKeyUnknown))" by simp
  then show ?thesis using run q by blast
qed

end
