(* ===== verification/Cleanup.thy ===== *)
theory Cleanup
  imports Prelude
begin

text \<open>
  \<open>pkg/statestore/cleanup\<close>: \<open>cleanup.go\<close> and \<open>multi.go\<close>.  A \<open>func()\<close> acts on the state \<open>'s\<close> of the caller
  and may panic, which unwinds past the code after it; a \<open>*bool\<close> is read when the deferred
  helper runs, not when it is set up, so it is a function of the state.
\<close>

section \<open>Functions with effects\<close>

type_synonym 's proc = "'s \<Rightarrow> error option \<times> 's"   \<comment> \<open>\<open>Some\<close>: a panic\<close>

definition skip :: "'s proc" where "skip s = (None, s)"

definition andThen :: "'s proc \<Rightarrow> 's proc \<Rightarrow> 's proc" where
  "andThen f g s = (case f s of (Some p, s1) \<Rightarrow> (Some p, s1) | (None, s1) \<Rightarrow> g s1)"

lemma andThen_assoc: "andThen (andThen f g) h = andThen f (andThen g h)"
  by (auto simp: andThen_def fun_eq_iff split: prod.splits option.splits)

lemma andThen_skip [simp]: "andThen skip f = f" "andThen f skip = f"
  by (auto simp: andThen_def skip_def fun_eq_iff split: prod.splits option.splits)

section \<open>Helpers for defer\<close>

definition cleanup_If :: "('s \<Rightarrow> bool) \<Rightarrow> 's proc \<Rightarrow> 's proc" where
  "cleanup_If check cleanup s = (if check s then cleanup s else skip s)"

definition cleanup_IfNot :: "('s \<Rightarrow> bool) \<Rightarrow> 's proc \<Rightarrow> 's proc" where
  "cleanup_IfNot check cleanup s = (if \<not> check s then cleanup s else skip s)"

text \<open>A predicate \<open>func() bool\<close> may change the state as well, or panic.\<close>

definition cleanup_IfPred :: "('s \<Rightarrow> bool result \<times> 's) \<Rightarrow> 's proc \<Rightarrow> 's proc" where
  "cleanup_IfPred pred cleanup s =
     (case pred s of (Inl p, s1) \<Rightarrow> (Some p, s1) | (Inr b, s1) \<Rightarrow> if b then cleanup s1 else skip s1)"

definition cleanup_IfNotPred :: "('s \<Rightarrow> bool result \<times> 's) \<Rightarrow> 's proc \<Rightarrow> 's proc" where
  "cleanup_IfNotPred pred cleanup s =
     (case pred s of (Inl p, s1) \<Rightarrow> (Some p, s1) | (Inr b, s1) \<Rightarrow> if \<not> b then cleanup s1 else skip s1)"

text \<open>A \<open>func() error\<close> returns an error, \<open>Inr (Some e)\<close>, or panics, \<open>Inl p\<close>.\<close>

type_synonym 's fallible = "'s \<Rightarrow> error option result \<times> 's"

definition cleanup_WithError :: "(error \<Rightarrow> 's proc) \<Rightarrow> 's fallible \<Rightarrow> 's proc" where
  "cleanup_WithError fn cleanup s =
     (case cleanup s of
        (Inl p, s1) \<Rightarrow> (Some p, s1)
      | (Inr err, s1) \<Rightarrow> (case err of Some e \<Rightarrow> fn e s1 | None \<Rightarrow> skip s1))"

definition cleanup_IgnoreError :: "'s fallible \<Rightarrow> 's proc" where
  "cleanup_IgnoreError cleanup s = (case cleanup s of (Inl p, s1) \<Rightarrow> (Some p, s1) | (Inr err, s1) \<Rightarrow> skip s1)"

section \<open>FailClean\<close>

record 's FailClean =
  success :: bool
  fns :: "'s proc list"

definition FailClean_new :: "'s FailClean" where
  "FailClean_new = \<lparr>success = False, fns = []\<rparr>"

definition FailClean_Signal :: "bool \<Rightarrow> 's FailClean \<Rightarrow> 's FailClean" where
  "FailClean_Signal b f = f\<lparr>success := b\<rparr>"

definition FailClean_Add :: "'s proc \<Rightarrow> 's FailClean \<Rightarrow> 's FailClean" where
  "FailClean_Add fn f = f\<lparr>fns := fns f @ [fn]\<rparr>"

text \<open>The loop of \<open>Cleanup\<close> runs \<open>fns[i - 1]\<close> down to \<open>fns[0]\<close>.\<close>

fun cleanup_loop :: "'s proc list \<Rightarrow> nat \<Rightarrow> 's proc" where
  "cleanup_loop fs 0 s = (None, s)"
| "cleanup_loop fs (Suc i) s =
     (case (fs ! i) s of (Some p, s1) \<Rightarrow> (Some p, s1) | (None, s1) \<Rightarrow> cleanup_loop fs i s1)"

definition FailClean_Cleanup :: "'s FailClean \<Rightarrow> 's proc" where
  "FailClean_Cleanup f s = (if success f then (None, s) else cleanup_loop (fns f) (length (fns f)) s)"

section \<open>Properties\<close>

lemma cleanup_loop_rev:
  "i \<le> length fs \<Longrightarrow> cleanup_loop fs i = foldr andThen (rev (take i fs)) skip"
proof (induction i)
  case 0
  then show ?case by (simp add: fun_eq_iff skip_def)
next
  case (Suc i)
  then have "rev (take (Suc i) fs) = (fs ! i) # rev (take i fs)" by (simp add: take_Suc_conv_app_nth)
  then have "foldr andThen (rev (take (Suc i) fs)) skip = andThen (fs ! i) (cleanup_loop fs i)" using Suc by simp
  moreover have "cleanup_loop fs (Suc i) = andThen (fs ! i) (cleanup_loop fs i)" by (simp add: fun_eq_iff andThen_def)
  ultimately show ?case by simp
qed

text \<open>\<open>FailClean\<close>.  Whatever handlers were added, and however often \<open>Signal\<close> was called, \<open>Cleanup\<close> does
  nothing when the last signal was success; otherwise, and when no signal came, it runs all handlers,
  each once, the last added first, and stops only where one panics.\<close>

lemma FailClean_runs_in_reverse:
  "FailClean_Cleanup (fold FailClean_Add hs (fold FailClean_Signal bs FailClean_new)) =
     (if bs \<noteq> [] \<and> last bs then skip else foldr andThen (rev hs) skip)"
proof -
  have add: "success (fold FailClean_Add hs f) = success f \<and> fns (fold FailClean_Add hs f) = fns f @ hs" for f :: "'a FailClean"
    by (induction hs arbitrary: f) (simp_all add: FailClean_Add_def)
  have sig: "success (fold FailClean_Signal bs f) = (if bs = [] then success f else last bs)
      \<and> fns (fold FailClean_Signal bs f) = fns f" for f :: "'a FailClean"
    by (induction bs arbitrary: f) (simp_all add: FailClean_Signal_def)
  show ?thesis
    by (simp add: fun_eq_iff FailClean_Cleanup_def add sig FailClean_new_def skip_def cleanup_loop_rev)
qed

end
