(* ===== verification/Cursor.thy ===== *)
theory Cursor
  imports Backend Acker
begin

text \<open>
  \<open>pkg/manager/input/input-cursor\<close>: the state of stateful inputs (\<open>store.go\<close>, \<open>publish.go\<close>, \<open>clean.go\<close>,
  \<open>cursor.go\<close> and the acknowledgement handler of \<open>input.go\<close>).  Each source has a resource in memory that may be
  ahead of the persistent store; cursor updates reach the persistent store once their events were
  acknowledged.

  A definition is the critical section of the lock the source holds (\<open>stateMutex\<close> of the resource, \<open>mu\<close> of the
  table).  Parameters: \<open>typeconv.Convert\<close> as a function \<open>conv\<close> of the old target and the source to an error
  and the new target; the clock, as the result of the \<open>time.Now()\<close> call; the persistent store.
\<close>

section \<open>Time and values\<close>

text \<open>\<open>time.Time\<close> in nanoseconds since the zero time, \<open>time.Duration\<close> in nanoseconds.\<close>

type_synonym go_time = int
type_synonym go_duration = int

definition zero_time :: go_time where "zero_time = 0"

type_synonym conversion = "gval \<Rightarrow> gval \<Rightarrow> error option \<times> gval"

text \<open>The document in the registry.\<close>

record state =
  TTL :: go_duration
  Updated :: go_time
  sCursor :: gval

section \<open>Resources\<close>

record resource =
  pending :: u64
  locked :: bool
  rkey :: string
  stored :: bool
  internalInSync :: bool
  activeCursorOperations :: u64
  rTTL :: go_duration
  rUpdated :: go_time
  cursor :: gval
  pendingCursor :: gval

definition new_resource :: "string \<Rightarrow> resource" where
  "new_resource key = \<lparr>pending = 0, locked = False, rkey = key, stored = False, internalInSync = False,
     activeCursorOperations = 0, rTTL = 0, rUpdated = zero_time, cursor = VNil, pendingCursor = VNil\<rparr>"

definition resource_IsNew :: "resource \<Rightarrow> bool" where
  "resource_IsNew r \<longleftrightarrow> pendingCursor r = VNil \<and> cursor r = VNil"

definition resource_Retain :: "resource \<Rightarrow> resource" where
  "resource_Retain r = r\<lparr>pending := pending r + 1\<rparr>"

definition resource_Release :: "resource \<Rightarrow> resource" where
  "resource_Release r = r\<lparr>pending := pending r - 1\<rparr>"

definition UpdatesReleaseN :: "u64 \<Rightarrow> resource \<Rightarrow> resource" where
  "UpdatesReleaseN n r = r\<lparr>pending := pending r - n\<rparr>"

text \<open>The lock of a resource (a \<open>unison.Mutex\<close>): \<open>TryLock\<close>, and \<open>releaseResource\<close> of \<open>manager.go\<close>.\<close>

definition resource_TryLock :: "resource \<Rightarrow> bool \<times> resource" where
  "resource_TryLock r = (if locked r then (False, r) else (True, r\<lparr>locked := True\<rparr>))"

definition releaseResource :: "resource \<Rightarrow> resource" where
  "releaseResource r = resource_Release (r\<lparr>locked := False\<rparr>)"

definition Finished :: "resource \<Rightarrow> bool" where
  "Finished r \<longleftrightarrow> pending r = 0"

definition UnpackCursor :: "conversion \<Rightarrow> gval \<Rightarrow> resource \<Rightarrow> error option \<times> gval" where
  "UnpackCursor conv target r =
     (if activeCursorOperations r = 0 then conv target (cursor r) else conv target (pendingCursor r))"

definition inSyncStateSnapshot :: "resource \<Rightarrow> state" where
  "inSyncStateSnapshot r = \<lparr>TTL = rTTL r, Updated = rUpdated r, sCursor = cursor r\<rparr>"

definition stateSnapshot :: "resource \<Rightarrow> state" where
  "stateSnapshot r =
     (let c = (if activeCursorOperations r = 0 then cursor r else pendingCursor r) in
      \<lparr>TTL = rTTL r, Updated = rUpdated r, sCursor = c\<rparr>)"

section \<open>The store\<close>

text \<open>The calls the package makes on its \<open>statestore.Store\<close>, with state \<open>'p\<close>.\<close>

record 'p persist =
  pSet :: "string \<Rightarrow> state \<Rightarrow> 'p \<Rightarrow> error option \<times> 'p"
  pRemove :: "string \<Rightarrow> 'p \<Rightarrow> error option \<times> 'p"
  pEach :: "(state, (string, resource) fmap) each_fn \<Rightarrow> (string, resource) fmap \<Rightarrow> 'p
     \<Rightarrow> (error option \<times> (string, resource) fmap) \<times> 'p"
  pClose :: "'p \<Rightarrow> error option \<times> 'p"

record updateOp =
  op_resource :: nat
  timestamp :: go_time
  delta :: gval

text \<open>
  Resources and update operations are pointers into the lists of those allocated; an operation that
  is \<open>done\<close> has been zeroed (\<open>None\<close>).
\<close>

record 'p store =
  persistentStore :: 'p
  table :: "(string, nat) fmap"
  resources :: "resource list"
  ops :: "updateOp option list"

definition upd_resource :: "nat \<Rightarrow> (resource \<Rightarrow> resource) \<Rightarrow> 'p store \<Rightarrow> 'p store" where
  "upd_resource a f c = c\<lparr>resources := (resources c)[a := f (resources c ! a)]\<rparr>"

text \<open>\<open>readStates\<close>: entries that do not decode are logged and skipped.\<close>

definition readStates :: "'p persist \<Rightarrow> string \<Rightarrow> 'p \<Rightarrow> (string, resource) fmap result \<times> 'p" where
  "readStates P pfx p =
     (let keyPrefix = pfx @ ''::'' in
      case pEach P
          (\<lambda>key dec states.
             if \<not> prefix keyPrefix key then ((True, None), states)
             else case dec of
                 Inl e \<Rightarrow> ((True, None), states)
               | Inr st \<Rightarrow>
                   ((True, None), fmupd key ((new_resource key)\<lparr>stored := True, internalInSync := True,
                      rTTL := TTL st, rUpdated := Updated st, cursor := sCursor st\<rparr>) states))
          fmempty p of
        ((Some e, states), p') \<Rightarrow> (Inl e, p')
      | ((None, states), p') \<Rightarrow> (Inr states, p'))"

text \<open>Pointers for the resources of a table: one each, in the order of a list of its keys.\<close>

definition alloc_states :: "(string, resource) fmap \<Rightarrow> (string, nat) fmap \<times> resource list" where
  "alloc_states states =
     (let keys = sorted_list_of_fset (fmdom states) in
      (fmap_of_list (zip keys [0..<length keys]), map (\<lambda>k. the (fmlookup states k)) keys))"

text \<open>When reading fails the persistent store is closed again; its state is the second result.\<close>

definition cursor_openStore :: "'p persist \<Rightarrow> 'p result \<Rightarrow> string \<Rightarrow> 'p store result \<times> 'p option" where
  "cursor_openStore P access pfx =
     (case access of
        Inl e \<Rightarrow> (Inl e, None)
      | Inr p \<Rightarrow>
          (case readStates P pfx p of
             (Inl e, p') \<Rightarrow> (Inl e, Some (snd (pClose P p')))
           | (Inr states, p') \<Rightarrow>
               (case alloc_states states of (t, rs) \<Rightarrow>
                  (Inr \<lparr>persistentStore = p', table = t, resources = rs, ops = []\<rparr>, Some p'))))"

definition states_Find :: "string \<Rightarrow> bool \<Rightarrow> 'p store \<Rightarrow> nat option \<times> 'p store" where
  "states_Find key create c =
     (case fmlookup (table c) key of
        Some a \<Rightarrow> (Some a, upd_resource a resource_Retain c)
      | None \<Rightarrow>
          if \<not> create then (None, c)
          else let a = length (resources c) in
            (Some a, upd_resource a resource_Retain
               (c\<lparr>resources := resources c @ [new_resource key], table := fmupd key a (table c)\<rparr>)))"

definition store_Get :: "string \<Rightarrow> 'p store \<Rightarrow> nat option \<times> 'p store" where
  "store_Get key c = states_Find key True c"

definition UpdateTTL :: "'p persist \<Rightarrow> go_time \<Rightarrow> nat \<Rightarrow> go_duration \<Rightarrow> 'p store \<Rightarrow> 'p store" where
  "UpdateTTL P now a ttl c =
     (let r = resources c ! a in
      if stored r \<and> rTTL r = ttl then c
      else let r1 = r\<lparr>rTTL := ttl\<rparr>;
               r2 = (if rUpdated r1 = zero_time then r1\<lparr>rUpdated := now\<rparr> else r1) in
        case pSet P (rkey r2) \<lparr>TTL = rTTL r2, Updated = rUpdated r2, sCursor = cursor r2\<rparr> (persistentStore c) of
          (Some e, p) \<Rightarrow> upd_resource a (\<lambda>_. r2\<lparr>internalInSync := False\<rparr>) (c\<lparr>persistentStore := p\<rparr>)
        | (None, p) \<Rightarrow> upd_resource a (\<lambda>_. r2\<lparr>stored := True, internalInSync := True\<rparr>) (c\<lparr>persistentStore := p\<rparr>))"

section \<open>Publishing\<close>

text \<open>
  \<open>createUpdateOp\<close>.  Without active operations the pending cursor is first copied into a fresh
  \<open>interface{}\<close>; an error of that conversion is ignored.
\<close>

definition createUpdateOp :: "conversion \<Rightarrow> go_time \<Rightarrow> nat \<Rightarrow> gval \<Rightarrow> 'p store \<Rightarrow> nat result \<times> 'p store" where
  "createUpdateOp conv ts a updates c =
     (let r = resources c ! a;
          r1 = (if activeCursorOperations r = 0 then r\<lparr>pendingCursor := snd (conv VNil (pendingCursor r))\<rparr> else r) in
      case conv (pendingCursor r1) updates of
        (Some e, _) \<Rightarrow> (Inl e, upd_resource a (\<lambda>_. r1) c)
      | (None, cur) \<Rightarrow>
          (let r2 = resource_Retain (r1\<lparr>pendingCursor := cur\<rparr>);
               r3 = r2\<lparr>activeCursorOperations := activeCursorOperations r2 + 1\<rparr> in
           (Inr (length (ops c)),
            (upd_resource a (\<lambda>_. r3) c)\<lparr>ops := ops c @ [Some \<lparr>op_resource = a, timestamp = ts, delta = updates\<rparr>]\<rparr>)))"

text \<open>\<open>done\<close> releases the resource and zeroes the operation.\<close>

definition op_done :: "u64 \<Rightarrow> nat \<Rightarrow> 'p store \<Rightarrow> 'p store" where
  "op_done n i c =
     (case ops c ! i of
        None \<Rightarrow> c
      | Some u \<Rightarrow> (upd_resource (op_resource u) (UpdatesReleaseN n) c)\<lparr>ops := (ops c)[i := None]\<rparr>)"

text \<open>The state of the resource \<open>Execute\<close> writes to the store.\<close>

definition executed :: "conversion \<Rightarrow> u64 \<Rightarrow> updateOp \<Rightarrow> resource \<Rightarrow> resource" where
  "executed conv n u r =
     (let r1 = r\<lparr>activeCursorOperations := activeCursorOperations r - n\<rparr>;
          r2 = (if activeCursorOperations r1 = 0
                then r1\<lparr>cursor := pendingCursor r1, pendingCursor := VNil\<rparr>
                else r1\<lparr>cursor := snd (conv (cursor r1) (delta u))\<rparr>) in
      if rUpdated r2 < timestamp u then r2\<lparr>rUpdated := timestamp u\<rparr> else r2)"

definition Execute :: "'p persist \<Rightarrow> conversion \<Rightarrow> u64 \<Rightarrow> nat \<Rightarrow> 'p store \<Rightarrow> 'p store result" where
  "Execute P conv n i c =
     (case ops c ! i of
        None \<Rightarrow> Inl (Panic ''nil pointer dereference'')
      | Some u \<Rightarrow>
          (let a = op_resource u; r = executed conv n u (resources c ! a) in
           case pSet P (rkey r) (inSyncStateSnapshot r) (persistentStore c) of
             (Some e, p) \<Rightarrow> Inr (op_done n i (upd_resource a (\<lambda>_. r) (c\<lparr>persistentStore := p\<rparr>)))
           | (None, p) \<Rightarrow>
               Inr (op_done n i (upd_resource a (\<lambda>_. r\<lparr>internalInSync := True, stored := True\<rparr>)
                 (c\<lparr>persistentStore := p\<rparr>)))))"

text \<open>What an event carries in \<open>Private\<close>, when that is not nil: an update operation or a foreign value.\<close>

datatype priv = POp nat | POther

text \<open>
  \<open>Publish\<close> up to the call of the client: it gives the \<open>Private\<close> field the event is sent with.  \<open>forward\<close>
  then publishes and reports the error of the canceler, if there is a canceler.
\<close>

definition cursor_Publish ::
    "conversion \<Rightarrow> go_time \<Rightarrow> nat \<Rightarrow> priv option \<Rightarrow> gval \<Rightarrow> 'p store \<Rightarrow> priv option result \<times> 'p store" where
  "cursor_Publish conv ts a private update c =
     (if update = VNil then (Inr private, c)
      else case createUpdateOp conv ts a update c of
          (Inl e, c1) \<Rightarrow> (Inl e, c1)
        | (Inr i, c1) \<Rightarrow> (Inr (Some (POp i)), c1))"

definition forward :: "('w \<Rightarrow> 'w) \<Rightarrow> ('w \<Rightarrow> error option) option \<Rightarrow> 'w \<Rightarrow> error option \<times> 'w" where
  "forward client_Publish canceler w =
     (let w1 = client_Publish w in (case canceler of None \<Rightarrow> None | Some err \<Rightarrow> err w1, w1))"

section \<open>Acknowledgements\<close>

text \<open>The loop of the handler: how many update operations the batch has, and the index of the last.\<close>

fun ack_scan :: "priv option list \<Rightarrow> nat \<Rightarrow> u64 \<times> nat \<Rightarrow> u64 \<times> nat" where
  "ack_scan [] i acc = acc"
| "ack_scan (current # private) i (n, lastIdx) =
     (case current of
        Some (POp k) \<Rightarrow> ack_scan private (Suc i) (n + 1, i)
      | _ \<Rightarrow> ack_scan private (Suc i) (n, lastIdx))"

definition newInputACKHandler :: "'p persist \<Rightarrow> conversion \<Rightarrow> int \<Rightarrow> priv option list \<Rightarrow> 'p store \<Rightarrow> 'p store result" where
  "newInputACKHandler P conv acked private c =
     (case ack_scan private 0 (0, 0) of
        (n, lastIdx) \<Rightarrow>
          if n = 0 then Inr c
          else case private ! lastIdx of
              Some (POp i) \<Rightarrow> Execute P conv n i c
            | _ \<Rightarrow> Inl (Panic ''interface conversion''))"

section \<open>The cleaner\<close>

definition checkCleanResource :: "go_time \<Rightarrow> go_time \<Rightarrow> resource \<Rightarrow> bool" where
  "checkCleanResource started now r =
     (if \<not> Finished r then False
      else let reference = (if started > rUpdated r then started else rUpdated r) in
        reference + rTTL r < now \<and> stored r)"

definition gcFind :: "go_time \<Rightarrow> go_time \<Rightarrow> 'p store \<Rightarrow> string fset" where
  "gcFind started now c =
     ffilter (\<lambda>key. case fmlookup (table c) key of
        Some a \<Rightarrow> checkCleanResource started now (resources c ! a) | None \<Rightarrow> False) (fmdom (table c))"

text \<open>\<open>gcClean\<close> takes the keys in the order a \<open>range\<close> over the set gives them.\<close>

fun gcClean :: "'p persist \<Rightarrow> string list \<Rightarrow> 'p store \<Rightarrow> error option \<times> 'p store" where
  "gcClean P [] c = (None, c)"
| "gcClean P (key # keys) c =
     (case pRemove P key (persistentStore c) of
        (Some e, p) \<Rightarrow> (Some e, c\<lparr>persistentStore := p\<rparr>)
      | (None, p) \<Rightarrow> gcClean P keys (c\<lparr>persistentStore := p, table := fmdrop key (table c)\<rparr>))"

definition gcStore :: "'p persist \<Rightarrow> (string fset \<Rightarrow> string list) \<Rightarrow> go_time \<Rightarrow> go_time \<Rightarrow> 'p store \<Rightarrow> 'p store" where
  "gcStore P order started now c =
     (let keys = gcFind started now c in
      if keys = {||} then c else snd (gcClean P (order keys) c))"

text \<open>
  \<open>cleaner.run\<close>: \<open>timed.Periodic\<close> calls the function at every tick until the canceler is done.  \<open>ticks\<close> are the
  times \<open>gcStore\<close> then reads from the clock.
\<close>

definition cleaner_run ::
    "'p persist \<Rightarrow> (string fset \<Rightarrow> string list) \<Rightarrow> go_time \<Rightarrow> go_time list \<Rightarrow> 'p store \<Rightarrow> 'p store" where
  "cleaner_run P order started ticks c = fold (gcStore P order started) ticks c"

section \<open>The cursor handed to an input\<close>

definition Cursor_IsNew :: "nat \<Rightarrow> 'p store \<Rightarrow> bool" where
  "Cursor_IsNew a c \<longleftrightarrow> resource_IsNew (resources c ! a)"

definition Cursor_Unpack :: "conversion \<Rightarrow> gval \<Rightarrow> nat \<Rightarrow> 'p store \<Rightarrow> error option \<times> gval" where
  "Cursor_Unpack conv target a c =
     (if Cursor_IsNew a c then (None, target) else UnpackCursor conv target (resources c ! a))"

end
