(* ===== verification/Cursor_Updates.thy ===== *)
theory Cursor_Updates
  imports Cursor
begin

text \<open>
  From \<open>Publish\<close> to the persistent store: the pending updates of a resource as a queue, the effect of
  publishing and acknowledging on it, and the composition with the ACK tracker of the client.
\<close>

section \<open>What is assumed of the parameters\<close>

text \<open>Converting into an \<open>interface{}\<close> replaces its value by a normal form of the source.\<close>

definition replaces :: "conversion \<Rightarrow> (gval \<Rightarrow> gval) \<Rightarrow> bool" where
  "replaces conv norm \<longleftrightarrow> (\<forall>t u. conv t u = (None, norm u))"

text \<open>
  A persistent store while \<open>ok\<close> holds of it: \<open>saved\<close> is what it answers from, and a \<open>Set\<close> changes that.  It may
  report an error as well, as memlog does when the value is in memory but could not be logged.
\<close>

definition persist_ok :: "'p persist \<Rightarrow> ('p \<Rightarrow> bool) \<Rightarrow> ('p \<Rightarrow> string \<rightharpoonup> state) \<Rightarrow> bool" where
  "persist_ok P ok saved \<longleftrightarrow>
     (\<forall>p k v e p'. ok p \<longrightarrow> pSet P k v p = (e, p') \<longrightarrow> ok p' \<and> saved p' = (saved p)(k \<mapsto> v))"

lemma conv_replaces: "replaces conv norm \<Longrightarrow> conv t u = (None, norm u)"
  by (simp add: replaces_def)

section \<open>The queue of pending updates\<close>

lemma upd_resource_simps [simp]:
  "length (resources (upd_resource a f c)) = length (resources c)" "ops (upd_resource a f c) = ops c"
  "table (upd_resource a f c) = table c" "persistentStore (upd_resource a f c) = persistentStore c"
  "a < length (resources c) \<Longrightarrow> resources (upd_resource a f c) ! a = f (resources c ! a)"
  "b \<noteq> a \<Longrightarrow> resources (upd_resource a f c) ! b = resources c ! b"
  by (simp_all add: upd_resource_def)

definition op_delta :: "'p store \<Rightarrow> nat \<Rightarrow> gval" where
  "op_delta c i = delta (the (ops c ! i))"

text \<open>
  The state of resource \<open>a\<close>: the updates \<open>acked\<close> have been executed, the operations \<open>os\<close> are pending, in order;
  \<open>owners\<close> inputs hold the resource.
\<close>

definition tracks ::
    "(gval \<Rightarrow> gval) \<Rightarrow> 'p store \<Rightarrow> nat \<Rightarrow> gval \<Rightarrow> nat \<Rightarrow> gval list \<Rightarrow> nat list \<Rightarrow> bool" where
  "tracks norm c a init owners acked os \<longleftrightarrow>
     a < length (resources c) \<and> distinct os
     \<and> (\<forall>i \<in> set os. i < length (ops c) \<and> (\<exists>u. ops c ! i = Some u \<and> op_resource u = a))
     \<and> activeCursorOperations (resources c ! a) = of_nat (length os)
     \<and> pending (resources c ! a) = of_nat (owners + length os)
     \<and> cursor (resources c ! a) = (if acked = [] then init else norm (last acked))
     \<and> pendingCursor (resources c ! a) = (if os = [] then VNil else norm (op_delta c (last os)))"

lemma createUpdateOp_tracks:
  assumes "tracks norm c a init owners acked os" and "replaces conv norm"
    and "createUpdateOp conv ts a u c = (r, c')"
  shows "r = Inr (length (ops c)) \<and> tracks norm c' a init owners acked (os @ [length (ops c)])
     \<and> op_delta c' (length (ops c)) = u \<and> (\<forall>i < length (ops c). ops c' ! i = ops c ! i)
     \<and> length (ops c') = Suc (length (ops c)) \<and> persistentStore c' = persistentStore c
     \<and> rkey (resources c' ! a) = rkey (resources c ! a)
     \<and> inSyncStateSnapshot (resources c' ! a) = inSyncStateSnapshot (resources c ! a)"
proof -
  let ?r = "resources c ! a"
  define r1 where "r1 = (if activeCursorOperations ?r = 0 then ?r\<lparr>pendingCursor := snd (conv VNil (pendingCursor ?r))\<rparr> else ?r)"
  define r3 where "r3 = r1\<lparr>pendingCursor := norm u, pending := pending r1 + 1,
      activeCursorOperations := activeCursorOperations r1 + 1\<rparr>"
  have c': "c' = (upd_resource a (\<lambda>_. r3) c)\<lparr>ops := ops c @ [Some \<lparr>op_resource = a, timestamp = ts, delta = u\<rparr>]\<rparr>"
    and r: "r = Inr (length (ops c))"
    using assms(3) by (auto simp: createUpdateOp_def conv_replaces [OF assms(2)] Let_def resource_Retain_def r1_def r3_def)
  have a: "a < length (resources c)" using assms(1) by (simp add: tracks_def)
  have r1: "pending r1 = pending ?r" "activeCursorOperations r1 = activeCursorOperations ?r" "cursor r1 = cursor ?r"
    "rkey r1 = rkey ?r" "rTTL r1 = rTTL ?r" "rUpdated r1 = rUpdated ?r"
    by (simp_all add: r1_def)
  have res: "resources c' ! a = r3" "length (resources c') = length (resources c)"
    "ops c' = ops c @ [Some \<lparr>op_resource = a, timestamp = ts, delta = u\<rparr>]" "persistentStore c' = persistentStore c"
    using a by (simp_all add: c' upd_resource_def)
  have "op_delta c' (length (ops c)) = u" by (simp add: op_delta_def res(3))
  then show ?thesis
    using assms(1) r by (auto simp: tracks_def res r3_def r1 nth_append less_Suc_eq inSyncStateSnapshot_def)
qed

lemma of_nat_zero: "k < 2 ^ 64 \<Longrightarrow> (of_nat k :: u64) = 0 \<longleftrightarrow> k = 0"
  using nat_dvd_not_less [of k "2 ^ 64"] by (cases "k = 0") (simp_all add: word_of_nat_eq_0_iff)

lemma last_take_nth: "0 < n \<Longrightarrow> n \<le> length xs \<Longrightarrow> last (take n xs) = xs ! (n - 1)"
  by (cases n) (simp_all add: take_Suc_conv_app_nth)

lemma drop_distinct_nth:
  assumes "distinct xs" and "n \<le> length xs" and "0 < n"
  shows "xs ! (n - 1) \<notin> set (drop n xs)"
proof -
  have "xs ! (n - 1) \<in> set (take n xs)" using assms(2,3) by (auto simp: in_set_conv_nth intro!: exI [of _ "n - 1"])
  then show ?thesis using set_take_disj_set_drop_if_distinct [OF assms(1), of n n] by auto
qed

text \<open>An acknowledged batch: the operation at its end executes for all of them.\<close>

lemma Execute_tracks:
  assumes "tracks norm c a init owners acked os" and "replaces conv norm" and "persist_ok P ok saved"
    and "ok (persistentStore c)" and "0 < n" and "n \<le> length os" and "length os < 2 ^ 64"
  shows "\<exists>c'. Execute P conv (of_nat n) (os ! (n - 1)) c = Inr c'
     \<and> tracks norm c' a init owners (acked @ map (op_delta c) (take n os)) (drop n os)
     \<and> ok (persistentStore c')
     \<and> (\<exists>st. saved (persistentStore c') = (saved (persistentStore c))(rkey (resources c ! a) \<mapsto> st)
          \<and> sCursor st = norm (op_delta c (os ! (n - 1))) \<and> st = inSyncStateSnapshot (resources c' ! a))
     \<and> (\<forall>i \<in> set (drop n os). ops c' ! i = ops c ! i) \<and> length (ops c') = length (ops c)
     \<and> rkey (resources c' ! a) = rkey (resources c ! a)"
proof -
  let ?i = "os ! (n - 1)" and ?r = "resources c ! a"
  have a: "a < length (resources c)" and i: "?i \<in> set os" "?i < length (ops c)"
    using assms(1,5,6) by (auto simp: tracks_def)
  obtain u where u: "ops c ! ?i = Some u" "op_resource u = a" using assms(1) i(1) by (auto simp: tracks_def)
  have dlt: "op_delta c ?i = delta u" using u(1) by (simp add: op_delta_def)
  have active: "activeCursorOperations ?r - of_nat n = of_nat (length (drop n os))"
    and pend: "pending ?r - of_nat n = of_nat (owners + length (drop n os))"
    using assms(1,6) by (simp_all add: tracks_def of_nat_diff)
  have zero: "(of_nat (length (drop n os)) :: u64) = 0 \<longleftrightarrow> drop n os = []"
    using of_nat_zero [of "length (drop n os)"] assms(7) by simp
  define r3 where "r3 = executed conv (of_nat n) u ?r"
  have last: "drop n os = [] \<Longrightarrow> pendingCursor ?r = norm (delta u)"
    using assms(1,5,6) dlt by (auto simp: tracks_def last_conv_nth)
  have r3: "activeCursorOperations r3 = of_nat (length (drop n os))" "pending r3 = pending ?r" "rkey r3 = rkey ?r"
    "cursor r3 = norm (delta u)"
    "pendingCursor r3 = (if drop n os = [] then VNil else pendingCursor ?r)"
    using last active zero by (auto simp: r3_def executed_def Let_def conv_replaces [OF assms(2)])
  obtain e p where set: "pSet P (rkey r3) (inSyncStateSnapshot r3) (persistentStore c) = (e, p)" by (metis prod.exhaust)
  then have p: "ok p" "saved p = (saved (persistentStore c))(rkey ?r \<mapsto> inSyncStateSnapshot r3)"
    using assms(3,4) r3(3) by (auto simp: persist_ok_def)
  define r4 where "r4 = (if e = None then r3\<lparr>internalInSync := True, stored := True\<rparr> else r3)"
  define c1 where "c1 = upd_resource a (\<lambda>_. r4) (c\<lparr>persistentStore := p\<rparr>)"
  have run: "Execute P conv (of_nat n) ?i c = Inr (op_done (of_nat n) ?i c1)"
    using u set by (cases e) (simp_all add: Execute_def Let_def r3_def [symmetric] c1_def r4_def)
  have c1: "ops c1 = ops c" "persistentStore c1 = p" "length (resources c1) = length (resources c)"
    "resources c1 ! a = r4"
    using a by (simp_all add: c1_def upd_resource_def)
  define c2 where "c2 = op_done (of_nat n) ?i c1"
  have c2: "persistentStore c2 = p" "length (resources c2) = length (resources c)" "ops c2 = (ops c)[?i := None]"
    "resources c2 ! a = UpdatesReleaseN (of_nat n) r4"
    using a u c1 by (simp_all add: c2_def op_done_def)
  have r4: "activeCursorOperations r4 = activeCursorOperations r3" "pending r4 = pending r3" "rkey r4 = rkey r3"
    "cursor r4 = cursor r3" "pendingCursor r4 = pendingCursor r3" "rTTL r4 = rTTL r3" "rUpdated r4 = rUpdated r3"
    by (simp_all add: r4_def)
  have notin: "?i \<notin> set (drop n os)" using assms(1,5,6) by (intro drop_distinct_nth) (simp_all add: tracks_def)
  have keep: "\<forall>j \<in> set (drop n os). ops c2 ! j = ops c ! j" 
    using notin unfolding c2(3) by (metis nth_list_update_neq)
  then have dk: "op_delta c2 j = op_delta c j" if "j \<in> set (drop n os)" for j using that by (simp add: op_delta_def)
  have "tracks norm c2 a init owners (acked @ map (op_delta c) (take n os)) (drop n os)"
  proof -
    have "take n os \<noteq> []" using assms(5,6) by auto
    then have "last (acked @ map (op_delta c) (take n os)) = delta u"
      by (simp only: last_appendR last_map map_is_Nil_conv not_False_eq_True last_take_nth [OF assms(5,6)] dlt)
    then have "cursor (resources c2 ! a) = norm (last (acked @ map (op_delta c) (take n os)))"
      by (simp add: c2(4) UpdatesReleaseN_def r4 r3(4))
    moreover have "pendingCursor (resources c2 ! a) = (if drop n os = [] then VNil else norm (op_delta c2 (last (drop n os))))"
    proof (cases "drop n os = []")
      case True
      then show ?thesis by (simp add: c2(4) UpdatesReleaseN_def r4 r3(5))
    next
      case False
      then have "last (drop n os) = last os" "os \<noteq> []" by (auto simp: last_drop)
      then show ?thesis
        using False assms(1) dk [OF last_in_set [OF False]]
        by (simp add: c2(4) UpdatesReleaseN_def r4 r3(5) tracks_def)
    qed
    moreover have "\<forall>j \<in> set (drop n os). j < length (ops c2) \<and> (\<exists>u. ops c2 ! j = Some u \<and> op_resource u = a)"
      using assms(1) keep by (auto simp: tracks_def c2(3) dest: in_set_dropD)
    moreover have "os \<noteq> []" using assms(5,6) by auto
    ultimately show ?thesis
      using assms(1,5,6) a pend by (simp add: tracks_def c2(2,4) UpdatesReleaseN_def r4 r3(1,2))
  qed
  then show ?thesis
    using run [folded c2_def] keep p dlt r3(3,4) r4
    by (intro exI [of _ c2]) (auto simp: c2 inSyncStateSnapshot_def UpdatesReleaseN_def)
qed

section \<open>The acknowledgement handler\<close>

fun priv_op :: "priv option \<Rightarrow> nat option" where
  "priv_op (Some (POp i)) = Some i"
| "priv_op _ = None"

abbreviation priv_ops :: "priv option list \<Rightarrow> nat list" where
  "priv_ops d \<equiv> List.map_filter priv_op d"

lemma priv_ops_simps [simp]:
  "priv_ops [] = []" "priv_ops (x # d) = (case priv_op x of None \<Rightarrow> [] | Some i \<Rightarrow> [i]) @ priv_ops d"
  "priv_ops (d @ e) = priv_ops d @ priv_ops e"
  by (simp_all add: List.map_filter_def split: option.splits)

lemma ack_scan_counts:
  "\<exists>j'. ack_scan d i (n, j) = (n + of_nat (length (priv_ops d)), j')
     \<and> (if priv_ops d = [] then j' = j
        else i \<le> j' \<and> j' < i + length d \<and> d ! (j' - i) = Some (POp (last (priv_ops d))))"
proof (induction d arbitrary: i n j)
  case (Cons x d)
  show ?case
  proof (cases "priv_op x")
    case None
    then have scan: "ack_scan (x # d) i (n, j) = ack_scan d (Suc i) (n, j)"
      by (cases x rule: priv_op.cases) simp_all
    from Cons [of "Suc i" n j] show ?thesis
    proof (elim exE, intro exI)
      fix j'
      assume "ack_scan d (Suc i) (n, j) = (n + of_nat (length (priv_ops d)), j')
        \<and> (if priv_ops d = [] then j' = j
           else Suc i \<le> j' \<and> j' < Suc i + length d \<and> d ! (j' - Suc i) = Some (POp (last (priv_ops d))))"
      then show "ack_scan (x # d) i (n, j) = (n + of_nat (length (priv_ops (x # d))), j')
        \<and> (if priv_ops (x # d) = [] then j' = j
           else i \<le> j' \<and> j' < i + length (x # d) \<and> (x # d) ! (j' - i) = Some (POp (last (priv_ops (x # d)))))"
        unfolding scan using None by (auto simp: nth_Cons')
    qed
  next
    case (Some k)
    then have x: "x = Some (POp k)" by (cases x rule: priv_op.cases) simp_all
    show ?thesis using Cons [of "Suc i" "n + 1" i] by (fastforce simp: x nth_Cons' Suc_le_eq)
  qed
qed simp

lemma newInputACKHandler_none: "priv_ops d = [] \<Longrightarrow> newInputACKHandler P conv n d c = Inr c"
  using ack_scan_counts [of d 0 0 0] by (auto simp: newInputACKHandler_def)

lemma newInputACKHandler_some:
  assumes "priv_ops d \<noteq> []" and "length (priv_ops d) < 2 ^ 64"
  shows "newInputACKHandler P conv n d c
     = Execute P conv (of_nat (length (priv_ops d))) (last (priv_ops d)) c"
proof -
  have "(of_nat (length (priv_ops d)) :: u64) \<noteq> 0" using assms of_nat_zero by simp
  then show ?thesis using ack_scan_counts [of d 0 0 0] assms(1) by (auto simp: newInputACKHandler_def)
qed

text \<open>What the store holds under the resource's key after the updates \<open>acked\<close>; other keys are untouched.\<close>

definition persisted ::
    "(gval \<Rightarrow> gval) \<Rightarrow> (string \<rightharpoonup> state) \<Rightarrow> (string \<rightharpoonup> state) \<Rightarrow> string \<Rightarrow> gval list \<Rightarrow> bool" where
  "persisted norm saved0 saved1 key acked \<longleftrightarrow>
     (\<forall>k. k \<noteq> key \<longrightarrow> saved1 k = saved0 k)
     \<and> (if acked = [] then saved1 key = saved0 key
        else \<exists>st. saved1 key = Some st \<and> sCursor st = norm (last acked))"

lemma persisted_none [simp]: "persisted norm saved0 saved0 key []"
  by (simp add: persisted_def)

lemma map_filter_take_drop:
  "List.map_filter f (take m xs) = take (length (List.map_filter f (take m xs))) (List.map_filter f xs)"
  "List.map_filter f (drop m xs) = drop (length (List.map_filter f (take m xs))) (List.map_filter f xs)"
proof -
  have "List.map_filter f xs = List.map_filter f (take m xs) @ List.map_filter f (drop m xs)"
    by (metis append_take_drop_id filter_append map_append List.map_filter_def)
  then show "List.map_filter f (take m xs) = take (length (List.map_filter f (take m xs))) (List.map_filter f xs)"
    "List.map_filter f (drop m xs) = drop (length (List.map_filter f (take m xs))) (List.map_filter f xs)"
    by simp_all
qed

text \<open>After an update the record in the store is the part of the state in memory that was acknowledged.\<close>

definition synced :: "('p \<Rightarrow> string \<rightharpoonup> state) \<Rightarrow> 'p store \<Rightarrow> nat \<Rightarrow> gval list \<Rightarrow> bool" where
  "synced saved c a acked \<longleftrightarrow>
     acked \<noteq> [] \<longrightarrow> saved (persistentStore c) (rkey (resources c ! a)) = Some (inSyncStateSnapshot (resources c ! a))"

text \<open>The handler on the acknowledged prefix of the private fields the client still holds.\<close>

lemma handler_tracks:
  assumes "tracks norm c a init owners acked (priv_ops d)" and "replaces conv norm" and "persist_ok P ok saved"
    and "ok (persistentStore c)" and "length (priv_ops d) < 2 ^ 64"
    and "persisted norm saved0 (saved (persistentStore c)) (rkey (resources c ! a)) acked" and "synced saved c a acked"
  shows "\<exists>c'. newInputACKHandler P conv n (take m d) c = Inr c'
     \<and> tracks norm c' a init owners (acked @ map (op_delta c) (priv_ops (take m d))) (priv_ops (drop m d))
     \<and> ok (persistentStore c')
     \<and> persisted norm saved0 (saved (persistentStore c')) (rkey (resources c ! a))
         (acked @ map (op_delta c) (priv_ops (take m d)))
     \<and> synced saved c' a (acked @ map (op_delta c) (priv_ops (take m d)))
     \<and> (\<forall>i \<in> set (priv_ops (drop m d)). ops c' ! i = ops c ! i) \<and> length (ops c') = length (ops c)
     \<and> rkey (resources c' ! a) = rkey (resources c ! a)"
proof (cases "priv_ops (take m d) = []")
  case True
  then have "priv_ops (drop m d) = priv_ops d" using map_filter_take_drop(2) [of priv_op m d] by simp
  then show ?thesis using assms True by (simp add: newInputACKHandler_none)
next
  case False
  let ?j = "length (priv_ops (take m d))"
  have j: "0 < ?j" "?j \<le> length (priv_ops d)"
    using False map_filter_take_drop(1) [of priv_op m d] by (simp, metis length_take min.cobounded1)
  have split: "take ?j (priv_ops d) = priv_ops (take m d)" "drop ?j (priv_ops d) = priv_ops (drop m d)"
    using map_filter_take_drop [of priv_op m d] by simp_all
  have last: "priv_ops d ! (?j - 1) = last (priv_ops (take m d))"
    using last_take_nth [OF j] split(1) by simp
  have "?j < 2 ^ 64" using j assms(5) by simp
  note run = newInputACKHandler_some [OF False this, of P conv n c]
  from Execute_tracks [OF assms(1-4) j assms(5)] obtain c' st where c':
    "Execute P conv (of_nat ?j) (priv_ops d ! (?j - 1)) c = Inr c'"
    "tracks norm c' a init owners (acked @ map (op_delta c) (priv_ops (take m d))) (priv_ops (drop m d))"
    "ok (persistentStore c')"
    "saved (persistentStore c') = (saved (persistentStore c))(rkey (resources c ! a) \<mapsto> st)"
    "sCursor st = norm (op_delta c (priv_ops d ! (?j - 1)))" "st = inSyncStateSnapshot (resources c' ! a)"
    "\<forall>i \<in> set (priv_ops (drop m d)). ops c' ! i = ops c ! i" "length (ops c') = length (ops c)"
    "rkey (resources c' ! a) = rkey (resources c ! a)"
    unfolding split by blast
  have "last (acked @ map (op_delta c) (priv_ops (take m d))) = op_delta c (last (priv_ops (take m d)))"
    by (simp only: last_appendR last_map map_is_Nil_conv False not_False_eq_True)
  then have "persisted norm saved0 (saved (persistentStore c')) (rkey (resources c ! a))
      (acked @ map (op_delta c) (priv_ops (take m d)))"
    using assms(6) c'(4,5) False by (simp only: persisted_def last) simp
  moreover have "synced saved c' a (acked @ map (op_delta c) (priv_ops (take m d)))"
    using c'(4,6,9) by (simp add: synced_def)
  ultimately show ?thesis using trans [OF run c'(1) [unfolded last]] c'(2,3,7-9)
    by (intro exI [of _ c'] conjI)
qed

section \<open>A client of one source\<close>

text \<open>
  The calls on one client: \<open>Publish\<close> of an event whose \<open>Private\<close> field is nil or a value of the input's own,
  with a cursor update (\<open>VNil\<close>: none); the flag says whether the client's processors let the event pass.
  \<open>Acked n\<close> is an acknowledgement of \<open>n\<close> events by the outputs.
\<close>

datatype cursor_step = Published bool gval bool go_time | Acked nat

definition input_event :: "priv option \<Rightarrow> priv event" where
  "input_event pr = \<lparr>Fields = fmempty, Private = pr\<rparr>"

fun cursor_run ::
    "'p persist \<Rightarrow> conversion \<Rightarrow> nat \<Rightarrow> cursor_step list \<Rightarrow> (trackingACKer, priv) eventDataACKer \<Rightarrow> 'p store
     \<Rightarrow> ((trackingACKer, priv) eventDataACKer \<times> 'p store) result" where
  "cursor_run P conv a [] k c = Inr (k, c)"
| "cursor_run P conv a (Published own u pass ts # steps) k c =
     (case cursor_Publish conv ts a (if own then Some POther else None) u c of
        (Inl e, c1) \<Rightarrow> Inl e
      | (Inr pr, c1) \<Rightarrow>
          bind_result (eventData_AddEvent tracking_AddEvent (newInputACKHandler P conv) (input_event pr) pass k c1)
            (\<lambda>(k', c'). cursor_run P conv a steps k' c'))"
| "cursor_run P conv a (Acked n # steps) k c =
     bind_result (eventData_ACKEvents tracking_ACKEvents (newInputACKHandler P conv) (int n) k c)
       (\<lambda>(k', c'). cursor_run P conv a steps k' c')"

fun updates :: "cursor_step list \<Rightarrow> gval list" where
  "updates [] = []"
| "updates (Published own u pass ts # steps) = u # updates steps"
| "updates (Acked n # steps) = updates steps"

fun fates :: "cursor_step list \<Rightarrow> bool list" where
  "fates [] = []"
| "fates (Published own u pass ts # steps) = pass # fates steps"
| "fates (Acked n # steps) = fates steps"

fun acked_total :: "cursor_step list \<Rightarrow> nat" where
  "acked_total [] = 0"
| "acked_total (Published own u pass ts # steps) = acked_total steps"
| "acked_total (Acked n # steps) = n + acked_total steps"

text \<open>The outputs acknowledge only events they were given.\<close>

fun acks_honest :: "bool list \<Rightarrow> nat \<Rightarrow> cursor_step list \<Rightarrow> bool" where
  "acks_honest F N [] = True"
| "acks_honest F N (Published own u pass ts # steps) = acks_honest (F @ [pass]) N steps"
| "acks_honest F N (Acked n # steps) = (N + n \<le> published F \<and> acks_honest F (N + n) steps)"

abbreviation real_updates :: "gval list \<Rightarrow> gval list" where
  "real_updates \<equiv> filter (\<lambda>u. u \<noteq> VNil)"

lemma covered_snoc:
  "n \<le> published F \<Longrightarrow> covered n (F @ [p]) = (if covered n F = length F \<and> \<not> p then Suc (length F) else covered n F)"
  by (induction n F rule: covered.induct) auto

lemma covered_add: "covered (n + m) F = covered n F + covered m (drop (covered n F) F)"
  by (induction n F rule: covered.induct) auto

lemma published_drop_covered: "published (drop (covered n F) F) = published F - n"
  by (induction n F rule: covered.induct) auto

text \<open>A private field of the client and the update of its event.\<close>

definition carries :: "'p store \<Rightarrow> priv option \<Rightarrow> gval \<Rightarrow> bool" where
  "carries c pr u \<longleftrightarrow> (case priv_op pr of None \<Rightarrow> u = VNil | Some i \<Rightarrow> u \<noteq> VNil \<and> op_delta c i = u)"

lemma carries_updates:
  "list_all2 (carries c) d us \<Longrightarrow> map (op_delta c) (priv_ops d) = real_updates us"
  by (induction rule: list_all2_induct) (auto simp: carries_def split: option.splits)

lemma carries_cong:
  assumes "list_all2 (carries c) d us" and "\<forall>i \<in> set (priv_ops d). ops c' ! i = ops c ! i"
  shows "list_all2 (carries c') d us"
  using assms by (induction rule: list_all2_induct) (auto simp: carries_def op_delta_def split: option.splits)

text \<open>
  The invariant of a run: \<open>E\<close> and \<open>F\<close> are the updates and fates of the events so far, \<open>j\<close> of them reported;
  \<open>d\<close> are the private fields the client holds.
\<close>

definition store_inv ::
    "(gval \<Rightarrow> gval) \<Rightarrow> ('p \<Rightarrow> bool) \<Rightarrow> ('p \<Rightarrow> string \<rightharpoonup> state) \<Rightarrow> (string \<rightharpoonup> state) \<Rightarrow> string \<Rightarrow> nat \<Rightarrow> gval \<Rightarrow> nat
     \<Rightarrow> gval list \<Rightarrow> nat \<Rightarrow> priv option list \<Rightarrow> 'p store \<Rightarrow> bool" where
  "store_inv norm ok saved saved0 key a init owners E j d c \<longleftrightarrow>
     tracks norm c a init owners (real_updates (take j E)) (priv_ops d)
     \<and> list_all2 (carries c) d (drop j E)
     \<and> ok (persistentStore c) \<and> rkey (resources c ! a) = key
     \<and> persisted norm saved0 (saved (persistentStore c)) key (real_updates (take j E))
     \<and> synced saved c a (real_updates (take j E))"

definition cursor_inv ::
    "(gval \<Rightarrow> gval) \<Rightarrow> ('p \<Rightarrow> bool) \<Rightarrow> ('p \<Rightarrow> string \<rightharpoonup> state) \<Rightarrow> (string \<rightharpoonup> state) \<Rightarrow> string \<Rightarrow> nat \<Rightarrow> gval \<Rightarrow> nat
     \<Rightarrow> gval list \<Rightarrow> bool list \<Rightarrow> nat \<Rightarrow> (trackingACKer, priv) eventDataACKer \<Rightarrow> 'p store \<Rightarrow> bool" where
  "cursor_inv norm ok saved saved0 key a init owners E F N k c \<longleftrightarrow>
     ev.ev_invar k \<and> length E = length F \<and> N \<le> published F
     \<and> tracking_pending (inner k) = drop (covered N F) F
     \<and> store_inv norm ok saved saved0 key a init owners E (covered N F) (data k) c"

lemma priv_ops_bound:
  assumes "store_inv norm ok saved saved0 key a init owners E j d c"
  shows "length (priv_ops d) \<le> length E"
proof -
  have "length (priv_ops d) = length (real_updates (drop j E))"
    using assms carries_updates [of c d "drop j E"] by (metis length_map store_inv_def)
  also have "\<dots> \<le> length E" using length_filter_le [of _ "drop j E"] by (metis diff_le_self le_trans length_drop)
  finally show ?thesis .
qed

text \<open>The handler reports the next \<open>m\<close> events.\<close>

lemma deliver:
  assumes "store_inv norm ok saved saved0 key a init owners E j d c"
    and "replaces conv norm" and "persist_ok P ok saved" and "length E < 2 ^ 64"
  shows "\<exists>c'. newInputACKHandler P conv n (take m d) c = Inr c'
     \<and> store_inv norm ok saved saved0 key a init owners E (j + m) (drop m d) c'"
proof -
  note inv = assms(1) [unfolded store_inv_def]
  have "length (priv_ops d) < 2 ^ 64" using priv_ops_bound [OF assms(1)] assms(4) by simp
  from handler_tracks [OF _ assms(2,3) _ this, of c a init owners "real_updates (take j E)" saved0 n m] inv
  obtain c' where c': "newInputACKHandler P conv n (take m d) c = Inr c'"
    "tracks norm c' a init owners (real_updates (take j E) @ map (op_delta c) (priv_ops (take m d))) (priv_ops (drop m d))"
    "ok (persistentStore c')"
    "persisted norm saved0 (saved (persistentStore c')) key
         (real_updates (take j E) @ map (op_delta c) (priv_ops (take m d)))"
    "synced saved c' a (real_updates (take j E) @ map (op_delta c) (priv_ops (take m d)))"
    "\<forall>i \<in> set (priv_ops (drop m d)). ops c' ! i = ops c ! i" "rkey (resources c' ! a) = key"
    by auto
  have "map (op_delta c) (priv_ops (take m d)) = real_updates (take m (drop j E))"
    using inv by (intro carries_updates list_all2_takeI) blast
  then have acked: "real_updates (take j E) @ map (op_delta c) (priv_ops (take m d)) = real_updates (take (j + m) E)"
    by (simp add: take_add)
  have "list_all2 (carries c') (drop m d) (drop (j + m) E)"
    using inv c'(6) carries_cong [of c "drop m d" "drop (j + m) E" c'] list_all2_dropI [of "carries c" d "drop j E" m]
    by (simp add: add.commute)
  then show ?thesis using c' unfolding acked store_inv_def by blast
qed

lemma inv_ack:
  assumes "cursor_inv norm ok saved saved0 key a init owners E F N k c" and "N + n \<le> published F"
    and "replaces conv norm" and "persist_ok P ok saved" and "length E < 2 ^ 64"
  shows "\<exists>k' c'. eventData_ACKEvents tracking_ACKEvents (newInputACKHandler P conv) (int n) k c = Inr (k', c')
     \<and> cursor_inv norm ok saved saved0 key a init owners E F (N + n) k' c'"
proof -
  let ?j = "covered N F" and ?m = "covered n (tracking_pending (inner k))"
  have k: "ev.ev_invar k" "n \<le> published (tracking_pending (inner k))"
    "store_inv norm ok saved saved0 key a init owners E ?j (data k) c" "tracking_pending (inner k) = drop ?j F"
    using assms(1,2) by (auto simp: cursor_inv_def published_drop_covered)
  from deliver [OF k(3) assms(3-5), of "int n" ?m] obtain c' where c':
    "newInputACKHandler P conv (int n) (take ?m (data k)) c = Inr c'"
    "store_inv norm ok saved saved0 key a init owners E (?j + ?m) (drop ?m (data k)) c'"
    by blast
  from ev.ev_ack [OF k(1,2), of "newInputACKHandler P conv" c] obtain k' where k':
    "eventData_ACKEvents tracking_ACKEvents (newInputACKHandler P conv) (int n) k c =
       (if ?m = 0 then Inr (k', c)
        else bind_result (newInputACKHandler P conv (int n) (take ?m (data k)) c) (\<lambda>s'. Inr (k', s')))"
    "ev.ev_invar k'" "tracking_pending (inner k') = drop ?m (tracking_pending (inner k))"
    "data k' = drop ?m (data k)"
    by blast
  have "?m = 0 \<Longrightarrow> c' = c" using c'(1) by (simp add: newInputACKHandler_none)
  then have "eventData_ACKEvents tracking_ACKEvents (newInputACKHandler P conv) (int n) k c = Inr (k', c')"
    using k'(1) c'(1) by auto
  moreover have "cursor_inv norm ok saved saved0 key a init owners E F (N + n) k' c'"
    using assms(1,2) c'(2) k'(2-4) k(4) by (simp add: cursor_inv_def covered_add add.commute)
  ultimately show ?thesis by blast
qed

lemma publish_store:
  assumes "store_inv norm ok saved saved0 key a init owners E j d c" and "replaces conv norm" and "j \<le> length E"
  shows "\<exists>pr c'. cursor_Publish conv ts a (if own then Some POther else None) u c = (Inr pr, c')
     \<and> store_inv norm ok saved saved0 key a init owners (E @ [u]) j (d @ [pr]) c'"
proof (cases "u = VNil")
  case True
  then show ?thesis using assms(1,3)
    by (cases own) (auto simp: cursor_Publish_def store_inv_def carries_def intro!: list_all2_appendI)
next
  case False
  note inv = assms(1) [unfolded store_inv_def]
  obtain r c' where create: "createUpdateOp conv ts a u c = (r, c')" by (metis prod.exhaust)
  let ?i = "length (ops c)"
  from createUpdateOp_tracks [OF _ assms(2) create] inv
  have c': "r = Inr ?i" "tracks norm c' a init owners (real_updates (take j E)) (priv_ops d @ [?i])"
    "op_delta c' ?i = u" "\<forall>i < ?i. ops c' ! i = ops c ! i" "persistentStore c' = persistentStore c"
    "rkey (resources c' ! a) = key" "inSyncStateSnapshot (resources c' ! a) = inSyncStateSnapshot (resources c ! a)"
    by auto
  have "\<forall>i \<in> set (priv_ops d). ops c' ! i = ops c ! i" using inv c'(4) by (auto simp: tracks_def)
  then have "list_all2 (carries c') (d @ [Some (POp ?i)]) (drop j E @ [u])"
    using inv carries_cong False c'(3) by (intro list_all2_appendI) (auto simp: carries_def)
  then show ?thesis
    using inv assms(3) c' create False by (auto simp: cursor_Publish_def store_inv_def synced_def)
qed

lemma inv_publish:
  assumes "cursor_inv norm ok saved saved0 key a init owners E F N k c"
    and "replaces conv norm" and "persist_ok P ok saved" and "Suc (length E) < 2 ^ 64"
  shows "\<exists>pr c1 k' c'. cursor_Publish conv ts a (if own then Some POther else None) u c = (Inr pr, c1)
     \<and> eventData_AddEvent tracking_AddEvent (newInputACKHandler P conv) (input_event pr) pass k c1 = Inr (k', c')
     \<and> cursor_inv norm ok saved saved0 key a init owners (E @ [u]) (F @ [pass]) N k' c'"
proof -
  let ?j = "covered N F" and ?pend = "tracking_pending (inner k)"
  note inv = assms(1) [unfolded cursor_inv_def]
  have k: "ev.ev_invar k" and j: "?j \<le> length E" and pend: "?pend = drop ?j F" and N: "N \<le> published F"
    using inv by simp_all
  obtain pr c1 where pub: "cursor_Publish conv ts a (if own then Some POther else None) u c = (Inr pr, c1)"
    "store_inv norm ok saved saved0 key a init owners (E @ [u]) ?j (data k @ [pr]) c1"
    using publish_store [OF _ assms(2) j] inv by blast
  have cov: "covered N (F @ [pass]) = (if ?pend = [] \<and> \<not> pass then Suc (length F) else ?j)"
    using covered_snoc [OF N, of pass] le_antisym [OF covered_le [of N F]] pend by (simp only: drop_eq_Nil) auto
  show ?thesis
  proof (cases "pass \<or> ?pend \<noteq> []")
    case True
    from ev.ev_add_kept [OF k True, of "newInputACKHandler P conv" "input_event pr" c1] obtain k' where
      "eventData_AddEvent tracking_AddEvent (newInputACKHandler P conv) (input_event pr) pass k c1 = Inr (k', c1)"
      "ev.ev_invar k'" "tracking_pending (inner k') = ?pend @ [pass]" "data k' = data k @ [pr]"
      by (auto simp: input_event_def)
    then show ?thesis using pub inv cov True covered_le [of N F] by (fastforce simp: cursor_inv_def)
  next
    case False
    then have empty: "data k = []" "?j = length E"
      using k inv by (auto simp: ev.ev_invar_def intro: antisym)
    from deliver [OF pub(2) assms(2,3), of 0 1] assms(4) obtain c' where c':
      "newInputACKHandler P conv 0 [pr] c1 = Inr c'"
      "store_inv norm ok saved saved0 key a init owners (E @ [u]) (Suc ?j) [] c'"
      by (auto simp: empty)
    from ev.ev_add_now [OF k, of "newInputACKHandler P conv" "input_event pr" c1] False obtain k' where
      "eventData_AddEvent tracking_AddEvent (newInputACKHandler P conv) (input_event pr) pass k c1 = Inr (k', c')"
      "ev.ev_invar k'" "tracking_pending (inner k') = []" "data k' = []"
      by (auto simp: input_event_def c'(1))
    then show ?thesis using pub(1) inv cov False c'(2) empty by (fastforce simp: cursor_inv_def)
  qed
qed

lemma cursor_run_inv:
  assumes "cursor_inv norm ok saved saved0 key a init owners E F N k c"
    and "replaces conv norm" and "persist_ok P ok saved" and "acks_honest F N steps"
    and "length E + length (updates steps) < 2 ^ 64"
  shows "\<exists>k' c'. cursor_run P conv a steps k c = Inr (k', c')
     \<and> cursor_inv norm ok saved saved0 key a init owners (E @ updates steps) (F @ fates steps) (N + acked_total steps) k' c'"
  using assms
proof (induction steps arbitrary: E F N k c)
  case Nil
  then show ?case by simp
next
  case (Cons step steps)
  show ?case
  proof (cases step)
    case (Published own u pass ts)
    with inv_publish [OF Cons.prems(1-3), of ts own u pass] Cons.prems(5) obtain pr c1 k' c' where k':
      "cursor_Publish conv ts a (if own then Some POther else None) u c = (Inr pr, c1)"
      "eventData_AddEvent tracking_AddEvent (newInputACKHandler P conv) (input_event pr) pass k c1 = Inr (k', c')"
      "cursor_inv norm ok saved saved0 key a init owners (E @ [u]) (F @ [pass]) N k' c'"
      by auto
    have "acks_honest (F @ [pass]) N steps" "length (E @ [u]) + length (updates steps) < 2 ^ 64"
      using Cons.prems(4,5) Published by simp_all
    from Cons.IH [OF k'(3) assms(2,3) this] show ?thesis
      using k'(1,2) by (simp only: Published) simp
  next
    case (Acked n)
    have n: "N + n \<le> published F" "acks_honest F (N + n) steps" "length E + length (updates steps) < 2 ^ 64"
      "length E < 2 ^ 64"
      using Cons.prems(4,5) Acked by simp_all
    from inv_ack [OF Cons.prems(1) n(1) assms(2,3) n(4)] obtain k' c' where k':
      "eventData_ACKEvents tracking_ACKEvents (newInputACKHandler P conv) (int n) k c = Inr (k', c')"
      "cursor_inv norm ok saved saved0 key a init owners E F (N + n) k' c'"
      by blast
    from Cons.IH [OF k'(2) assms(2,3) n(2,3)] show ?thesis using k'(1) Acked by (simp add: add.assoc)
  qed
qed

section \<open>Properties\<close>

definition idle :: "'p store \<Rightarrow> nat \<Rightarrow> string \<Rightarrow> nat \<Rightarrow> bool" where
  "idle c a key owners \<longleftrightarrow> a < length (resources c) \<and> activeCursorOperations (resources c ! a) = 0
     \<and> pendingCursor (resources c ! a) = VNil \<and> rkey (resources c ! a) = key
     \<and> pending (resources c ! a) = of_nat owners"

lemma idle_run:
  assumes "idle c a key owners" and "replaces conv norm" and "persist_ok P ok saved"
    and "ok (persistentStore c)" and "acks_honest [] 0 steps" and "length (updates steps) < 2 ^ 64"
  shows "\<exists>k' c'. cursor_run P conv a steps EventPrivateReporter c = Inr (k', c')
     \<and> cursor_inv norm ok saved (saved (persistentStore c)) key a (cursor (resources c ! a)) owners
         (updates steps) (fates steps) (acked_total steps) k' c'"
proof -
  have "cursor_inv norm ok saved (saved (persistentStore c)) key a (cursor (resources c ! a)) owners
      [] [] 0 EventPrivateReporter c"
    using assms(1,4) by (simp add: cursor_inv_def store_inv_def tracks_def idle_def synced_def)
  from cursor_run_inv [OF this assms(2,3,5)] assms(6) show ?thesis by simp
qed

text \<open>C18. What the store holds after any history of one client: with \<open>r\<close> the length of the longest prefix of
  the published events the acknowledgements cover, the record of the source has the last cursor update of
  the first \<open>r\<close> events, no later one (at least once delivery) and no earlier one; without an update among
  them nothing was written, and no other record changes.  No call fails, and the client still holds the
  events after the prefix.\<close>

theorem acknowledged_cursor_persisted:
  assumes "idle c a key owners" and "replaces conv norm" and "persist_ok P ok saved"
    and "ok (persistentStore c)" and "acks_honest [] 0 steps" and "length (updates steps) < 2 ^ 64"
  shows "\<exists>k' c'. cursor_run P conv a steps EventPrivateReporter c = Inr (k', c')
     \<and> (let r = covered (acked_total steps) (fates steps) in
          persisted norm (saved (persistentStore c)) (saved (persistentStore c')) key
            (real_updates (take r (updates steps)))
          \<and> length (data k') = length (updates steps) - r)"
proof -
  from idle_run [OF assms] obtain k' c' where k': "cursor_run P conv a steps EventPrivateReporter c = Inr (k', c')"
    "cursor_inv norm ok saved (saved (persistentStore c)) key a (cursor (resources c ! a)) owners
       (updates steps) (fates steps) (acked_total steps) k' c'"
    by blast
  then have "length (data k') = length (updates steps) - covered (acked_total steps) (fates steps)"
    by (simp add: cursor_inv_def ev.ev_invar_def)
  then show ?thesis using k' by (auto simp: cursor_inv_def store_inv_def Let_def)
qed

text \<open>A store and a conversion that satisfy the assumptions.\<close>

definition plain_persist :: "(string \<rightharpoonup> state) persist" where
  "plain_persist = \<lparr>pSet = (\<lambda>k v p. (None, p(k \<mapsto> v))), pRemove = (\<lambda>k p. (None, p(k := None))),
     pEach = (\<lambda>f x p. ((None, x), p)), pClose = (\<lambda>p. (None, p))\<rparr>"

lemma plain_persist_ok: "persist_ok plain_persist (\<lambda>_. True) (\<lambda>p. p)"
  by (simp add: persist_ok_def plain_persist_def)

definition copies :: conversion where "copies t u = (None, u)"

lemma copies_replaces: "replaces copies (\<lambda>u. u)"
  by (simp add: replaces_def copies_def)

definition one_source :: "(string \<rightharpoonup> state) store" where
  "one_source = snd (store_Get ''in::a''
     \<lparr>persistentStore = Map.empty, table = fmempty, resources = [], ops = []\<rparr>)"

lemma one_source_idle: "idle one_source 0 ''in::a'' 1" "persistentStore one_source = Map.empty"
  by (simp_all add: one_source_def store_Get_def states_Find_def upd_resource_def new_resource_def
      resource_Retain_def idle_def Let_def)

definition sample_history :: "cursor_step list" where
  "sample_history = [Published False (VNum ''1'') True 10, Published True VNil True 11,
     Published False (VNum ''2'') True 12, Acked 2]"

lemma sample_history_simps:
  "acks_honest [] 0 sample_history" "updates sample_history = [VNum ''1'', VNil, VNum ''2'']"
  "covered (acked_total sample_history) (fates sample_history) = 2"
  by (simp_all add: sample_history_def numeral_2_eq_2)

theorem acknowledged_cursor_persisted_witness:
  "\<exists>k' c'. cursor_run plain_persist copies 0 sample_history EventPrivateReporter one_source = Inr (k', c')
     \<and> (\<exists>st. persistentStore c' ''in::a'' = Some st \<and> sCursor st = VNum ''1'') \<and> length (data k') = 1"
  using acknowledged_cursor_persisted [OF one_source_idle(1) copies_replaces plain_persist_ok TrueI
      sample_history_simps(1)]
  by (auto simp: sample_history_simps Let_def persisted_def)

text \<open>C19. The state in memory after any history of one client: an input that asks for the state gets the last cursor update
  published, acknowledged or not; the resource is finished, so the cleaner may take it, exactly when no input
  owns it and no update is outstanding.  Once some update was acknowledged, the record in the persistent
  store is the acknowledged part of the state in memory, its time and TTL included, and once every update is, it is
  the state the input gets; before the first one the record is as it was.\<close>

theorem cursor_state_in_memory:
  assumes "idle c a key owners" and "replaces conv norm" and "persist_ok P ok saved"
    and "ok (persistentStore c)" and "acks_honest [] 0 steps" and "owners + length (updates steps) < 2 ^ 64"
  defines "r \<equiv> covered (acked_total steps) (fates steps)"
  shows "\<exists>k' c'. cursor_run P conv a steps EventPrivateReporter c = Inr (k', c')
     \<and> sCursor (stateSnapshot (resources c' ! a))
         = (if real_updates (updates steps) = [] then cursor (resources c ! a) else norm (last (real_updates (updates steps))))
     \<and> (Finished (resources c' ! a) \<longleftrightarrow> owners = 0 \<and> real_updates (drop r (updates steps)) = [])
     \<and> (if real_updates (take r (updates steps)) = []
        then saved (persistentStore c') key = saved (persistentStore c) key
        else saved (persistentStore c') key = Some (inSyncStateSnapshot (resources c' ! a)))
     \<and> (real_updates (drop r (updates steps)) = [] \<and> real_updates (updates steps) \<noteq> [] \<longrightarrow>
          saved (persistentStore c') key = Some (stateSnapshot (resources c' ! a)))"
proof -
  let ?E = "updates steps"
  have "length ?E < 2 ^ 64" using assms(6) by simp
  from idle_run [OF assms(1-5) this] obtain k' c' where run: "cursor_run P conv a steps EventPrivateReporter c = Inr (k', c')"
    and inv: "store_inv norm ok saved (saved (persistentStore c)) key a (cursor (resources c ! a)) owners ?E r (data k') c'"
    unfolding cursor_inv_def r_def by blast
  let ?os = "priv_ops (data k')"
  have os: "map (op_delta c') ?os = real_updates (drop r ?E)"
    using inv by (intro carries_updates) (simp add: store_inv_def)
  then have osnil: "?os = [] \<longleftrightarrow> real_updates (drop r ?E) = []" by (metis map_is_Nil_conv)
  have bound: "length ?os \<le> length ?E" using inv by (rule priv_ops_bound)
  have E: "real_updates ?E = real_updates (take r ?E) @ real_updates (drop r ?E)"
    by (metis append_take_drop_id filter_append)
  have last: "?os \<noteq> [] \<Longrightarrow> op_delta c' (last ?os) = last (real_updates ?E)"
    using E os osnil by (metis last_appendR last_map)
  have zero: "(of_nat (length ?os) :: u64) = 0 \<longleftrightarrow> ?os = []"
    "(of_nat (owners + length ?os) :: u64) = 0 \<longleftrightarrow> owners = 0 \<and> ?os = []"
    using of_nat_zero [of "length ?os"] of_nat_zero [of "owners + length ?os"] bound assms(6) by auto
  have tr: "tracks norm c' a (cursor (resources c ! a)) owners (real_updates (take r ?E)) ?os"
    using inv by (simp add: store_inv_def)
  have active: "activeCursorOperations (resources c' ! a) = 0 \<longleftrightarrow> ?os = []"
    using tr zero(1) by (simp add: tracks_def)
  have "Finished (resources c' ! a) \<longleftrightarrow> owners = 0 \<and> real_updates (drop r ?E) = []"
    using tr zero(2) osnil by (simp add: tracks_def Finished_def)
  moreover have "sCursor (stateSnapshot (resources c' ! a))
      = (if real_updates ?E = [] then cursor (resources c ! a) else norm (last (real_updates ?E)))"
    using tr active E osnil last by (cases "?os = []") (auto simp: tracks_def stateSnapshot_def)
  moreover have stored: "if real_updates (take r ?E) = [] then saved (persistentStore c') key = saved (persistentStore c) key
      else saved (persistentStore c') key = Some (inSyncStateSnapshot (resources c' ! a))"
    using inv by (auto simp: store_inv_def synced_def persisted_def)
  moreover have "real_updates (drop r ?E) = [] \<and> real_updates ?E \<noteq> [] \<Longrightarrow>
      saved (persistentStore c') key = Some (stateSnapshot (resources c' ! a))"
    using stored E active osnil by (auto simp: stateSnapshot_def inSyncStateSnapshot_def)
  ultimately show ?thesis using run by blast
qed

text \<open>The sample history, and the same with its last event acknowledged too.\<close>

theorem cursor_state_in_memory_witness:
  "(\<exists>k' c'. cursor_run plain_persist copies 0 sample_history EventPrivateReporter one_source = Inr (k', c')
     \<and> sCursor (stateSnapshot (resources c' ! 0)) = VNum ''2'' \<and> \<not> Finished (resources c' ! 0)
     \<and> persistentStore c' ''in::a'' = Some (inSyncStateSnapshot (resources c' ! 0)))
   \<and> (\<exists>k' c'. cursor_run plain_persist copies 0 (sample_history @ [Acked 1]) EventPrivateReporter one_source = Inr (k', c')
     \<and> persistentStore c' ''in::a'' = Some (stateSnapshot (resources c' ! 0)) \<and> sCursor (stateSnapshot (resources c' ! 0)) = VNum ''2'')"
proof -
  have "acks_honest [] 0 (sample_history @ [Acked 1])" "updates (sample_history @ [Acked 1]) = [VNum ''1'', VNil, VNum ''2'']"
    "covered (acked_total (sample_history @ [Acked 1])) (fates (sample_history @ [Acked 1])) = 3"
    by (simp_all add: sample_history_def eval_nat_numeral)
  with cursor_state_in_memory [OF one_source_idle(1) copies_replaces plain_persist_ok TrueI sample_history_simps(1)]
    cursor_state_in_memory [OF one_source_idle(1) copies_replaces plain_persist_ok TrueI this(1)]
  show ?thesis by (auto simp: sample_history_simps one_source_idle(2))
qed

end
