(* ===== verification/Cursor_Clean.thy ===== *)
theory Cursor_Clean
  imports Cursor_Updates Storetest
begin

text \<open>
  The cleaner of \<open>clean.go\<close>, \<open>readStates\<close> and \<open>UpdateTTL\<close>: what they do to the table in memory and to the
  persistent store.
\<close>

section \<open>What is assumed of the parameters\<close>

text \<open>
  A \<open>Remove\<close> that reports no error has removed the record; one that fails may have, and touches no
  other record.
\<close>

definition removes :: "'p persist \<Rightarrow> ('p \<Rightarrow> string \<rightharpoonup> state) \<Rightarrow> bool" where
  "removes P saved \<longleftrightarrow>
     (\<forall>p k e p'. pRemove P k p = (e, p') \<longrightarrow>
        (e = None \<longrightarrow> saved p' k = None) \<and> (\<forall>k'. k' \<noteq> k \<longrightarrow> saved p' k' = saved p k'))"

text \<open>A \<open>range\<close> over a set visits each element once.\<close>

definition enumerates :: "(string fset \<Rightarrow> string list) \<Rightarrow> bool" where
  "enumerates order \<longleftrightarrow> (\<forall>K. set (order K) = fset K \<and> distinct (order K))"

section \<open>The cleaner\<close>

text \<open>When the documentation allows a key to be cleaned.\<close>

definition expired :: "go_time \<Rightarrow> go_time \<Rightarrow> resource \<Rightarrow> bool" where
  "expired started now r \<longleftrightarrow>
     pending r = 0 \<and> stored r \<and> started + rTTL r < now \<and> rUpdated r + rTTL r < now"

lemma checkCleanResource_expired: "checkCleanResource started now r \<longleftrightarrow> expired started now r"
  by (auto simp: checkCleanResource_def expired_def Finished_def Let_def)

lemma gcFind_iff:
  "key |\<in>| gcFind started now c \<longleftrightarrow>
     (\<exists>a. fmlookup (table c) key = Some a \<and> expired started now (resources c ! a))"
  by (auto simp: gcFind_def checkCleanResource_expired fmdomI split: option.splits)

text \<open>The keys that have left the table have left the store; all others are untouched.\<close>

lemma gcClean_effect:
  assumes "removes P saved" and "distinct keys" and "gcClean P keys c = (e, c')"
  shows "resources c' = resources c \<and> ops c' = ops c
     \<and> (\<forall>k. k \<notin> set keys \<longrightarrow> fmlookup (table c') k = fmlookup (table c) k
           \<and> saved (persistentStore c') k = saved (persistentStore c) k)
     \<and> (\<forall>k \<in> set keys. fmlookup (table c') k = fmlookup (table c) k
           \<or> fmlookup (table c') k = None \<and> saved (persistentStore c') k = None)
     \<and> (e = None \<longrightarrow> (\<forall>k \<in> set keys. fmlookup (table c') k = None \<and> saved (persistentStore c') k = None))"
  using assms(2,3)
proof (induction keys arbitrary: c)
  case (Cons key keys)
  obtain e1 p where rm: "pRemove P key (persistentStore c) = (e1, p)" by fastforce
  with assms(1) have p: "e1 = None \<Longrightarrow> saved p key = None" "\<And>k. k \<noteq> key \<Longrightarrow> saved p k = saved (persistentStore c) k"
    by (auto simp: removes_def)
  show ?case
  proof (cases e1)
    case None
    let ?c1 = "c\<lparr>persistentStore := p, table := fmdrop key (table c)\<rparr>"
    have "gcClean P keys ?c1 = (e, c')" using Cons.prems(2) rm None by simp
    note IH = Cons.IH [OF _ this]
    show ?thesis using IH Cons.prems(1) p None by (auto split: if_splits)
  next
    case (Some e2)
    then show ?thesis using Cons.prems(2) rm p by auto
  qed
qed simp

text \<open>How far a pass got: up to the key whose removal failed, if one did.\<close>

lemma gcClean_progress:
  assumes "removes P saved" and "distinct keys" and "gcClean P keys c = (e, c')"
  shows "\<exists>failed. (\<forall>k. failed = Some k \<longrightarrow> k \<in> set keys \<and> (\<exists>p x. pRemove P k p = (Some x, persistentStore c')))
     \<and> (\<forall>k \<in> set keys. if failed = Some k then fmlookup (table c') k = fmlookup (table c) k
          else fmlookup (table c') k = None \<and> saved (persistentStore c') k = None
            \<or> failed \<noteq> None \<and> fmlookup (table c') k = fmlookup (table c) k
                \<and> saved (persistentStore c') k = saved (persistentStore c) k)"
  using assms(2,3)
proof (induction keys arbitrary: c)
  case Nil
  then show ?case by (intro exI [of _ None]) simp
next
  case (Cons key keys)
  obtain e1 p where rm: "pRemove P key (persistentStore c) = (e1, p)" by fastforce
  with assms(1) have p: "e1 = None \<Longrightarrow> saved p key = None" "\<And>k. k \<noteq> key \<Longrightarrow> saved p k = saved (persistentStore c) k"
    by (auto simp: removes_def)
  show ?case
  proof (cases e1)
    case None
    let ?c1 = "c\<lparr>persistentStore := p, table := fmdrop key (table c)\<rparr>"
    have run: "gcClean P keys ?c1 = (e, c')" and d: "distinct keys" "key \<notin> set keys"
      using Cons.prems rm None by simp_all
    obtain failed where f: "\<forall>k. failed = Some k \<longrightarrow> k \<in> set keys \<and> (\<exists>p x. pRemove P k p = (Some x, persistentStore c'))"
      "\<forall>k \<in> set keys. if failed = Some k then fmlookup (table c') k = fmlookup (table ?c1) k
          else fmlookup (table c') k = None \<and> saved (persistentStore c') k = None
            \<or> failed \<noteq> None \<and> fmlookup (table c') k = fmlookup (table ?c1) k
                \<and> saved (persistentStore c') k = saved (persistentStore ?c1) k"
      using Cons.IH [OF d(1) run] by blast
    have "fmlookup (table c') key = None \<and> saved (persistentStore c') key = None"
      using gcClean_effect [OF assms(1) d(1) run] d(2) p(1) [OF None] by simp
    moreover have "fmlookup (table ?c1) k = fmlookup (table c) k" "saved (persistentStore ?c1) k = saved (persistentStore c) k"
      if "k \<in> set keys" for k using that d(2) p(2) [of k] by (cases "k = key"; simp)+
    ultimately show ?thesis using f d(2) by (intro exI [of _ failed]) (metis set_ConsD list.set_intros(2))
  next
    case (Some e2)
    then have "c' = c\<lparr>persistentStore := p\<rparr>" using Cons.prems(2) rm by simp
    then show ?thesis using rm p(2) Some by (intro exI [of _ "Some key"]) auto
  qed
qed

lemma gcClean_stuck: "\<forall>p. fst (pRemove P k p) \<noteq> None \<Longrightarrow> fmlookup (table (snd (gcClean P keys c))) k = fmlookup (table c) k"
proof (induction keys arbitrary: c)
  case (Cons key keys)
  have "k \<noteq> key" if "pRemove P key (persistentStore c) = (None, p)" for p using Cons.prems that by (metis fst_conv)
  then show ?case using Cons.IH [OF Cons.prems] by (auto split: prod.splits option.splits)
qed simp

lemma gcStore_gcClean:
  assumes "enumerates order"
  obtains e where "gcClean P (order (gcFind started now c)) c = (e, gcStore P order started now c)"
proof (cases "gcFind started now c = {||}")
  case True
  moreover have "set (order {||}) = fset {||}" using assms unfolding enumerates_def by blast
  ultimately have "order (gcFind started now c) = []" by simp
  then show ?thesis using True that by (simp add: gcStore_def)
next
  case False
  then have "gcStore P order started now c = snd (gcClean P (order (gcFind started now c)) c)"
    by (simp add: gcStore_def Let_def)
  then show ?thesis using that by (metis prod.collapse)
qed

text \<open>What the cleaner does to the memory, whatever the persistent store answers.\<close>

lemma gcStore_memory:
  assumes "enumerates order"
  shows "resources (gcStore P order started now c) = resources c \<and> ops (gcStore P order started now c) = ops c
     \<and> (\<forall>k a. fmlookup (table c) k = Some a \<longrightarrow> \<not> expired started now (resources c ! a) \<longrightarrow>
          fmlookup (table (gcStore P order started now c)) k = Some a)
     \<and> (\<forall>k a. fmlookup (table (gcStore P order started now c)) k = Some a \<longrightarrow> fmlookup (table c) k = Some a)"
proof -
  let ?K = "gcFind started now c" and ?c' = "gcStore P order started now c"
  from assms have K: "distinct (order ?K)" "set (order ?K) = fset ?K" by (simp_all add: enumerates_def)
  obtain e where run: "gcClean P (order ?K) c = (e, ?c')" using gcStore_gcClean [OF assms] by blast
  have "removes P (\<lambda>_ _. None)" by (simp add: removes_def)
  note effect = gcClean_effect [OF this K(1) run]
  have "fmlookup (table ?c') k = Some a"
    if "fmlookup (table c) k = Some a" "\<not> expired started now (resources c ! a)" for k a
  proof -
    have "k \<notin> set (order ?K)" using that by (auto simp: K(2) gcFind_iff)
    then show ?thesis using effect that(1) by simp
  qed
  moreover have "fmlookup (table c) k = Some a" if "fmlookup (table ?c') k = Some a" for k a
    using effect that by (metis option.distinct(1))
  ultimately show ?thesis using effect by blast
qed

text \<open>C22. The cleaner is safe.  A key whose resource is in use (by an input or by an update not yet
  acknowledged), is not stored, or whose time to live has not passed since its last update and since the
  cleaner was started keeps its entry in memory and its record, and nothing is written.  Memory and store stay in
  agreement: but for one key, whose removal failed, an expired key either has lost both its entry and its record or, when a
  removal failed before its turn, keeps both.  A key whose removal fails keeps its entry, so the next pass tries again.\<close>

theorem gcStore_safe:
  fixes c :: "'p store"
  assumes "removes P saved" and "enumerates order"
    and "c' = gcStore P order started now c"
  shows "resources c' = resources c \<and> ops c' = ops c
     \<and> (\<forall>k. (case fmlookup (table c) k of None \<Rightarrow> True | Some a \<Rightarrow> \<not> expired started now (resources c ! a)) \<longrightarrow>
          fmlookup (table c') k = fmlookup (table c) k \<and> saved (persistentStore c') k = saved (persistentStore c) k)
     \<and> (\<exists>failed. (\<forall>k. failed = Some k \<longrightarrow> (\<exists>p x. pRemove P k p = (Some x, persistentStore c')))
          \<and> (\<forall>k a. fmlookup (table c) k = Some a \<and> expired started now (resources c ! a) \<longrightarrow>
               (if failed = Some k then fmlookup (table c') k = Some a
                else fmlookup (table c') k = None \<and> saved (persistentStore c') k = None
                  \<or> failed \<noteq> None \<and> fmlookup (table c') k = Some a
                      \<and> saved (persistentStore c') k = saved (persistentStore c) k)))
     \<and> (\<forall>k. (\<forall>p. fst (pRemove P k p) \<noteq> None) \<longrightarrow> fmlookup (table c') k = fmlookup (table c) k)"
proof -
  let ?K = "gcFind started now c"
  from assms(2) have K: "distinct (order ?K)" "set (order ?K) = fset ?K" by (simp_all add: enumerates_def)
  obtain e where run: "gcClean P (order ?K) c = (e, c')" using gcStore_gcClean [OF assms(2)] assms(3) by blast
  note effect = gcClean_effect [OF assms(1) K(1) run]
  have kept: "k \<notin> set (order ?K)"
    if "case fmlookup (table c) k of None \<Rightarrow> True | Some a \<Rightarrow> \<not> expired started now (resources c ! a)" for k
    using that by (auto simp: K(2) gcFind_iff)
  have taken: "k \<in> set (order ?K)" if "fmlookup (table c) k = Some a" "expired started now (resources c ! a)" for k a
    using that by (auto simp: K(2) gcFind_iff)
  obtain failed where f: "\<forall>k. failed = Some k \<longrightarrow> k \<in> set (order ?K) \<and> (\<exists>p x. pRemove P k p = (Some x, persistentStore c'))"
    "\<forall>k \<in> set (order ?K). if failed = Some k then fmlookup (table c') k = fmlookup (table c) k
       else fmlookup (table c') k = None \<and> saved (persistentStore c') k = None
         \<or> failed \<noteq> None \<and> fmlookup (table c') k = fmlookup (table c) k
             \<and> saved (persistentStore c') k = saved (persistentStore c) k"
    using gcClean_progress [OF assms(1) K(1) run] by blast
  have "if failed = Some k then fmlookup (table c') k = Some a
      else fmlookup (table c') k = None \<and> saved (persistentStore c') k = None
        \<or> failed \<noteq> None \<and> fmlookup (table c') k = Some a \<and> saved (persistentStore c') k = saved (persistentStore c) k"
    if "fmlookup (table c) k = Some a" "expired started now (resources c ! a)" for k a
    using bspec [OF f(2) taken [OF that]] that(1) by (auto split: if_splits)
  moreover have "fmlookup (table c') k = fmlookup (table c) k" if "\<forall>p. fst (pRemove P k p) \<noteq> None" for k
    using gcClean_stuck [of P k "order ?K" c] run that by simp
  ultimately show ?thesis using effect kept f(1) by blast
qed

definition plain_order :: "string fset \<Rightarrow> string list" where
  "plain_order K = sorted_list_of_fset K"

lemma plain_order_enumerates: "enumerates plain_order"
  by (simp add: enumerates_def plain_order_def sorted_list_of_fset.rep_eq)

lemma plain_removes: "removes plain_persist (\<lambda>p. p)"
  by (simp add: removes_def plain_persist_def)

definition stored_source :: "string \<Rightarrow> u64 \<Rightarrow> go_time \<Rightarrow> resource" where
  "stored_source key n upd = (new_resource key)\<lparr>pending := n, stored := True, internalInSync := True, rTTL := 10, rUpdated := upd\<rparr>"

definition three_sources :: "(string \<rightharpoonup> state) store" where
  "three_sources = \<lparr>persistentStore = [''t::a'' \<mapsto> \<lparr>TTL = 10, Updated = 5, sCursor = VNil\<rparr>,
       ''t::b'' \<mapsto> \<lparr>TTL = 10, Updated = 5, sCursor = VNil\<rparr>, ''t::c'' \<mapsto> \<lparr>TTL = 10, Updated = 95, sCursor = VNil\<rparr>],
     table = fmap_of_list [(''t::a'', 0), (''t::b'', 1), (''t::c'', 2)],
     resources = [stored_source ''t::a'' 0 5, stored_source ''t::b'' 1 5, stored_source ''t::c'' 0 95], ops = []\<rparr>"

text \<open>The witness: the one expired source is cleaned, and kept in memory where its removal fails.\<close>

definition stuck_persist :: "(string \<rightharpoonup> state) persist" where
  "stuck_persist = plain_persist\<lparr>pRemove := (\<lambda>k p. (Some (ErrNew ''disk''), p))\<rparr>"

lemma stuck_removes: "removes stuck_persist (\<lambda>p. p)"
  by (simp add: removes_def stuck_persist_def)

theorem gcStore_safe_witness:
  "fmlookup (table (gcStore plain_persist plain_order 50 100 three_sources)) ''t::b'' = Some 1
   \<and> persistentStore (gcStore plain_persist plain_order 50 100 three_sources) ''t::c'' \<noteq> None
   \<and> fmlookup (table (gcStore plain_persist plain_order 50 100 three_sources)) ''t::a'' = None
   \<and> fmlookup (table (gcStore stuck_persist plain_order 50 100 three_sources)) ''t::a'' = Some 0
   \<and> persistentStore (gcStore stuck_persist plain_order 50 100 three_sources) ''t::c'' \<noteq> None"
proof -
  have exp: "fmlookup (table three_sources) ''t::a'' = Some 0" "expired 50 100 (resources three_sources ! 0)"
    "fmlookup (table three_sources) ''t::b'' = Some 1" "\<not> expired 50 100 (resources three_sources ! 1)"
    "fmlookup (table three_sources) ''t::c'' = Some 2" "\<not> expired 50 100 (resources three_sources ! 2)"
    "persistentStore three_sources ''t::c'' \<noteq> None"
    by (simp_all add: three_sources_def stored_source_def expired_def new_resource_def)
  have ok: "pRemove plain_persist k p \<noteq> (Some x, q)" "fst (pRemove stuck_persist k p) \<noteq> None" for k p x q
    by (simp_all add: plain_persist_def stuck_persist_def)
  note P = gcStore_safe [OF plain_removes plain_order_enumerates refl, of 50 100 three_sources]
    and S = gcStore_safe [OF stuck_removes plain_order_enumerates refl, of 50 100 three_sources]
  from P exp(1,2) have "fmlookup (table (gcStore plain_persist plain_order 50 100 three_sources)) ''t::a'' = None"
    by (elim conjE exE) (metis ok(1) option.exhaust)
  moreover from S have "fmlookup (table (gcStore stuck_persist plain_order 50 100 three_sources)) ''t::a'' = Some 0"
    using exp(1) ok(2) by simp
  ultimately show ?thesis using P S exp(3-7) by simp
qed

text \<open>C23. The cleaner finishes its work: when no removal fails, every expired key is gone from the table
  and from the store.\<close>

definition remove_never_fails :: "'p persist \<Rightarrow> bool" where
  "remove_never_fails P \<longleftrightarrow> (\<forall>k p. fst (pRemove P k p) = None)"

lemma gcClean_no_error: "remove_never_fails P \<Longrightarrow> fst (gcClean P keys c) = None"
proof (induction keys arbitrary: c)
  case (Cons k keys)
  then show ?case
    using Cons.prems by (auto simp: remove_never_fails_def split: prod.splits option.splits) (metis fst_conv option.distinct(1))
qed simp

theorem gcStore_complete:
  assumes "removes P saved" and "enumerates order" and "remove_never_fails P"
    and "fmlookup (table c) key = Some a" and "expired started now (resources c ! a)"
  shows "fmlookup (table (gcStore P order started now c)) key = None
     \<and> saved (persistentStore (gcStore P order started now c)) key = None"
proof -
  let ?K = "gcFind started now c"
  from assms(2) have K: "distinct (order ?K)" "set (order ?K) = fset ?K" by (simp_all add: enumerates_def)
  obtain e where run: "gcClean P (order ?K) c = (e, gcStore P order started now c)"
    using gcStore_gcClean [OF assms(2)] by blast
  have "e = None" using gcClean_no_error [OF assms(3), of "order ?K" c] run by simp
  moreover have "key \<in> set (order ?K)" using assms(4,5) by (auto simp: K(2) gcFind_iff)
  ultimately show ?thesis using gcClean_effect [OF assms(1) K(1) run] by blast
qed

theorem gcStore_complete_witness:
  "fmlookup (table (gcStore plain_persist plain_order 50 100 three_sources)) ''t::a'' = None
   \<and> persistentStore (gcStore plain_persist plain_order 50 100 three_sources) ''t::a'' = None"
  by (rule gcStore_complete [OF plain_removes plain_order_enumerates, where a = 0])
    (simp_all add: remove_never_fails_def plain_persist_def three_sources_def stored_source_def expired_def new_resource_def)

section \<open>Reading the states back\<close>

text \<open>\<open>Each\<close> of an open store calls the function for its entries in some order; a document may fail to decode.\<close>

definition visits :: "'p persist \<Rightarrow> ('p \<Rightarrow> bool) \<Rightarrow> ('p \<Rightarrow> (string \<times> state result) list) \<Rightarrow> bool" where
  "visits P ok entries \<longleftrightarrow>
     (\<forall>p fn u. ok p \<longrightarrow> pEach P fn u p = (range_loop (\<lambda>d. d) fn (entries p) u, p) \<and> distinct (map fst (entries p)))"

lemma range_loop_total:
  assumes "\<And>k d u. fn k d u = ((True, None), step k d u)"
  shows "range_loop dec fn kvs u = (None, fold (\<lambda>(k, v) u. step k (dec v) u) kvs u)"
  by (induction kvs arbitrary: u) (auto simp: assms)

definition loaded :: "string \<Rightarrow> state \<Rightarrow> resource" where
  "loaded key st = (new_resource key)\<lparr>stored := True, internalInSync := True,
     rTTL := TTL st, rUpdated := Updated st, cursor := sCursor st\<rparr>"

lemma loaded_simps:
  "rkey (loaded key st) = key" "stateSnapshot (loaded key st) = st" "inSyncStateSnapshot (loaded key st) = st"
  "stored (loaded key st)" "Finished (loaded key st)"
  by (simp_all add: loaded_def new_resource_def stateSnapshot_def inSyncStateSnapshot_def Finished_def)

definition load_entry :: "string \<Rightarrow> string \<times> state result \<Rightarrow> (string, resource) fmap \<Rightarrow> (string, resource) fmap" where
  "load_entry keyPrefix = (\<lambda>(key, dec) states.
     if prefix keyPrefix key then (case dec of Inl e \<Rightarrow> states | Inr st \<Rightarrow> fmupd key (loaded key st) states) else states)"

lemma readStates_fold:
  assumes "visits P ok entries" and "ok p"
  shows "readStates P pfx p = (Inr (fold (load_entry (pfx @ ''::'')) (entries p) fmempty), p)"
proof -
  let ?fn = "\<lambda>key dec states.
    if \<not> prefix (pfx @ ''::'') key then ((True, None), states)
    else case dec of
        Inl e \<Rightarrow> ((True, None), states)
      | Inr st \<Rightarrow>
          ((True, None), fmupd key ((new_resource key)\<lparr>stored := True, internalInSync := True,
             rTTL := TTL st, rUpdated := Updated st, cursor := sCursor st\<rparr>) states)"
  have "?fn k d u = ((True, None), load_entry (pfx @ ''::'') (k, d) u)" for k d u
    by (auto simp: load_entry_def loaded_def split: sum.splits)
  from range_loop_total [of ?fn, OF this, of "\<lambda>d. d" "entries p" fmempty]
  have "range_loop (\<lambda>d. d) ?fn (entries p) fmempty = (None, fold (load_entry (pfx @ ''::'')) (entries p) fmempty)"
    by (simp only: case_prod_eta)
  then show ?thesis using assms by (simp add: readStates_def visits_def Let_def)
qed

lemma load_entries_lookup:
  assumes "distinct (map fst kvs)"
  shows "fmlookup (fold (load_entry pre) kvs m) key =
     (case map_of kvs key of
        Some (Inr st) \<Rightarrow> if prefix pre key then Some (loaded key st) else fmlookup m key
      | _ \<Rightarrow> fmlookup m key)"
  using assms
proof (induction kvs arbitrary: m)
  case (Cons kv kvs)
  obtain k d where kv: "kv = (k, d)" by fastforce
  have "k = key \<Longrightarrow> map_of kvs key = None" using Cons.prems kv by (auto simp: map_of_eq_None_iff image_iff)
  then show ?case
    using Cons.IH [of "load_entry pre kv m"] Cons.prems kv
    by (auto simp: load_entry_def split: option.splits sum.splits)
qed simp

lemma alloc_states_lookup:
  assumes "alloc_states m = (t, rs)"
  shows "(case fmlookup m key of
      None \<Rightarrow> fmlookup t key = None
    | Some r \<Rightarrow> \<exists>a. fmlookup t key = Some a \<and> a < length rs \<and> rs ! a = r)"
proof -
  let ?ks = "sorted_list_of_fset (fmdom m)"
  have t: "fmlookup t = map_of (zip ?ks [0..<length ?ks])" and rs: "rs = map (\<lambda>k. the (fmlookup m k)) ?ks"
    using assms by (auto simp: alloc_states_def Let_def fmlookup_of_list)
  have ks: "distinct ?ks" "set ?ks = fset (fmdom m)" by (simp_all add: sorted_list_of_fset.rep_eq)
  show ?thesis
  proof (cases "fmlookup m key")
    case None
    then have "key \<notin> set ?ks" by (simp add: ks(2) fmdom_notI)
    then have "map_of (zip ?ks [0..<length ?ks]) key = None" by (simp add: map_of_zip_is_None)
    then show ?thesis by (simp add: None t)
  next
    case (Some r)
    then have "key \<in> set ?ks" by (simp add: ks(2) fmdomI)
    then obtain i where i: "i < length ?ks" "?ks ! i = key" by (meson in_set_conv_nth)
    then have "map_of (zip ?ks [0..<length ?ks]) key = Some i"
      using map_of_zip_nth [of ?ks "[0..<length ?ks]" i] ks(1) by simp
    then show ?thesis using i Some by (simp add: t rs)
  qed
qed

text \<open>An idle resource that is exactly the stored state.\<close>

definition holds_state :: "'p store \<Rightarrow> string \<Rightarrow> state \<Rightarrow> bool" where
  "holds_state c key st \<longleftrightarrow>
     (\<exists>a. fmlookup (table c) key = Some a \<and> a < length (resources c) \<and> rkey (resources c ! a) = key
       \<and> stateSnapshot (resources c ! a) = st \<and> inSyncStateSnapshot (resources c ! a) = st
       \<and> stored (resources c ! a) \<and> Finished (resources c ! a))"

lemma opened_lookup:
  assumes "distinct (map fst kvs)" and "alloc_states (fold (load_entry pre) kvs fmempty) = (t, rs)"
    and "table c = t" and "resources c = rs"
  shows "case map_of kvs key of
      Some (Inr st) \<Rightarrow> (if prefix pre key then holds_state c key st else fmlookup (table c) key = None)
    | _ \<Rightarrow> fmlookup (table c) key = None"
proof (cases "\<exists>st. map_of kvs key = Some (Inr st) \<and> prefix pre key")
  case True
  then obtain st where st: "map_of kvs key = Some (Inr st)" "prefix pre key" by blast
  have "fmlookup (fold (load_entry pre) kvs fmempty) key = Some (loaded key st)"
    by (simp add: load_entries_lookup [OF assms(1)] st)
  with alloc_states_lookup [OF assms(2), of key] obtain a where
    "fmlookup t key = Some a" "a < length rs" "rs ! a = loaded key st"
    by auto
  then have "holds_state c key st"
    unfolding holds_state_def assms(3,4) by (intro exI [of _ a]) (simp add: loaded_simps)
  then show ?thesis by (simp add: st)
next
  case False
  then have "fmlookup (fold (load_entry pre) kvs fmempty) key = None"
    by (auto simp: load_entries_lookup [OF assms(1)] split: option.splits sum.splits)
  with alloc_states_lookup [OF assms(2), of key] have "fmlookup (table c) key = None" by (simp add: assms(3))
  then show ?thesis using False by (auto split: option.splits sum.splits)
qed

lemma opened_loaded:
  assumes "distinct (map fst kvs)" and "alloc_states (fold (load_entry pre) kvs fmempty) = (t, rs)"
    and "a < length rs"
  shows "\<exists>key st. rs ! a = loaded key st"
proof -
  let ?m = "fold (load_entry pre) kvs fmempty" and ?ks = "sorted_list_of_fset (fmdom (fold (load_entry pre) kvs fmempty))"
  have rs: "rs = map (\<lambda>k. the (fmlookup ?m k)) ?ks" using assms(2) by (auto simp: alloc_states_def Let_def)
  then have "?ks ! a \<in> set ?ks" using assms(3) by (intro nth_mem) simp
  then obtain r where r: "fmlookup ?m (?ks ! a) = Some r" by (auto simp: fmlookup_dom_iff)
  then obtain st where "r = loaded (?ks ! a) st"
    by (auto simp: load_entries_lookup [OF assms(1)] split: option.splits sum.splits if_splits)
  moreover have "rs ! a = r" using rs r assms(3) by simp
  ultimately show ?thesis by blast
qed

lemma opened_store:
  assumes "visits P ok entries" and "ok p"
  obtains c where "cursor_openStore P (Inr p) pfx = (Inr c, Some p)" "persistentStore c = p" "ops c = []"
    "\<forall>a < length (resources c). pending (resources c ! a) = 0 \<and> \<not> locked (resources c ! a)"
    "\<And>key. case map_of (entries p) key of
        Some (Inr st) \<Rightarrow> (if prefix (pfx @ ''::'') key then holds_state c key st else fmlookup (table c) key = None)
      | _ \<Rightarrow> fmlookup (table c) key = None"
proof -
  obtain t rs where alloc: "alloc_states (fold (load_entry (pfx @ ''::'')) (entries p) fmempty) = (t, rs)"
    by fastforce
  define c where "c = \<lparr>persistentStore = p, table = t, resources = rs, ops = []\<rparr>"
  have dist: "distinct (map fst (entries p))" using assms by (simp add: visits_def)
  show ?thesis
  proof (rule that [of c])
    show "cursor_openStore P (Inr p) pfx = (Inr c, Some p)"
      by (simp add: cursor_openStore_def readStates_fold [OF assms] alloc c_def)
    show "\<forall>a < length (resources c). pending (resources c ! a) = 0 \<and> \<not> locked (resources c ! a)"
    proof (intro allI impI)
      fix a assume "a < length (resources c)"
      then have "a < length rs" by (simp add: c_def)
      from opened_loaded [OF dist alloc this] obtain key st where "rs ! a = loaded key st" by blast
      then show "pending (resources c ! a) = 0 \<and> \<not> locked (resources c ! a)" by (simp add: c_def loaded_def new_resource_def)
    qed
    show "case map_of (entries p) key of
        Some (Inr st) \<Rightarrow> (if prefix (pfx @ ''::'') key then holds_state c key st else fmlookup (table c) key = None)
      | _ \<Rightarrow> fmlookup (table c) key = None" for key
      by (rule opened_lookup [OF dist alloc]) (simp_all add: c_def)
  qed (simp_all add: c_def)
qed

text \<open>C24. A restart resumes where the store is: opening the store of an input type gives, for every document of
  that type that decodes, an idle resource with exactly the stored state, which is what the input
  then unpacks, and no other resource.  Documents of other types and corrupt ones are ignored.\<close>

theorem restart_resumes:
  assumes "visits P ok entries" and "ok p"
  shows "\<exists>c. cursor_openStore P (Inr p) pfx = (Inr c, Some p) \<and> persistentStore c = p
     \<and> (\<forall>key. case map_of (entries p) key of
          Some (Inr st) \<Rightarrow>
            (if prefix (pfx @ ''::'') key then holds_state c key st else fmlookup (table c) key = None)
        | _ \<Rightarrow> fmlookup (table c) key = None)"
  using opened_store [OF assms, of pfx] by metis

text \<open>A store given by the list of its entries.\<close>

definition listed_persist :: "(string \<times> state result) list persist" where
  "listed_persist = \<lparr>pSet = (\<lambda>k v p. (None, p)), pRemove = (\<lambda>k p. (None, filter (\<lambda>e. fst e \<noteq> k) p)),
     pEach = (\<lambda>fn u p. (range_loop (\<lambda>d. d) fn p u, p)), pClose = (\<lambda>p. (None, p))\<rparr>"

lemma listed_persist_visits: "visits listed_persist (\<lambda>p. distinct (map fst p)) (\<lambda>p. p)"
  by (simp add: visits_def listed_persist_def)

definition two_documents :: "(string \<times> state result) list" where
  "two_documents = [(''t::a'', Inr \<lparr>TTL = 10, Updated = 5, sCursor = VNum ''7''\<rparr>), (''t::b'', Inl (ErrNew ''corrupt''))]"

theorem restart_resumes_witness:
  "\<exists>c. cursor_openStore listed_persist (Inr two_documents) ''t'' = (Inr c, Some two_documents)
     \<and> holds_state c ''t::a'' \<lparr>TTL = 10, Updated = 5, sCursor = VNum ''7''\<rparr> \<and> fmlookup (table c) ''t::b'' = None"
proof -
  have "distinct (map fst two_documents)" by (simp add: two_documents_def)
  from restart_resumes [OF listed_persist_visits this, of "''t''"] obtain c where c:
    "cursor_openStore listed_persist (Inr two_documents) ''t'' = (Inr c, Some two_documents)"
    "\<forall>key. case map_of two_documents key of
        Some (Inr st) \<Rightarrow> (if prefix (''t'' @ ''::'') key then holds_state c key st else fmlookup (table c) key = None)
      | _ \<Rightarrow> fmlookup (table c) key = None"
    by blast
  from c(2) [rule_format, of "''t::a''"] c(2) [rule_format, of "''t::b''"] c(1) show ?thesis
    by (intro exI [of _ c]) (simp add: two_documents_def)
qed

end
