(* ===== verification/Cursor_System.thy ===== *)
theory Cursor_System
  imports Cursor_Clean
begin

text \<open>
  The store of an input manager under any interleaving of its inputs, the acknowledgements and the cleaner, as a
  transition system over the critical sections.  Ghost state: how many inputs hold each resource, and
  the operations of each resource that are not acknowledged yet, in order.
\<close>

section \<open>The steps\<close>

record 'p csys =
  sys_store :: "'p store"
  holders :: "nat \<Rightarrow> nat"
  queue :: "nat \<Rightarrow> nat list"

definition in_use :: "'p csys \<Rightarrow> nat \<Rightarrow> nat" where
  "in_use s a = holders s a + length (queue s a)"

text \<open>
  An input gets the resource of its key and then waits for the lock or gives up; with the lock it
  updates the time to live, publishes updates and finally releases the resource.  The outputs
  acknowledge the operations of a resource in order, in batches.  The counters are assumed not to reach
  \<open>2^64\<close>.
\<close>

inductive cur_step ::
    "'p persist \<Rightarrow> conversion \<Rightarrow> (string fset \<Rightarrow> string list) \<Rightarrow> go_time \<Rightarrow> 'p csys \<Rightarrow> 'p csys \<Rightarrow> bool"
  for P conv order started where
  get: "store_Get key (sys_store s) = (Some a, c) \<Longrightarrow> Suc (in_use s a) < 2 ^ 64 \<Longrightarrow>
      cur_step P conv order started s (s\<lparr>sys_store := c, holders := (holders s)(a := Suc (holders s a))\<rparr>)"
| lock: "0 < holders s a \<Longrightarrow> resource_TryLock (resources (sys_store s) ! a) = (True, r) \<Longrightarrow>
      cur_step P conv order started s (s\<lparr>sys_store := upd_resource a (\<lambda>_. r) (sys_store s)\<rparr>)"
| give_up: "0 < holders s a \<Longrightarrow>
      cur_step P conv order started s (s\<lparr>sys_store := upd_resource a resource_Release (sys_store s),
        holders := (holders s)(a := holders s a - 1)\<rparr>)"
| release: "0 < holders s a \<Longrightarrow> locked (resources (sys_store s) ! a) \<Longrightarrow>
      cur_step P conv order started s (s\<lparr>sys_store := upd_resource a releaseResource (sys_store s),
        holders := (holders s)(a := holders s a - 1)\<rparr>)"
| ttl: "0 < holders s a \<Longrightarrow> locked (resources (sys_store s) ! a) \<Longrightarrow>
      cur_step P conv order started s (s\<lparr>sys_store := UpdateTTL P now a t (sys_store s)\<rparr>)"
| publish: "0 < holders s a \<Longrightarrow> locked (resources (sys_store s) ! a) \<Longrightarrow> Suc (in_use s a) < 2 ^ 64 \<Longrightarrow>
      createUpdateOp conv ts a u (sys_store s) = (Inr i, c) \<Longrightarrow>
      cur_step P conv order started s (s\<lparr>sys_store := c, queue := (queue s)(a := queue s a @ [i])\<rparr>)"
| publish_fails: "0 < holders s a \<Longrightarrow> locked (resources (sys_store s) ! a) \<Longrightarrow>
      createUpdateOp conv ts a u (sys_store s) = (Inl e, c) \<Longrightarrow>
      cur_step P conv order started s (s\<lparr>sys_store := c\<rparr>)"
| acked: "0 < n \<Longrightarrow> n \<le> length (queue s a) \<Longrightarrow>
      Execute P conv (of_nat n) (queue s a ! (n - 1)) (sys_store s) = Inr c \<Longrightarrow>
      cur_step P conv order started s (s\<lparr>sys_store := c, queue := (queue s)(a := drop n (queue s a))\<rparr>)"
| gc: "cur_step P conv order started s (s\<lparr>sys_store := gcStore P order started now (sys_store s)\<rparr>)"

text \<open>The goroutine of the cleaner makes steps of its own kind only.\<close>

lemma cleaner_run_steps:
  "(cur_step P conv order started)\<^sup>*\<^sup>* s (s\<lparr>sys_store := cleaner_run P order started ticks (sys_store s)\<rparr>)"
proof (induction ticks arbitrary: s)
  case (Cons now ticks)
  let ?s = "s\<lparr>sys_store := gcStore P order started now (sys_store s)\<rparr>"
  from Cons [of ?s] cur_step.gc [of P conv order started s now] show ?case
    by (simp add: cleaner_run_def converse_rtranclp_into_rtranclp)
qed (simp add: cleaner_run_def)

inductive cur_reachable ::
    "'p persist \<Rightarrow> conversion \<Rightarrow> (string fset \<Rightarrow> string list) \<Rightarrow> go_time \<Rightarrow> 'p result \<Rightarrow> string \<Rightarrow> 'p csys \<Rightarrow> bool"
  for P conv order started access pfx where
  opened: "cursor_openStore P access pfx = (Inr c, p) \<Longrightarrow>
      cur_reachable P conv order started access pfx \<lparr>sys_store = c, holders = (\<lambda>_. 0), queue = (\<lambda>_. [])\<rparr>"
| step: "cur_reachable P conv order started access pfx s \<Longrightarrow> cur_step P conv order started s s' \<Longrightarrow>
      cur_reachable P conv order started access pfx s'"

section \<open>The invariant\<close>

text \<open>
  A key has one resource; a resource counts its users; a resource in use is in the table; the queued
  operations are alive and belong to the resource.
\<close>

definition table_ok :: "'p store \<Rightarrow> bool" where
  "table_ok c \<longleftrightarrow> (\<forall>k a. fmlookup (table c) k = Some a \<longrightarrow> a < length (resources c) \<and> rkey (resources c ! a) = k)"

definition use_ok :: "'p csys \<Rightarrow> nat \<Rightarrow> bool" where
  "use_ok s a \<longleftrightarrow> in_use s a < 2 ^ 64
     \<and> (a < length (resources (sys_store s)) \<longrightarrow> pending (resources (sys_store s) ! a) = of_nat (in_use s a))
     \<and> (0 < in_use s a \<longrightarrow> a < length (resources (sys_store s))
         \<and> fmlookup (table (sys_store s)) (rkey (resources (sys_store s) ! a)) = Some a)
     \<and> distinct (queue s a)
     \<and> (\<forall>i \<in> set (queue s a). i < length (ops (sys_store s)) \<and> (\<exists>u. ops (sys_store s) ! i = Some u \<and> op_resource u = a))"

definition CInv :: "'p csys \<Rightarrow> bool" where
  "CInv s \<longleftrightarrow> table_ok (sys_store s) \<and> (\<forall>a. use_ok s a)"

text \<open>A critical section that works on one resource.\<close>

definition works_on :: "nat \<Rightarrow> 'p store \<Rightarrow> 'p store \<Rightarrow> bool" where
  "works_on a c c' \<longleftrightarrow> table c' = table c \<and> length (resources c') = length (resources c)
     \<and> (\<forall>b. rkey (resources c' ! b) = rkey (resources c ! b))
     \<and> (\<forall>b. b \<noteq> a \<longrightarrow> pending (resources c' ! b) = pending (resources c ! b))
     \<and> length (ops c) \<le> length (ops c')
     \<and> (\<forall>i u. i < length (ops c) \<longrightarrow> ops c ! i = Some u \<longrightarrow> op_resource u \<noteq> a \<longrightarrow> ops c' ! i = Some u)"

lemma works_on_CInv:
  assumes "CInv s" and "works_on a (sys_store s) (sys_store s')"
    and "\<And>b. b \<noteq> a \<Longrightarrow> holders s' b = holders s b \<and> queue s' b = queue s b" and "use_ok s' a"
  shows "CInv s'"
proof -
  have "use_ok s' b" if b: "b \<noteq> a" for b
  proof -
    have "use_ok s b" using assms(1) by (simp add: CInv_def)
    moreover have "\<forall>i \<in> set (queue s b). i < length (ops (sys_store s'))
        \<and> (\<exists>u. ops (sys_store s') ! i = Some u \<and> op_resource u = b)"
    proof
      fix i assume "i \<in> set (queue s b)"
      with \<open>use_ok s b\<close> obtain u where "i < length (ops (sys_store s))" "ops (sys_store s) ! i = Some u" "op_resource u = b"
        by (auto simp: use_ok_def)
      with assms(2) b show "i < length (ops (sys_store s')) \<and> (\<exists>u. ops (sys_store s') ! i = Some u \<and> op_resource u = b)"
        unfolding works_on_def by (metis less_le_trans)
    qed
    ultimately show ?thesis using assms(2) assms(3) [OF b] b by (simp add: use_ok_def works_on_def in_use_def)
  qed
  then have "use_ok s' b" for b using assms(4) by (cases "b = a") auto
  moreover have "table_ok (sys_store s')" using assms(1,2) by (simp add: CInv_def table_ok_def works_on_def)
  ultimately show ?thesis by (simp add: CInv_def)
qed

lemma works_on_upd_resource:
  assumes "rkey (f (resources c ! a)) = rkey (resources c ! a)"
  shows "works_on a c (upd_resource a f c)"
proof -
  have "rkey (resources (upd_resource a f c) ! b) = rkey (resources c ! b)" for b
    using assms by (cases "a < length (resources c)"; cases "b = a") (simp_all add: upd_resource_def list_update_beyond)
  then show ?thesis by (simp add: works_on_def)
qed

lemma works_on_trans: "works_on a c c1 \<Longrightarrow> works_on a c1 c2 \<Longrightarrow> works_on a c c2"
  unfolding works_on_def by (elim conjE, intro conjI allI impI) (simp_all add: less_le_trans)

lemma works_on_persistentStore [simp]:
  "works_on a c (c'\<lparr>persistentStore := p\<rparr>) = works_on a c c'"
  "works_on a (c\<lparr>persistentStore := p\<rparr>) c' = works_on a c c'"
  by (simp_all add: works_on_def)

section \<open>What each step does\<close>

lemma UpdateTTL_upd:
  obtains "UpdateTTL P now a t c = c"
  | r p where "UpdateTTL P now a t c = upd_resource a (\<lambda>_. r) (c\<lparr>persistentStore := p\<rparr>)"
      "pending r = pending (resources c ! a)" "rkey r = rkey (resources c ! a)"
proof (cases "stored (resources c ! a) \<and> rTTL (resources c ! a) = t")
  case True
  then show ?thesis using that(1) by (simp add: UpdateTTL_def Let_def)
next
  case False
  define r1 where "r1 = (resources c ! a)\<lparr>rTTL := t\<rparr>"
  define r2 where "r2 = (if rUpdated r1 = zero_time then r1\<lparr>rUpdated := now\<rparr> else r1)"
  have r2: "pending r2 = pending (resources c ! a)" "rkey r2 = rkey (resources c ! a)" by (simp_all add: r1_def r2_def)
  obtain e p where set: "pSet P (rkey r2) \<lparr>TTL = rTTL r2, Updated = rUpdated r2, sCursor = cursor r2\<rparr> (persistentStore c) = (e, p)"
    by fastforce
  show ?thesis
  proof (cases e)
    case None
    then have "UpdateTTL P now a t c = upd_resource a (\<lambda>_. r2\<lparr>stored := True, internalInSync := True\<rparr>) (c\<lparr>persistentStore := p\<rparr>)"
      using set unfolding UpdateTTL_def Let_def if_not_P [OF False] r1_def [symmetric] r2_def [symmetric] by simp
    then show ?thesis using that(2) r2 by simp
  next
    case (Some err)
    then have "UpdateTTL P now a t c = upd_resource a (\<lambda>_. r2\<lparr>internalInSync := False\<rparr>) (c\<lparr>persistentStore := p\<rparr>)"
      using set unfolding UpdateTTL_def Let_def if_not_P [OF False] r1_def [symmetric] r2_def [symmetric] by simp
    then show ?thesis using that(2) r2 by simp
  qed
qed

lemma UpdateTTL_effect:
  "works_on a c (UpdateTTL P now a t c) \<and> ops (UpdateTTL P now a t c) = ops c
     \<and> (a < length (resources c) \<longrightarrow> pending (resources (UpdateTTL P now a t c) ! a) = pending (resources c ! a))"
proof (cases rule: UpdateTTL_upd [of P now a t c])
  case 1
  then show ?thesis by (simp add: works_on_def)
next
  case (2 r p)
  then show ?thesis using works_on_upd_resource [of "\<lambda>_. r" "c\<lparr>persistentStore := p\<rparr>" a] by simp
qed

lemma createUpdateOp_effect:
  assumes "createUpdateOp conv ts a u c = (res, c')"
  shows "works_on a c c'
     \<and> (case res of
         Inl e \<Rightarrow> ops c' = ops c \<and> (a < length (resources c) \<longrightarrow> pending (resources c' ! a) = pending (resources c ! a))
       | Inr i \<Rightarrow> i = length (ops c) \<and> (\<exists>op. ops c' = ops c @ [Some op] \<and> op_resource op = a)
           \<and> (a < length (resources c) \<longrightarrow> pending (resources c' ! a) = pending (resources c ! a) + 1))"
proof -
  define r1 where "r1 = (let r = resources c ! a in
    if activeCursorOperations r = 0 then r\<lparr>pendingCursor := snd (conv VNil (pendingCursor r))\<rparr> else r)"
  have r1: "pending r1 = pending (resources c ! a)" "rkey r1 = rkey (resources c ! a)" by (simp_all add: r1_def Let_def)
  obtain e cur where conv: "conv (pendingCursor r1) u = (e, cur)" by fastforce
  show ?thesis
  proof (cases e)
    case (Some err)
    then have "res = Inl err" "c' = upd_resource a (\<lambda>_. r1) c"
      using assms conv by (simp_all add: createUpdateOp_def r1_def [unfolded Let_def, symmetric] Let_def)
    then show ?thesis using works_on_upd_resource [of "\<lambda>_. r1" c a] r1 by simp
  next
    case None
    define r3 where "r3 = (let r2 = resource_Retain (r1\<lparr>pendingCursor := cur\<rparr>) in
      r2\<lparr>activeCursorOperations := activeCursorOperations r2 + 1\<rparr>)"
    let ?op = "\<lparr>op_resource = a, timestamp = ts, delta = u\<rparr>"
    have "res = Inr (length (ops c))" "c' = (upd_resource a (\<lambda>_. r3) c)\<lparr>ops := ops c @ [Some ?op]\<rparr>"
      using assms conv None
      by (simp_all add: createUpdateOp_def r1_def [unfolded Let_def, symmetric] r3_def Let_def)
    moreover have "pending r3 = pending (resources c ! a) + 1" "rkey r3 = rkey (resources c ! a)"
      by (simp_all add: r3_def Let_def resource_Retain_def r1)
    ultimately show ?thesis
      using works_on_upd_resource [of "\<lambda>_. r3" c a] by (auto simp: works_on_def nth_append)
  qed
qed

lemma Execute_effect:
  assumes "Execute P conv n i c = Inr c'" and "ops c ! i = Some op" and "op_resource op = a"
  shows "works_on a c c' \<and> ops c' = (ops c)[i := None]
     \<and> (a < length (resources c) \<longrightarrow> pending (resources c' ! a) = pending (resources c ! a) - n)"
proof -
  define r where "r = executed conv n op (resources c ! a)"
  have r: "pending r = pending (resources c ! a)" "rkey r = rkey (resources c ! a)"
    by (simp_all add: r_def executed_def Let_def)
  obtain e p where set: "pSet P (rkey r) (inSyncStateSnapshot r) (persistentStore c) = (e, p)" by fastforce
  define r' where "r' = (if e = None then r\<lparr>internalInSync := True, stored := True\<rparr> else r)"
  have r': "pending r' = pending (resources c ! a)" "rkey r' = rkey (resources c ! a)" by (simp_all add: r'_def r)
  let ?c1 = "upd_resource a (\<lambda>_. r') (c\<lparr>persistentStore := p\<rparr>)"
  have "c' = op_done n i ?c1"
    using assms set by (auto simp: Execute_def Let_def r_def [symmetric] r'_def split: option.splits)
  then have c': "c' = (upd_resource a (UpdatesReleaseN n) ?c1)\<lparr>ops := (ops c)[i := None]\<rparr>"
    using assms(2,3) by (simp add: op_done_def)
  have "works_on a c ?c1" using works_on_upd_resource [of "\<lambda>_. r'" "c\<lparr>persistentStore := p\<rparr>" a] r' by simp
  moreover have "works_on a ?c1 (upd_resource a (UpdatesReleaseN n) ?c1)"
    by (rule works_on_upd_resource) (simp add: UpdatesReleaseN_def)
  ultimately have "works_on a c (upd_resource a (UpdatesReleaseN n) ?c1)" by (rule works_on_trans)
  moreover have "(ops c)[i := None] ! j = Some u" if "ops c ! j = Some u" "op_resource u \<noteq> a" for j u
    using that assms(2,3) by (metis nth_list_update_neq option.inject)
  ultimately have "works_on a c c'" by (simp add: works_on_def c')
  then show ?thesis by (simp add: c' UpdatesReleaseN_def r')
qed

section \<open>The invariant holds\<close>

lemma CInv_use: "CInv s \<Longrightarrow> use_ok s a"
  by (simp add: CInv_def)

lemma use_okD:
  assumes "use_ok s a" and "0 < in_use s a"
  shows "a < length (resources (sys_store s))" "pending (resources (sys_store s) ! a) = of_nat (in_use s a)"
    "fmlookup (table (sys_store s)) (rkey (resources (sys_store s) ! a)) = Some a"
  using assms by (auto simp: use_ok_def)

text \<open>Steps that neither publish nor acknowledge: only the number of holders of \<open>a\<close> may change.\<close>

lemma CInv_holders:
  assumes "CInv s" and "works_on a (sys_store s) c" and "ops c = ops (sys_store s)" and "n + length (queue s a) < 2 ^ 64"
    and "a < length (resources c)" and "pending (resources c ! a) = of_nat (n + length (queue s a))"
    and "fmlookup (table c) (rkey (resources c ! a)) = Some a"
  shows "CInv (s\<lparr>sys_store := c, holders := (holders s)(a := n)\<rparr>)"
proof (rule works_on_CInv [OF assms(1), of a])
  show "use_ok (s\<lparr>sys_store := c, holders := (holders s)(a := n)\<rparr>) a"
    using assms CInv_use [OF assms(1), of a] by (simp add: use_ok_def in_use_def)
qed (simp_all add: assms(2))

lemma CInv_same_holders:
  assumes "CInv s" and "works_on a (sys_store s) c" and "ops c = ops (sys_store s)" and "0 < holders s a"
    and "pending (resources c ! a) = pending (resources (sys_store s) ! a)"
  shows "CInv (s\<lparr>sys_store := c\<rparr>)"
proof -
  have use: "use_ok s a" "0 < in_use s a" using assms(1,4) by (simp_all add: CInv_use in_use_def)
  have "CInv (s\<lparr>sys_store := c, holders := (holders s)(a := holders s a)\<rparr>)"
    using assms(1-3,5) use_okD [OF use] use(1)
    by (intro CInv_holders) (simp_all add: works_on_def in_use_def use_ok_def)
  then show ?thesis by simp
qed

lemma CInv_leave:
  assumes "CInv s" and "0 < holders s a" and "\<And>r. pending (f r) = pending r - 1 \<and> rkey (f r) = rkey r"
  shows "CInv (s\<lparr>sys_store := upd_resource a f (sys_store s), holders := (holders s)(a := holders s a - 1)\<rparr>)"
proof -
  have use: "use_ok s a" "0 < in_use s a" using assms(1,2) by (simp_all add: CInv_use in_use_def)
  from use(1) have "in_use s a < 2 ^ 64" by (simp add: use_ok_def)
  obtain m where m: "holders s a = Suc m" using assms(2) by (cases "holders s a") auto
  have "works_on a (sys_store s) (upd_resource a f (sys_store s))"
    by (rule works_on_upd_resource) (simp add: assms(3))
  then show ?thesis
    using assms(1,3) use_okD [OF use] \<open>in_use s a < 2 ^ 64\<close> m
    by (intro CInv_holders) (simp_all add: in_use_def)
qed

lemma CInv_get:
  assumes "CInv s" and "store_Get key (sys_store s) = (Some a, c)" and "Suc (in_use s a) < 2 ^ 64"
  shows "CInv (s\<lparr>sys_store := c, holders := (holders s)(a := Suc (holders s a))\<rparr>)"
proof (cases "fmlookup (table (sys_store s)) key")
  case (Some b)
  then have c: "c = upd_resource a resource_Retain (sys_store s)" and b: "b = a"
    using assms(2) by (auto simp: store_Get_def states_Find_def)
  have a: "a < length (resources (sys_store s))" "rkey (resources (sys_store s) ! a) = key"
    using assms(1) Some b by (simp_all add: CInv_def table_ok_def)
  have "works_on a (sys_store s) c" unfolding c by (rule works_on_upd_resource) (simp add: resource_Retain_def)
  then show ?thesis
    using assms(1,3) a Some b CInv_use [OF assms(1), of a]
    by (intro CInv_holders) (simp_all add: c resource_Retain_def in_use_def use_ok_def)
next
  case None
  let ?rs = "resources (sys_store s)"
  have a: "a = length ?rs" and c: "c = upd_resource a resource_Retain ((sys_store s)\<lparr>resources := ?rs @ [new_resource key],
      table := fmupd key a (table (sys_store s))\<rparr>)"
    using assms(2) None by (auto simp: store_Get_def states_Find_def Let_def)
  then have rs: "resources c = ?rs @ [resource_Retain (new_resource key)]" "table c = fmupd key a (table (sys_store s))"
    "ops c = ops (sys_store s)"
    by (simp_all add: upd_resource_def)
  have new: "pending (resource_Retain (new_resource key)) = 1" "rkey (resource_Retain (new_resource key)) = key"
    by (simp_all add: resource_Retain_def new_resource_def)
  have "in_use s a = 0" using CInv_use [OF assms(1), of a] by (auto simp: use_ok_def a)
  then have fresh: "holders s a = 0" "queue s a = []" by (simp_all add: in_use_def)
  let ?s = "s\<lparr>sys_store := c, holders := (holders s)(a := Suc (holders s a))\<rparr>"
  have "use_ok ?s b" for b
  proof (cases "b = a")
    case True
    then show ?thesis using fresh by (simp add: use_ok_def in_use_def rs a new nth_append)
  next
    case False
    have b: "use_ok s b" using assms(1) by (rule CInv_use)
    have same: "in_use ?s b = in_use s b" "queue ?s b = queue s b" using False by (simp_all add: in_use_def)
    have "b < length (resources c) \<Longrightarrow> b < length ?rs \<and> resources c ! b = ?rs ! b"
      using False by (auto simp: rs a nth_append)
    moreover have "fmlookup (table c) (rkey (resources c ! b)) = Some b" if "0 < in_use s b"
    proof -
      have "fmlookup (table (sys_store s)) (rkey (?rs ! b)) = Some b" "b < length ?rs"
        using use_okD [OF b that] by simp_all
      then show ?thesis using None by (auto simp: rs nth_append)
    qed
    moreover have "length ?rs \<le> length (resources c)" by (simp add: rs)
    ultimately show ?thesis using b by (auto simp: use_ok_def same rs(3))
  qed
  moreover have "table_ok c"
    using assms(1) by (auto simp: CInv_def table_ok_def rs a nth_append new dest: less_SucI)
  ultimately show ?thesis by (simp add: CInv_def)
qed

lemma CInv_publish:
  assumes "CInv s" and "0 < holders s a" and "Suc (in_use s a) < 2 ^ 64"
    and "createUpdateOp conv ts a u (sys_store s) = (Inr i, c)"
  shows "CInv (s\<lparr>sys_store := c, queue := (queue s)(a := queue s a @ [i])\<rparr>)"
proof (rule works_on_CInv [OF assms(1), of a])
  have use: "use_ok s a" "0 < in_use s a" using assms(1,2) by (simp_all add: CInv_use in_use_def)
  from createUpdateOp_effect [OF assms(4)] obtain op where c: "works_on a (sys_store s) c"
    "i = length (ops (sys_store s))" "ops c = ops (sys_store s) @ [Some op]" "op_resource op = a"
    "a < length (resources (sys_store s)) \<longrightarrow> pending (resources c ! a) = pending (resources (sys_store s) ! a) + 1"
    by auto
  then show "works_on a (sys_store s) (sys_store (s\<lparr>sys_store := c, queue := (queue s)(a := queue s a @ [i])\<rparr>))" by simp
  show "use_ok (s\<lparr>sys_store := c, queue := (queue s)(a := queue s a @ [i])\<rparr>) a"
    using use(1) use_okD [OF use] assms(3) c by (auto simp: use_ok_def in_use_def works_on_def nth_append)
qed simp

lemma CInv_acked:
  assumes "CInv s" and "0 < n" and "n \<le> length (queue s a)"
    and "Execute P conv (of_nat n) (queue s a ! (n - 1)) (sys_store s) = Inr c"
  shows "CInv (s\<lparr>sys_store := c, queue := (queue s)(a := drop n (queue s a))\<rparr>)"
proof (rule works_on_CInv [OF assms(1), of a])
  let ?i = "queue s a ! (n - 1)"
  have use: "use_ok s a" "0 < in_use s a" using assms(1-3) by (auto simp: CInv_use in_use_def)
  have "?i \<in> set (queue s a)" using assms(2,3) by simp
  with use(1) obtain u where u: "ops (sys_store s) ! ?i = Some u" "op_resource u = a" by (auto simp: use_ok_def)
  note c = Execute_effect [OF assms(4) u]
  then show "works_on a (sys_store s) (sys_store (s\<lparr>sys_store := c, queue := (queue s)(a := drop n (queue s a))\<rparr>))" by simp
  have dist: "distinct (queue s a)" using use(1) by (simp add: use_ok_def)
  have ni: "?i \<notin> set (drop n (queue s a))" using drop_distinct_nth [OF dist assms(3,2)] .
  have "\<forall>j \<in> set (drop n (queue s a)). j < length (ops c) \<and> (\<exists>u. ops c ! j = Some u \<and> op_resource u = a)"
  proof
    fix j assume j: "j \<in> set (drop n (queue s a))"
    then have "j \<noteq> ?i" "j \<in> set (queue s a)" using ni by (auto dest: in_set_dropD)
    then show "j < length (ops c) \<and> (\<exists>u. ops c ! j = Some u \<and> op_resource u = a)"
      using c use(1) by (simp add: use_ok_def)
  qed
  moreover have "pending (resources c ! a) = of_nat (holders s a + length (drop n (queue s a)))"
    using c use_okD [OF use] assms(3) by (simp add: in_use_def of_nat_diff)
  moreover have "holders s a + length (drop n (queue s a)) < 2 ^ 64"
  proof -
    have "in_use s a < 2 ^ 64" using use(1) unfolding use_ok_def by blast
    then show ?thesis unfolding in_use_def length_drop by linarith
  qed
  ultimately show "use_ok (s\<lparr>sys_store := c, queue := (queue s)(a := drop n (queue s a))\<rparr>) a"
    using use(1) use_okD [OF use] c dist by (simp add: use_ok_def in_use_def works_on_def)
qed simp

lemma CInv_gc:
  assumes "CInv s" and "enumerates order"
  shows "CInv (s\<lparr>sys_store := gcStore P order started now (sys_store s)\<rparr>)"
proof -
  let ?c = "sys_store s" and ?c' = "gcStore P order started now (sys_store s)"
  note mem = gcStore_memory [OF assms(2), of P started now ?c]
  then have keep: "resources ?c' = resources ?c" "ops ?c' = ops ?c"
    and keep3: "\<And>k a. fmlookup (table ?c) k = Some a \<Longrightarrow> \<not> expired started now (resources ?c ! a) \<Longrightarrow> fmlookup (table ?c') k = Some a"
    and keep4: "\<And>k a. fmlookup (table ?c') k = Some a \<Longrightarrow> fmlookup (table ?c) k = Some a"
    by blast+
  have "use_ok (s\<lparr>sys_store := ?c'\<rparr>) a" for a
  proof -
    have use: "use_ok s a" using assms(1) by (rule CInv_use)
    have "fmlookup (table ?c') (rkey (resources ?c ! a)) = Some a" if pos: "0 < in_use s a"
    proof -
      have "pending (resources ?c ! a) \<noteq> 0"
        using use_okD(2) [OF use pos] of_nat_zero [of "in_use s a"] use pos by (simp add: use_ok_def)
      then show ?thesis using keep3 [OF use_okD(3) [OF use pos]] by (simp add: expired_def)
    qed
    then show ?thesis using use by (simp add: use_ok_def in_use_def keep(1,2))
  qed
  moreover have "table_ok ?c'" using assms(1) keep4 unfolding CInv_def table_ok_def keep by blast
  ultimately show ?thesis by (simp add: CInv_def)
qed

lemma CInv_step:
  assumes "cur_step P conv order started s s'" and "enumerates order" and "CInv s"
  shows "CInv s'"
  using assms(1,3)
proof (cases rule: cur_step.cases)
  case (get key a c)
  then show ?thesis using CInv_get [OF assms(3)] by simp
next
  case (lock a r)
  then have r: "pending r = pending (resources (sys_store s) ! a)" "rkey r = rkey (resources (sys_store s) ! a)"
    by (auto simp: resource_TryLock_def split: if_splits)
  then have "works_on a (sys_store s) (upd_resource a (\<lambda>_. r) (sys_store s))" by (intro works_on_upd_resource)
  moreover have "a < length (resources (sys_store s))"
    using use_okD(1) [OF CInv_use [OF assms(3), of a]] lock by (simp add: in_use_def)
  ultimately show ?thesis using CInv_same_holders [OF assms(3)] lock r(1) by simp
next
  case (give_up a)
  then show ?thesis using CInv_leave [OF assms(3), of a resource_Release] by (simp add: resource_Release_def)
next
  case (release a)
  then show ?thesis
    using CInv_leave [OF assms(3), of a releaseResource] by (simp add: releaseResource_def resource_Release_def)
next
  case (ttl a now t)
  moreover have "a < length (resources (sys_store s))"
    using use_okD(1) [OF CInv_use [OF assms(3), of a]] ttl by (simp add: in_use_def)
  ultimately show ?thesis
    using UpdateTTL_effect [of a "sys_store s" P now t] unfolding ttl(1)
    by (intro CInv_same_holders [OF assms(3), of a]) simp_all
next
  case (publish a ts u i c)
  then show ?thesis using CInv_publish [OF assms(3)] by simp
next
  case (publish_fails a ts u e c)
  moreover have "a < length (resources (sys_store s))"
    using use_okD(1) [OF CInv_use [OF assms(3), of a]] publish_fails by (simp add: in_use_def)
  ultimately show ?thesis
    using createUpdateOp_effect [OF publish_fails(4)] unfolding publish_fails(1)
    by (intro CInv_same_holders [OF assms(3), of a]) simp_all
next
  case (acked n a c)
  then show ?thesis using CInv_acked [OF assms(3)] by simp
next
  case (gc now)
  then show ?thesis using CInv_gc [OF assms(3,2)] by simp
qed

lemma CInv_opened:
  assumes "visits P ok entries" and "ok p" and "cursor_openStore P (Inr p) pfx = (Inr c, p')"
  shows "CInv \<lparr>sys_store = c, holders = (\<lambda>_. 0), queue = (\<lambda>_. [])\<rparr>"
proof -
  obtain c0 where "cursor_openStore P (Inr p) pfx = (Inr c0, Some p)"
    and c0: "\<forall>a < length (resources c0). pending (resources c0 ! a) = 0 \<and> \<not> locked (resources c0 ! a)"
    and keys: "\<And>key. case map_of (entries p) key of
        Some (Inr st) \<Rightarrow> (if prefix (pfx @ ''::'') key then holds_state c0 key st else fmlookup (table c0) key = None)
      | _ \<Rightarrow> fmlookup (table c0) key = None"
    using opened_store [OF assms(1,2), of pfx] by metis
  then have c: "c = c0" using assms(3) by simp
  have "table_ok c0"
    unfolding table_ok_def
  proof (intro allI impI)
    fix k a assume "fmlookup (table c0) k = Some a"
    moreover from this keys [of k] obtain st where "holds_state c0 k st"
      by (auto split: option.splits sum.splits if_splits)
    ultimately show "a < length (resources c0) \<and> rkey (resources c0 ! a) = k" by (auto simp: holds_state_def)
  qed
  then show ?thesis using c0 by (simp add: CInv_def use_ok_def in_use_def c)
qed

lemma reachable_CInv:
  assumes "cur_reachable P conv order started (Inr p) pfx s" and "enumerates order" and "visits P ok entries" and "ok p"
  shows "CInv s"
  using assms(1)
proof (induction rule: cur_reachable.induct)
  case (opened c p')
  then show ?case by (rule CInv_opened [OF assms(3,4)])
next
  case (step s s')
  show ?case by (rule CInv_step [OF step.hyps(2) assms(2) step.IH])
qed

text \<open>C20. Whatever the interleaving of inputs, acknowledgements and cleaning: the resources in use have different
  keys, so the lock of a resource excludes all other inputs of the source; a resource in use is the one the table
  has for its key, hence was not cleaned; it is finished exactly when nobody uses it; and the acknowledgement of any
  batch of pending updates finds its operation alive.\<close>

theorem one_resource_per_source:
  assumes "cur_reachable P conv order started (Inr p) pfx s"
    and "enumerates order" and "visits P ok entries" and "ok p"
  shows "(\<forall>a b. 0 < in_use s a \<and> 0 < in_use s b
        \<and> rkey (resources (sys_store s) ! a) = rkey (resources (sys_store s) ! b) \<longrightarrow> a = b)
     \<and> (\<forall>a. 0 < in_use s a \<longrightarrow> fmlookup (table (sys_store s)) (rkey (resources (sys_store s) ! a)) = Some a)
     \<and> (\<forall>a. a < length (resources (sys_store s)) \<longrightarrow> (Finished (resources (sys_store s) ! a) \<longleftrightarrow> in_use s a = 0))
     \<and> (\<forall>a n. 0 < n \<and> n \<le> length (queue s a) \<longrightarrow>
          (\<exists>c'. Execute P conv (of_nat n) (queue s a ! (n - 1)) (sys_store s) = Inr c'))"
proof -
  have inv: "CInv s" using reachable_CInv [OF assms] .
  have tab: "0 < in_use s a \<Longrightarrow> fmlookup (table (sys_store s)) (rkey (resources (sys_store s) ! a)) = Some a" for a
    using use_okD(3) [OF CInv_use [OF inv]] .
  have fin: "Finished (resources (sys_store s) ! a) \<longleftrightarrow> in_use s a = 0" if "a < length (resources (sys_store s))" for a
  proof -
    have "in_use s a < 2 ^ 64" "pending (resources (sys_store s) ! a) = of_nat (in_use s a)"
      using CInv_use [OF inv, of a] that by (simp_all add: use_ok_def)
    then show ?thesis using of_nat_zero [of "in_use s a"] by (simp add: Finished_def)
  qed
  have ex: "\<exists>c'. Execute P conv (of_nat n) (queue s a ! (n - 1)) (sys_store s) = Inr c'"
    if "0 < n" "n \<le> length (queue s a)" for a n
  proof -
    have "queue s a ! (n - 1) \<in> set (queue s a)" using that by simp
    then obtain u where "ops (sys_store s) ! (queue s a ! (n - 1)) = Some u"
      using CInv_use [OF inv, of a] by (auto simp: use_ok_def)
    then show ?thesis by (auto simp: Execute_def Let_def split: prod.splits option.splits)
  qed
  have same: "a = b" if "0 < in_use s a" "0 < in_use s b"
      "rkey (resources (sys_store s) ! a) = rkey (resources (sys_store s) ! b)" for a b
    using trans [OF tab [OF that(1), unfolded that(3), symmetric] tab [OF that(2)]] by (rule option.inject [THEN iffD1])
  show ?thesis
  proof (intro conjI allI impI)
    fix a b
    assume "0 < in_use s a \<and> 0 < in_use s b
      \<and> rkey (resources (sys_store s) ! a) = rkey (resources (sys_store s) ! b)"
    then show "a = b" using same [of a b] by simp
  next
    fix a n
    assume "0 < n \<and> n \<le> length (queue s a)"
    then show "\<exists>c'. Execute P conv (of_nat n) (queue s a ! (n - 1)) (sys_store s) = Inr c'" using ex [of n a] by simp
  qed (use tab fin in auto)
qed

text \<open>An input that holds its source and has one update pending.\<close>

lemma plain_visits: "visits plain_persist (\<lambda>_. True) (\<lambda>_. [])"
  by (simp add: visits_def plain_persist_def)

lemma opened_empty:
  "cursor_openStore plain_persist (Inr Map.empty) ''t''
     = (Inr \<lparr>persistentStore = Map.empty, table = fmempty, resources = [], ops = []\<rparr>, Some Map.empty)"
  by (simp add: cursor_openStore_def readStates_def plain_persist_def alloc_states_def Let_def sorted_list_of_fset.rep_eq
      fmap_of_list_simps)

definition publishing :: "(string \<rightharpoonup> state) csys" where
  "publishing = \<lparr>sys_store = \<lparr>persistentStore = Map.empty, table = fmupd ''t::a'' 0 fmempty,
       resources = [(new_resource ''t::a'')\<lparr>pending := 2, locked := True, activeCursorOperations := 1, pendingCursor := VNum ''1''\<rparr>],
       ops = [Some \<lparr>op_resource = 0, timestamp = 9, delta = VNum ''1''\<rparr>]\<rparr>,
     holders = (\<lambda>_. 0)(0 := 1), queue = (\<lambda>_. [])(0 := [0])\<rparr>"

lemma publishing_reachable: "cur_reachable plain_persist copies plain_order 0 (Inr Map.empty) ''t'' publishing"
proof -
  let ?R = "cur_reachable plain_persist copies plain_order 0 (Inr Map.empty) ''t''"
  let ?c1 = "\<lparr>persistentStore = Map.empty, table = fmupd ''t::a'' 0 fmempty,
     resources = [(new_resource ''t::a'')\<lparr>pending := 1\<rparr>], ops = []\<rparr>"
  let ?s0 = "\<lparr>sys_store = \<lparr>persistentStore = Map.empty, table = fmempty, resources = [], ops = []\<rparr>,
     holders = (\<lambda>_. 0), queue = (\<lambda>_. [])\<rparr> :: (string \<rightharpoonup> state) csys"
  let ?s1 = "?s0\<lparr>sys_store := ?c1, holders := (holders ?s0)(0 := Suc (holders ?s0 0))\<rparr>"
  let ?s2 = "?s1\<lparr>sys_store := upd_resource 0 (\<lambda>_. (new_resource ''t::a'')\<lparr>pending := 1, locked := True\<rparr>) (sys_store ?s1)\<rparr>"
  have "?R ?s0" by (rule cur_reachable.opened [OF opened_empty])
  moreover have "cur_step plain_persist copies plain_order 0 ?s0 ?s1"
    by (rule cur_step.get [of "''t::a''"])
      (simp_all add: store_Get_def states_Find_def upd_resource_def resource_Retain_def new_resource_def in_use_def Let_def)
  ultimately have "?R ?s1" by (rule cur_reachable.step)
  moreover have "cur_step plain_persist copies plain_order 0 ?s1 ?s2"
    by (rule cur_step.lock) (simp_all add: resource_TryLock_def new_resource_def)
  ultimately have "?R ?s2" by (rule cur_reachable.step)
  moreover have "cur_step plain_persist copies plain_order 0 ?s2
      (?s2\<lparr>sys_store := sys_store publishing, queue := (queue ?s2)(0 := queue ?s2 0 @ [0])\<rparr>)"
    by (rule cur_step.publish [where ts = 9 and u = "VNum ''1''"])
      (simp_all add: in_use_def upd_resource_def createUpdateOp_def copies_def resource_Retain_def publishing_def
        new_resource_def Let_def)
  ultimately have "?R (?s2\<lparr>sys_store := sys_store publishing, queue := (queue ?s2)(0 := queue ?s2 0 @ [0])\<rparr>)"
    by (rule cur_reachable.step)
  then show ?thesis by (simp add: publishing_def)
qed

theorem one_resource_per_source_witness:
  "\<not> Finished (resources (sys_store publishing) ! 0)
   \<and> (\<exists>c'. Execute plain_persist copies 1 0 (sys_store publishing) = Inr c')"
proof -
  have use: "0 < in_use publishing 0" "length (queue publishing 0) = 1" "queue publishing 0 ! 0 = 0"
    "0 < length (resources (sys_store publishing))"
    by (simp_all add: publishing_def in_use_def)
  from one_resource_per_source [OF publishing_reachable plain_order_enumerates plain_visits TrueI]
  have "Finished (resources (sys_store publishing) ! 0) \<longleftrightarrow> in_use publishing 0 = 0"
    and ex: "\<And>n. 0 < n \<and> n \<le> length (queue publishing 0) \<Longrightarrow>
      \<exists>c'. Execute plain_persist copies (of_nat n) (queue publishing 0 ! (n - 1)) (sys_store publishing) = Inr c'"
    using use(4) by blast+
  with use ex [of 1] show ?thesis by simp
qed

end
