(* ===== verification/Cursor_Manager.thy ===== *)
theory Cursor_Manager
  imports Cursor_System
begin

text \<open>
  \<open>manager.go\<close> and \<open>input.go\<close> of \<open>pkg/manager/input/input-cursor\<close>: the \<open>InputManager\<close> with the life of its
  store, and the \<open>managedInput\<close> that runs one input per source.

  Parameters: the store's \<open>concert.RefCount\<close>, the result of \<open>group.Go\<close>, \<open>config.Unpack\<close>, the \<open>Configure\<close> function
  and the \<open>Run\<close> method of the input, the client of the publisher pipeline and \<open>LockContext\<close> of
  \<open>unison.Mutex\<close>.
\<close>

section \<open>The store's reference counter\<close>

record 'r ref_count =
  rcZero :: 'r
  rcRetain :: "'r \<Rightarrow> 'r"
  rcRelease :: "'r \<Rightarrow> bool \<times> 'r"

text \<open>Its documented contract: the zero value has one owner; \<open>Release\<close> reports when the last owner has gone.\<close>

definition ref_count_spec :: "'r ref_count \<Rightarrow> ('r \<Rightarrow> nat) \<Rightarrow> bool" where
  "ref_count_spec R owners \<longleftrightarrow> owners (rcZero R) = 1
     \<and> (\<forall>r. 0 < owners r \<longrightarrow> owners (rcRetain R r) = Suc (owners r))
     \<and> (\<forall>r b r'. 0 < owners r \<longrightarrow> rcRelease R r = (b, r') \<longrightarrow> owners r' = owners r - 1 \<and> (b \<longleftrightarrow> owners r = 1))"

section \<open>The input manager\<close>

record ('r, 'p) InputManager =
  Type :: string
  DefaultCleanTimeout :: go_duration
  initOnce :: bool
  initErr :: "error option"
  mstore :: "'p store option"
  refCount :: 'r

definition minutes :: "int \<Rightarrow> go_duration" where "minutes n = n * 60 * 1000000000"

definition cim_init :: "(string \<Rightarrow> 'p store result) \<Rightarrow> 'r ref_count \<Rightarrow> ('r, 'p) InputManager
    \<Rightarrow> error option \<times> ('r, 'p) InputManager" where
  "cim_init open_it R cim =
     (if initOnce cim then (initErr cim, cim)
      else let cim1 = cim\<lparr>initOnce := True,
                 DefaultCleanTimeout := if DefaultCleanTimeout cim \<le> 0 then minutes 30 else DefaultCleanTimeout cim\<rparr> in
        case open_it (Type cim1) of
          Inl e \<Rightarrow> (Some e, cim1\<lparr>initErr := Some e\<rparr>)
        | Inr c \<Rightarrow> (None, cim1\<lparr>initErr := None, mstore := Some c, refCount := rcZero R\<rparr>))"

definition store_Retain :: "'r ref_count \<Rightarrow> ('r, 'p) InputManager \<Rightarrow> ('r, 'p) InputManager" where
  "store_Retain R cim = cim\<lparr>refCount := rcRetain R (refCount cim)\<rparr>"

text \<open>\<open>Release\<close> calls \<open>closeStore\<close> when the last owner goes; the second result says so.\<close>

definition store_Release :: "'p persist \<Rightarrow> 'r ref_count \<Rightarrow> ('r, 'p) InputManager \<Rightarrow> ('r, 'p) InputManager \<times> bool" where
  "store_Release P R cim =
     (case rcRelease R (refCount cim) of
        (True, r) \<Rightarrow> (cim\<lparr>refCount := r,
            mstore := map_option (\<lambda>c. c\<lparr>persistentStore := snd (pClose P (persistentStore c))\<rparr>) (mstore cim)\<rparr>, True)
      | (False, r) \<Rightarrow> (cim\<lparr>refCount := r\<rparr>, False))"

definition cim_shutdown :: "'p persist \<Rightarrow> 'r ref_count \<Rightarrow> ('r, 'p) InputManager \<Rightarrow> ('r, 'p) InputManager \<times> bool" where
  "cim_shutdown P R cim = store_Release P R cim"

datatype Mode = ModeRun | ModeTest | ModeOther

text \<open>
  \<open>Init\<close>; \<open>go\<close> is the error of \<open>group.Go\<close>.  The last result says how often the store was closed.
  The goroutine of the cleaner ends with its two deferred calls.
\<close>

definition cim_Init ::
    "(string \<Rightarrow> 'p store result) \<Rightarrow> 'p persist \<Rightarrow> 'r ref_count \<Rightarrow> error option \<Rightarrow> Mode \<Rightarrow> ('r, 'p) InputManager
     \<Rightarrow> (error option \<times> ('r, 'p) InputManager) \<times> nat" where
  "cim_Init open_it P R go mode cim =
     (if mode \<noteq> ModeRun then ((None, cim), 0)
      else case cim_init open_it R cim of
          (Some e, cim1) \<Rightarrow> ((Some e, cim1), 0)
        | (None, cim1) \<Rightarrow>
            let cim2 = store_Retain R cim1 in
            case go of
              None \<Rightarrow> ((None, cim2), 0)
            | Some e \<Rightarrow>
                (case store_Release P R cim2 of
                   (cim3, b1) \<Rightarrow> case cim_shutdown P R cim3 of
                     (cim4, b2) \<Rightarrow> ((Some (ErrWrap ''Can not start registry cleanup process'' e), cim4),
                        of_bool b1 + of_bool b2)))"

definition cleaner_exit :: "'p persist \<Rightarrow> 'r ref_count \<Rightarrow> ('r, 'p) InputManager \<Rightarrow> ('r, 'p) InputManager \<times> nat" where
  "cleaner_exit P R cim =
     (case store_Release P R cim of
        (cim1, b1) \<Rightarrow> case cim_shutdown P R cim1 of (cim2, b2) \<Rightarrow> (cim2, of_bool b1 + of_bool b2))"

definition cleanup_interval :: "go_duration \<Rightarrow> go_duration" where
  "cleanup_interval interval = (if interval \<le> 0 then minutes 5 else interval)"

section \<open>Creating inputs\<close>

definition errNoSourceConfigured :: error where "errNoSourceConfigured = ErrNew ''no source has been configured''"
definition errNoInputRunner :: error where "errNoInputRunner = ErrNew ''no input runner available''"

text \<open>A source is its name.\<close>

record 'i managedInput =
  userID :: string
  sources :: "string list"
  runner :: 'i
  cleanTimeout :: go_duration

text \<open>\<open>unpack\<close> fills the settings \<open>id\<close> and \<open>clean_timeout\<close> over their defaults.\<close>

definition cim_Create ::
    "(string \<Rightarrow> 'p store result) \<Rightarrow> 'r ref_count \<Rightarrow> (string \<times> go_duration \<Rightarrow> (string \<times> go_duration) result)
     \<Rightarrow> (string list \<times> 'i option) result \<Rightarrow> ('r, 'p) InputManager \<Rightarrow> 'i managedInput result \<times> ('r, 'p) InputManager" where
  "cim_Create open_it R unpack configured cim =
     (case cim_init open_it R cim of
        (Some e, cim1) \<Rightarrow> (Inl e, cim1)
      | (None, cim1) \<Rightarrow>
          (case unpack ('''', DefaultCleanTimeout cim1) of
             Inl e \<Rightarrow> (Inl e, cim1)
           | Inr (uid, timeout) \<Rightarrow>
               (case configured of
                  Inl e \<Rightarrow> (Inl e, cim1)
                | Inr (srcs, inp) \<Rightarrow>
                    if srcs = [] then (Inl errNoSourceConfigured, cim1)
                    else case inp of
                        None \<Rightarrow> (Inl errNoInputRunner, cim1)
                      | Some i \<Rightarrow>
                          (Inr \<lparr>userID = uid, sources = srcs, runner = i, cleanTimeout = timeout\<rparr>, cim1))))"

definition createSourceID :: "string \<Rightarrow> 'i managedInput \<Rightarrow> string \<Rightarrow> string" where
  "createSourceID typ inp s =
     (if userID inp \<noteq> [] then typ @ ''::'' @ userID inp @ ''::'' @ s else typ @ ''::'' @ s)"

section \<open>Running inputs\<close>

text \<open>How a call of the input's code ends.\<close>

datatype outcome = Returned "error option" | Panicked string

definition input_panic :: "string \<Rightarrow> error" where
  "input_panic v = ErrNew (''input panic with: '' @ v)"

definition recovered :: "outcome \<Rightarrow> error option" where
  "recovered r = (case r of Returned e \<Rightarrow> e | Panicked v \<Rightarrow> Some (input_panic v))"

text \<open>
  \<open>lockResource\<close>: without the lock, \<open>LockContext\<close> waits.  Meanwhile others may work on the store; it
  returns with the lock held, or with the error of the canceler.
\<close>

definition lockResource ::
    "(nat \<Rightarrow> 'p store \<Rightarrow> error option \<times> 'p store) \<Rightarrow> nat \<Rightarrow> 'p store \<Rightarrow> error option \<times> 'p store" where
  "lockResource LockContext a c =
     (case resource_TryLock (resources c ! a) of
        (True, r) \<Rightarrow> (None, upd_resource a (\<lambda>_. r) c)
      | (False, r) \<Rightarrow> LockContext a c)"

definition cim_lock ::
    "(nat \<Rightarrow> 'p store \<Rightarrow> error option \<times> 'p store) \<Rightarrow> string \<Rightarrow> 'p store \<Rightarrow> nat result \<times> 'p store" where
  "cim_lock LockContext key c =
     (case store_Get key c of
        (None, c1) \<Rightarrow> (Inl (Panic ''nil pointer dereference''), c1)
      | (Some a, c1) \<Rightarrow>
          (case lockResource LockContext a c1 of
             (Some e, c2) \<Rightarrow> (Inl e, upd_resource a resource_Release c2)
           | (None, c2) \<Rightarrow> (Inr a, c2)))"

text \<open>
  \<open>runSource\<close>, with the deferred calls: release the resource, close the client, turn a panic of the
  input into an error.  \<open>'w\<close> is the state of the pipeline, \<open>'cl\<close> its client.
\<close>

definition runSource ::
    "'p persist \<Rightarrow> go_time \<Rightarrow> ('w \<Rightarrow> 'cl result \<times> 'w) \<Rightarrow> ('cl \<Rightarrow> 'w \<Rightarrow> 'w)
     \<Rightarrow> (nat \<Rightarrow> 'p store \<Rightarrow> error option \<times> 'p store)
     \<Rightarrow> ('i \<Rightarrow> string \<Rightarrow> nat \<Rightarrow> 'cl \<Rightarrow> 'w \<times> 'p store \<Rightarrow> outcome \<times> 'w \<times> 'p store)
     \<Rightarrow> string \<Rightarrow> 'i managedInput \<Rightarrow> string \<Rightarrow> 'w \<times> 'p store \<Rightarrow> error option \<times> 'w \<times> 'p store" where
  "runSource P now ConnectWith client_Close LockContext Run typ inp source st =
     (case st of (w, c) \<Rightarrow>
      case ConnectWith w of
        (Inl e, w1) \<Rightarrow> (Some e, w1, c)
      | (Inr client, w1) \<Rightarrow>
          (case cim_lock LockContext (createSourceID typ inp source) c of
             (Inl e, c1) \<Rightarrow> (Some e, client_Close client w1, c1)
           | (Inr a, c1) \<Rightarrow>
               (case Run (runner inp) source a client (w1, UpdateTTL P now a (cleanTimeout inp) c1) of
                  (out, w2, c2) \<Rightarrow> (recovered out, client_Close client w2, upd_resource a releaseResource c2))))"

text \<open>
  \<open>Test\<close> runs one worker per source; the errors a \<open>unison.MultiErrGroup\<close> collects are in the order
  the workers end (\<open>ended\<close>).  \<open>sderr.WrapAll\<close> is a parameter.
\<close>

definition testSource :: "('i \<Rightarrow> string \<Rightarrow> outcome) \<Rightarrow> 'i managedInput \<Rightarrow> string \<Rightarrow> error option" where
  "testSource Test inp source = recovered (Test (runner inp) source)"

definition managed_Test ::
    "(error list \<Rightarrow> string \<Rightarrow> error) \<Rightarrow> (string list \<Rightarrow> string list) \<Rightarrow> ('i \<Rightarrow> string \<Rightarrow> outcome) \<Rightarrow> 'i managedInput
     \<Rightarrow> error option" where
  "managed_Test WrapAll ended Test inp =
     (let errs = List.map_filter (testSource Test inp) (ended (sources inp)) in
      if errs \<noteq> [] then Some (WrapAll errs ''input tests failed'') else None)"

section \<open>The life of the store\<close>

lemma ref_release:
  assumes "ref_count_spec R owners" and "0 < owners r"
  obtains r' where "rcRelease R r = (owners r = 1, r')" "owners r' = owners r - 1"
proof -
  obtain b r' where r': "rcRelease R r = (b, r')" by fastforce
  with assms have "owners r' = owners r - 1" "b \<longleftrightarrow> owners r = 1" unfolding ref_count_spec_def by blast+
  with r' that show thesis by simp
qed

lemma store_Release_last:
  assumes "ref_count_spec R owners" and "owners (refCount cim) = 1"
  obtains cim' where "store_Release P R cim = (cim', True)" "owners (refCount cim') = 0"
    "mstore cim' = map_option (\<lambda>c. c\<lparr>persistentStore := snd (pClose P (persistentStore c))\<rparr>) (mstore cim)"
proof -
  obtain r' where "rcRelease R (refCount cim) = (True, r')" "owners r' = 0"
    using ref_release [OF assms(1), of "refCount cim"] assms(2) by auto
  then show thesis
    using that [of "cim\<lparr>refCount := r',
      mstore := map_option (\<lambda>c. c\<lparr>persistentStore := snd (pClose P (persistentStore c))\<rparr>) (mstore cim)\<rparr>"]
    by (simp add: store_Release_def)
qed

lemma store_Release_shared:
  assumes "ref_count_spec R owners" and "1 < owners (refCount cim)"
  obtains cim' where "store_Release P R cim = (cim', False)" "owners (refCount cim') = owners (refCount cim) - 1"
    "mstore cim' = mstore cim"
proof -
  obtain r' where "rcRelease R (refCount cim) = (False, r')" "owners r' = owners (refCount cim) - 1"
    using ref_release [OF assms(1), of "refCount cim"] assms(2) by auto
  then show ?thesis using that [of "cim\<lparr>refCount := r'\<rparr>"] by (simp add: store_Release_def)
qed

lemma cleaner_exit_closes:
  assumes "ref_count_spec R owners" and "owners (refCount cim) = 2" and "mstore cim = Some c"
  shows "\<exists>cim'. cleaner_exit P R cim = (cim', 1)
     \<and> mstore cim' = Some (c\<lparr>persistentStore := snd (pClose P (persistentStore c))\<rparr>)"
proof -
  obtain cim1 where 1: "store_Release P R cim = (cim1, False)" "owners (refCount cim1) = 1" "mstore cim1 = Some c"
    using store_Release_shared [OF assms(1), of cim P] assms(2,3) by auto
  obtain cim2 where "store_Release P R cim1 = (cim2, True)"
    "mstore cim2 = Some (c\<lparr>persistentStore := snd (pClose P (persistentStore c))\<rparr>)"
    using store_Release_last [OF assms(1) 1(2), of P] 1(3) by auto
  then show ?thesis using 1(1) by (simp add: cleaner_exit_def cim_shutdown_def)
qed

lemma cim_Init_go_fails:
  assumes "cim_init open_it R cim = (None, cim1)" and "cleaner_exit P R (store_Retain R cim1) = (cim2, n)"
  shows "cim_Init open_it P R (Some e) ModeRun cim = ((Some (ErrWrap ''Can not start registry cleanup process'' e), cim2), n)"
  using assms by (auto simp: cim_Init_def cleaner_exit_def Let_def split: prod.splits)

text \<open>Once \<open>init\<close> has run the accessor of the state store is not called again: \<open>Init\<close> and \<open>init\<close> do not depend on it.\<close>

definition opened_once :: "'p persist \<Rightarrow> 'r ref_count \<Rightarrow> ('r, 'p) InputManager \<Rightarrow> bool" where
  "opened_once P R cim \<longleftrightarrow> (\<forall>open_it. cim_init open_it R cim = (initErr cim, cim))
     \<and> (\<forall>open_it open_it' go mode. cim_Init open_it P R go mode cim = cim_Init open_it' P R go mode cim)"

lemma initOnce_opened: "initOnce cim \<Longrightarrow> opened_once P R cim"
  by (simp add: opened_once_def cim_init_def cim_Init_def)

lemma store_Release_init: "store_Release P R cim = (cim1, b) \<Longrightarrow> initOnce cim1 = initOnce cim"
  by (auto simp: store_Release_def split: prod.splits bool.splits)

lemma cim_init_sets: "cim_init open_it R cim = (e, cim1) \<Longrightarrow> initOnce cim1 \<and> initErr cim1 = e"
  by (auto simp: cim_init_def Let_def split: if_splits sum.splits)

lemma cim_Init_sets:
  assumes "cim_Init open_it P R go ModeRun cim = ((e, cim1), n)"
  shows "initOnce cim1"
proof -
  obtain e1 c1 where c1: "cim_init open_it R cim = (e1, c1)" by fastforce
  then have "initOnce c1" using cim_init_sets by blast
  then have "initOnce (store_Retain R c1)" by (simp add: store_Retain_def)
  then show ?thesis using assms c1 \<open>initOnce c1\<close>
    by (auto simp: cim_Init_def cim_shutdown_def Let_def dest!: store_Release_init split: option.splits prod.splits)
qed

lemma cim_Create_state: "snd (cim_Create open_it R unpack configured cim) = snd (cim_init open_it R cim)"
  by (auto simp: cim_Create_def split: prod.splits option.splits sum.splits)

text \<open>C25. The manager opens its store once and closes it exactly once.  The first \<open>Init\<close> in run mode, or the first \<open>Create\<close>,
  opens it; after that no call opens it again, whatever the accessor of the state store would answer, and \<open>Create\<close>
  leaves the manager as it is.  \<open>Init\<close> keeps the store open for the cleaner, whose goroutine closes it when it ends; when the
  goroutine cannot be started \<open>Init\<close> itself closes the store and reports the error.  In test mode nothing is opened, and
  an error of opening is remembered: later calls return it without trying again.\<close>

theorem manager_store_lifetime:
  fixes configured :: "(string list \<times> 'i option) result"
  assumes "ref_count_spec R owners" and "\<not> initOnce cim"
  shows "(\<forall>c. open_it (Type cim) = Inr c \<longrightarrow>
       (\<exists>cim1 cim2. cim_Init open_it P R None ModeRun cim = ((None, cim1), 0) \<and> mstore cim1 = Some c
          \<and> opened_once P R cim1 \<and> (\<forall>open_it'. snd (cim_Create open_it' R unpack configured cim1) = cim1)
          \<and> cleaner_exit P R cim1 = (cim2, 1)
          \<and> mstore cim2 = Some (c\<lparr>persistentStore := snd (pClose P (persistentStore c))\<rparr>))
     \<and> (\<forall>e. \<exists>cim'. cim_Init open_it P R (Some e) ModeRun cim
               = ((Some (ErrWrap ''Can not start registry cleanup process'' e), cim'), 1)
          \<and> mstore cim' = Some (c\<lparr>persistentStore := snd (pClose P (persistentStore c))\<rparr>) \<and> opened_once P R cim')
     \<and> (\<exists>cim1. snd (cim_Create open_it R unpack configured cim) = cim1 \<and> mstore cim1 = Some c \<and> initErr cim1 = None
          \<and> opened_once P R cim1))
   \<and> (\<forall>e go. open_it (Type cim) = Inl e \<longrightarrow>
       (\<exists>cim'. cim_Init open_it P R go ModeRun cim = ((Some e, cim'), 0)
          \<and> (\<forall>open_it' go'. cim_Init open_it' P R go' ModeRun cim' = ((Some e, cim'), 0))
          \<and> (\<forall>open_it'. cim_Create open_it' R unpack configured cim' = (Inl e, cim'))))
   \<and> (\<forall>go. cim_Init open_it P R go ModeTest cim = ((None, cim), 0))"
proof -
  have started: "\<exists>cim1. cim_init open_it R cim = (None, cim1) \<and> mstore cim1 = Some c \<and> owners (refCount cim1) = 1"
    if "open_it (Type cim) = Inr c" for c
    using assms that by (simp add: cim_init_def Let_def ref_count_spec_def)
  have retained: "\<exists>cim1. cim_init open_it R cim = (None, cim1) \<and> mstore (store_Retain R cim1) = Some c
      \<and> owners (refCount (store_Retain R cim1)) = 2" if "open_it (Type cim) = Inr c" for c
    using started [OF that] assms(1) by (auto simp: store_Retain_def ref_count_spec_def)
  have run: "\<exists>cim1 cim2. cim_Init open_it P R None ModeRun cim = ((None, cim1), 0) \<and> mstore cim1 = Some c
      \<and> cleaner_exit P R cim1 = (cim2, 1)
      \<and> mstore cim2 = Some (c\<lparr>persistentStore := snd (pClose P (persistentStore c))\<rparr>)"
    if "open_it (Type cim) = Inr c" for c
  proof -
    obtain cim1 where "cim_init open_it R cim = (None, cim1)" "mstore (store_Retain R cim1) = Some c"
      "owners (refCount (store_Retain R cim1)) = 2"
      using retained [OF \<open>open_it (Type cim) = Inr c\<close>] by blast
    with cleaner_exit_closes [OF assms(1) this(3,2), of P] show ?thesis by (auto simp: cim_Init_def Let_def)
  qed
  have fails: "\<exists>cim'. cim_Init open_it P R (Some e) ModeRun cim
         = ((Some (ErrWrap ''Can not start registry cleanup process'' e), cim'), 1)
      \<and> mstore cim' = Some (c\<lparr>persistentStore := snd (pClose P (persistentStore c))\<rparr>)"
    if "open_it (Type cim) = Inr c" for c e
  proof -
    obtain cim1 where cim1: "cim_init open_it R cim = (None, cim1)" "mstore (store_Retain R cim1) = Some c"
      "owners (refCount (store_Retain R cim1)) = 2"
      using retained [OF \<open>open_it (Type cim) = Inr c\<close>] by blast
    from cleaner_exit_closes [OF assms(1) this(3,2), of P] show ?thesis
      using cim_Init_go_fails [OF cim1(1)] by metis
  qed
  have err: "\<exists>cim'. cim_Init open_it P R go ModeRun cim = ((Some e, cim'), 0)
      \<and> (\<forall>open_it' go'. cim_Init open_it' P R go' ModeRun cim' = ((Some e, cim'), 0))
      \<and> (\<forall>open_it'. cim_Create open_it' R unpack configured cim' = (Inl e, cim'))"
    if "open_it (Type cim) = Inl e" for e go
    using that assms(2) by (simp add: cim_Init_def cim_init_def cim_Create_def Let_def)
  have once: "opened_once P R cim1" if "cim_Init open_it P R go ModeRun cim = ((e, cim1), n)" for go e cim1 n
    by (rule initOnce_opened [OF cim_Init_sets [OF that]])
  have same: "snd (cim_Create open_it' R unpack configured cim1) = cim1" if "opened_once P R cim1" for cim1 open_it'
    using that by (simp add: cim_Create_state opened_once_def)
  have create: "mstore (snd (cim_Create open_it R unpack configured cim)) = Some c
      \<and> initErr (snd (cim_Create open_it R unpack configured cim)) = None
      \<and> opened_once P R (snd (cim_Create open_it R unpack configured cim))" if "open_it (Type cim) = Inr c" for c
    using started [OF that] cim_init_sets [of open_it R cim None] initOnce_opened [of _ P R] by (auto simp: cim_Create_state)
  have test: "cim_Init open_it P R go ModeTest cim = ((None, cim), 0)" for go by (simp add: cim_Init_def)
  show ?thesis
    using err test
  proof (intro conjI allI impI)
    fix c assume c: "open_it (Type cim) = Inr c"
    obtain cim1 cim2 where run1: "cim_Init open_it P R None ModeRun cim = ((None, cim1), 0)" "mstore cim1 = Some c"
      "cleaner_exit P R cim1 = (cim2, 1)" "mstore cim2 = Some (c\<lparr>persistentStore := snd (pClose P (persistentStore c))\<rparr>)"
      using run [OF c] by blast
    then show "\<exists>cim1 cim2. cim_Init open_it P R None ModeRun cim = ((None, cim1), 0) \<and> mstore cim1 = Some c
        \<and> opened_once P R cim1 \<and> (\<forall>open_it'. snd (cim_Create open_it' R unpack configured cim1) = cim1)
        \<and> cleaner_exit P R cim1 = (cim2, 1)
        \<and> mstore cim2 = Some (c\<lparr>persistentStore := snd (pClose P (persistentStore c))\<rparr>)"
      using once [OF run1(1)] same by blast
    show "\<exists>cim'. cim_Init open_it P R (Some e) ModeRun cim
          = ((Some (ErrWrap ''Can not start registry cleanup process'' e), cim'), 1)
        \<and> mstore cim' = Some (c\<lparr>persistentStore := snd (pClose P (persistentStore c))\<rparr>) \<and> opened_once P R cim'" for e
      using fails [OF c, of e] once by blast
    show "\<exists>cim1. snd (cim_Create open_it R unpack configured cim) = cim1 \<and> mstore cim1 = Some c \<and> initErr cim1 = None
        \<and> opened_once P R cim1"
      using create [OF c] by blast
  qed simp_all
qed

definition nat_ref_count :: "nat ref_count" where
  "nat_ref_count = \<lparr>rcZero = 1, rcRetain = Suc, rcRelease = (\<lambda>n. (n = 1, n - 1))\<rparr>"

lemma nat_ref_count_spec: "ref_count_spec nat_ref_count (\<lambda>n. n)"
  by (simp add: ref_count_spec_def nat_ref_count_def)

definition fresh_manager :: "(nat, string \<rightharpoonup> state) InputManager" where
  "fresh_manager = \<lparr>Type = ''t'', DefaultCleanTimeout = 0, initOnce = False, initErr = None, mstore = None, refCount = 0\<rparr>"

theorem manager_store_lifetime_witness:
  "\<exists>cim1 cim2. cim_Init (\<lambda>_. Inr one_source) plain_persist nat_ref_count None ModeRun fresh_manager = ((None, cim1), 0)
     \<and> cleaner_exit plain_persist nat_ref_count cim1 = (cim2, 1)
     \<and> cim_init (\<lambda>_. Inl (ErrNew ''no store'')) nat_ref_count cim1 = (initErr cim1, cim1)"
  using manager_store_lifetime [OF nat_ref_count_spec, of fresh_manager "\<lambda>_. Inr one_source" plain_persist
      Inr "Inr ([''a''], Some ())"]
  by (auto simp: fresh_manager_def opened_once_def)

section \<open>Source ids\<close>

lemma id_prefix_unique:
  assumes "CHR '':'' \<notin> set u" and "CHR '':'' \<notin> set v" and "u @ ''::'' @ x = v @ ''::'' @ y"
  shows "u = v \<and> x = y"
proof -
  have cut: "takeWhile (\<lambda>z. z \<noteq> CHR '':'') (w @ ''::'' @ z) = w" if "CHR '':'' \<notin> set w" for w z
    using that by (induction w) auto
  show ?thesis using cut [OF assms(1), of x] cut [OF assms(2), of y] assms(3) by simp
qed

text \<open>When two inputs of a type share a registry key, for ids without a colon: only for the same id and the
  same source name, or when one input has no id and its source is named like the other's
  \<open>id::name\<close>.  In the second case the two sources overwrite each other's state.\<close>

lemma createSourceID_collisions:
  assumes "CHR '':'' \<notin> set (userID i)" and "CHR '':'' \<notin> set (userID j)"
  shows "createSourceID typ i x = createSourceID typ j y \<longleftrightarrow>
     userID i = userID j \<and> x = y
     \<or> userID i = [] \<and> userID j \<noteq> [] \<and> x = userID j @ ''::'' @ y
     \<or> userID j = [] \<and> userID i \<noteq> [] \<and> y = userID i @ ''::'' @ x"
  using id_prefix_unique [OF assms, of x y]
  by (cases "userID i = []"; cases "userID j = []") (auto simp: createSourceID_def)

definition unnamed_input :: "unit managedInput" where
  "unnamed_input = \<lparr>userID = [], sources = [], runner = (), cleanTimeout = 0\<rparr>"

lemma createSourceID_collisions_witness:
  "createSourceID ''t'' unnamed_input ''a::b'' = createSourceID ''t'' (unnamed_input\<lparr>userID := ''a''\<rparr>) ''b''
   \<and> createSourceID ''t'' (unnamed_input\<lparr>userID := ''a''\<rparr>) ''b'' \<noteq> createSourceID ''t'' (unnamed_input\<lparr>userID := ''b''\<rparr>) ''b''"
  using createSourceID_collisions [of unnamed_input "unnamed_input\<lparr>userID := ''a''\<rparr>" "''t''" "''a::b''" "''b''"]
    createSourceID_collisions [of "unnamed_input\<lparr>userID := ''a''\<rparr>" "unnamed_input\<lparr>userID := ''b''\<rparr>" "''t''" "''b''" "''b''"]
  by (simp add: unnamed_input_def)

section \<open>A run of a source, as steps of the system\<close>

abbreviation cur_steps :: "'p persist \<Rightarrow> conversion \<Rightarrow> (string fset \<Rightarrow> string list) \<Rightarrow> go_time \<Rightarrow> 'p csys \<Rightarrow> 'p csys \<Rightarrow> bool" where
  "cur_steps P conv order started \<equiv> (cur_step P conv order started)\<^sup>*\<^sup>*"

text \<open>
  While an input waits for the lock, the others work on the store; it gets the lock when it is free.  The
  input's \<open>Run\<close> works on the store through its cursor and its publisher, next to the others, and keeps
  the resource.  \<open>tw\<close> and \<open>tr\<close> tell, for the state in which the waiting or the run begins, how many references
  to each resource the others take meanwhile, less those they give back.
\<close>

definition gained :: "'p csys \<Rightarrow> (nat \<Rightarrow> int) \<Rightarrow> 'p csys \<Rightarrow> bool" where
  "gained s d s' \<longleftrightarrow> (\<forall>b. int (holders s' b) = int (holders s b) + d b)"

definition waits :: "'p persist \<Rightarrow> conversion \<Rightarrow> (string fset \<Rightarrow> string list) \<Rightarrow> go_time
    \<Rightarrow> (nat \<Rightarrow> 'p store \<Rightarrow> error option \<times> 'p store) \<Rightarrow> (nat \<Rightarrow> 'p csys \<Rightarrow> nat \<Rightarrow> int) \<Rightarrow> bool" where
  "waits P conv order started LockContext tw \<longleftrightarrow>
     (\<forall>a s e c'. 0 < holders s a \<longrightarrow> LockContext a (sys_store s) = (e, c') \<longrightarrow>
        (\<exists>s'. cur_steps P conv order started s s' \<and> 0 < holders s' a \<and> gained s (tw a s) s'
          \<and> (case e of
               Some _ \<Rightarrow> c' = sys_store s'
             | None \<Rightarrow> \<exists>r. resource_TryLock (resources (sys_store s') ! a) = (True, r)
                 \<and> c' = upd_resource a (\<lambda>_. r) (sys_store s'))))"

definition runs :: "'p persist \<Rightarrow> conversion \<Rightarrow> (string fset \<Rightarrow> string list) \<Rightarrow> go_time
    \<Rightarrow> ('i \<Rightarrow> string \<Rightarrow> nat \<Rightarrow> 'cl \<Rightarrow> 'w \<times> 'p store \<Rightarrow> outcome \<times> 'w \<times> 'p store)
    \<Rightarrow> ('i \<Rightarrow> string \<Rightarrow> nat \<Rightarrow> 'cl \<Rightarrow> 'w \<Rightarrow> 'p csys \<Rightarrow> nat \<Rightarrow> int) \<Rightarrow> bool" where
  "runs P conv order started Run tr \<longleftrightarrow>
     (\<forall>i src a cl w s out w' c'. 0 < holders s a \<longrightarrow> locked (resources (sys_store s) ! a) \<longrightarrow>
        Run i src a cl (w, sys_store s) = (out, w', c') \<longrightarrow>
        (\<exists>s'. cur_steps P conv order started s s' \<and> sys_store s' = c' \<and> 0 < holders s' a
          \<and> locked (resources c' ! a) \<and> gained s (tr i src a cl w s) s'))"

lemma gained_refl [simp]: "gained s (\<lambda>b. 0) s"
  by (simp add: gained_def)

text \<open>A reference taken before and given back after.\<close>

lemma gained_between:
  assumes "gained s1 d s2" and "holders s1 = (holders s)(a := Suc (holders s a))" and "0 < holders s2 a"
    and "holders s3 = (holders s2)(a := holders s2 a - 1)"
  shows "gained s d s3"
  using assms by (auto simp: gained_def)

lemma TryLock_locked: "resource_TryLock r = (True, r') \<Longrightarrow> locked r'"
  by (auto simp: resource_TryLock_def split: if_splits)

lemma CInv_steps:
  assumes "cur_steps P conv order started s s'" and "enumerates order" and "CInv s"
  shows "CInv s'"
  using assms(1,3) by (induction rule: rtranclp_induct) (auto intro: CInv_step [OF _ assms(2)])

lemma CInv_holder: "CInv s \<Longrightarrow> 0 < holders s a \<Longrightarrow> a < length (resources (sys_store s))"
  using use_okD(1) [OF CInv_use, of s a] by (simp add: in_use_def)

text \<open>The holder of a resource takes its lock: at once, or after waiting.\<close>

lemma lockResource_steps:
  assumes "lockResource LockContext a (sys_store s) = (e, c')" and "waits P conv order started LockContext tw"
    and "0 < holders s a"
  shows "\<exists>s' d. cur_steps P conv order started s s' \<and> 0 < holders s' a \<and> gained s d s' \<and> d \<in> {\<lambda>b. 0, tw a s}
     \<and> (case e of
          Some _ \<Rightarrow> c' = sys_store s'
        | None \<Rightarrow> \<exists>r. resource_TryLock (resources (sys_store s') ! a) = (True, r)
            \<and> c' = upd_resource a (\<lambda>_. r) (sys_store s'))"
proof (cases "fst (resource_TryLock (resources (sys_store s) ! a))")
  case True
  then show ?thesis using assms(1,3)
    by (intro exI [of _ s] exI [of _ "\<lambda>b. 0"]) (auto simp: lockResource_def split: prod.splits bool.splits)
next
  case False
  then have "LockContext a (sys_store s) = (e, c')"
    using assms(1) by (auto simp: lockResource_def split: prod.splits bool.splits)
  then show ?thesis using assms(2,3) unfolding waits_def by blast
qed

text \<open>
  \<open>lock\<close>: with the lock the input has one reference more than the state it came from, without it none; \<open>s1\<close> is
  the state in which the waiting began.
\<close>

lemma cim_lock_steps:
  assumes "cim_lock LockContext key (sys_store s) = (res, c')" and "waits P conv order started LockContext tw"
    and "\<forall>a. Suc (in_use s a) < 2 ^ 64" and "CInv s" and "enumerates order"
  obtains s' s1 a d where "cur_steps P conv order started s s'" "sys_store s' = c'" "d \<in> {\<lambda>b. 0, tw a s1}"
    "holders s1 = (holders s)(a := Suc (holders s a))"
    "\<And>b. res = Inr b \<Longrightarrow> b = a \<and> 0 < holders s' a \<and> locked (resources c' ! a) \<and> a < length (resources c') \<and> gained s1 d s'"
    "\<And>x. res = Inl x \<Longrightarrow> gained s d s'"
proof -
  obtain a c1 where get: "store_Get key (sys_store s) = (Some a, c1)"
    by (cases "fmlookup (table (sys_store s)) key") (auto simp: store_Get_def states_Find_def Let_def)
  define s1 where "s1 = s\<lparr>sys_store := c1, holders := (holders s)(a := Suc (holders s a))\<rparr>"
  have s1: "cur_step P conv order started s s1" "sys_store s1 = c1" "0 < holders s1 a"
    "holders s1 = (holders s)(a := Suc (holders s a))"
    using cur_step.get [OF get] assms(3) by (simp_all add: s1_def)
  obtain e c2 where lock: "lockResource LockContext a (sys_store s1) = (e, c2)" by fastforce
  from lockResource_steps [OF lock assms(2) s1(3)] obtain s2 d where s2: "cur_steps P conv order started s1 s2"
    "0 < holders s2 a" "gained s1 d s2" "d \<in> {\<lambda>b. 0, tw a s1}"
    "case e of Some _ \<Rightarrow> c2 = sys_store s2
     | None \<Rightarrow> \<exists>r. resource_TryLock (resources (sys_store s2) ! a) = (True, r) \<and> c2 = upd_resource a (\<lambda>_. r) (sys_store s2)"
    by blast
  have steps: "cur_steps P conv order started s s2" using s1(1) s2(1) by (rule converse_rtranclp_into_rtranclp)
  have a: "a < length (resources (sys_store s2))" using CInv_holder [OF CInv_steps [OF steps assms(5,4)] s2(2)] .
  show thesis
  proof (cases e)
    case None
    with s2(5) obtain r where r: "resource_TryLock (resources (sys_store s2) ! a) = (True, r)"
      "c2 = upd_resource a (\<lambda>_. r) (sys_store s2)"
      by auto
    have res: "res = Inr a" "c' = c2" using assms(1) get lock None s1(2) by (simp_all add: cim_lock_def)
    let ?s3 = "s2\<lparr>sys_store := c2\<rparr>"
    have "cur_steps P conv order started s ?s3"
      using cur_step.lock [OF s2(2) r(1)] steps unfolding r(2) by (rule rtranclp.rtrancl_into_rtrancl [rotated])
    moreover have "gained s1 d ?s3" using s2(3) by (simp add: gained_def)
    moreover have "0 < holders ?s3 a \<and> locked (resources c' ! a) \<and> a < length (resources c')"
      using s2(2) TryLock_locked [OF r(1)] a by (simp add: res r(2))
    ultimately show thesis
      using res by (intro that [OF _ _ s2(4) s1(4)]) (simp_all only: res, simp_all)
  next
    case (Some x)
    then have res: "res = Inl x" "c' = upd_resource a resource_Release (sys_store s2)"
      using assms(1) get lock s1(2) s2(5) by (simp_all add: cim_lock_def)
    let ?s3 = "s2\<lparr>sys_store := upd_resource a resource_Release (sys_store s2), holders := (holders s2)(a := holders s2 a - 1)\<rparr>"
    have "cur_steps P conv order started s ?s3"
      using cur_step.give_up [OF s2(2)] steps by (rule rtranclp.rtrancl_into_rtrancl [rotated])
    moreover have "gained s d ?s3" by (rule gained_between [OF s2(3) s1(4) s2(2)]) simp
    ultimately show thesis using res by (intro that [OF _ _ s2(4) s1(4)]) (simp_all only: res, simp_all)
  qed
qed

text \<open>C21. Running an input for a source is a sequence of steps of the system, at whose end the references are those there were
  before, with what the others took and gave back while it waited (from \<open>s1\<close>) and while the input ran (from \<open>s2\<close>): the
  input's own reference is given back on every path (connection or lock refused, error, panic), and the number
  of users each resource counts is that of its holders and its updates not acknowledged.  The lock it got is free
  again; the client is closed whenever it was connected; a panic of the input becomes an error.\<close>

theorem runSource_refines_system:
  assumes "runSource P now ConnectWith client_Close LockContext Run typ inp source (w, sys_store s) = (e, w', c')"
    and "waits P conv order started LockContext tw" and "runs P conv order started Run tr"
    and "\<forall>a. Suc (in_use s a) < 2 ^ 64" and "CInv s" and "enumerates order"
  shows "(\<exists>s' a cl w1 s1 s2 d1 d2. cur_steps P conv order started s s' \<and> sys_store s' = c'
       \<and> d1 \<in> {\<lambda>b. 0, tw a s1} \<and> d2 \<in> {\<lambda>b. 0, tr (runner inp) source a cl w1 s2}
       \<and> (\<forall>b. int (holders s' b) = int (holders s b) + d1 b + d2 b)
       \<and> (\<forall>b < length (resources c'). pending (resources c' ! b) = of_nat (holders s' b + length (queue s' b))))
     \<and> (case ConnectWith w of
          (Inl err, w1) \<Rightarrow> e = Some err \<and> w' = w1 \<and> c' = sys_store s
        | (Inr client, w1) \<Rightarrow> \<exists>w2. w' = client_Close client w2
            \<and> (\<forall>a c1 out w3 c3. cim_lock LockContext (createSourceID typ inp source) (sys_store s) = (Inr a, c1)
                \<longrightarrow> Run (runner inp) source a client (w1, UpdateTTL P now a (cleanTimeout inp) c1) = (out, w3, c3)
                \<longrightarrow> w2 = w3 \<and> \<not> locked (resources c' ! a)
                  \<and> (case out of Returned err \<Rightarrow> e = err | Panicked v \<Rightarrow> e = Some (input_panic v))))"
proof -
  have count: "\<forall>b < length (resources (sys_store s')). pending (resources (sys_store s') ! b) = of_nat (holders s' b + length (queue s' b))"
    if "cur_steps P conv order started s s'" for s'
    using CInv_use [OF CInv_steps [OF that assms(6,5)]] unfolding use_ok_def in_use_def by blast
  have refs: ?thesis
    if "cur_steps P conv order started s s'" "sys_store s' = c'" "d1 \<in> {\<lambda>b. 0, tw a s1}"
      "d2 \<in> {\<lambda>b. 0, tr (runner inp) source a cl w1 s2}" "\<And>b. int (holders s' b) = int (holders s b) + d1 b + d2 b"
      "case ConnectWith w of
          (Inl err, w1) \<Rightarrow> e = Some err \<and> w' = w1 \<and> c' = sys_store s
        | (Inr client, w1) \<Rightarrow> \<exists>w2. w' = client_Close client w2
            \<and> (\<forall>a c1 out w3 c3. cim_lock LockContext (createSourceID typ inp source) (sys_store s) = (Inr a, c1)
                \<longrightarrow> Run (runner inp) source a client (w1, UpdateTTL P now a (cleanTimeout inp) c1) = (out, w3, c3)
                \<longrightarrow> w2 = w3 \<and> \<not> locked (resources c' ! a)
                  \<and> (case out of Returned err \<Rightarrow> e = err | Panicked v \<Rightarrow> e = Some (input_panic v)))"
    for s' a cl w1 s1 s2 d1 d2
  proof (rule conjI [OF _ that(6)])
    note facts = that(1-5) count [OF that(1), unfolded that(2)]
    show "\<exists>s' a cl w1 s1 s2 d1 d2. cur_steps P conv order started s s' \<and> sys_store s' = c'
       \<and> d1 \<in> {\<lambda>b. 0, tw a s1} \<and> d2 \<in> {\<lambda>b. 0, tr (runner inp) source a cl w1 s2}
       \<and> (\<forall>b. int (holders s' b) = int (holders s b) + d1 b + d2 b)
       \<and> (\<forall>b < length (resources c'). pending (resources c' ! b) = of_nat (holders s' b + length (queue s' b)))"
      by (rule exI [of _ s'], rule exI [of _ a], rule exI [of _ cl], rule exI [of _ w1],
          rule exI [of _ s1], rule exI [of _ s2], rule exI [of _ d1], rule exI [of _ d2]) (intro conjI allI facts)
  qed
  let ?z = "\<lambda>b :: nat. 0 :: int"
  obtain conn w1 where connect: "ConnectWith w = (conn, w1)" by fastforce
  show ?thesis
  proof (cases conn)
    case (Inl err)
    then show ?thesis using assms(1) connect refs [of s ?z _ _ ?z] by (auto simp: runSource_def)
  next
    case (Inr client)
    obtain res c1 where lock: "cim_lock LockContext (createSourceID typ inp source) (sys_store s) = (res, c1)"
      by fastforce
    obtain sl s1 a d where sl: "cur_steps P conv order started s sl"
      "sys_store sl = c1" "d \<in> {?z, tw a s1}" "holders s1 = (holders s)(a := Suc (holders s a))"
      "\<And>b. res = Inr b \<Longrightarrow> b = a \<and> 0 < holders sl a \<and> locked (resources c1 ! a) \<and> a < length (resources c1) \<and> gained s1 d sl"
      "\<And>x. res = Inl x \<Longrightarrow> gained s d sl"
      by (rule cim_lock_steps [OF lock assms(2,4,5,6)]) (rule that)
    show ?thesis
    proof (cases res)
      case (Inl x)
      then have "w' = client_Close client w1" "c' = c1" using assms(1) connect Inr lock by (simp_all add: runSource_def)
      then show ?thesis using sl(6) [OF Inl] Inr connect lock Inl
        by (intro refs [OF sl(1) _ sl(3), of ?z]) (auto simp: sl(2) gained_def)
    next
      case (Inr b)
      then have a: "res = Inr a" using sl(5) by blast
      note got = sl(5) [OF a]
      let ?c2 = "UpdateTTL P now a (cleanTimeout inp) c1"
      obtain out w3 c3 where run: "Run (runner inp) source a client (w1, ?c2) = (out, w3, c3)" by (metis prod.exhaust)
      define s2 where "s2 = sl\<lparr>sys_store := ?c2\<rparr>"
      have s2: "cur_step P conv order started sl s2" "sys_store s2 = ?c2" "0 < holders s2 a" "holders s2 = holders sl"
        using cur_step.ttl [of sl a P conv order started now] sl(2) got by (simp_all add: s2_def)
      have "locked (resources ?c2 ! a)"
        using got by (auto simp: UpdateTTL_def Let_def split: prod.splits option.splits)
      with assms(3) run s2(2,3) obtain s3 where s3: "cur_steps P conv order started s2 s3" "sys_store s3 = c3"
        "0 < holders s3 a" "locked (resources c3 ! a)" "gained s2 (tr (runner inp) source a client w1 s2) s3"
        unfolding runs_def by metis
      let ?s4 = "s3\<lparr>sys_store := upd_resource a releaseResource (sys_store s3), holders := (holders s3)(a := holders s3 a - 1)\<rparr>"
      have "cur_step P conv order started s3 ?s4" using cur_step.release [OF s3(3)] s3(2,4) by simp
      with sl(1) s2(1) s3(1) have steps: "cur_steps P conv order started s s3" "cur_steps P conv order started s ?s4"
        by (meson converse_rtranclp_into_rtranclp rtranclp.rtrancl_into_rtrancl rtranclp_trans)+
      have "a < length (resources c3)" using CInv_holder [OF CInv_steps [OF steps(1) assms(6,5)] s3(3)] s3(2) by simp
      then have free: "\<not> locked (resources (sys_store ?s4) ! a)"
        by (simp add: s3(2) releaseResource_def resource_Release_def)
      have fin: "e = recovered out" "w' = client_Close client w3" "c' = sys_store ?s4"
        using assms(1) connect \<open>conn = Inr client\<close> lock a run s3(2) by (simp_all add: runSource_def)
      have "int (holders ?s4 b) = int (holders s b) + d b + tr (runner inp) source a client w1 s2 b" for b
        using got s3(3,5) sl(4) s2(4) by (cases "b = a") (auto simp: gained_def)
      then show ?thesis
        using fin(1,2) free connect \<open>conn = Inr client\<close> lock a run
        by (intro refs [OF steps(2) fin(3) [symmetric] sl(3), of "tr (runner inp) source a client w1 s2" client w1 s2])
          (auto simp: fin(3) recovered_def split: outcome.splits)
    qed
  qed
qed

text \<open>An input that publishes nothing and panics.\<close>

definition no_wait :: "nat \<Rightarrow> (string \<rightharpoonup> state) store \<Rightarrow> error option \<times> (string \<rightharpoonup> state) store" where
  "no_wait a c = (Some (ErrNew ''context canceled''), c)"

definition panicking :: "unit \<Rightarrow> string \<Rightarrow> nat \<Rightarrow> unit \<Rightarrow> nat \<times> (string \<rightharpoonup> state) store
    \<Rightarrow> outcome \<times> nat \<times> (string \<rightharpoonup> state) store" where
  "panicking i src a cl st = (Panicked ''boom'', st)"

definition idle_sys :: "(string \<rightharpoonup> state) csys" where
  "idle_sys = \<lparr>sys_store = \<lparr>persistentStore = Map.empty, table = fmempty, resources = [], ops = []\<rparr>,
     holders = (\<lambda>_. 0), queue = (\<lambda>_. [])\<rparr>"

text \<open>The witness: the input took the resource of its source and nobody else did, so at its end nobody holds it.\<close>

theorem runSource_refines_system_witness:
  "\<exists>c'. runSource plain_persist 7 (\<lambda>w. (Inr (), w + 1)) (\<lambda>_ w. w - 1) no_wait panicking ''t'' unnamed_input ''a'' (0, sys_store idle_sys)
       = (Some (input_panic ''boom''), 0, c')
     \<and> (\<exists>s'. cur_steps plain_persist copies plain_order 0 idle_sys s' \<and> sys_store s' = c' \<and> holders s' = (\<lambda>_. 0))"
proof -
  let ?R = "runSource plain_persist 7 (\<lambda>w. (Inr (), w + 1)) (\<lambda>_ w. w - 1) no_wait panicking ''t'' unnamed_input ''a''"
  obtain e w' c' where run: "?R (0, sys_store idle_sys) = (e, w', c')" by (metis prod.exhaust)
  have waits: "waits plain_persist copies plain_order 0 no_wait (\<lambda>_ _ _. 0)"
    unfolding waits_def no_wait_def using gained_refl by auto
  have runs: "runs plain_persist copies plain_order 0 panicking (\<lambda>_ _ _ _ _ _ _. 0)"
    unfolding runs_def panicking_def using gained_refl by auto
  have use: "\<forall>a. Suc (in_use idle_sys a) < 2 ^ 64" by (simp add: in_use_def idle_sys_def)
  have inv: "CInv idle_sys" by (simp add: CInv_def table_ok_def use_ok_def in_use_def idle_sys_def)
  have none: "holders idle_sys b = 0" for b by (simp add: idle_sys_def)
  obtain a c1 where lock: "cim_lock no_wait (createSourceID ''t'' unnamed_input ''a'') (sys_store idle_sys) = (Inr a, c1)"
    by (simp add: cim_lock_def lockResource_def store_Get_def states_Find_def resource_TryLock_def upd_resource_def
        resource_Retain_def new_resource_def idle_sys_def Let_def)
  note q = runSource_refines_system [OF run waits runs use inv plain_order_enumerates]
  from conjunct1 [OF q] obtain s' where s': "cur_steps plain_persist copies plain_order 0 idle_sys s'" "sys_store s' = c'"
    "\<And>b. holders s' b = 0"
    by (auto simp: none)
  moreover have "holders s' = (\<lambda>_. 0)" using s'(3) by (simp add: fun_eq_iff)
  moreover have "e = Some (input_panic ''boom'')" "w' = 0" using conjunct2 [OF q] lock by (simp_all add: panicking_def)
  ultimately show ?thesis unfolding run by blast
qed

end
