(* ===== verification/Feature.thy ===== *)
theory Feature
  imports Prelude
begin

text \<open>
  \<open>pkg/feature\<close>: features, the registry of \<open>registry.go\<close>, bundles, and the global registry of \<open>feature.go\<close>.
  Names are ASCII strings.  A factory is a Go value behind an \<open>interface{}\<close>: what matters of it is
  whether it is nil and, when \<open>reflect\<close> can take its pointer, that pointer.
\<close>

section \<open>Features\<close>

datatype Stability = Undefined | Stable | Beta | Experimental

definition stability_String :: "Stability \<Rightarrow> string" where
  "stability_String s =
     (case s of Undefined \<Rightarrow> ''Undefined'' | Stable \<Rightarrow> ''Stable'' | Beta \<Rightarrow> ''Beta'' | Experimental \<Rightarrow> ''Experimental'')"

record Details =
  dName :: string
  dStability :: Stability
  dDeprecated :: bool
  dInfo :: string
  dDoc :: string

definition details_String :: "Details \<Rightarrow> string" where
  "details_String d =
     ''name: '' @ dName d @ '', description: '' @ dInfo d
       @ (if dDeprecated d then '' (deprecated, '' else '' ('') @ stability_String (dStability d) @ '')''"

definition MakeDetails :: "string \<Rightarrow> string \<Rightarrow> Stability \<Rightarrow> Details" where
  "MakeDetails fullName doc stability =
     \<lparr>dName = fullName, dStability = stability, dDeprecated = False, dInfo = doc, dDoc = ''''\<rparr>"

text \<open>A value \<open>reflect.Value.Pointer\<close> accepts, with its pointer, or one on which it panics.\<close>

datatype factory = Pointer nat | NoPointer

record Feature =
  Namespace :: string
  Name :: string
  Factory :: "factory option"
  Description :: Details

definition feature_New :: "string \<Rightarrow> string \<Rightarrow> factory option \<Rightarrow> Details \<Rightarrow> Feature" where
  "feature_New namespace name fac description =
     \<lparr>Namespace = namespace, Name = name, Factory = fac, Description = description\<rparr>"

definition feature_String :: "Feature \<Rightarrow> string" where
  "feature_String f =
     Namespace f @ ''/'' @ Name f @ '' (description: '' @ details_String (Description f) @ '')''"

section \<open>The registry\<close>

type_synonym mapper = "(string, (string, Feature) fmap) fmap"

definition NewRegistry :: mapper where "NewRegistry = fmempty"

definition toLower :: "char \<Rightarrow> char" where
  "toLower c = (if 65 \<le> (of_char c :: nat) \<and> (of_char c :: nat) \<le> 90 then char_of (of_char c + 32 :: nat) else c)"

definition feature_normalize :: "string \<Rightarrow> string" where
  "feature_normalize s = map toLower s"

text \<open>\<open>featuresEqual\<close> panics when it has to compare factories that are not pointers.\<close>

definition featuresEqual :: "Feature \<Rightarrow> Feature \<Rightarrow> bool result" where
  "featuresEqual f1 f2 =
     (if Name f1 = Name f2 \<and> Namespace f1 = Namespace f2
      then case (Factory f1, Factory f2) of
          (Some (Pointer p), Some (Pointer q)) \<Rightarrow> Inr (p = q)
        | _ \<Rightarrow> Inl (Panic ''reflect: call of reflect.Value.Pointer'')
      else Inr False)"

definition quoted :: "string \<Rightarrow> string" where
  "quoted s = CHR 0x27 # s @ [CHR 0x27]"

definition nil_factory :: "string \<Rightarrow> error" where
  "nil_factory name = ErrNew (''feature '' @ quoted name @ '' cannot be registered with a nil factory'')"

definition not_unique :: "string \<Rightarrow> string \<Rightarrow> error" where
  "not_unique name ns =
     ErrNew (''could not register new feature '' @ quoted name @ '' in namespace '' @ quoted ns @ '', feature name must be unique'')"

definition unknown_namespace :: "string \<Rightarrow> error" where
  "unknown_namespace ns = ErrNew (''unknown namespace named '' @ quoted ns)"

definition unknown_feature :: "string \<Rightarrow> string \<Rightarrow> error" where
  "unknown_feature name ns = ErrNew (''unknown feature '' @ quoted name @ '' in namespace '' @ quoted ns)"

definition Register :: "Feature \<Rightarrow> mapper \<Rightarrow> error option \<times> mapper" where
  "Register feature r =
     (let ns = feature_normalize (Namespace feature); name = feature_normalize (Name feature) in
      if Factory feature = None then (Some (nil_factory name), r)
      else let r1 = (case fmlookup r ns of None \<Rightarrow> fmupd ns fmempty r | Some _ \<Rightarrow> r);
               m = the (fmlookup r1 ns) in
        case fmlookup m name of
          Some f \<Rightarrow>
            (case featuresEqual feature f of
               Inl e \<Rightarrow> (Some e, r1)
             | Inr True \<Rightarrow> (None, r1)
             | Inr False \<Rightarrow> (Some (not_unique name ns), r1))
        | None \<Rightarrow> (None, fmupd ns (fmupd name feature m) r1))"

definition Unregister :: "string \<Rightarrow> string \<Rightarrow> mapper \<Rightarrow> error option \<times> mapper" where
  "Unregister namespace name r =
     (let ns = feature_normalize namespace in
      case fmlookup r ns of
        None \<Rightarrow> (Some (unknown_namespace ns), r)
      | Some v \<Rightarrow>
          (case fmlookup v name of
             None \<Rightarrow> (Some (unknown_feature name ns), r)
           | Some _ \<Rightarrow> (None, fmupd ns (fmdrop name v) r)))"

definition Lookup :: "string \<Rightarrow> string \<Rightarrow> mapper \<Rightarrow> Feature result" where
  "Lookup namespace name r =
     (let ns = feature_normalize namespace; n = feature_normalize name in
      case fmlookup r ns of
        None \<Rightarrow> Inl (unknown_namespace ns)
      | Some v \<Rightarrow> (case fmlookup v n of None \<Rightarrow> Inl (unknown_feature n ns) | Some m \<Rightarrow> Inr m))"

text \<open>\<open>LookupAll\<close> lists the features in the order a \<open>range\<close> over the map gives them.\<close>

definition LookupAll :: "((string, Feature) fmap \<Rightarrow> Feature list) \<Rightarrow> string \<Rightarrow> mapper \<Rightarrow> Feature list result" where
  "LookupAll order namespace r =
     (let ns = feature_normalize namespace in
      case fmlookup r ns of None \<Rightarrow> Inl (unknown_namespace ns) | Some v \<Rightarrow> Inr (order v))"

definition Overwrite :: "Feature \<Rightarrow> mapper \<Rightarrow> error option \<times> mapper" where
  "Overwrite feature r =
     (case Lookup (Namespace feature) (Name feature) r of
        Inr _ \<Rightarrow>
          (case Unregister (Namespace feature) (Name feature) r of
             (Some e, r1) \<Rightarrow> (Some e, r1)
           | (None, r1) \<Rightarrow> Register feature r1)
      | Inl _ \<Rightarrow> Register feature r)"

definition Size :: "mapper \<Rightarrow> nat" where
  "Size r = (\<Sum>ns \<in> fset (fmdom r). fcard (fmdom (the (fmlookup r ns))))"

section \<open>Bundles\<close>

type_synonym Bundle = "Feature list"

definition FilterWith :: "(Feature \<Rightarrow> bool) \<Rightarrow> Bundle \<Rightarrow> Bundle" where
  "FilterWith pred b = filter pred b"

fun HasStabilityPred :: "Stability list \<Rightarrow> Feature \<Rightarrow> bool" where
  "HasStabilityPred [] f = False"
| "HasStabilityPred (s # ss) f = (s = dStability (Description f) \<or> HasStabilityPred ss f)"

definition bundle_Filter :: "Stability list \<Rightarrow> Bundle \<Rightarrow> Bundle" where
  "bundle_Filter stabilities b = FilterWith (HasStabilityPred stabilities) b"

definition MustBundle :: "Bundle list \<Rightarrow> Bundle" where
  "MustBundle bundle = concat bundle"

fun RegisterBundle :: "Bundle \<Rightarrow> mapper \<Rightarrow> error option \<times> mapper" where
  "RegisterBundle [] r = (None, r)"
| "RegisterBundle (f # fs) r =
     (case Register f r of (Some e, r1) \<Rightarrow> (Some e, r1) | (None, r1) \<Rightarrow> RegisterBundle fs r1)"

text \<open>\<open>OverwriteBundle\<close> calls \<open>Register\<close>, like \<open>RegisterBundle\<close>.\<close>

fun OverwriteBundle :: "Bundle \<Rightarrow> mapper \<Rightarrow> error option \<times> mapper" where
  "OverwriteBundle [] r = (None, r)"
| "OverwriteBundle (f # fs) r =
     (case Register f r of (Some e, r1) \<Rightarrow> (Some e, r1) | (None, r1) \<Rightarrow> OverwriteBundle fs r1)"

text \<open>The \<open>Must\<close> variants turn an error into a panic.\<close>

definition must :: "error option \<times> mapper \<Rightarrow> mapper result" where
  "must res = (case res of (Some e, r) \<Rightarrow> Inl (Panic ''must'') | (None, r) \<Rightarrow> Inr r)"

definition MustRegisterBundle :: "Bundle \<Rightarrow> mapper \<Rightarrow> mapper result" where
  "MustRegisterBundle bundle r = must (RegisterBundle bundle r)"

definition MustOverwriteBundle :: "Bundle \<Rightarrow> mapper \<Rightarrow> mapper result" where
  "MustOverwriteBundle bundle r = must (OverwriteBundle bundle r)"

definition MustRegister :: "Feature \<Rightarrow> mapper \<Rightarrow> mapper result" where
  "MustRegister feature r = must (Register feature r)"

section \<open>The registry as a map\<close>

text \<open>
  What the registry holds: a partial function from pairs of a namespace and a name to features.
\<close>

definition features :: "mapper \<Rightarrow> string \<times> string \<rightharpoonup> Feature" where
  "features r = (\<lambda>(ns, n). case fmlookup r ns of None \<Rightarrow> None | Some v \<Rightarrow> fmlookup v n)"

definition feature_key :: "string \<Rightarrow> string \<Rightarrow> string \<times> string" where
  "feature_key ns n = (feature_normalize ns, feature_normalize n)"

lemma features_insert:
  "fmlookup r ns = Some m \<Longrightarrow> features (fmupd ns (fmupd n f m) r) = (features r)((ns, n) \<mapsto> f)"
  by (rule ext) (auto simp: features_def split: if_splits)

lemma features_delete:
  "fmlookup r ns = Some m \<Longrightarrow> features (fmupd ns (fmdrop n m) r) = (features r)((ns, n) := None)"
  by (rule ext) (auto simp: features_def split: if_splits)

lemma Lookup_features:
  "(case Lookup ns n r of Inl _ \<Rightarrow> None | Inr f \<Rightarrow> Some f) = features r (feature_key ns n)"
  by (auto simp: Lookup_def features_def feature_key_def Let_def split: option.splits)

lemma Register_features:
  assumes "Register f r = (e, r')"
  defines "k \<equiv> feature_key (Namespace f) (Name f)"
  shows "features r' = (if Factory f \<noteq> None \<and> features r k = None then (features r)(k \<mapsto> f) else features r)
     \<and> (e = None \<longleftrightarrow> Factory f \<noteq> None \<and> (case features r k of None \<Rightarrow> True | Some g \<Rightarrow> featuresEqual f g = Inr True))"
proof (cases "Factory f")
  case None
  then show ?thesis using assms(1) by (auto simp: Register_def Let_def)
next
  case fac: (Some fac)
  define r1 where "r1 = (case fmlookup r (feature_normalize (Namespace f)) of
      None \<Rightarrow> fmupd (feature_normalize (Namespace f)) fmempty r | Some _ \<Rightarrow> r)"
  define m where "m = the (fmlookup r1 (feature_normalize (Namespace f)))"
  have r1: "features r1 = features r" by (rule ext) (auto simp: r1_def features_def split: option.splits)
  have m: "fmlookup m (feature_normalize (Name f)) = features r k"
    by (auto simp: m_def r1_def features_def k_def feature_key_def split: option.splits)
  have "fmlookup r1 (feature_normalize (Namespace f)) = Some m" by (auto simp: m_def r1_def split: option.splits)
  then have upd: "features (fmupd (feature_normalize (Namespace f)) (fmupd (feature_normalize (Name f)) f m) r1) = (features r)(k \<mapsto> f)"
    by (simp add: features_insert r1 k_def feature_key_def)
  have reg: "Register f r =
      (case features r k of
         Some g \<Rightarrow> (case featuresEqual f g of
             Inl e \<Rightarrow> (Some e, r1) | Inr True \<Rightarrow> (None, r1)
           | Inr False \<Rightarrow> (Some (not_unique (feature_normalize (Name f)) (feature_normalize (Namespace f))), r1))
       | None \<Rightarrow> (None, fmupd (feature_normalize (Namespace f)) (fmupd (feature_normalize (Name f)) f m) r1))"
    using fac unfolding Register_def Let_def r1_def [symmetric] unfolding m_def [symmetric] unfolding m by simp
  show ?thesis
    using assms(1) fac r1 upd unfolding reg by (auto split: option.splits sum.splits bool.splits)
qed

lemma Unregister_features:
  "Unregister ns n r = (e, r') \<Longrightarrow>
     features r' = (features r)((feature_normalize ns, n) := None)
     \<and> (e = None \<longleftrightarrow> features r (feature_normalize ns, n) \<noteq> None) \<and> (e \<noteq> None \<longrightarrow> r' = r)"
  by (auto simp: Unregister_def Let_def features_delete split: option.splits) (auto simp: features_def)

text \<open>The keys of the registry are normalized: an invariant of all operations.\<close>

definition keys_normalized :: "mapper \<Rightarrow> bool" where
  "keys_normalized r \<longleftrightarrow> (\<forall>ns n f. features r (ns, n) = Some f \<longrightarrow> (ns, n) = feature_key (Namespace f) (Name f))"

lemma toLower_idem [simp]: "toLower (toLower c) = toLower c"
  by (auto simp: toLower_def)

lemma feature_normalize_idem [simp]: "feature_normalize (feature_normalize s) = feature_normalize s"
  by (simp add: feature_normalize_def)

lemma keys_normalized_NewRegistry [simp]: "keys_normalized NewRegistry"
  by (simp add: keys_normalized_def NewRegistry_def features_def)

lemma keys_normalized_Register: "keys_normalized r \<Longrightarrow> keys_normalized (snd (Register f r))"
  using Register_features [of f r] by (cases "Register f r") (auto simp: keys_normalized_def feature_key_def)

lemma keys_normalized_Unregister:
  assumes "keys_normalized r"
  shows "keys_normalized (snd (Unregister ns n r))"
proof -
  obtain e r' where "Unregister ns n r = (e, r')" by fastforce
  with Unregister_features [OF this] have "features r' k = Some f \<Longrightarrow> features r k = Some f" "snd (Unregister ns n r) = r'" for k f
    by (simp_all split: if_splits)
  then show ?thesis using assms by (simp add: keys_normalized_def)
qed

text \<open>The calls on a registry, with everything they answer.\<close>

datatype feature_call = CRegister Feature | CLookup string string | CUnregister string string | COverwrite Feature

datatype feature_answer = AErr "error option" | AFeature "Feature result"

fun feature_step :: "feature_call \<Rightarrow> mapper \<Rightarrow> feature_answer \<times> mapper" where
  "feature_step (CRegister f) r = apfst AErr (Register f r)"
| "feature_step (CLookup ns n) r = (AFeature (Lookup ns n r), r)"
| "feature_step (CUnregister ns n) r = apfst AErr (Unregister ns n r)"
| "feature_step (COverwrite f) r = apfst AErr (Overwrite f r)"

fun feature_calls :: "('c \<Rightarrow> 'm \<Rightarrow> 'a \<times> 'm) \<Rightarrow> 'c list \<Rightarrow> 'm \<Rightarrow> 'a list \<times> 'm" where
  "feature_calls step [] m = ([], m)"
| "feature_calls step (c # cs) m =
     (case step c m of (a, m1) \<Rightarrow> case feature_calls step cs m1 of (as, m2) \<Rightarrow> (a # as, m2))"

text \<open>
  The specification is what the comments of the source promise: features under normalized names, which \<open>Lookup\<close> finds,
  \<open>Unregister\<close> removes and \<open>Overwrite\<close> replaces under every spelling.  A second registration is
  accepted only of the very same feature; that two factories cannot be compared is a panic.  The namespaces
  seen so far decide which of two errors a missing feature gives.
\<close>

record feature_map =
  namespaces :: "string set"
  held :: "string \<times> string \<rightharpoonup> Feature"

definition spec_insert :: "Feature \<Rightarrow> feature_map \<Rightarrow> feature_map" where
  "spec_insert f m =
     \<lparr>namespaces = insert (feature_normalize (Namespace f)) (namespaces m),
      held = (held m)(feature_key (Namespace f) (Name f) \<mapsto> f)\<rparr>"

definition spec_again :: "Feature \<Rightarrow> Feature \<Rightarrow> error option" where
  "spec_again f g =
     (if Name f = Name g \<and> Namespace f = Namespace g
      then case (Factory f, Factory g) of
          (Some (Pointer p), Some (Pointer q)) \<Rightarrow>
            (if p = q then None else Some (not_unique (feature_normalize (Name f)) (feature_normalize (Namespace f))))
        | _ \<Rightarrow> Some (Panic ''reflect: call of reflect.Value.Pointer'')
      else Some (not_unique (feature_normalize (Name f)) (feature_normalize (Namespace f))))"

definition spec_register :: "Feature \<Rightarrow> feature_map \<Rightarrow> error option \<times> feature_map" where
  "spec_register f m =
     (if Factory f = None then (Some (nil_factory (feature_normalize (Name f))), m)
      else case held m (feature_key (Namespace f) (Name f)) of
          None \<Rightarrow> (None, spec_insert f m)
        | Some g \<Rightarrow> (spec_again f g, m))"

definition spec_lookup :: "string \<Rightarrow> string \<Rightarrow> feature_map \<Rightarrow> Feature result" where
  "spec_lookup ns n m =
     (case held m (feature_key ns n) of
        Some f \<Rightarrow> Inr f
      | None \<Rightarrow> Inl (if feature_normalize ns \<in> namespaces m then unknown_feature (feature_normalize n) (feature_normalize ns)
                 else unknown_namespace (feature_normalize ns)))"

definition spec_unregister :: "string \<Rightarrow> string \<Rightarrow> feature_map \<Rightarrow> error option \<times> feature_map" where
  "spec_unregister ns n m =
     (case spec_lookup ns n m of
        Inl e \<Rightarrow> (Some e, m)
      | Inr f \<Rightarrow> (None, m\<lparr>held := (held m)(feature_key ns n := None)\<rparr>))"

definition spec_overwrite :: "Feature \<Rightarrow> feature_map \<Rightarrow> error option \<times> feature_map" where
  "spec_overwrite f m =
     (if Factory f = None then (Some (nil_factory (feature_normalize (Name f))), m) else (None, spec_insert f m))"

fun spec_step :: "feature_call \<Rightarrow> feature_map \<Rightarrow> feature_answer \<times> feature_map" where
  "spec_step (CRegister f) m = apfst AErr (spec_register f m)"
| "spec_step (CLookup ns n) m = (AFeature (spec_lookup ns n m), m)"
| "spec_step (CUnregister ns n) m = apfst AErr (spec_unregister ns n m)"
| "spec_step (COverwrite f) m = apfst AErr (spec_overwrite f m)"

definition feature_abs :: "mapper \<Rightarrow> feature_map" where
  "feature_abs r = \<lparr>namespaces = fset (fmdom r), held = features r\<rparr>"

text \<open>The calls on which the code keeps the promise: it forgets to normalize the name in \<open>Unregister\<close>, and \<open>Overwrite\<close>
  unregisters before it looks at the factory.\<close>

fun regular :: "feature_call \<Rightarrow> bool" where
  "regular (CUnregister ns n) \<longleftrightarrow> feature_normalize n = n"
| "regular (COverwrite f) \<longleftrightarrow> feature_normalize (Name f) = Name f \<and> Factory f \<noteq> None"
| "regular _ \<longleftrightarrow> True"

lemma feature_abs_simps [simp]: "namespaces (feature_abs r) = fset (fmdom r)" "held (feature_abs r) = features r"
  by (simp_all add: feature_abs_def)

lemma features_known: "features r (ns, n) = Some f \<Longrightarrow> ns |\<in>| fmdom r"
  by (auto simp: features_def fmdomI split: option.splits)

lemma Lookup_spec: "Lookup ns n r = spec_lookup ns n (feature_abs r)"
  by (auto simp: Lookup_def spec_lookup_def features_def feature_key_def Let_def fmdomI fmdom_notI split: option.splits)

lemma Register_error:
  assumes "Register f r = (e, r')"
  shows "e = fst (spec_register f (feature_abs r))"
  using assms
  by (auto simp: Register_def spec_register_def spec_again_def featuresEqual_def features_def feature_key_def Let_def
      split: option.splits sum.splits bool.splits if_splits factory.splits)

lemma Register_namespaces:
  assumes "Register f r = (e, r')" and "Factory f \<noteq> None"
  shows "fset (fmdom r') = insert (feature_normalize (Namespace f)) (fset (fmdom r))"
  using assms by (auto simp: Register_def Let_def fmdomI split: option.splits sum.splits bool.splits)

lemma Register_spec:
  assumes "Register f r = (e, r')"
  shows "spec_register f (feature_abs r) = (e, feature_abs r')"
proof (cases "Factory f = None")
  case True
  then show ?thesis using assms by (simp add: Register_def spec_register_def Let_def)
next
  case False
  note reg = Register_error [OF assms] Register_namespaces [OF assms False] conjunct1 [OF Register_features [OF assms]]
  show ?thesis
  proof (cases "features r (feature_key (Namespace f) (Name f))")
    case None
    then show ?thesis using reg False by (simp add: spec_register_def spec_insert_def feature_abs_def)
  next
    case (Some g)
    then have "feature_normalize (Namespace f) |\<in>| fmdom r" using features_known unfolding feature_key_def by blast
    then show ?thesis using reg False Some by (auto simp: spec_register_def feature_abs_def insert_absorb)
  qed
qed

text \<open>What \<open>Unregister\<close> does with the name as it is given.\<close>

lemma Unregister_exact:
  "Unregister ns n r =
     (case features r (feature_normalize ns, n) of
        None \<Rightarrow> (Some (if feature_normalize ns |\<in>| fmdom r then unknown_feature n (feature_normalize ns)
                    else unknown_namespace (feature_normalize ns)), r)
      | Some f \<Rightarrow> (None, fmupd (feature_normalize ns) (fmdrop n (the (fmlookup r (feature_normalize ns)))) r))"
  by (auto simp: Unregister_def features_def Let_def fmdomI fmdom_notI split: option.splits)

lemma Unregister_spec:
  assumes "Unregister ns n r = (e, r')" and "feature_normalize n = n"
  shows "spec_unregister ns n (feature_abs r) = (e, feature_abs r')"
proof (cases "features r (feature_normalize ns, n)")
  case None
  then show ?thesis using assms by (auto simp: Unregister_exact spec_unregister_def spec_lookup_def feature_key_def)
next
  case (Some f)
  then have "fset (fmdom r') = fset (fmdom r)" "e = None"
    using assms(1) features_known [OF Some] by (auto simp: Unregister_exact)
  then show ?thesis using Unregister_features [OF assms(1)] Some assms(2)
    by (simp add: spec_unregister_def spec_lookup_def feature_key_def feature_abs_def)
qed

lemma Overwrite_held:
  assumes "features r (feature_key (Namespace f) (Name f)) = Some g"
  shows "Overwrite f r =
     (case Unregister (Namespace f) (Name f) r of (Some e, r1) \<Rightarrow> (Some e, r1) | (None, r1) \<Rightarrow> Register f r1)"
  using assms by (simp add: Overwrite_def Lookup_spec spec_lookup_def)

lemma Overwrite_not_held:
  assumes "features r (feature_key (Namespace f) (Name f)) = None"
  shows "Overwrite f r = Register f r"
  using assms by (simp add: Overwrite_def Lookup_spec spec_lookup_def)

lemma Overwrite_spec:
  assumes "Overwrite f r = (e, r')" and "feature_normalize (Name f) = Name f" and "Factory f \<noteq> None"
  shows "spec_overwrite f (feature_abs r) = (e, feature_abs r')"
proof (cases "features r (feature_key (Namespace f) (Name f))")
  case None
  then show ?thesis using assms Register_spec [of f r e r'] by (auto simp: Overwrite_not_held spec_overwrite_def spec_register_def)
next
  case (Some g)
  obtain e1 r1 where un: "Unregister (Namespace f) (Name f) r = (e1, r1)" by fastforce
  from Unregister_spec [OF un assms(2)] Some
  have "e1 = None" "feature_abs r1 = (feature_abs r)\<lparr>held := (features r)(feature_key (Namespace f) (Name f) := None)\<rparr>"
    by (simp_all add: spec_unregister_def spec_lookup_def)
  with assms un Some Register_spec [of f r1 e r'] show ?thesis
    by (auto simp: Overwrite_held spec_overwrite_def spec_register_def spec_insert_def)
qed

lemma feature_step_spec:
  assumes "feature_step c r = (a, r')" and "regular c"
  shows "spec_step c (feature_abs r) = (a, feature_abs r')"
proof (cases c)
  case (CRegister f)
  then show ?thesis using assms(1) Register_spec [of f r] by (cases "Register f r") auto
next
  case (CLookup ns n)
  then show ?thesis using assms(1) by (auto simp: Lookup_spec)
next
  case (CUnregister ns n)
  then show ?thesis using assms Unregister_spec [of ns n r] by (cases "Unregister ns n r") auto
next
  case (COverwrite f)
  then show ?thesis using assms Overwrite_spec [of f r] by (cases "Overwrite f r") auto
qed

lemma feature_calls_spec:
  "feature_calls feature_step cs r0 = (as, r) \<Longrightarrow> \<forall>c \<in> set cs. regular c
     \<Longrightarrow> feature_calls spec_step cs (feature_abs r0) = (as, feature_abs r)"
proof (induction cs arbitrary: r0 as)
  case (Cons c cs)
  obtain a r1 where step: "feature_step c r0 = (a, r1)" by fastforce
  obtain as' where rest: "feature_calls feature_step cs r1 = (as', r)" "as = a # as'"
    using Cons.prems(1) step by (auto split: prod.splits)
  from feature_step_spec [OF step] Cons.IH [OF rest(1)] Cons.prems(2) rest(2) show ?case by simp
qed simp

lemma feature_step_keys:
  assumes "keys_normalized r" and "feature_step c r = (a, r')"
  shows "keys_normalized r'"
proof (cases c)
  case (COverwrite f)
  then show ?thesis
    using assms keys_normalized_Register keys_normalized_Unregister [OF assms(1), of "Namespace f" "Name f"]
    by (cases "Overwrite f r") (auto simp: Overwrite_def split: sum.splits prod.splits option.splits, (metis snd_conv)+)
qed (use assms keys_normalized_Register [of r] keys_normalized_Unregister [of r] in \<open>auto simp: apfst_def map_prod_def split: prod.splits, (metis snd_conv)+\<close>)

lemma feature_calls_keys:
  "feature_calls feature_step cs r0 = (as, r) \<Longrightarrow> keys_normalized r0 \<Longrightarrow> keys_normalized r"
  by (induction cs arbitrary: r0 as) (auto split: prod.splits dest: feature_step_keys)

lemma not_held_raw:
  assumes "keys_normalized r" and "feature_normalize n \<noteq> n"
  shows "features r (ns, n) = None"
proof (rule ccontr)
  assume "features r (ns, n) \<noteq> None"
  then obtain f where "features r (ns, n) = Some f" by blast
  then have "n = feature_normalize (Name f)" using assms(1) unfolding keys_normalized_def feature_key_def by blast
  then show False using assms(2) by simp
qed

text \<open>C29. The registry against its specification, a map from normalized names.  On calls that unregister
  and overwrite under normalized names, and overwrite with a factory, the code gives the answers of the map, errors and panics
  included, and holds its content after each run.  On the other calls it does not: \<open>Unregister\<close> of a name that
  is not normalized fails and changes nothing even when \<open>Lookup\<close> finds the feature, so \<open>Overwrite\<close> of such a feature fails
  too; and \<open>Overwrite\<close> without a factory loses the feature it was to replace.\<close>

theorem registry_refines_map:
  assumes "feature_calls feature_step cs NewRegistry = (as, r)"
  shows "((\<forall>c \<in> set cs. regular c) \<longrightarrow>
        feature_calls spec_step cs \<lparr>namespaces = {}, held = Map.empty\<rparr> = (as, feature_abs r))
     \<and> (\<forall>ns n. feature_normalize n \<noteq> n \<longrightarrow>
          Unregister ns n r = (Some (if feature_normalize ns |\<in>| fmdom r then unknown_feature n (feature_normalize ns)
             else unknown_namespace (feature_normalize ns)), r))
     \<and> (\<forall>f g. Lookup (Namespace f) (Name f) r = Inr g \<and> feature_normalize (Name f) \<noteq> Name f \<longrightarrow>
          Overwrite f r = (Some (unknown_feature (Name f) (feature_normalize (Namespace f))), r))
     \<and> (\<forall>f g. Lookup (Namespace f) (Name f) r = Inr g \<and> feature_normalize (Name f) = Name f \<and> Factory f = None \<longrightarrow>
          (\<exists>r'. Overwrite f r = (Some (nil_factory (Name f)), r')
             \<and> features r' = (features r)(feature_key (Namespace f) (Name f) := None)))"
proof -
  have keys: "keys_normalized r" using feature_calls_keys [OF assms] by simp
  have start: "feature_abs NewRegistry = \<lparr>namespaces = {}, held = Map.empty\<rparr>"
    by (auto simp: feature_abs_def features_def NewRegistry_def fun_eq_iff)
  have look: "features r (feature_key ns n) = Some g" if "Lookup ns n r = Inr g" for ns n g
    using that by (simp add: Lookup_spec spec_lookup_def split: option.splits)
  have un: "Unregister ns n r = (Some (if feature_normalize ns |\<in>| fmdom r then unknown_feature n (feature_normalize ns)
      else unknown_namespace (feature_normalize ns)), r)" if "feature_normalize n \<noteq> n" for ns n
    by (simp add: Unregister_exact not_held_raw [OF keys that])
  have over: "Overwrite f r = (Some (unknown_feature (Name f) (feature_normalize (Namespace f))), r)"
    if "Lookup (Namespace f) (Name f) r = Inr g" "feature_normalize (Name f) \<noteq> Name f" for f g
    using features_known look [OF that(1)] unfolding feature_key_def
    by (simp add: Overwrite_held [OF look [OF that(1)]] Unregister_exact not_held_raw [OF keys that(2)])
  have loses: "\<exists>r'. Overwrite f r = (Some (nil_factory (Name f)), r') \<and> features r' = (features r)(feature_key (Namespace f) (Name f) := None)"
    if "Lookup (Namespace f) (Name f) r = Inr g" "feature_normalize (Name f) = Name f" "Factory f = None" for f g
  proof -
    obtain e1 r1 where u: "Unregister (Namespace f) (Name f) r = (e1, r1)" by fastforce
    then have "e1 = None" "features r1 = (features r)(feature_key (Namespace f) (Name f) := None)"
      using Unregister_features [OF u] look [OF that(1)] that(2) by (simp_all add: feature_key_def)
    then show ?thesis using u that(2,3) by (simp add: Overwrite_held [OF look [OF that(1)]] Register_def Let_def)
  qed
  show ?thesis using feature_calls_spec [OF assms] un over loses unfolding start by blast
qed

definition sample_feature :: "string \<Rightarrow> nat \<Rightarrow> Feature" where
  "sample_feature name p = feature_New ''input'' name (Some (Pointer p)) (MakeDetails name ''doc'' Stable)"

text \<open>The witness: a feature registered as \<open>Log\<close> is found as \<open>log\<close>, a feature that claims the name is refused, and
  \<open>Overwrite\<close> of \<open>Log\<close> fails.\<close>

theorem registry_refines_map_witness:
  "\<exists>as r. feature_calls feature_step [CRegister (sample_feature ''Log'' 1), CLookup ''INPUT'' ''log'',
       CRegister (sample_feature ''log'' 2)] NewRegistry = (as, r)
     \<and> as = [AErr None, AFeature (Inr (sample_feature ''Log'' 1)), AErr (Some (not_unique ''log'' ''input''))]
     \<and> Overwrite (sample_feature ''Log'' 2) r = (Some (unknown_feature ''Log'' ''input''), r)"
proof -
  let ?cs = "[CRegister (sample_feature ''Log'' 1), CLookup ''INPUT'' ''log'', CRegister (sample_feature ''log'' 2)]"
  obtain as r where run: "feature_calls feature_step ?cs NewRegistry = (as, r)" by (metis prod.exhaust)
  have norm: "feature_normalize ''input'' = ''input''" "feature_normalize ''INPUT'' = ''input''" "feature_normalize ''Log'' = ''log''"
    "feature_normalize ''log'' = ''log''"
    by code_simp+
  have f: "Namespace (sample_feature n p) = ''input''" "Name (sample_feature n p) = n" "Factory (sample_feature n p) = Some (Pointer p)"
    for n p by (simp_all add: sample_feature_def feature_New_def)
  note q = registry_refines_map [OF run]
  have spec: "feature_calls spec_step ?cs \<lparr>namespaces = {}, held = Map.empty\<rparr> = (as, feature_abs r)" using conjunct1 [OF q] by simp
  let ?m = "\<lparr>namespaces = {''input''}, held = Map.empty((''input'', ''log'') \<mapsto> sample_feature ''Log'' 1)\<rparr>"
  have "feature_calls spec_step ?cs \<lparr>namespaces = {}, held = Map.empty\<rparr>
      = ([AErr None, AFeature (Inr (sample_feature ''Log'' 1)), AErr (Some (not_unique ''log'' ''input''))], ?m)"
    by (simp add: spec_register_def spec_lookup_def spec_insert_def spec_again_def feature_key_def norm f)
  then have as: "as = [AErr None, AFeature (Inr (sample_feature ''Log'' 1)), AErr (Some (not_unique ''log'' ''input''))]"
    and "feature_abs r = ?m"
    using spec by simp_all
  then have "Lookup ''input'' ''Log'' r = Inr (sample_feature ''Log'' 1)" by (simp add: Lookup_spec spec_lookup_def feature_key_def norm)
  then have "Overwrite (sample_feature ''Log'' 2) r = (Some (unknown_feature ''Log'' ''input''), r)"
    using q [THEN conjunct2, THEN conjunct2, THEN conjunct1, rule_format, of "sample_feature ''Log'' 2"] norm(1,3)
    unfolding f by simp
  then show ?thesis using run as by blast
qed

section \<open>What a registry holds\<close>

definition well_formed :: "Feature set \<Rightarrow> mapper \<Rightarrow> bool" where
  "well_formed S r \<longleftrightarrow> keys_normalized r \<and> (\<forall>k f. features r k = Some f \<longrightarrow> Factory f \<noteq> None \<and> f \<in> S)"

fun brings :: "feature_call \<Rightarrow> Feature option" where
  "brings (CRegister f) = Some f"
| "brings (COverwrite f) = Some f"
| "brings _ = None"

lemma brings_Some: "brings c = Some f \<longleftrightarrow> c = CRegister f \<or> c = COverwrite f"
  by (cases c) auto

lemma well_formed_Register:
  assumes "well_formed S r" and "f \<in> S"
  shows "well_formed S (snd (Register f r))"
proof -
  obtain e r' where reg: "Register f r = (e, r')" by fastforce
  have "features r' k = Some g \<Longrightarrow> features r k = Some g \<or> g = f \<and> Factory f \<noteq> None" for k g
    using conjunct1 [OF Register_features [OF reg]] by (auto split: if_splits)
  then show ?thesis using assms keys_normalized_Register [of r f] reg by (fastforce simp: well_formed_def)
qed

lemma well_formed_Unregister:
  assumes "well_formed S r"
  shows "well_formed S (snd (Unregister ns n r))"
proof -
  obtain e r' where un: "Unregister ns n r = (e, r')" by fastforce
  have "features r' k = Some g \<Longrightarrow> features r k = Some g" for k g
    using conjunct1 [OF Unregister_features [OF un]] by (auto split: if_splits)
  then show ?thesis using assms keys_normalized_Unregister [of r ns n] un by (fastforce simp: well_formed_def)
qed

lemma well_formed_Overwrite:
  assumes "well_formed S r" and "f \<in> S"
  shows "well_formed S (snd (Overwrite f r))"
proof (cases "features r (feature_key (Namespace f) (Name f))")
  case None
  then show ?thesis using well_formed_Register [OF assms] by (simp add: Overwrite_not_held)
next
  case (Some g)
  obtain e r1 where un: "Unregister (Namespace f) (Name f) r = (e, r1)" by fastforce
  have "well_formed S r1" using well_formed_Unregister [OF assms(1), of "Namespace f" "Name f"] un by simp
  then show ?thesis using well_formed_Register [OF _ assms(2), of r1] un Overwrite_held [OF Some] by (cases e) simp_all
qed

lemma well_formed_step:
  assumes "well_formed S r" and "set_option (brings c) \<subseteq> S" and "feature_step c r = (a, r')"
  shows "well_formed S r'"
  using assms well_formed_Register [OF assms(1)] well_formed_Overwrite [OF assms(1)] well_formed_Unregister [OF assms(1)]
  by (cases c) (auto simp: apfst_def map_prod_def split: prod.splits, (metis snd_conv)+)

lemma well_formed_calls:
  "well_formed S r \<Longrightarrow> \<forall>c \<in> set cs. set_option (brings c) \<subseteq> S \<Longrightarrow> feature_calls feature_step cs r = (as, r') \<Longrightarrow> well_formed S r'"
proof (induction cs arbitrary: r as)
  case (Cons c cs)
  obtain a r1 where step: "feature_step c r = (a, r1)" by fastforce
  then obtain as' where rest: "feature_calls feature_step cs r1 = (as', r')" using Cons.prems(3) by (auto split: prod.splits)
  have "well_formed S r1" using well_formed_step [OF Cons.prems(1) _ step] Cons.prems(2) by simp
  then show ?case using Cons.IH [OF _ _ rest] Cons.prems(2) by simp
qed simp

lemma well_formed_new: "well_formed S NewRegistry"
  using keys_normalized_NewRegistry by (simp add: well_formed_def features_def NewRegistry_def split: prod.split)

text \<open>\<open>Size\<close> counts the features over all namespaces.\<close>

lemma Size_features: "Size r = card (dom (features r))"
proof -
  have "dom (features r) = (SIGMA ns : fset (fmdom r). fset (fmdom (the (fmlookup r ns))))"
    by (auto simp: features_def fmdomI fmlookup_dom_iff split: option.splits prod.splits)
  then show ?thesis by (simp add: Size_def fcard.rep_eq)
qed

text \<open>C30. Whatever calls were made, the registry is well formed: every feature in it has a factory, is one the caller registered
  or overwrote with, and sits under its own normalized namespace and name, so it is found under every spelling of them;
  \<open>Size\<close> is their number, and \<open>LookupAll\<close> returns exactly those of the namespace.\<close>

theorem registry_well_formed:
  assumes "feature_calls feature_step cs NewRegistry = (as, r)" and "\<And>m. set (order m) = fmran' m"
  shows "(\<forall>k f. features r k = Some f \<longrightarrow>
        Factory f \<noteq> None \<and> (CRegister f \<in> set cs \<or> COverwrite f \<in> set cs)
        \<and> (\<forall>ns n. map toLower ns = map toLower (Namespace f) \<longrightarrow> map toLower n = map toLower (Name f) \<longrightarrow> Lookup ns n r = Inr f))
     \<and> Size r = card (dom (features r))
     \<and> (\<forall>ns fs. LookupAll order ns r = Inr fs \<longrightarrow> set fs = {f. feature_normalize (Namespace f) = feature_normalize ns \<and> f \<in> ran (features r)})"
proof -
  let ?S = "{f. CRegister f \<in> set cs \<or> COverwrite f \<in> set cs}"
  have "set_option (brings c) \<subseteq> ?S" if "c \<in> set cs" for c using that by (auto simp: brings_Some elem_set)
  then have wf: "well_formed ?S r"
    using well_formed_calls [OF well_formed_new _ assms(1)] by blast
  have key: "(ns, n) = feature_key (Namespace f) (Name f)" if "features r (ns, n) = Some f" for ns n f
    using wf that by (simp add: well_formed_def keys_normalized_def)
  have found: "Lookup ns n r = Inr f"
    if "features r (feature_normalize ns, feature_normalize n) = Some f" for ns n f
    using Lookup_features [of ns n r] that by (auto simp: feature_key_def split: sum.splits)
  have same: "(\<exists>n. features r (feature_normalize ns, n) = Some f)
      \<longleftrightarrow> feature_normalize (Namespace f) = feature_normalize ns \<and> f \<in> ran (features r)" for ns f
  proof
    assume "\<exists>n. features r (feature_normalize ns, n) = Some f"
    then obtain n where n: "features r (feature_normalize ns, n) = Some f" ..
    then show "feature_normalize (Namespace f) = feature_normalize ns \<and> f \<in> ran (features r)"
      using key [OF n] by (auto simp: feature_key_def intro: ranI)
  next
    assume f: "feature_normalize (Namespace f) = feature_normalize ns \<and> f \<in> ran (features r)"
    then obtain ms n where n: "features r (ms, n) = Some f" by (auto simp: ran_def)
    then show "\<exists>n. features r (feature_normalize ns, n) = Some f" using key [OF n] f by (auto simp: feature_key_def)
  qed
  have all: "set fs = {f. feature_normalize (Namespace f) = feature_normalize ns \<and> f \<in> ran (features r)}"
    if q: "LookupAll order ns r = Inr fs" for ns fs
  proof -
    obtain v where v: "fmlookup r (feature_normalize ns) = Some v" "fs = order v"
      using q by (auto simp: LookupAll_def Let_def split: option.splits)
    have row: "fmlookup v n = features r (feature_normalize ns, n)" for n by (simp add: features_def v(1))
    have "f \<in> fmran' v \<longleftrightarrow> (\<exists>n. features r (feature_normalize ns, n) = Some f)" for f by (auto simp: fmlookup_ran'_iff row)
    then show ?thesis unfolding v(2) assms(2) same by blast
  qed
  have held: "Factory f \<noteq> None \<and> f \<in> ?S \<and> k = feature_key (Namespace f) (Name f)" if "features r k = Some f" for k f
    using wf that key by (cases k) (auto simp: well_formed_def)
  have "Lookup ns n r = Inr f"
    if "features r k = Some f" "map toLower ns = map toLower (Namespace f)" "map toLower n = map toLower (Name f)" for k f ns n
  proof (rule found)
    show "features r (feature_normalize ns, feature_normalize n) = Some f"
      using that held [OF that(1)] by (simp add: feature_normalize_def feature_key_def)
  qed
  then show ?thesis using held all Size_features by blast
qed

lemma listed_values: "set (map (\<lambda>n. the (fmlookup m n)) (sorted_list_of_fset (fmdom m))) = fmran' m" for m :: "(string, Feature) fmap"
proof -
  have "f \<in> fmran' m \<longleftrightarrow> (\<exists>n \<in> fset (fmdom m). the (fmlookup m n) = f)" for f
    by (metis fmdomE fmdomI fmlookup_ran'_iff option.sel)
  then show ?thesis by (auto simp: sorted_list_of_fset.rep_eq)
qed

theorem registry_well_formed_witness:
  "\<exists>as r. feature_calls feature_step [CRegister (sample_feature ''Log'' 1)] NewRegistry = (as, r)
     \<and> features r (''input'', ''log'') = Some (sample_feature ''Log'' 1) \<and> Lookup ''INPUT'' ''lOG'' r = Inr (sample_feature ''Log'' 1)"
proof -
  define f where "f = sample_feature ''Log'' 1"
  obtain e r where reg: "Register f NewRegistry = (e, r)" by fastforce
  then have run: "feature_calls feature_step [CRegister f] NewRegistry = ([AErr e], r)" by simp
  have norm: "feature_normalize ''input'' = ''input''" "feature_normalize ''Log'' = ''log''"
    "map toLower ''INPUT'' = map toLower ''input''" "map toLower ''lOG'' = map toLower ''Log''"
    by code_simp+
  have f: "Namespace f = ''input''" "Name f = ''Log''" "Factory f \<noteq> None"
    by (simp_all add: f_def sample_feature_def feature_New_def)
  have "features NewRegistry k = None" for k by (cases k) (simp add: features_def NewRegistry_def)
  then have held: "features r (''input'', ''log'') = Some f"
    using Register_features [OF reg] f(3) by (simp add: feature_key_def f(1,2) norm)
  then have "Lookup ''INPUT'' ''lOG'' r = Inr f"
    using registry_well_formed [OF run listed_values, THEN conjunct1, rule_format, OF held, THEN conjunct2, THEN conjunct2, rule_format]
      f(1,2) norm(3,4) by metis
  then show ?thesis using run held by (auto simp: f_def)
qed

end
