(* ===== verification/Loadgenerator.thy ===== *)
theory Loadgenerator
  imports Feature
begin

text \<open>
  \<open>inputs/loadgenerator\<close>: the event loop of a stream (\<open>core.go\<close>, \<open>config.go\<close>), the log line of \<open>flog.go\<close>,
  and the units and streams the agent starts and stops.

  The loop runs against an environment on a state \<open>'w\<close>: the clock, the stop channel, the output file, the
  random generators and \<open>time.Sleep\<close>.  It may run for ever, so its result is an option.
\<close>

section \<open>Configuration\<close>

text \<open>Times and durations in nanoseconds.\<close>

record Config =
  Delay :: int
  TimeDelta :: int
  CurrentTime :: bool
  EventsCount :: u64
  Loop :: bool
  OutFile :: string

definition DefaultConfig :: Config where
  "DefaultConfig = \<lparr>Delay = 1000000000, TimeDelta = 1000000000, CurrentTime = False, EventsCount = 0, Loop = True,
     OutFile = []\<rparr>"

text \<open>\<open>configFromProtobuf\<close>: building the config object and unpacking it over the defaults are parameters.\<close>

definition configFromProtobuf ::
    "('s \<Rightarrow> 'c result) \<Rightarrow> ('c \<Rightarrow> Config \<Rightarrow> error option \<times> Config) \<Rightarrow> 's \<Rightarrow> Config \<times> error option" where
  "configFromProtobuf NewConfigFrom Unpack source =
     (case NewConfigFrom source of
        Inl e \<Rightarrow> (DefaultConfig, Some (ErrWrap ''error creating new config'' e))
      | Inr cfg \<Rightarrow>
          (case Unpack cfg DefaultConfig of
             (Some e, r) \<Rightarrow> (r, Some (ErrWrap ''error unpacking config'' e))
           | (None, r) \<Rightarrow> (r, None)))"

section \<open>A log line\<close>

text \<open>
  What \<open>xid.NewWithTime\<close>, \<open>gofakeit\<close> and \<open>rand\<close> return for one line, in the order of the calls; \<open>bsWords\<close> are
  the words of the URI after \<open>url.QueryEscape\<close>, \<open>intn3\<close> is \<open>rand.Intn(3)\<close>.
\<close>

record log_fields =
  xid_text :: string
  phrase :: string
  ipv4 :: string
  username :: string
  httpMethod :: string
  bsWords :: "string list"
  intn3 :: nat
  statusCode :: nat
  bytesSent :: nat
  refererURL :: string

definition str_field :: "string \<Rightarrow> string \<Rightarrow> string" where
  "str_field name v = CHR 0x22 # name @ CHR 0x22 # '':'' @ CHR 0x22 # v @ [CHR 0x22]"

definition num_field :: "string \<Rightarrow> nat \<Rightarrow> string" where
  "num_field name v = CHR 0x22 # name @ CHR 0x22 # '':'' @ show_nat v"

text \<open>\<open>RandResourceURI\<close> on the escaped words the generator returns.\<close>

definition RandResourceURI :: "string list \<Rightarrow> string" where
  "RandResourceURI ws = map toLower (concat (map (\<lambda>w. CHR ''/'' # w) ws))"

text \<open>\<open>RandHTTPVersion\<close> on the number below 3 that \<open>rand.Intn\<close> returns.\<close>

definition RandHTTPVersion :: "nat \<Rightarrow> string" where
  "RandHTTPVersion n = [''HTTP/1.0'', ''HTTP/1.1'', ''HTTP/2.0''] ! n"

text \<open>\<open>fmt\<close> is \<open>Time.Format\<close> with the layout \<open>RFC3339Nano\<close>.\<close>

definition NewJSONLogFormat :: "(int \<Rightarrow> string) \<Rightarrow> int \<Rightarrow> log_fields \<Rightarrow> string" where
  "NewJSONLogFormat fmt t f =
     ''{'' @ str_field ''@timestamp'' (fmt t)
     @ '', '' @ str_field ''xid'' (xid_text f)
     @ '', '' @ (CHR 0x22 # ''message'' @ CHR 0x22 # '': '' @ CHR 0x22 # phrase f @ [CHR 0x22])
     @ '', '' @ str_field ''host'' (ipv4 f)
     @ '', '' @ str_field ''user-identifier'' (map toLower (username f))
     @ '', '' @ (CHR 0x22 # ''method'' @ CHR 0x22 # '': '' @ CHR 0x22 # httpMethod f @ [CHR 0x22])
     @ '', '' @ (CHR 0x22 # ''request'' @ CHR 0x22 # '': '' @ CHR 0x22 # RandResourceURI (bsWords f) @ [CHR 0x22])
     @ '', '' @ str_field ''protocol'' (RandHTTPVersion (intn3 f))
     @ '', '' @ num_field ''status'' (statusCode f)
     @ '', '' @ num_field ''bytes'' (bytesSent f)
     @ '', '' @ (CHR 0x22 # ''referer'' @ CHR 0x22 # '': '' @ CHR 0x22 # refererURL f @ [CHR 0x22])
     @ ''}''"

section \<open>The event loop\<close>

record 'w gen_env =
  gNow :: "'w \<Rightarrow> int \<times> 'w"
  gStop :: "'w \<Rightarrow> bool \<times> 'w"
  gOpen :: "string \<Rightarrow> 'w \<Rightarrow> error option \<times> 'w"
  gClose :: "'w \<Rightarrow> 'w"
  gWrite :: "string \<Rightarrow> 'w \<Rightarrow> error option \<times> 'w"
  gFormat :: "int \<Rightarrow> string"
  gRandom :: "int \<Rightarrow> 'w \<Rightarrow> log_fields \<times> 'w"
  gSleep :: "int \<Rightarrow> 'w \<Rightarrow> 'w"

definition gen_next :: "'w gen_env \<Rightarrow> int \<Rightarrow> 'w \<Rightarrow> string \<times> 'w" where
  "gen_next G t w = (case gRandom G t w of (f, w1) \<Rightarrow> (NewJSONLogFormat (gFormat G) t f, w1))"

text \<open>How the loop is left: the count is reached, a stop signal, or an error of \<open>send\<close>.\<close>

datatype gen_end = Ended | Stopped | Failed error

definition send :: "'w gen_env \<Rightarrow> string \<Rightarrow> 'w \<Rightarrow> error option \<times> 'w" where
  "send G event w = gWrite G (event @ [CHR 0x0A]) w"

definition gen_step :: "'w gen_env \<Rightarrow> Config \<Rightarrow> int \<Rightarrow> 'w \<Rightarrow> error option \<times> int \<times> 'w" where
  "gen_step G cfg t w =
     (case gen_next G t w of (event, w1) \<Rightarrow>
      case send G event w1 of
        (Some e, w2) \<Rightarrow> (Some (ErrWrap ''error sending event'' e), t, w2)
      | (None, w2) \<Rightarrow>
          (case (if CurrentTime cfg then gNow G w2 else (t + TimeDelta cfg, w2)) of
             (t', w3) \<Rightarrow> (None, t', gSleep G (Delay cfg) w3)))"

partial_function (option) gen_loop ::
    "'w gen_env \<Rightarrow> Config \<Rightarrow> int \<Rightarrow> u64 \<Rightarrow> 'w \<Rightarrow> (gen_end \<times> u64 \<times> 'w) option" where
  "gen_loop G cfg t evts w =
     (if \<not> Loop cfg \<and> evts = EventsCount cfg then Some (Ended, evts, w)
      else if fst (gStop G w) then Some (Stopped, evts, snd (gStop G w))
      else case gen_step G cfg t (snd (gStop G w)) of
          (Some e, t', w') \<Rightarrow> Some (Failed e, evts, w')
        | (None, t', w') \<Rightarrow> gen_loop G cfg t' (evts + 1) w')"

text \<open>
  \<open>Run\<close>: the error it returns, the number of events the deferred function adds to the total, whether it got the
  stop signal (otherwise the unit is told that the stream ends early), and the environment.
\<close>

definition gen_Run :: "'w gen_env \<Rightarrow> Config \<Rightarrow> 'w \<Rightarrow> (error option \<times> u64 \<times> bool \<times> 'w) option" where
  "gen_Run G cfg w =
     (case gNow G w of (timeDiff, w1) \<Rightarrow>
      case (if OutFile cfg \<noteq> [] then gOpen G (OutFile cfg) w1 else (None, w1)) of
        (Some e, w2) \<Rightarrow> Some (Some (ErrWrap (''error creating file at '' @ OutFile cfg) e), 0, False, w2)
      | (None, w2) \<Rightarrow>
          map_option
            (\<lambda>(end, evts, w3). (case end of Failed e \<Rightarrow> Some e | _ \<Rightarrow> None, evts, end = Stopped,
               if OutFile cfg \<noteq> [] then gClose G w3 else w3))
            (gen_loop G cfg timeDiff 0 w2))"

section \<open>The loop ends\<close>

lemma gen_loop_terminates:
  assumes "\<not> Loop cfg" and "unat evts \<le> unat (EventsCount cfg)"
  shows "\<exists>x n w'. gen_loop G cfg t evts w = Some (x, n, w') \<and> unat n \<le> unat (EventsCount cfg)
     \<and> (x = Ended \<longrightarrow> n = EventsCount cfg)"
  using assms(2)
proof (induction "unat (EventsCount cfg) - unat evts" arbitrary: evts t w rule: less_induct)
  case less
  show ?case
  proof (cases "evts = EventsCount cfg")
    case True
    then show ?thesis by (simp add: gen_loop.simps assms(1))
  next
    case False
    then have lt: "unat evts < unat (EventsCount cfg)" using less.prems by (metis le_neq_implies_less word_unat_eq_iff)
    have "unat (EventsCount cfg) < 2 ^ LENGTH(64)" by (rule unsigned_less)
    with lt have suc: "unat (evts + 1) = Suc (unat evts)" by (simp add: unat_word_ariths)
    obtain e t' w' where step: "gen_step G cfg t (snd (gStop G w)) = (e, t', w')" by (metis prod.exhaust)
    show ?thesis
    proof (cases "fst (gStop G w) \<or> e \<noteq> None")
      case True
      then show ?thesis using False less.prems step by (subst gen_loop.simps) auto
    next
      case cont: False
      have "unat (EventsCount cfg) - unat (evts + 1) < unat (EventsCount cfg) - unat evts"
        "unat (evts + 1) \<le> unat (EventsCount cfg)"
        using lt by (simp_all add: suc)
      from less.hyps [OF this, of t' w'] show ?thesis
        using False cont step by (subst gen_loop.simps) auto
    qed
  qed
qed

lemma gen_loop_forever:
  assumes "gen_loop G cfg t evts w = Some (x, n, w')" and "Loop cfg"
  shows "x \<noteq> Ended"
proof -
  have "case r of (x, n, w') \<Rightarrow> Loop cfg \<longrightarrow> x \<noteq> Ended" if "gen_loop G cfg t evts w = Some r" for r
  proof (rule gen_loop.raw_induct [where P = "\<lambda>G cfg t evts w r. case r of (x, n, w') \<Rightarrow> Loop cfg \<longrightarrow> x \<noteq> Ended", OF _ that])
    fix f :: "'w gen_env \<Rightarrow> Config \<Rightarrow> int \<Rightarrow> u64 \<Rightarrow> 'w \<Rightarrow> (gen_end \<times> u64 \<times> 'w) option" and G cfg t evts w r
    assume IH: "\<And>G cfg t evts w r. f G cfg t evts w = Some r \<Longrightarrow> case r of (x, n, w') \<Rightarrow> Loop cfg \<longrightarrow> x \<noteq> Ended"
      and eq: "(if \<not> Loop cfg \<and> evts = EventsCount cfg then Some (Ended, evts, w)
        else if fst (gStop G w) then Some (Stopped, evts, snd (gStop G w))
        else case gen_step G cfg t (snd (gStop G w)) of
            (Some e, t', w') \<Rightarrow> Some (Failed e, evts, w')
          | (None, t', w') \<Rightarrow> f G cfg t' (evts + 1) w') = Some r"
    obtain e t' w' where step: "gen_step G cfg t (snd (gStop G w)) = (e, t', w')" by (metis prod.exhaust)
    show "case r of (x, n, w') \<Rightarrow> Loop cfg \<longrightarrow> x \<noteq> Ended"
      using eq IH [of G cfg t' "evts + 1" w' r] by (auto simp: step split: if_splits option.splits)
  qed
  then show ?thesis using assms by auto
qed

text \<open>C31. A stream without \<open>Loop\<close> always ends, whatever the environment does: it sends at most \<open>EventsCount\<close> events, and
  exactly that many unless a stop signal or a failing write comes first.  With \<open>Loop\<close> it ends only on a stop
  signal or an error.\<close>

theorem gen_loop_ends:
  "(\<not> Loop cfg \<longrightarrow> (\<exists>x n w'. gen_loop G cfg t 0 w = Some (x, n, w') \<and> unat n \<le> unat (EventsCount cfg)
       \<and> (x = Ended \<longrightarrow> n = EventsCount cfg)))
   \<and> (Loop cfg \<longrightarrow> (\<forall>x n w'. gen_loop G cfg t 0 w = Some (x, n, w') \<longrightarrow> x \<noteq> Ended))"
  using gen_loop_terminates [of cfg 0 G t w] gen_loop_forever [of G cfg t 0 w] by auto

section \<open>What the loop writes\<close>

text \<open>
  An environment in which nothing fails and nobody stops the stream; \<open>out\<close> is the content of the output.  What the
  generators and the clock return is arbitrary.
\<close>

definition quiet :: "'w gen_env \<Rightarrow> ('w \<Rightarrow> string) \<Rightarrow> bool" where
  "quiet G out \<longleftrightarrow>
     (\<forall>w. fst (gStop G w) = False \<and> out (snd (gStop G w)) = out w)
     \<and> (\<forall>t w. out (snd (gRandom G t w)) = out w)
     \<and> (\<forall>s w. fst (gWrite G s w) = None \<and> out (snd (gWrite G s w)) = out w @ s)
     \<and> (\<forall>f w. fst (gOpen G f w) = None \<and> out (snd (gOpen G f w)) = out w)
     \<and> (\<forall>w. out (gClose G w) = out w)
     \<and> (\<forall>w. out (snd (gNow G w)) = out w) \<and> (\<forall>d w. out (gSleep G d w) = out w)"

text \<open>The line of an event: its time and what the generators returned.\<close>

definition event_line :: "'w gen_env \<Rightarrow> int \<times> log_fields \<Rightarrow> string" where
  "event_line G ev = NewJSONLogFormat (gFormat G) (fst ev) (snd ev) @ [CHR 0x0A]"

text \<open>The events follow each other: the generators are called at the time of the event, the next time is the clock's or
  \<open>TimeDelta\<close> later.\<close>

definition next_time :: "'w gen_env \<Rightarrow> Config \<Rightarrow> int \<Rightarrow> int \<Rightarrow> bool" where
  "next_time G cfg t t' \<longleftrightarrow> (if CurrentTime cfg then \<exists>w. t' = fst (gNow G w) else t' = t + TimeDelta cfg)"

definition generated :: "'w gen_env \<Rightarrow> Config \<Rightarrow> int \<Rightarrow> (int \<times> log_fields) list \<Rightarrow> bool" where
  "generated G cfg t evs \<longleftrightarrow>
     (\<forall>i < length evs. \<exists>w. snd (evs ! i) = fst (gRandom G (fst (evs ! i)) w))
     \<and> (evs \<noteq> [] \<longrightarrow> fst (evs ! 0) = t)
     \<and> (\<forall>i. Suc i < length evs \<longrightarrow> next_time G cfg (fst (evs ! i)) (fst (evs ! Suc i)))"

lemma generated_Nil [simp]: "generated G cfg t []"
  by (simp add: generated_def)

lemma generated_Cons:
  assumes "generated G cfg t' evs" and "next_time G cfg t t'"
  shows "generated G cfg t ((t, fst (gRandom G t w)) # evs)"
proof -
  have "next_time G cfg (fst (((t, fst (gRandom G t w)) # evs) ! i)) (fst (evs ! i))" if "i < length evs" for i
    using assms that by (cases i) (auto simp: generated_def)
  moreover have "\<exists>w'. snd (((t, fst (gRandom G t w)) # evs) ! i) = fst (gRandom G (fst (((t, fst (gRandom G t w)) # evs) ! i)) w')"
    if "i < Suc (length evs)" for i
    using assms(1) that by (cases i) (auto simp: generated_def)
  ultimately show ?thesis by (simp add: generated_def)
qed

lemma generated_times:
  "generated G cfg t evs \<Longrightarrow> \<not> CurrentTime cfg \<Longrightarrow> i < length evs \<Longrightarrow> fst (evs ! i) = t + int i * TimeDelta cfg"
proof (induction i)
  case (Suc i)
  then have "fst (evs ! Suc i) = fst (evs ! i) + TimeDelta cfg" by (simp add: generated_def next_time_def)
  with Suc show ?case by (simp add: algebra_simps)
qed (auto simp: generated_def)

lemma gen_step_quiet:
  assumes "quiet G out"
  shows "\<exists>t' w'. gen_step G cfg t w = (None, t', w') \<and> out w' = out w @ event_line G (t, fst (gRandom G t w))
     \<and> next_time G cfg t t'"
proof -
  obtain f w1 where nxt: "gRandom G t w = (f, w1)" by fastforce
  define event where "event = NewJSONLogFormat (gFormat G) t f"
  obtain e w2 where wr: "gWrite G (event @ [CHR 0x0A]) w1 = (e, w2)" by fastforce
  obtain t' w3 where time: "(if CurrentTime cfg then gNow G w2 else (t + TimeDelta cfg, w2)) = (t', w3)"
    by (metis prod.exhaust)
  have w: "out w1 = out w" "e = None" "out w2 = out w1 @ event @ [CHR 0x0A]"
    using assms nxt wr unfolding quiet_def by (metis fst_conv snd_conv)+
  have "out w3 = out w2" using assms time unfolding quiet_def by (metis snd_conv)
  moreover have "next_time G cfg t t'" using time unfolding next_time_def by (metis fst_conv)
  moreover have "out (gSleep G (Delay cfg) w3) = out w3" using assms unfolding quiet_def by blast
  moreover have "gen_step G cfg t w = (None, t', gSleep G (Delay cfg) w3)"
    using wr by (simp add: gen_step_def gen_next_def send_def nxt time w(2) event_def)
  ultimately show ?thesis using w by (simp add: nxt event_line_def event_def)
qed

lemma gen_loop_quiet:
  assumes "quiet G out" and "\<not> Loop cfg" and "unat evts + m = unat (EventsCount cfg)"
  shows "\<exists>evs w'. gen_loop G cfg t evts w = Some (Ended, EventsCount cfg, w') \<and> length evs = m \<and> generated G cfg t evs
     \<and> out w' = out w @ concat (map (event_line G) evs)"
  using assms(3)
proof (induction m arbitrary: t evts w)
  case 0
  then have "evts = EventsCount cfg" by (simp add: word_unat_eq_iff)
  then show ?case using assms(2) by (subst gen_loop.simps) (intro exI [of _ "[]"], simp)
next
  case (Suc m)
  have "unat (EventsCount cfg) < 2 ^ LENGTH(64)" by (rule unsigned_less)
  with Suc.prems have suc: "unat (evts + 1) + m = unat (EventsCount cfg)" by (simp add: unat_word_ariths)
  have ne: "evts \<noteq> EventsCount cfg" using Suc.prems by auto
  have stop: "fst (gStop G w) = False" "out (snd (gStop G w)) = out w" using assms(1) unfolding quiet_def by blast+
  let ?ev = "(t, fst (gRandom G t (snd (gStop G w))))"
  obtain t1 w1 where step: "gen_step G cfg t (snd (gStop G w)) = (None, t1, w1)"
    "out w1 = out w @ event_line G ?ev" "next_time G cfg t t1"
    using gen_step_quiet [OF assms(1), of cfg t "snd (gStop G w)"] stop(2) by auto
  obtain evs w' where rest: "gen_loop G cfg t1 (evts + 1) w1 = Some (Ended, EventsCount cfg, w')" "length evs = m"
    "generated G cfg t1 evs" "out w' = out w1 @ concat (map (event_line G) evs)"
    using Suc.IH [OF suc, of t1 w1] by blast
  have "gen_loop G cfg t evts w = gen_loop G cfg t1 (evts + 1) w1"
    using ne stop(1) step(1) by (subst gen_loop.simps) simp
  moreover have "generated G cfg t (?ev # evs)" by (rule generated_Cons [OF rest(3) step(3)])
  ultimately show ?case using rest step(2) by (intro exI [of _ "?ev # evs"] exI [of _ w']) simp
qed

lemma gen_loop_quiet_forever:
  assumes "quiet G out" and "Loop cfg"
  shows "gen_loop G cfg t evts w = None"
proof -
  have "False" if "gen_loop G cfg t evts w = Some r" for r
  proof -
    have "quiet G out \<longrightarrow> \<not> Loop cfg"
    proof (rule gen_loop.raw_induct [where P = "\<lambda>G cfg t evts w r. quiet G out \<longrightarrow> \<not> Loop cfg", OF _ that])
      fix f :: "'a gen_env \<Rightarrow> Config \<Rightarrow> int \<Rightarrow> u64 \<Rightarrow> 'a \<Rightarrow> (gen_end \<times> u64 \<times> 'a) option" and G cfg t evts w r
      assume IH: "\<And>G cfg t evts w r. f G cfg t evts w = Some r \<Longrightarrow> quiet G out \<longrightarrow> \<not> Loop cfg"
        and eq: "(if \<not> Loop cfg \<and> evts = EventsCount cfg then Some (Ended, evts, w)
          else if fst (gStop G w) then Some (Stopped, evts, snd (gStop G w))
          else case gen_step G cfg t (snd (gStop G w)) of
              (Some e, t', w') \<Rightarrow> Some (Failed e, evts, w')
            | (None, t', w') \<Rightarrow> f G cfg t' (evts + 1) w') = Some r"
      show "quiet G out \<longrightarrow> \<not> Loop cfg"
      proof
        assume q: "quiet G out"
        then have "fst (gStop G w) = False" unfolding quiet_def by blast
        moreover obtain t' w' where "gen_step G cfg t (snd (gStop G w)) = (None, t', w')"
          using gen_step_quiet [OF q] by blast
        ultimately show "\<not> Loop cfg" using eq IH [of G cfg t' "evts + 1" w' r] q by (auto split: if_splits)
      qed
    qed
    then show False using assms by blast
  qed
  then show ?thesis by (cases "gen_loop G cfg t evts w") auto
qed

text \<open>C32. A stream that nobody stops and whose file takes every write ends after exactly \<open>EventsCount\<close> lines, for any
  \<open>EventsCount\<close> up to \<open>2^64 - 1\<close>, and reports them all.  Each line is the \<open>NewJSONLogFormat\<close> of its time and of what the random
  generators return at that time, whatever they return; the first time is the start, each further one is \<open>TimeDelta\<close>
  later, with \<open>CurrentTime\<close> it is read from the clock.  With \<open>Loop\<close> the stream never returns.\<close>

theorem gen_Run_writes_events:
  assumes "quiet G out"
  shows "(\<not> Loop cfg \<longrightarrow> (\<exists>evs w'. gen_Run G cfg w = Some (None, EventsCount cfg, False, w')
       \<and> length evs = unat (EventsCount cfg)
       \<and> out w' = out w @ concat (map (\<lambda>(t, f). NewJSONLogFormat (gFormat G) t f @ [CHR 0x0A]) evs)
       \<and> (\<forall>i < length evs. \<exists>w1. snd (evs ! i) = fst (gRandom G (fst (evs ! i)) w1))
       \<and> (evs \<noteq> [] \<longrightarrow> fst (evs ! 0) = fst (gNow G w))
       \<and> (\<not> CurrentTime cfg \<longrightarrow> (\<forall>i < length evs. fst (evs ! i) = fst (gNow G w) + int i * TimeDelta cfg))
       \<and> (CurrentTime cfg \<longrightarrow> (\<forall>i < length evs. \<exists>w1. fst (evs ! i) = fst (gNow G w1)))))
   \<and> (Loop cfg \<longrightarrow> gen_Run G cfg w = None)"
proof -
  obtain t w1 where now: "gNow G w = (t, w1)" by fastforce
  obtain e w2 where opened: "(if OutFile cfg \<noteq> [] then gOpen G (OutFile cfg) w1 else (None, w1)) = (e, w2)"
    by (metis prod.exhaust)
  have "out w1 = out w" using assms(1) now unfolding quiet_def by (metis snd_conv)
  moreover have "e = None" "out w2 = out w1"
    using assms(1) opened unfolding quiet_def by (cases "OutFile cfg = []"; metis fst_conv snd_conv)+
  ultimately have out: "out w2 = out w"
    and run: "gen_Run G cfg w = map_option
      (\<lambda>(end, evts, w3). (case end of Failed e \<Rightarrow> Some e | _ \<Rightarrow> None, evts, end = Stopped,
         if OutFile cfg \<noteq> [] then gClose G w3 else w3)) (gen_loop G cfg t 0 w2)"
    using now opened by (simp_all add: gen_Run_def)
  show ?thesis
  proof (cases "Loop cfg")
    case True
    then show ?thesis using gen_loop_quiet_forever [OF assms, of cfg t 0 w2] by (simp add: run)
  next
    case False
    obtain evs w3 where loop: "gen_loop G cfg t 0 w2 = Some (Ended, EventsCount cfg, w3)"
      "length evs = unat (EventsCount cfg)" "generated G cfg t evs" "out w3 = out w2 @ concat (map (event_line G) evs)"
      using gen_loop_quiet [OF assms False, of 0 "unat (EventsCount cfg)" t w2] by auto
    define w4 where "w4 = (if OutFile cfg \<noteq> [] then gClose G w3 else w3)"
    have "gen_Run G cfg w = Some (None, EventsCount cfg, False, w4)" by (simp add: run loop(1) w4_def)
    moreover have "out w4 = out w @ concat (map (event_line G) evs)"
      using assms loop(4) unfolding quiet_def w4_def by (simp add: out)
    moreover have "event_line G = (\<lambda>(t, f). NewJSONLogFormat (gFormat G) t f @ [CHR 0x0A])"
      by (auto simp: event_line_def fun_eq_iff)
    moreover have "\<exists>w1. fst (evs ! i) = fst (gNow G w1)" if "CurrentTime cfg" "i < length evs" for i
    proof (cases i)
      case 0
      then show ?thesis using loop(3) that now by (intro exI [of _ w]) (auto simp: generated_def)
    next
      case (Suc j)
      then show ?thesis using loop(3) that unfolding generated_def next_time_def by auto
    qed
    ultimately show ?thesis
      using False loop(2,3) generated_times [OF loop(3)] unfolding generated_def now fst_conv
      by (intro conjI impI exI [of _ evs] exI [of _ w4]) (simp_all add: False)
  qed
qed

text \<open>An environment with a clock and a generator that never repeats an \<open>xid\<close>.\<close>

definition sample_fields :: "nat \<Rightarrow> log_fields" where
  "sample_fields n = \<lparr>xid_text = show_nat n, phrase = ''hi'', ipv4 = ''1.2.3.4'', username = ''Bo'', httpMethod = ''GET'',
     bsWords = [''A''], intn3 = 1, statusCode = 200, bytesSent = n, refererURL = ''u''\<rparr>"

definition text_env :: "(int \<times> nat \<times> string) gen_env" where
  "text_env = \<lparr>gNow = (\<lambda>(c, n, out). (c, (c, n, out))), gStop = (\<lambda>w. (False, w)), gOpen = (\<lambda>f w. (None, w)), gClose = (\<lambda>w. w),
     gWrite = (\<lambda>s (c, n, out). (None, (c, n, out @ s))), gFormat = (\<lambda>t. show_nat (nat t)),
     gRandom = (\<lambda>t (c, n, out). (sample_fields n, (c, n + 1, out))), gSleep = (\<lambda>d (c, n, out). (c + d, n, out))\<rparr>"

lemma text_env_quiet: "quiet text_env (snd \<circ> snd)"
  by (simp add: quiet_def text_env_def split: prod.splits)

theorem gen_Run_writes_events_witness:
  "\<exists>f g w'. gen_Run text_env (DefaultConfig\<lparr>Loop := False, EventsCount := 2, TimeDelta := 7\<rparr>) (5, 0, []) = Some (None, 2, False, w')
     \<and> snd (snd w') = NewJSONLogFormat (gFormat text_env) 5 f @ [CHR 0x0A] @ NewJSONLogFormat (gFormat text_env) 12 g @ [CHR 0x0A]"
proof -
  let ?cfg = "DefaultConfig\<lparr>Loop := False, EventsCount := 2, TimeDelta := 7\<rparr>"
  have now: "fst (gNow text_env (5, 0, [])) = 5" by (simp add: text_env_def)
  obtain evs w' where run: "gen_Run text_env ?cfg (5, 0, []) = Some (None, 2, False, w')" "length evs = 2"
    "snd (snd w') = concat (map (\<lambda>(t, f). NewJSONLogFormat (gFormat text_env) t f @ [CHR 0x0A]) evs)"
    "\<forall>i < length evs. fst (evs ! i) = 5 + int i * 7"
    using gen_Run_writes_events [OF text_env_quiet, of ?cfg "(5, 0, [])"] now by (auto simp: DefaultConfig_def)
  then obtain a b where ab: "evs = [a, b]" by (cases evs; cases "tl evs") auto
  then have "fst a = 5" "fst b = 12" using run(4) by (auto simp: All_less_Suc numeral_2_eq_2)
  then show ?thesis using run(1,3) unfolding ab by (cases a; cases b) auto
qed

text \<open>The stream of the witness is stopped before its first event when the output is already \<open>x\<close>.\<close>

definition stopping_env :: "(int \<times> nat \<times> string) gen_env" where
  "stopping_env = text_env\<lparr>gStop := (\<lambda>(c, n, out). (out = ''x'', (c, n, out)))\<rparr>"

theorem gen_loop_ends_witness:
  "(\<exists>n w'. gen_loop stopping_env (DefaultConfig\<lparr>Loop := False, EventsCount := 2\<rparr>) 5 0 (5, 0, ''x'') = Some (Stopped, n, w')
       \<and> unat n \<le> 2)
   \<and> (\<forall>n w'. gen_loop stopping_env DefaultConfig 5 0 (5, 0, ''x'') \<noteq> Some (Ended, n, w'))"
proof -
  have "gen_loop stopping_env (DefaultConfig\<lparr>Loop := False, EventsCount := 2\<rparr>) 5 0 (5, 0, ''x'') = Some (Stopped, 0, (5, 0, ''x''))"
    by (subst gen_loop.simps) (simp add: stopping_env_def DefaultConfig_def)
  then show ?thesis
    using gen_loop_ends [of "DefaultConfig\<lparr>Loop := False, EventsCount := 2\<rparr>" stopping_env 5 "(5, 0, ''x'')"]
      gen_loop_ends [of DefaultConfig stopping_env 5 "(5, 0, ''x'')"]
    by (auto simp: DefaultConfig_def)
qed

end
