(* ===== verification/Loadgenerator_Units.thy ===== *)
theory Loadgenerator_Units
  imports Loadgenerator
begin

text \<open>
  The units of the load generator (\<open>core.go\<close>): the agent adds, modifies and removes units, each with streams
  that run \<open>Run\<close> of \<open>Loadgenerator\<close> in a goroutine with a stop channel of capacity one.  The handlers run one
  after the other in \<open>StartWithClient\<close>; between them streams may end.
\<close>

section \<open>The state\<close>

datatype unit_state = UConfiguring | UStarting | UHealthy | UDegraded | UStopping | UStopped

text \<open>A unit as the agent expects it; each stream with the result of \<open>configFromProtobuf\<close>.\<close>

record agent_unit =
  uID :: string
  uStopped :: bool
  uStreams :: "(string \<times> Config \<times> error option) list"

text \<open>A goroutine and its stop channel have the same index; \<open>sent\<close> says that the channel was sent to.\<close>

record stream =
  sUnit :: string
  sID :: string
  sConfig :: Config
  sent :: bool

record loadGenerator =
  runners :: "(string, (string, nat) fmap) fmap"
  streams :: "stream list"
  updates :: "(string \<times> unit_state) list"
  events :: u64

definition newLoadGenerator :: loadGenerator where
  "newLoadGenerator = \<lparr>runners = fmempty, streams = [], updates = [], events = 0\<rparr>"

definition UpdateState :: "string \<Rightarrow> unit_state \<Rightarrow> loadGenerator \<Rightarrow> loadGenerator" where
  "UpdateState unit st l = l\<lparr>updates := updates l @ [(unit, st)]\<rparr>"

section \<open>The handlers\<close>

definition checkDone :: "loadGenerator \<Rightarrow> bool" where
  "checkDone l \<longleftrightarrow> runners l = fmempty"

definition removeUnit :: "agent_unit \<Rightarrow> loadGenerator \<Rightarrow> loadGenerator" where
  "removeUnit unit l = l\<lparr>runners := fmdrop (uID unit) (runners l)\<rparr>"

text \<open>The loop of \<open>tearDownUnit\<close>: a second send to a channel would block for ever, holding the mutexes.\<close>

fun stop_streams :: "string \<Rightarrow> (string \<times> nat) list \<Rightarrow> (string, nat) fmap \<Rightarrow> loadGenerator
    \<Rightarrow> ((string, nat) fmap \<times> loadGenerator) result" where
  "stop_streams unit [] m l = Inr (m, l)"
| "stop_streams unit ((streamID, c) # kvs) m l =
     (let l1 = UpdateState unit UStopping l in
      if sent (streams l1 ! c) then Inl (Panic ''deadlock'')
      else stop_streams unit kvs (fmdrop streamID m) (l1\<lparr>streams := (streams l1)[c := (streams l1 ! c)\<lparr>sent := True\<rparr>]\<rparr>))"

definition tearDownUnit ::
    "((string, nat) fmap \<Rightarrow> (string \<times> nat) list) \<Rightarrow> agent_unit \<Rightarrow> loadGenerator \<Rightarrow> loadGenerator result" where
  "tearDownUnit order unit l =
     (let l1 = UpdateState (uID unit) UStopping l in
      case fmlookup (runners l1) (uID unit) of
        None \<Rightarrow> Inl (Panic ''nil pointer dereference'')
      | Some m \<Rightarrow>
          (case stop_streams (uID unit) (order m) m l1 of
             Inl e \<Rightarrow> Inl e
           | Inr (m', l2) \<Rightarrow>
               Inr (UpdateState (uID unit) UStopped (l2\<lparr>runners := fmupd (uID unit) m' (runners l2)\<rparr>))))"

text \<open>The loop of \<open>handleNewUnit\<close>.  A stream whose configuration has an error is started all the same.\<close>

fun start_streams :: "string \<Rightarrow> (string \<times> Config \<times> error option) list \<Rightarrow> (string, nat) fmap \<Rightarrow> loadGenerator
    \<Rightarrow> (string, nat) fmap \<times> loadGenerator" where
  "start_streams unit [] m l = (m, l)"
| "start_streams unit ((streamID, cfg, err) # rest) m l =
     (let l1 = (case err of None \<Rightarrow> l | Some _ \<Rightarrow> UpdateState unit UDegraded l);
          l2 = UpdateState unit UStarting l1 in
      start_streams unit rest (fmupd streamID (length (streams l2)) m)
        (l2\<lparr>streams := streams l2 @ [\<lparr>sUnit = unit, sID = streamID, sConfig = cfg, sent = False\<rparr>]\<rparr>))"

definition handleNewUnit :: "agent_unit \<Rightarrow> loadGenerator \<Rightarrow> loadGenerator" where
  "handleNewUnit unit l =
     (case start_streams (uID unit) (uStreams unit) fmempty (UpdateState (uID unit) UConfiguring l) of
        (m, l1) \<Rightarrow> UpdateState (uID unit) UHealthy (l1\<lparr>runners := fmupd (uID unit) m (runners l1)\<rparr>))"

definition handleUnitModified ::
    "((string, nat) fmap \<Rightarrow> (string \<times> nat) list) \<Rightarrow> agent_unit \<Rightarrow> loadGenerator \<Rightarrow> loadGenerator result" where
  "handleUnitModified order unit l =
     (if uStopped unit then tearDownUnit order unit l
      else bind_result (tearDownUnit order unit l) (\<lambda>l1. Inr (handleNewUnit unit l1)))"

text \<open>
  The main loop.  \<open>StreamEnds\<close> is the deferred function of \<open>Run\<close>, and the report of its error; \<open>ContextDone\<close> the
  end of the context.  The result says whether the loop has returned.
\<close>

datatype change = UnitAdded agent_unit | UnitModified agent_unit | UnitRemoved agent_unit
  | StreamEnds nat u64 bool bool | ContextDone

definition stream_ends :: "nat \<Rightarrow> u64 \<Rightarrow> bool \<Rightarrow> bool \<Rightarrow> loadGenerator \<Rightarrow> loadGenerator" where
  "stream_ends c evts gotStop failed l =
     (let unit = sUnit (streams l ! c);
          l1 = l\<lparr>events := events l + evts\<rparr>;
          l2 = (if gotStop then l1 else UpdateState unit UHealthy l1) in
      if failed then UpdateState unit UDegraded l2 else l2)"

fun main_loop :: "((string, nat) fmap \<Rightarrow> (string \<times> nat) list) \<Rightarrow> change list \<Rightarrow> loadGenerator
    \<Rightarrow> (bool \<times> loadGenerator) result" where
  "main_loop order [] l = Inr (False, l)"
| "main_loop order (UnitAdded u # cs) l = main_loop order cs (handleNewUnit u l)"
| "main_loop order (UnitModified u # cs) l = bind_result (handleUnitModified order u l) (main_loop order cs)"
| "main_loop order (UnitRemoved u # cs) l =
     (let l1 = removeUnit u l in if checkDone l1 then Inr (True, l1) else main_loop order cs l1)"
| "main_loop order (StreamEnds c n s f # cs) l = main_loop order cs (stream_ends c n s f l)"
| "main_loop order (ContextDone # cs) l = Inr (False, l)"

definition StartWithClient ::
    "((string, nat) fmap \<Rightarrow> (string \<times> nat) list) \<Rightarrow> error option \<Rightarrow> change list \<Rightarrow> loadGenerator
     \<Rightarrow> (bool \<times> loadGenerator) result" where
  "StartWithClient order start_err cs l =
     (case start_err of Some e \<Rightarrow> Inl (ErrWrap ''error starting client'' e) | None \<Rightarrow> main_loop order cs l)"

text \<open>
  \<open>Start\<close> reads the client from the standard input; the result of \<open>client.NewV2FromReader\<close> is an argument: the error the
  client starts with, if any, and the changes it delivers.
\<close>

definition loadGenerator_Start ::
    "((string, nat) fmap \<Rightarrow> (string \<times> nat) list) \<Rightarrow> (error option \<times> change list) result \<Rightarrow> loadGenerator
     \<Rightarrow> (bool \<times> loadGenerator) result" where
  "loadGenerator_Start order fromReader l =
     (case fromReader of
        Inl e \<Rightarrow> Inl (ErrWrap ''error fetching client from stdin'' e)
      | Inr (start_err, cs) \<Rightarrow> StartWithClient order start_err cs l)"

definition loadGenerator_Close :: "loadGenerator \<Rightarrow> error option" where
  "loadGenerator_Close l = None"

section \<open>No stream is lost\<close>

definition visits_map :: "((string, nat) fmap \<Rightarrow> (string \<times> nat) list) \<Rightarrow> bool" where
  "visits_map order \<longleftrightarrow> (\<forall>m. distinct (map fst (order m)) \<and> set (order m) = {(k, v). fmlookup m k = Some v})"

text \<open>
  What the agent does: units are added once, changes are about known units, a unit is removed only
  after it was stopped, and the streams of a unit have different ids.
\<close>

fun agent_protocol :: "(string \<rightharpoonup> bool) \<Rightarrow> change list \<Rightarrow> bool" where
  "agent_protocol known [] = True"
| "agent_protocol known (UnitAdded u # cs) \<longleftrightarrow>
     known (uID u) = None \<and> distinct (map fst (uStreams u)) \<and> agent_protocol (known(uID u \<mapsto> False)) cs"
| "agent_protocol known (UnitModified u # cs) \<longleftrightarrow>
     known (uID u) \<noteq> None \<and> distinct (map fst (uStreams u)) \<and> agent_protocol (known(uID u \<mapsto> uStopped u)) cs"
| "agent_protocol known (UnitRemoved u # cs) \<longleftrightarrow>
     known (uID u) = Some True \<and> agent_protocol (known(uID u := None)) cs"
| "agent_protocol known (_ # cs) = agent_protocol known cs"

text \<open>A stream is controlled when the map of its unit holds its channel.\<close>

definition controls :: "loadGenerator \<Rightarrow> string \<Rightarrow> string \<Rightarrow> nat \<Rightarrow> bool" where
  "controls l unit s c \<longleftrightarrow> (\<exists>m. fmlookup (runners l) unit = Some m \<and> fmlookup m s = Some c)"

definition GInv :: "(string \<rightharpoonup> bool) \<Rightarrow> loadGenerator \<Rightarrow> bool" where
  "GInv known l \<longleftrightarrow>
     (\<forall>unit. known unit = None \<longleftrightarrow> fmlookup (runners l) unit = None)
     \<and> (\<forall>unit. known unit = Some True \<longrightarrow> fmlookup (runners l) unit = Some fmempty)
     \<and> (\<forall>unit s c. controls l unit s c \<longrightarrow>
          c < length (streams l) \<and> \<not> sent (streams l ! c) \<and> sUnit (streams l ! c) = unit \<and> sID (streams l ! c) = s)
     \<and> (\<forall>c < length (streams l). sent (streams l ! c) \<or> controls l (sUnit (streams l ! c)) (sID (streams l ! c)) c)"

lemma UpdateState_simps [simp]:
  "runners (UpdateState u s l) = runners l" "streams (UpdateState u s l) = streams l" "events (UpdateState u s l) = events l"
  by (simp_all add: UpdateState_def)

lemma GInv_cong:
  "GInv known l \<Longrightarrow> runners l' = runners l \<Longrightarrow> streams l' = streams l \<Longrightarrow> GInv known l'"
  by (simp add: GInv_def controls_def)

lemma GInv_controls:
  "GInv known l \<Longrightarrow> controls l unit s c \<Longrightarrow>
     c < length (streams l) \<and> \<not> sent (streams l ! c) \<and> sUnit (streams l ! c) = unit \<and> sID (streams l ! c) = s"
  by (simp add: GInv_def)

lemma GInv_streams:
  "GInv known l \<Longrightarrow> c < length (streams l) \<Longrightarrow>
     sent (streams l ! c) \<or> controls l (sUnit (streams l ! c)) (sID (streams l ! c)) c"
  by (simp add: GInv_def)

lemma GInv_known:
  "GInv known l \<Longrightarrow> known unit = None \<longleftrightarrow> fmlookup (runners l) unit = None"
  "GInv known l \<Longrightarrow> known unit = Some True \<Longrightarrow> fmlookup (runners l) unit = Some fmempty"
  by (simp_all add: GInv_def)

lemma GInv_newLoadGenerator: "GInv Map.empty newLoadGenerator"
  by (simp add: GInv_def newLoadGenerator_def controls_def)

lemma stop_streams_ok:
  assumes "\<forall>(k, c) \<in> set kvs. c < length (streams l) \<and> \<not> sent (streams l ! c)" and "distinct (map snd kvs)"
  shows "\<exists>m' l'. stop_streams unit kvs m l = Inr (m', l') \<and> runners l' = runners l
     \<and> length (streams l') = length (streams l)
     \<and> (\<forall>k. fmlookup m' k = (if k \<in> fst ` set kvs then None else fmlookup m k))
     \<and> (\<forall>c < length (streams l). sUnit (streams l' ! c) = sUnit (streams l ! c) \<and> sID (streams l' ! c) = sID (streams l ! c)
          \<and> (sent (streams l' ! c) \<longleftrightarrow> sent (streams l ! c) \<or> c \<in> snd ` set kvs))"
  using assms
proof (induction kvs arbitrary: m l)
  case Nil
  then show ?case by simp
next
  case (Cons kv kvs)
  obtain k c where kv: "kv = (k, c)" by fastforce
  define l1 where "l1 = (UpdateState unit UStopping l)\<lparr>streams := (streams l)[c := (streams l ! c)\<lparr>sent := True\<rparr>]\<rparr>"
  have c: "c < length (streams l)" "\<not> sent (streams l ! c)" "c \<notin> snd ` set kvs" using Cons.prems kv by auto
  have l1: "runners l1 = runners l" "length (streams l1) = length (streams l)"
    "\<And>d. d < length (streams l) \<Longrightarrow> sUnit (streams l1 ! d) = sUnit (streams l ! d) \<and> sID (streams l1 ! d) = sID (streams l ! d)
      \<and> (sent (streams l1 ! d) \<longleftrightarrow> sent (streams l ! d) \<or> d = c)"
    using c(1) by (simp_all add: l1_def nth_list_update)
  have pre: "\<forall>(k, d) \<in> set kvs. d < length (streams l1) \<and> \<not> sent (streams l1 ! d)"
    using Cons.prems(1) c(3) l1(2,3) kv by force
  have step: "stop_streams unit (kv # kvs) m l = stop_streams unit kvs (fmdrop k m) l1"
    using c(2) by (simp add: kv l1_def Let_def)
  from Cons.IH [OF pre, of "fmdrop k m"] Cons.prems(2) obtain m' l' where
    "stop_streams unit kvs (fmdrop k m) l1 = Inr (m', l')" "runners l' = runners l1"
    "length (streams l') = length (streams l1)"
    "\<And>x. fmlookup m' x = (if x \<in> fst ` set kvs then None else fmlookup (fmdrop k m) x)"
    "\<And>d. d < length (streams l1) \<Longrightarrow> sUnit (streams l' ! d) = sUnit (streams l1 ! d) \<and> sID (streams l' ! d) = sID (streams l1 ! d)
       \<and> (sent (streams l' ! d) \<longleftrightarrow> sent (streams l1 ! d) \<or> d \<in> snd ` set kvs)"
    by auto
  then show ?case unfolding step using l1 by (intro exI [of _ m'] exI [of _ l']) (auto simp: kv)
qed

text \<open>Tearing down a unit stops all its streams and no other.\<close>

lemma tearDownUnit_ok:
  assumes "GInv known l" and "visits_map order" and "known (uID u) \<noteq> None"
  shows "\<exists>l'. tearDownUnit order u l = Inr l' \<and> GInv (known(uID u \<mapsto> True)) l'"
proof -
  obtain m where m: "fmlookup (runners l) (uID u) = Some m" using assms(1,3) by (auto simp: GInv_def)
  have order: "distinct (map fst (order m))" "set (order m) = {(k, v). fmlookup m k = Some v}"
    using assms(2) by (simp_all add: visits_map_def)
  have ctrl: "\<And>k c. fmlookup m k = Some c \<Longrightarrow>
      c < length (streams l) \<and> \<not> sent (streams l ! c) \<and> sUnit (streams l ! c) = uID u \<and> sID (streams l ! c) = k"
    using GInv_controls [OF assms(1), of "uID u"] m by (auto simp: controls_def)
  have "inj_on snd (set (order m))"
  proof (rule inj_onI)
    fix x y assume "x \<in> set (order m)" "y \<in> set (order m)" "snd x = snd y"
    then show "x = y" using order(2) ctrl [of "fst x" "snd x"] ctrl [of "fst y" "snd y"] by (auto simp: prod_eq_iff)
  qed
  then have "distinct (map snd (order m))" using order(1) by (simp add: distinct_map)
  moreover have "\<forall>(k, c) \<in> set (order m). c < length (streams (UpdateState (uID u) UStopping l))
      \<and> \<not> sent (streams (UpdateState (uID u) UStopping l) ! c)"
    using ctrl order(2) by auto
  ultimately obtain m' l1 where l1: "stop_streams (uID u) (order m) m (UpdateState (uID u) UStopping l) = Inr (m', l1)"
    "runners l1 = runners l" "length (streams l1) = length (streams l)"
    "\<And>k. fmlookup m' k = (if k \<in> fst ` set (order m) then None else fmlookup m k)"
    "\<And>c. c < length (streams l) \<Longrightarrow> sUnit (streams l1 ! c) = sUnit (streams l ! c) \<and> sID (streams l1 ! c) = sID (streams l ! c)
       \<and> (sent (streams l1 ! c) \<longleftrightarrow> sent (streams l ! c) \<or> c \<in> snd ` set (order m))"
    using stop_streams_ok [of "order m" "UpdateState (uID u) UStopping l" "uID u" m] by auto
  have empty: "m' = fmempty"
  proof (rule fmap_ext)
    fix k show "fmlookup m' k = fmlookup fmempty k" using l1(4) [of k] order(2) by (force simp: image_iff)
  qed
  let ?l' = "UpdateState (uID u) UStopped (l1\<lparr>runners := fmupd (uID u) m' (runners l1)\<rparr>)"
  have run: "tearDownUnit order u l = Inr ?l'" using m l1(1) by (simp add: tearDownUnit_def Let_def)
  have ctl': "controls ?l' unit s c \<longleftrightarrow> unit \<noteq> uID u \<and> controls l unit s c" for unit s c
    by (auto simp: controls_def empty l1(2))
  have sent': "sent (streams l1 ! c) \<longleftrightarrow> sent (streams l ! c) \<or> controls l (uID u) (sID (streams l ! c)) c"
    if "c < length (streams l)" for c
  proof -
    have "c \<in> snd ` set (order m) \<longleftrightarrow> fmlookup m (sID (streams l ! c)) = Some c"
    proof
      assume "c \<in> snd ` set (order m)"
      then obtain k where "fmlookup m k = Some c" using order(2) by auto
      with ctrl [OF this] show "fmlookup m (sID (streams l ! c)) = Some c" by simp
    next
      assume "fmlookup m (sID (streams l ! c)) = Some c"
      then have "(sID (streams l ! c), c) \<in> set (order m)" by (simp add: order(2))
      then show "c \<in> snd ` set (order m)" by (rule rev_image_eqI) simp
    qed
    then show ?thesis using l1(5) [OF that] m by (simp add: controls_def)
  qed
  have "GInv (known(uID u \<mapsto> True)) ?l'"
    unfolding GInv_def
  proof (intro conjI allI impI)
    fix unit s c assume "controls ?l' unit s c"
    then have c: "unit \<noteq> uID u" "controls l unit s c" by (simp_all add: ctl')
    then have props: "c < length (streams l)" "\<not> sent (streams l ! c)" "sUnit (streams l ! c) = unit" "sID (streams l ! c) = s"
      using GInv_controls [OF assms(1)] by blast+
    then show "c < length (streams ?l')" "sUnit (streams ?l' ! c) = unit" "sID (streams ?l' ! c) = s"
      using l1(3) l1(5) [OF props(1)] by simp_all
    have "\<not> controls l (uID u) (sID (streams l ! c)) c" using c(1) props(3) GInv_controls [OF assms(1)] by blast
    then show "\<not> sent (streams ?l' ! c)" using sent' [OF props(1)] props(2) by simp
  next
    fix c assume "c < length (streams ?l')"
    then have c: "c < length (streams l)" using l1(3) by simp
    from GInv_streams [OF assms(1) c]
    show "sent (streams ?l' ! c) \<or> controls ?l' (sUnit (streams ?l' ! c)) (sID (streams ?l' ! c)) c"
      using sent' [OF c] l1(5) [OF c] by (auto simp: ctl')
  qed (use GInv_known [OF assms(1)] in \<open>auto simp: l1(2) empty split: if_splits\<close>)
  then show ?thesis using run by blast
qed

lemma start_streams_ok:
  assumes "distinct (map fst ss)" and "start_streams unit ss m l = (m', l')"
  shows "runners l' = runners l
     \<and> (\<exists>new. streams l' = streams l @ new \<and> map sID new = map fst ss \<and> (\<forall>x \<in> set new. sUnit x = unit \<and> \<not> sent x))
     \<and> (\<forall>i < length ss. fmlookup m' (fst (ss ! i)) = Some (length (streams l) + i))
     \<and> (\<forall>s. s \<notin> fst ` set ss \<longrightarrow> fmlookup m' s = fmlookup m s)"
  using assms
proof (induction ss arbitrary: m l)
  case Nil
  then show ?case by simp
next
  case (Cons x ss)
  obtain s cfg err where x: "x = (s, cfg, err)" by (metis prod.exhaust)
  define l1 where "l1 = (UpdateState unit UStarting (case err of None \<Rightarrow> l | Some _ \<Rightarrow> UpdateState unit UDegraded l))
    \<lparr>streams := streams l @ [\<lparr>sUnit = unit, sID = s, sConfig = cfg, sent = False\<rparr>]\<rparr>"
  have l1: "runners l1 = runners l" "streams l1 = streams l @ [\<lparr>sUnit = unit, sID = s, sConfig = cfg, sent = False\<rparr>]"
    by (cases err; simp add: l1_def)+
  have "start_streams unit ss (fmupd s (length (streams l)) m) l1 = (m', l')"
    using Cons.prems(2) by (cases err) (simp_all add: x l1_def Let_def)
  from Cons.IH [OF _ this] Cons.prems(1) have IH: "runners l' = runners l1"
    "\<exists>new. streams l' = streams l1 @ new \<and> map sID new = map fst ss \<and> (\<forall>x \<in> set new. sUnit x = unit \<and> \<not> sent x)"
    "\<forall>i < length ss. fmlookup m' (fst (ss ! i)) = Some (length (streams l1) + i)"
    "\<forall>r. r \<notin> fst ` set ss \<longrightarrow> fmlookup m' r = fmlookup (fmupd s (length (streams l)) m) r"
    by simp_all
  have "s \<notin> fst ` set ss" using Cons.prems(1) by (simp add: x)
  then have "fmlookup m' s = Some (length (streams l))" using IH(4) by simp
  then have "\<forall>i < length (x # ss). fmlookup m' (fst ((x # ss) ! i)) = Some (length (streams l) + i)"
    using IH(3) by (auto simp: l1(2) x nth_Cons' less_Suc_eq_0_disj)
  moreover have "\<exists>new. streams l' = streams l @ new \<and> map sID new = map fst (x # ss) \<and> (\<forall>x \<in> set new. sUnit x = unit \<and> \<not> sent x)"
    using IH(2) by (auto simp: l1(2) x)
  ultimately show ?case using IH(1,4) l1(1) by (auto simp: x)
qed

text \<open>A new unit controls exactly its new streams.\<close>

lemma handleNewUnit_ok:
  assumes "GInv known l" and "known (uID u) = None \<or> known (uID u) = Some True" and "distinct (map fst (uStreams u))"
  shows "GInv (known(uID u \<mapsto> False)) (handleNewUnit u l)"
proof -
  obtain m l1 where start: "start_streams (uID u) (uStreams u) fmempty (UpdateState (uID u) UConfiguring l) = (m, l1)"
    by fastforce
  from start_streams_ok [OF assms(3) start] obtain new where l1: "runners l1 = runners l" "streams l1 = streams l @ new"
    "map sID new = map fst (uStreams u)" "\<forall>x \<in> set new. sUnit x = uID u \<and> \<not> sent x"
    "\<forall>i < length (uStreams u). fmlookup m (fst (uStreams u ! i)) = Some (length (streams l) + i)"
    "\<forall>s. s \<notin> fst ` set (uStreams u) \<longrightarrow> fmlookup m s = None"
    by auto
  have len: "length new = length (uStreams u)" using arg_cong [OF l1(3), of length] by simp
  have nth: "i < length new \<Longrightarrow> sID (new ! i) = fst (uStreams u ! i)" for i
    using l1(3) len by (metis nth_map)
  let ?l' = "handleNewUnit u l"
  have l': "runners ?l' = fmupd (uID u) m (runners l)" "streams ?l' = streams l @ new"
    by (simp_all add: handleNewUnit_def start l1(1,2))
  have none: "\<not> controls l (uID u) s c" for s c
    using assms(2) GInv_known [OF assms(1), of "uID u"] by (auto simp: controls_def)
  have ctl': "controls ?l' unit s c \<longleftrightarrow> (if unit = uID u then fmlookup m s = Some c else controls l unit s c)" for unit s c
    by (auto simp: controls_def l'(1))
  have m: "fmlookup m s = Some c \<longleftrightarrow> (\<exists>i < length new. c = length (streams l) + i \<and> s = sID (new ! i))" for s c
  proof
    assume some: "fmlookup m s = Some c"
    then have "s \<in> fst ` set (uStreams u)" using l1(6) by force
    then obtain i where "i < length (uStreams u)" "s = fst (uStreams u ! i)" by (auto simp: in_set_conv_nth)
    then show "\<exists>i < length new. c = length (streams l) + i \<and> s = sID (new ! i)" using some l1(5) len nth by auto
  qed (use l1(5) len nth in auto)
  show ?thesis
    unfolding GInv_def
  proof (intro conjI allI impI)
    fix unit s c assume ctl: "controls ?l' unit s c"
    show "c < length (streams ?l')" "\<not> sent (streams ?l' ! c)" "sUnit (streams ?l' ! c) = unit" "sID (streams ?l' ! c) = s"
      using ctl m l1(4) GInv_controls [OF assms(1), of unit s c]
      by (cases "unit = uID u"; auto simp: ctl' l'(2) nth_append)+
  next
    fix c assume c: "c < length (streams ?l')"
    show "sent (streams ?l' ! c) \<or> controls ?l' (sUnit (streams ?l' ! c)) (sID (streams ?l' ! c)) c"
    proof (cases "c < length (streams l)")
      case True
      then show ?thesis using GInv_streams [OF assms(1) True] none by (auto simp: ctl' l'(2) nth_append)
    next
      case False
      then have "c - length (streams l) < length new" using c by (simp add: l'(2))
      moreover from this have "fmlookup m (sID (new ! (c - length (streams l)))) = Some c"
        using False unfolding m by (intro exI [of _ "c - length (streams l)"]) simp
      ultimately show ?thesis using False l1(4) by (simp add: ctl' l'(2) nth_append)
    qed
  qed (use GInv_known [OF assms(1)] in \<open>auto simp: l'(1) split: if_splits\<close>)
qed

lemma main_loop_ok:
  assumes "GInv known l" and "visits_map order" and "agent_protocol known cs"
  shows "\<exists>done l' known'. main_loop order cs l = Inr (done, l') \<and> GInv known' l' \<and> (done \<longrightarrow> runners l' = fmempty)"
  using assms(1,3)
proof (induction cs arbitrary: known l)
  case Nil
  then show ?case by auto
next
  case (Cons c cs)
  show ?case
  proof (cases c)
    case (UnitAdded u)
    then have "GInv (known(uID u \<mapsto> False)) (handleNewUnit u l)" "agent_protocol (known(uID u \<mapsto> False)) cs"
      using handleNewUnit_ok [OF Cons.prems(1)] Cons.prems(2) by simp_all
    from Cons.IH [OF this] show ?thesis by (simp add: UnitAdded)
  next
    case (UnitModified u)
    then have known: "known (uID u) \<noteq> None" "distinct (map fst (uStreams u))"
      "agent_protocol (known(uID u \<mapsto> uStopped u)) cs"
      using Cons.prems(2) by simp_all
    obtain l1 where l1: "tearDownUnit order u l = Inr l1" "GInv (known(uID u \<mapsto> True)) l1"
      using tearDownUnit_ok [OF Cons.prems(1) assms(2) known(1)] by blast
    define l2 where "l2 = (if uStopped u then l1 else handleNewUnit u l1)"
    have "GInv (known(uID u \<mapsto> uStopped u)) l2"
    proof (cases "uStopped u")
      case True
      then show ?thesis using l1(2) by (simp add: l2_def)
    next
      case False
      then show ?thesis using handleNewUnit_ok [OF l1(2) _ known(2)] by (simp add: l2_def)
    qed
    from Cons.IH [OF this known(3)] show ?thesis
      using l1(1) by (cases "uStopped u") (simp_all add: UnitModified handleUnitModified_def l2_def)
  next
    case (UnitRemoved u)
    then have known: "known (uID u) = Some True" "agent_protocol (known(uID u := None)) cs"
      using Cons.prems(2) by simp_all
    have empty: "fmlookup (runners l) (uID u) = Some fmempty" using GInv_known(2) [OF Cons.prems(1) known(1)] .
    let ?l1 = "removeUnit u l"
    have ctl: "controls ?l1 unit s c \<longleftrightarrow> controls l unit s c" for unit s c
      using empty by (auto simp: controls_def removeUnit_def)
    have inv: "GInv (known(uID u := None)) ?l1"
      unfolding GInv_def ctl
      using GInv_known [OF Cons.prems(1)] GInv_controls [OF Cons.prems(1)] GInv_streams [OF Cons.prems(1)]
      by (simp add: removeUnit_def)
    show ?thesis
    proof (cases "runners ?l1 = fmempty")
      case True
      then show ?thesis using inv by (auto simp: UnitRemoved checkDone_def Let_def)
    next
      case False
      then show ?thesis using Cons.IH [OF inv known(2)] by (simp add: UnitRemoved checkDone_def Let_def)
    qed
  next
    case (StreamEnds i n s f)
    have "GInv known (stream_ends i n s f l)"
      by (rule GInv_cong [OF Cons.prems(1)]) (simp_all add: stream_ends_def Let_def)
    then show ?thesis using Cons.IH Cons.prems(2) by (simp add: StreamEnds)
  next
    case ContextDone
    then show ?thesis using Cons.prems(1) by auto
  qed
qed

text \<open>C33. While the agent follows the protocol the load generator never panics and never blocks, and it loses no stream:
  every stream it has started either was sent its stop signal, exactly once, or can still be stopped through the map
  of its unit; when it returns because all units are gone, all streams were stopped.\<close>

theorem units_lose_no_stream:
  assumes "visits_map order" and "agent_protocol Map.empty cs"
  shows "\<exists>done l. StartWithClient order None cs newLoadGenerator = Inr (done, l)
     \<and> (\<forall>c < length (streams l). sent (streams l ! c) \<longleftrightarrow> \<not> controls l (sUnit (streams l ! c)) (sID (streams l ! c)) c)
     \<and> (done \<longrightarrow> (\<forall>c < length (streams l). sent (streams l ! c)))"
proof -
  obtain fin l known' where l: "main_loop order cs newLoadGenerator = Inr (fin, l)" "GInv known' l"
    "fin \<longrightarrow> runners l = fmempty"
    using main_loop_ok [OF GInv_newLoadGenerator assms] by blast
  have iff: "sent (streams l ! c) \<longleftrightarrow> \<not> controls l (sUnit (streams l ! c)) (sID (streams l ! c)) c"
    if "c < length (streams l)" for c
    using GInv_streams [OF l(2) that] GInv_controls [OF l(2)] by blast
  moreover have "fin \<Longrightarrow> \<not> controls l unit s c" for unit s c using l(3) by (simp add: controls_def)
  ultimately show ?thesis using l(1) by (auto simp: StartWithClient_def)
qed

definition sorted_streams :: "(string, nat) fmap \<Rightarrow> (string \<times> nat) list" where
  "sorted_streams m = map (\<lambda>k. (k, the (fmlookup m k))) (sorted_list_of_fset (fmdom m))"

lemma sorted_streams_visits: "visits_map sorted_streams"
  by (auto simp: visits_map_def sorted_streams_def sorted_list_of_fset.rep_eq fmdomI fmlookup_dom_iff image_iff comp_def)

definition sample_unit :: "bool \<Rightarrow> agent_unit" where
  "sample_unit b = \<lparr>uID = ''u'', uStopped = b, uStreams = [(''a'', DefaultConfig, None), (''b'', DefaultConfig, None)]\<rparr>"

theorem units_lose_no_stream_witness:
  "\<exists>done l. StartWithClient sorted_streams None
       [UnitAdded (sample_unit False), UnitModified (sample_unit True), UnitRemoved (sample_unit True)] newLoadGenerator
       = Inr (done, l)
     \<and> (done \<longrightarrow> (\<forall>c < length (streams l). sent (streams l ! c)))"
  using units_lose_no_stream [OF sorted_streams_visits,
      of "[UnitAdded (sample_unit False), UnitModified (sample_unit True), UnitRemoved (sample_unit True)]"]
  by (auto simp: sample_unit_def)

text \<open>Two streams with the same id in one unit: the first can never be stopped.\<close>

lemma duplicate_stream_lost:
  "streams (handleNewUnit \<lparr>uID = ''u'', uStopped = False, uStreams = [(''a'', DefaultConfig, None), (''a'', DefaultConfig, None)]\<rparr>
      newLoadGenerator) =
     [\<lparr>sUnit = ''u'', sID = ''a'', sConfig = DefaultConfig, sent = False\<rparr>, \<lparr>sUnit = ''u'', sID = ''a'', sConfig = DefaultConfig, sent = False\<rparr>]
   \<and> (\<forall>s. \<not> controls (handleNewUnit \<lparr>uID = ''u'', uStopped = False,
      uStreams = [(''a'', DefaultConfig, None), (''a'', DefaultConfig, None)]\<rparr> newLoadGenerator) ''u'' s 0)"
  by (simp add: handleNewUnit_def newLoadGenerator_def UpdateState_def controls_def)

end
