(* ===== verification/Compliance.thy ===== *)
theory Compliance
  imports Storetest
begin

text \<open>
  \<open>pkg/statestore/internal/storecompliance\<close>: the test suite every backend has to pass, with the helpers that set up
  registries and stores (\<open>util.go\<close>, \<open>reg.go\<close>, \<open>storecompliance.go\<close>), and the contract a backend needs to pass it as a locale.

  Parameters: the Go values the tests store, the order in which \<open>range\<close> visits the test data, the file system
  calls for the temporary directory, and the factory.  Log messages and the names of subtests are not modelled.
\<close>

section \<open>Tests\<close>

text \<open>
  A test function acts on the world of the backend, on the flag \<open>Failed\<close> of its \<open>testing.T\<close>, and on the \<open>Store\<close> values it
  created, a pointer to one being its position.  \<open>t.Fatal\<close> ends the test: only deferred functions run after it.
\<close>

datatype 'a flow = Ret 'a | Exit

record ('h, 'w) tstate =
  tworld :: 'w
  tfailed :: bool
  tstores :: "('h \<times> string) list"

type_synonym ('h, 'w, 'a) test = "('h, 'w) tstate \<Rightarrow> 'a flow \<times> ('h, 'w) tstate"

definition retT :: "'a \<Rightarrow> ('h, 'w, 'a) test" where
  "retT x st = (Ret x, st)"

definition bindT :: "('h, 'w, 'a) test \<Rightarrow> ('a \<Rightarrow> ('h, 'w, 'b) test) \<Rightarrow> ('h, 'w, 'b) test" where
  "bindT f g st = (case f st of (Ret x, st1) \<Rightarrow> g x st1 | (Exit, st1) \<Rightarrow> (Exit, st1))"

text \<open>\<open>defer\<close>: the function runs when the rest of the body returns or exits.\<close>

definition deferT :: "('h, 'w, unit) test \<Rightarrow> ('h, 'w, 'a) test \<Rightarrow> ('h, 'w, 'a) test" where
  "deferT cleanup body st =
     (case body st of (r, st1) \<Rightarrow>
      case cleanup st1 of (Ret _, st2) \<Rightarrow> (r, st2) | (Exit, st2) \<Rightarrow> (Exit, st2))"

definition callT :: "('w \<Rightarrow> 'a \<times> 'w) \<Rightarrow> ('h, 'w, 'a) test" where
  "callT f st = (case f (tworld st) of (r, w) \<Rightarrow> (Ret r, st\<lparr>tworld := w\<rparr>))"

definition Fatal :: "('h, 'w, 'a) test" where
  "Fatal st = (Exit, st\<lparr>tfailed := True\<rparr>)"

definition FailedT :: "('h, 'w, bool) test" where
  "FailedT st = (Ret (tfailed st), st)"

definition assertT :: "bool \<Rightarrow> ('h, 'w, unit) test" where
  "assertT b st = (Ret (), st\<lparr>tfailed := tfailed st \<or> \<not> b\<rparr>)"

text \<open>\<open>t.Run\<close>: a subtest with a \<open>testing.T\<close> of its own; its failure is one of the parent as well.\<close>

definition t_Run :: "('h, 'w, unit) test \<Rightarrow> ('h, 'w, unit) test" where
  "t_Run f st =
     (case f (st\<lparr>tfailed := False, tstores := []\<rparr>) of
        (_, st1) \<Rightarrow> (Ret (), st1\<lparr>tfailed := tfailed st \<or> tfailed st1, tstores := tstores st\<rparr>))"

definition must :: "error option \<Rightarrow> ('h, 'w, unit) test" where
  "must err = (case err of None \<Rightarrow> retT () | Some e \<Rightarrow> Fatal)"

section \<open>Registries and stores of the tests\<close>

definition err_of :: "'a result \<Rightarrow> error option" where
  "err_of r = (case r of Inl e \<Rightarrow> Some e | Inr x \<Rightarrow> None)"

definition treg_Access :: "('h, 'v, 'u, 'w) backend \<Rightarrow> string \<Rightarrow> ('h, 'w, nat result) test" where
  "treg_Access B name =
     bindT (callT (bAccess B name)) (\<lambda>r. case r of
         Inl e \<Rightarrow> retT (Inl e)
       | Inr h \<Rightarrow> (\<lambda>st. (Ret (Inr (length (tstores st))), st\<lparr>tstores := tstores st @ [(h, name)]\<rparr>)))"

definition MustAccess :: "('h, 'v, 'u, 'w) backend \<Rightarrow> string \<Rightarrow> ('h, 'w, nat) test" where
  "MustAccess B name = bindT (treg_Access B name) (\<lambda>r. bindT (must (err_of r)) (\<lambda>_. retT (projr r)))"

text \<open>A call of the backend store that the store \<open>s\<close> of the test holds now.\<close>

definition storeT :: "('h \<Rightarrow> 'w \<Rightarrow> 'a \<times> 'w) \<Rightarrow> nat \<Rightarrow> ('h, 'w, 'a) test" where
  "storeT f s st = callT (f (fst (tstores st ! s))) st"

definition tstore_Close :: "('h, 'v, 'u, 'w) backend \<Rightarrow> nat \<Rightarrow> ('h, 'w, unit) test" where
  "tstore_Close B s = bindT (storeT (bClose B) s) must"

definition Reopen :: "('h, 'v, 'u, 'w) backend \<Rightarrow> nat \<Rightarrow> ('h, 'w, unit) test" where
  "Reopen B s =
     bindT (tstore_Close B s) (\<lambda>_.
     bindT FailedT (\<lambda>b. if b then Fatal else
       (\<lambda>st. bindT (callT (bAccess B (snd (tstores st ! s)))) (\<lambda>r.
             bindT (must (err_of r)) (\<lambda>_.
             (\<lambda>st. (Ret (), st\<lparr>tstores := (tstores st)[s := (projr r, snd (tstores st ! s))]\<rparr>)))) st)))"

definition ReopenIf :: "('h, 'v, 'u, 'w) backend \<Rightarrow> bool \<Rightarrow> nat \<Rightarrow> ('h, 'w, unit) test" where
  "ReopenIf B b s = (if b then Reopen B s else retT ())"

definition MustHave :: "('h, 'v, 'u, 'w) backend \<Rightarrow> string \<Rightarrow> nat \<Rightarrow> ('h, 'w, bool) test" where
  "MustHave B key s = bindT (storeT (\<lambda>h. bHas B h key) s) (\<lambda>r. bindT (must (err_of r)) (\<lambda>_. retT (projr r)))"

definition MustGet :: "('h, 'v, 'u, 'w) backend \<Rightarrow> string \<Rightarrow> nat \<Rightarrow> ('h, 'w, 'v) test" where
  "MustGet B key s = bindT (storeT (\<lambda>h. bGet B h key) s) (\<lambda>r. bindT (must (err_of r)) (\<lambda>_. retT (projr r)))"

definition MustSet :: "('h, 'v, 'u, 'w) backend \<Rightarrow> string \<Rightarrow> 'v \<Rightarrow> nat \<Rightarrow> ('h, 'w, unit) test" where
  "MustSet B key from s = bindT (storeT (\<lambda>h. bSet B h key from) s) must"

definition MustRemove :: "('h, 'v, 'u, 'w) backend \<Rightarrow> string \<Rightarrow> nat \<Rightarrow> ('h, 'w, unit) test" where
  "MustRemove B key s = bindT (storeT (\<lambda>h. bRemove B h key) s) must"

section \<open>Set-up and clean-up\<close>

record ('h, 'v, 'u, 'w) suite_env =
  MkdirTemp :: "string \<Rightarrow> 'w \<Rightarrow> string result \<times> 'w"
  RemoveAll :: "string \<Rightarrow> 'w \<Rightarrow> 'w"
  factory :: "string \<Rightarrow> 'w \<Rightarrow> ('h, 'v, 'u, 'w) backend result \<times> 'w"
  defaultTempDir :: string
  keepTmpDir :: bool

definition removePath :: "('h, 'v, 'u, 'w) suite_env \<Rightarrow> string \<Rightarrow> ('h, 'w, unit) test" where
  "removePath E path = (if keepTmpDir E then retT () else callT (\<lambda>w. ((), RemoveAll E path w)))"

definition regCleanup :: "('h, 'v, 'u, 'w) suite_env \<Rightarrow> string \<Rightarrow> ('h, 'v, 'u, 'w) backend \<Rightarrow> ('h, 'w, unit) test" where
  "regCleanup E path B = deferT (removePath E path) (bindT (callT (bRegClose B)) (\<lambda>_. retT ()))"

text \<open>The result is the registry with the clean-up function.  The flag \<open>ok\<close> is set exactly when the function returns.\<close>

definition SetupRegistry ::
    "('h, 'v, 'u, 'w) suite_env \<Rightarrow> ('h, 'w, ('h, 'v, 'u, 'w) backend \<times> ('h, 'w, unit) test) test" where
  "SetupRegistry E =
     bindT (callT (MkdirTemp E (defaultTempDir E))) (\<lambda>r. case r of
         Inl e \<Rightarrow> Fatal
       | Inr path \<Rightarrow> (\<lambda>st.
           case bindT (callT (factory E path)) (\<lambda>r. case r of Inl e \<Rightarrow> Fatal | Inr B \<Rightarrow> retT (B, regCleanup E path B)) st of
             (Ret x, st1) \<Rightarrow> (Ret x, st1)
           | (Exit, st1) \<Rightarrow> (Exit, snd (removePath E path st1))))"

definition WithPath ::
    "('h, 'v, 'u, 'w) suite_env \<Rightarrow> (('h, 'v, 'u, 'w) backend \<Rightarrow> ('h, 'w, unit) test) \<Rightarrow> ('h, 'w, unit) test" where
  "WithPath E fn = bindT (SetupRegistry E) (\<lambda>(B, cleanup). deferT cleanup (fn B))"

definition RunWithPath ::
    "('h, 'v, 'u, 'w) suite_env \<Rightarrow> (('h, 'v, 'u, 'w) backend \<Rightarrow> ('h, 'w, unit) test) \<Rightarrow> ('h, 'w, unit) test" where
  "RunWithPath E fn = bindT (SetupRegistry E) (\<lambda>(B, cleanup). deferT cleanup (fn B))"

text \<open>When the store cannot be opened, \<open>must\<close> ends the test.\<close>

definition SetupTestStore ::
    "('h, 'v, 'u, 'w) suite_env \<Rightarrow> ('h, 'w, ('h, 'v, 'u, 'w) backend \<times> nat \<times> ('h, 'w, unit) test) test" where
  "SetupTestStore E =
     bindT (SetupRegistry E) (\<lambda>(B, cleanupReg).
     bindT (treg_Access B ''test'') (\<lambda>r. case r of
         Inl e \<Rightarrow> deferT cleanupReg (bindT (must (Some e)) (\<lambda>_. Fatal))
       | Inr s \<Rightarrow> retT (B, s, deferT cleanupReg (tstore_Close B s))))"

definition WithStore ::
    "('h, 'v, 'u, 'w) suite_env \<Rightarrow> (('h, 'v, 'u, 'w) backend \<Rightarrow> nat \<Rightarrow> ('h, 'w, unit) test) \<Rightarrow> ('h, 'w, unit) test" where
  "WithStore E fn = bindT (SetupTestStore E) (\<lambda>(B, s, cleanup). deferT cleanup (fn B s))"

definition RunWithStore ::
    "('h, 'v, 'u, 'w) suite_env \<Rightarrow> (('h, 'v, 'u, 'w) backend \<Rightarrow> nat \<Rightarrow> ('h, 'w, unit) test) \<Rightarrow> ('h, 'w, unit) test" where
  "RunWithStore E fn = bindT (SetupTestStore E) (\<lambda>(B, s, cleanup). deferT cleanup (fn B s))"

definition withBools :: "(bool \<Rightarrow> ('h, 'w, unit) test) \<Rightarrow> ('h, 'w, unit) test" where
  "withBools fn = bindT (t_Run (fn False)) (\<lambda>_. t_Run (fn True))"

definition runWithBools :: "(bool \<Rightarrow> ('h, 'w, unit) test) \<Rightarrow> ('h, 'w, unit) test" where
  "runWithBools fn = withBools fn"

section \<open>The suite\<close>

text \<open>The Go values of the tests, and the order of a \<open>range\<close> over the test data.\<close>

record 'v suite_values =
  entryA1 :: 'v
  fieldHello :: 'v
  fieldWorld :: 'v
  rangeData :: "(string, 'v) fmap \<Rightarrow> (string \<times> 'v) list"

text \<open>The functions passed to \<open>Each\<close> share a state: the map \<open>got\<close> and the counter.\<close>

type_synonym 'v each_state = "(string, 'v) fmap \<times> nat"

type_synonym ('h, 'v, 'w) suite = "('h, 'v, 'v each_state, 'w) suite_env"

definition testSetGet :: "'v suite_values \<Rightarrow> ('h, 'v, 'w) suite \<Rightarrow> ('h, 'w, unit) test" where
  "testSetGet V E =
     bindT (t_Run (WithStore E (\<lambda>B s. bindT (MustHave B ''key'' s) (\<lambda>has. assertT (\<not> has))))) (\<lambda>_.
     runWithBools (\<lambda>reopen.
       bindT (t_Run (WithStore E (\<lambda>B s.
         bindT (MustSet B ''key'' (entryA1 V) s) (\<lambda>_.
         bindT (ReopenIf B reopen s) (\<lambda>_.
         bindT (MustHave B ''key'' s) (\<lambda>has. assertT has)))))) (\<lambda>_.
       t_Run (WithStore E (\<lambda>B s.
         bindT (MustSet B ''key'' (entryA1 V) s) (\<lambda>_.
         bindT (ReopenIf B reopen s) (\<lambda>_.
         bindT (MustGet B ''key'' s) (\<lambda>actual. assertT (entryA1 V = actual)))))))))"

definition testRemove :: "'v suite_values \<Rightarrow> ('h, 'v, 'w) suite \<Rightarrow> ('h, 'w, unit) test" where
  "testRemove V E =
     bindT (t_Run (WithStore E (\<lambda>B s. MustRemove B ''key'' s))) (\<lambda>_.
     runWithBools (\<lambda>reopen.
       t_Run (WithStore E (\<lambda>B s.
         bindT (MustSet B ''key'' (entryA1 V) s) (\<lambda>_.
         bindT (ReopenIf B reopen s) (\<lambda>_.
         bindT (MustRemove B ''key'' s) (\<lambda>_.
         bindT (ReopenIf B reopen s) (\<lambda>_.
         bindT (MustHave B ''key'' s) (\<lambda>has. assertT (\<not> has))))))))))"

definition test_data :: "'v suite_values \<Rightarrow> (string, 'v) fmap" where
  "test_data V = fmupd ''b'' (fieldWorld V) (fmupd ''a'' (fieldHello V) fmempty)"

fun setAll :: "('h, 'v, 'u, 'w) backend \<Rightarrow> nat \<Rightarrow> (string \<times> 'v) list \<Rightarrow> ('h, 'w, unit) test" where
  "setAll B s [] = retT ()"
| "setAll B s ((k, v) # kvs) = bindT (MustSet B k v s) (\<lambda>_. setAll B s kvs)"

definition addTestData :: "'v suite_values \<Rightarrow> ('h, 'v, 'u, 'w) backend \<Rightarrow> nat \<Rightarrow> bool \<Rightarrow> ('h, 'w, unit) test" where
  "addTestData V B s reopen =
     bindT (setAll B s (rangeData V (test_data V))) (\<lambda>_. ReopenIf B reopen s)"

definition collect :: "('v, 'v each_state) each_fn" where
  "collect key dec u =
     (case dec of Inl err \<Rightarrow> ((False, Some err), u) | Inr tmp \<Rightarrow> ((True, None), (fmupd key tmp (fst u), snd u)))"

definition stop_on_error :: "('v, 'v each_state) each_fn" where
  "stop_on_error key dec u = ((True, Some (ErrNew (''oo'' @ ''ps''))), (fst u, snd u + 1))"

definition stop_on_bool :: "('v, 'v each_state) each_fn" where
  "stop_on_bool key dec u = ((False, None), (fst u, snd u + 1))"

definition tstore_Each :: "('h, 'v, 'u, 'w) backend \<Rightarrow> ('v, 'u) each_fn \<Rightarrow> 'u \<Rightarrow> nat \<Rightarrow> ('h, 'w, error option \<times> 'u) test" where
  "tstore_Each B fn u s = storeT (\<lambda>h. bEach B h fn u) s"

definition testIteration :: "'v suite_values \<Rightarrow> ('h, 'v, 'w) suite \<Rightarrow> ('h, 'w, unit) test" where
  "testIteration V E =
     runWithBools (\<lambda>reopen.
       bindT (t_Run (WithStore E (\<lambda>B s.
         bindT (addTestData V B s reopen) (\<lambda>_.
         bindT (tstore_Each B collect (fmempty, 0) s) (\<lambda>(err, u).
         bindT (assertT (err = None)) (\<lambda>_. assertT (test_data V = fst u))))))) (\<lambda>_.
       bindT (t_Run (WithStore E (\<lambda>B s.
         bindT (addTestData V B s reopen) (\<lambda>_.
         bindT (tstore_Each B stop_on_error (fmempty, 0) s) (\<lambda>(err, u).
         bindT (assertT (1 = snd u)) (\<lambda>_. assertT (err \<noteq> None))))))) (\<lambda>_.
       t_Run (WithStore E (\<lambda>B s.
         bindT (addTestData V B s reopen) (\<lambda>_.
         bindT (tstore_Each B stop_on_bool (fmempty, 0) s) (\<lambda>(err, u).
         bindT (assertT (1 = snd u)) (\<lambda>_. assertT (err = None)))))))))"

definition TestBackendCompliance :: "'v suite_values \<Rightarrow> ('h, 'v, 'w) suite \<Rightarrow> ('h, 'w, unit) test" where
  "TestBackendCompliance V E =
     bindT (t_Run (WithPath E (\<lambda>B. retT ()))) (\<lambda>_.
     bindT (t_Run (WithPath E (\<lambda>B.
       bindT (MustAccess B ''test1'') (\<lambda>s. deferT (tstore_Close B s)
         (bindT (MustAccess B ''test2'') (\<lambda>s2. deferT (tstore_Close B s2) (retT ()))))))) (\<lambda>_.
     bindT (t_Run (testSetGet V E)) (\<lambda>_.
     bindT (t_Run (testRemove V E)) (\<lambda>_.
     t_Run (testIteration V E)))))"

text \<open>The verdict of the suite when it starts in a world.\<close>

definition suite_passes :: "'v suite_values \<Rightarrow> ('h, 'v, 'w) suite \<Rightarrow> 'w \<Rightarrow> bool" where
  "suite_passes V E w \<longleftrightarrow>
     \<not> tfailed (snd (TestBackendCompliance V E \<lparr>tworld = w, tfailed = False, tstores = []\<rparr>))"

section \<open>Reasoning about tests\<close>

text \<open>A test returns a value and leaves a state with some property.\<close>

definition yields :: "('h, 'w, 'a) test \<Rightarrow> ('h, 'w) tstate \<Rightarrow> 'a \<Rightarrow> (('h, 'w) tstate \<Rightarrow> bool) \<Rightarrow> bool" where
  "yields f st x Q \<longleftrightarrow> (\<exists>st'. f st = (Ret x, st') \<and> Q st')"

lemma yields_retT: "yields (retT x) st x Q \<longleftrightarrow> Q st"
  by (simp add: yields_def retT_def)

lemma yields_bindT:
  assumes "yields f st x Q" and "\<And>st'. Q st' \<Longrightarrow> yields (g x) st' y R"
  shows "yields (bindT f g) st y R"
proof -
  obtain st' where "f st = (Ret x, st')" "Q st'" using assms(1) by (auto simp: yields_def)
  then show ?thesis using assms(2) [of st'] by (simp add: yields_def bindT_def)
qed

lemma yields_deferT:
  assumes "yields body st x Q" and "\<And>st'. Q st' \<Longrightarrow> yields cleanup st' () R"
  shows "yields (deferT cleanup body) st x R"
proof -
  obtain st' where "body st = (Ret x, st')" "Q st'" using assms(1) by (auto simp: yields_def)
  then show ?thesis using assms(2) [of st'] by (auto simp: yields_def deferT_def)
qed

lemma yields_assertT:
  assumes "b" and "Q st"
  shows "yields (assertT b) st () Q"
proof -
  have "st\<lparr>tfailed := tfailed st \<or> \<not> b\<rparr> = st" using assms(1) by simp
  then show ?thesis using assms(2) by (simp add: yields_def assertT_def)
qed

lemma yields_weaken: "yields f st x Q \<Longrightarrow> (\<And>st'. Q st' \<Longrightarrow> R st') \<Longrightarrow> yields f st x R"
  by (auto simp: yields_def)

lemmas test_steps = bindT_def callT_def storeT_def must_def err_of_def retT_def

section \<open>The contract\<close>

text \<open>
  \<open>view n w os c\<close>: in the world \<open>w\<close> the registry is open, \<open>os\<close> are its open stores by name, \<open>c\<close> gives the documents of every
  name, as what they decode to, and at least \<open>n\<close> more calls are possible.
\<close>

type_synonym ('h, 'v, 'w) view = "nat \<Rightarrow> 'w \<Rightarrow> (string \<rightharpoonup> 'h) \<Rightarrow> (string \<Rightarrow> string \<rightharpoonup> 'v) \<Rightarrow> bool"

locale compliant_backend =
  fixes B :: "('h, 'v, 'u, 'w) backend" and view :: "('h, 'v, 'w) view"
    and names :: "string set" and storable :: "string \<Rightarrow> 'v \<Rightarrow> bool" and removable :: "string \<Rightarrow> bool"
  assumes view_less: "view (Suc n) w os c \<Longrightarrow> view n w os c"
    and access_law: "view (Suc n) w os c \<Longrightarrow> nm \<in> names \<Longrightarrow> os nm = None \<Longrightarrow>
      \<exists>h w'. bAccess B nm w = (Inr h, w') \<and> view n w' (os(nm \<mapsto> h)) c"
    and close_law: "view (Suc n) w os c \<Longrightarrow> os nm = Some h \<Longrightarrow>
      \<exists>w'. bClose B h w = (None, w') \<and> view n w' (os(nm := None)) c"
    and has_law: "view (Suc n) w os c \<Longrightarrow> os nm = Some h \<Longrightarrow>
      \<exists>w'. bHas B h k w = (Inr (c nm k \<noteq> None), w') \<and> view n w' os c"
    and get_law: "view (Suc n) w os c \<Longrightarrow> os nm = Some h \<Longrightarrow> c nm k = Some v \<Longrightarrow>
      \<exists>w'. bGet B h k w = (Inr v, w') \<and> view n w' os c"
    and set_law: "view (Suc n) w os c \<Longrightarrow> os nm = Some h \<Longrightarrow> storable k v \<Longrightarrow>
      \<exists>w'. bSet B h k v w = (None, w') \<and> view n w' os (c(nm := (c nm)(k \<mapsto> v)))"
    and remove_law: "view (Suc n) w os c \<Longrightarrow> os nm = Some h \<Longrightarrow> removable k \<Longrightarrow>
      \<exists>w'. bRemove B h k w = (None, w') \<and> view n w' os (c(nm := (c nm)(k := None)))"
    and each_law: "view (Suc n) w os c \<Longrightarrow> os nm = Some h \<Longrightarrow>
      \<exists>kvs w'. distinct (map fst kvs) \<and> map_of kvs = c nm
        \<and> bEach B h fn u w = (range_loop Inr fn kvs u, w') \<and> view n w' os c"

text \<open>The test has one store, open, with these documents.\<close>

definition one_store :: "('h, 'v, 'w) view \<Rightarrow> nat \<Rightarrow> (string \<rightharpoonup> 'v) \<Rightarrow> ('h, 'w) tstate \<Rightarrow> bool" where
  "one_store view n m st \<longleftrightarrow> \<not> tfailed st
     \<and> (\<exists>h c. tstores st = [(h, ''test'')] \<and> view n (tworld st) [''test'' \<mapsto> h] c \<and> c ''test'' = m)"

text \<open>A function that \<open>WithStore\<close> may run: from a new store it returns, nothing failed, and the store can be closed.\<close>

definition store_body ::
    "('h, 'v, 'w) view \<Rightarrow> ('h, 'v, 'u, 'w) backend \<Rightarrow> (('h, 'v, 'u, 'w) backend \<Rightarrow> nat \<Rightarrow> ('h, 'w, unit) test) \<Rightarrow> bool" where
  "store_body view B fn \<longleftrightarrow>
     (\<forall>st. one_store view 8 Map.empty st \<longrightarrow> (\<exists>m. yields (fn B 0) st () (one_store view 1 m)))"

lemma store_bodyI:
  "(\<And>st. one_store view 8 Map.empty st \<Longrightarrow> yields (fn B 0) st () (one_store view 1 m)) \<Longrightarrow> store_body view B fn"
  by (auto simp: store_body_def)

context compliant_backend
begin

lemma MustHave_ok:
  assumes "one_store view (Suc n) m st"
  shows "yields (MustHave B k 0) st (m k \<noteq> None) (one_store view n m)"
proof -
  obtain h c where st: "\<not> tfailed st" "tstores st = [(h, ''test'')]" "view (Suc n) (tworld st) [''test'' \<mapsto> h] c" "c ''test'' = m"
    using assms by (auto simp: one_store_def)
  obtain w' where "bHas B h k (tworld st) = (Inr (m k \<noteq> None), w')" "view n w' [''test'' \<mapsto> h] c"
    using has_law [OF st(3), of "''test''" h k] st(4) by auto
  then show ?thesis using st by (auto simp: yields_def MustHave_def test_steps one_store_def)
qed

lemma MustGet_ok:
  assumes "one_store view (Suc n) m st" and "m k = Some v"
  shows "yields (MustGet B k 0) st v (one_store view n m)"
proof -
  obtain h c where st: "\<not> tfailed st" "tstores st = [(h, ''test'')]" "view (Suc n) (tworld st) [''test'' \<mapsto> h] c" "c ''test'' = m"
    using assms(1) by (auto simp: one_store_def)
  obtain w' where "bGet B h k (tworld st) = (Inr v, w')" "view n w' [''test'' \<mapsto> h] c"
    using get_law [OF st(3), of "''test''" h k v] st(4) assms(2) by auto
  then show ?thesis using st by (auto simp: yields_def MustGet_def test_steps one_store_def)
qed

lemma MustSet_ok:
  assumes "one_store view (Suc n) m st" and "storable k v"
  shows "yields (MustSet B k v 0) st () (one_store view n (m(k \<mapsto> v)))"
proof -
  obtain h c where st: "\<not> tfailed st" "tstores st = [(h, ''test'')]" "view (Suc n) (tworld st) [''test'' \<mapsto> h] c" "c ''test'' = m"
    using assms(1) by (auto simp: one_store_def)
  obtain w' where "bSet B h k v (tworld st) = (None, w')" "view n w' [''test'' \<mapsto> h] (c(''test'' := m(k \<mapsto> v)))"
    using set_law [OF st(3), of "''test''" h k v] st(4) assms(2) by auto
  then show ?thesis using st by (fastforce simp: yields_def MustSet_def test_steps one_store_def)
qed

lemma MustRemove_ok:
  assumes "one_store view (Suc n) m st" and "removable k"
  shows "yields (MustRemove B k 0) st () (one_store view n (m(k := None)))"
proof -
  obtain h c where st: "\<not> tfailed st" "tstores st = [(h, ''test'')]" "view (Suc n) (tworld st) [''test'' \<mapsto> h] c" "c ''test'' = m"
    using assms(1) by (auto simp: one_store_def)
  obtain w' where "bRemove B h k (tworld st) = (None, w')" "view n w' [''test'' \<mapsto> h] (c(''test'' := m(k := None)))"
    using remove_law [OF st(3), of "''test''" h k] st(4) assms(2) by auto
  then show ?thesis using st by (fastforce simp: yields_def MustRemove_def test_steps one_store_def)
qed

lemma Each_ok:
  assumes "one_store view (Suc n) m st"
  shows "\<exists>kvs. distinct (map fst kvs) \<and> map_of kvs = m
     \<and> yields (tstore_Each B fn u 0) st (range_loop Inr fn kvs u) (one_store view n m)"
proof -
  obtain h c where st: "\<not> tfailed st" "tstores st = [(h, ''test'')]" "view (Suc n) (tworld st) [''test'' \<mapsto> h] c" "c ''test'' = m"
    using assms by (auto simp: one_store_def)
  obtain kvs w' where "distinct (map fst kvs)" "map_of kvs = m"
    "bEach B h fn u (tworld st) = (range_loop Inr fn kvs u, w')" "view n w' [''test'' \<mapsto> h] c"
    using each_law [OF st(3), of "''test''" h fn u] st(4) by auto
  then show ?thesis using st by (auto simp: yields_def tstore_Each_def test_steps one_store_def intro!: exI [of _ kvs])
qed

lemma tstore_Close_ok:
  assumes "\<not> tfailed st" and "view (Suc n) (tworld st) os c" and "os nm = Some h" and "fst (tstores st ! s) = h"
  shows "yields (tstore_Close B s) st () (\<lambda>st'. \<not> tfailed st' \<and> tstores st' = tstores st \<and> view n (tworld st') (os(nm := None)) c)"
proof -
  obtain w' where "bClose B h (tworld st) = (None, w')" "view n w' (os(nm := None)) c"
    using close_law [OF assms(2,3)] by blast
  then show ?thesis using assms(1,4) by (auto simp: yields_def tstore_Close_def test_steps)
qed

lemma treg_Access_ok:
  assumes "\<not> tfailed st" and "view (Suc n) (tworld st) os c" and "nm \<in> names" and "os nm = None"
  shows "\<exists>h. yields (treg_Access B nm) st (Inr (length (tstores st)))
     (\<lambda>st'. \<not> tfailed st' \<and> tstores st' = tstores st @ [(h, nm)] \<and> view n (tworld st') (os(nm \<mapsto> h)) c)"
proof -
  obtain h w' where "bAccess B nm (tworld st) = (Inr h, w')" "view n w' (os(nm \<mapsto> h)) c"
    using access_law [OF assms(2-4)] by blast
  then show ?thesis using assms(1) by (auto simp: yields_def treg_Access_def test_steps intro!: exI [of _ h])
qed

lemma ReopenIf_ok:
  assumes "one_store view (Suc (Suc n)) m st" and "''test'' \<in> names"
  shows "yields (ReopenIf B b 0) st () (one_store view n m)"
proof (cases b)
  case False
  have "one_store view n m st" using assms(1) view_less unfolding one_store_def by blast
  then show ?thesis using False by (simp add: ReopenIf_def yields_retT)
next
  case True
  obtain h c where st: "\<not> tfailed st" "tstores st = [(h, ''test'')]" "view (Suc (Suc n)) (tworld st) [''test'' \<mapsto> h] c" "c ''test'' = m"
    using assms(1) by (auto simp: one_store_def)
  obtain w1 where w1: "bClose B h (tworld st) = (None, w1)" "view (Suc n) w1 Map.empty c"
    using close_law [OF st(3), of "''test''" h] by auto
  obtain h' w2 where w2: "bAccess B ''test'' w1 = (Inr h', w2)" "view n w2 [''test'' \<mapsto> h'] c"
    using access_law [OF w1(2) assms(2)] by auto
  show ?thesis
    using True st w1(1) w2
    by (auto simp: yields_def ReopenIf_def Reopen_def tstore_Close_def FailedT_def test_steps one_store_def)
qed

lemma setAll_ok:
  assumes "one_store view (length kvs + n) m st" and "\<forall>(k, v) \<in> set kvs. storable k v"
  shows "yields (setAll B 0 kvs) st () (one_store view n (m ++ map_of (rev kvs)))"
  using assms
proof (induction kvs arbitrary: m st)
  case Nil
  then show ?case by (simp add: yields_retT)
next
  case (Cons kv kvs)
  obtain k v where kv: "kv = (k, v)" by fastforce
  have "yields (MustSet B k v 0) st () (one_store view (length kvs + n) (m(k \<mapsto> v)))"
    using MustSet_ok [of "length kvs + n" m st k v] Cons.prems kv by simp
  then have run: "yields (bindT (MustSet B k v 0) (\<lambda>_. setAll B 0 kvs)) st () (one_store view n (m(k \<mapsto> v) ++ map_of (rev kvs)))"
  proof (rule yields_bindT)
    fix st' assume "one_store view (length kvs + n) (m(k \<mapsto> v)) st'"
    then show "yields (setAll B 0 kvs) st' () (one_store view n (m(k \<mapsto> v) ++ map_of (rev kvs)))"
      by (rule Cons.IH) (use Cons.prems(2) in simp)
  qed
  have eq: "m(k \<mapsto> v) ++ map_of (rev kvs) = m ++ map_of (rev ((k, v) # kvs))"
    by (simp add: map_of_append)
  show ?case using run unfolding eq kv setAll.simps .
qed

end

section \<open>Compliant backends pass\<close>

text \<open>
  The suite runs in worlds that are \<open>good\<close>: the temporary directory can be made and the factory opens an empty registry
  there; closing the registry and removing the directory leave a good world.  No test makes more than nine calls.
\<close>

locale compliance_suite = compliant_backend B view names storable removable
  for B :: "('h, 'v, 'v each_state, 'w) backend" and view :: "('h, 'v, 'w) view"
    and names :: "string set" and storable :: "string \<Rightarrow> 'v \<Rightarrow> bool" and removable :: "string \<Rightarrow> bool" +
  fixes E :: "('h, 'v, 'w) suite" and good :: "'w \<Rightarrow> bool" and V :: "'v suite_values"
  assumes setup_law: "good w \<Longrightarrow> \<exists>p w1 w2. MkdirTemp E (defaultTempDir E) w = (Inr p, w1)
      \<and> factory E p w1 = (Inr B, w2) \<and> view 9 w2 Map.empty (\<lambda>_. Map.empty)"
    and close_good: "view n w os c \<Longrightarrow> good (snd (bRegClose B w))"
    and remove_good: "good w \<Longrightarrow> good (RemoveAll E p w)"
    and test_names: "{''test'', ''test1'', ''test2''} \<subseteq> names"
    and test_values: "storable ''key'' (entryA1 V)" "removable ''key''"
      "storable ''a'' (fieldHello V)" "storable ''b'' (fieldWorld V)"
    and range_law: "distinct (map fst (rangeData V d))" "map_of (rangeData V d) = fmlookup d"
begin

abbreviation all_good :: "('h, 'w) tstate \<Rightarrow> bool" where
  "all_good st \<equiv> good (tworld st) \<and> \<not> tfailed st"

lemma t_Run_ok:
  assumes "all_good st" and "\<And>st. all_good st \<Longrightarrow> tstores st = [] \<Longrightarrow> yields f st () all_good"
  shows "yields (t_Run f) st () all_good"
  using assms(2) [of "st\<lparr>tfailed := False, tstores := []\<rparr>"] assms(1) by (auto simp: yields_def t_Run_def)

lemma view_down: "view n w os c \<Longrightarrow> m \<le> n \<Longrightarrow> view m w os c"
  by (induction n) (auto simp: le_Suc_eq dest: view_less)

lemma SetupRegistry_ok:
  assumes "all_good st" and "tstores st = []"
  shows "\<exists>p. yields (SetupRegistry E) st (B, regCleanup E p B)
     (\<lambda>st'. \<not> tfailed st' \<and> tstores st' = [] \<and> view 9 (tworld st') Map.empty (\<lambda>_. Map.empty))"
  using setup_law [of "tworld st"] assms by (fastforce simp: yields_def SetupRegistry_def test_steps)

lemma regCleanup_ok:
  assumes "\<not> tfailed st" and "view n (tworld st) os c"
  shows "yields (regCleanup E p B) st () all_good"
  using close_good [OF assms(2)] remove_good assms(1)
  by (auto simp: yields_def regCleanup_def removePath_def deferT_def test_steps split: prod.splits)

lemma WithPath_ok:
  assumes "all_good st" and "tstores st = []"
    and "\<And>st. \<not> tfailed st \<Longrightarrow> tstores st = [] \<Longrightarrow> view 9 (tworld st) Map.empty (\<lambda>_. Map.empty) \<Longrightarrow>
      yields (fn B) st () (\<lambda>st'. \<not> tfailed st' \<and> (\<exists>n os c. view n (tworld st') os c))"
  shows "yields (WithPath E fn) st () all_good"
proof -
  obtain p where started: "yields (SetupRegistry E) st (B, regCleanup E p B)
     (\<lambda>st'. \<not> tfailed st' \<and> tstores st' = [] \<and> view 9 (tworld st') Map.empty (\<lambda>_. Map.empty))"
    using SetupRegistry_ok [OF assms(1,2)] by blast
  show ?thesis
    unfolding WithPath_def
    by (rule yields_bindT [OF started]) (auto intro!: yields_deferT [OF assms(3)] regCleanup_ok)
qed

text \<open>A test function that works on the store \<open>test\<close>.\<close>

lemma WithStore_ok:
  assumes "all_good st" and "tstores st = []"
    and "store_body view B fn"
  shows "yields (WithStore E fn) st () all_good"
proof -
  obtain p where started: "yields (SetupRegistry E) st (B, regCleanup E p B)
     (\<lambda>st'. \<not> tfailed st' \<and> tstores st' = [] \<and> view 9 (tworld st') Map.empty (\<lambda>_. Map.empty))"
    using SetupRegistry_ok [OF assms(1,2)] by blast
  have access: "yields (treg_Access B ''test'') st' (Inr 0) (one_store view 8 Map.empty)"
    if "\<not> tfailed st'" "tstores st' = []" "view 9 (tworld st') Map.empty (\<lambda>_. Map.empty)" for st'
  proof -
    have "view (Suc 8) (tworld st') Map.empty (\<lambda>_. Map.empty)" using that(3) by simp
    from treg_Access_ok [OF that(1) this, of "''test''"] test_names that(2) show ?thesis
      by (fastforce simp: one_store_def elim: yields_weaken)
  qed
  have teardown: "yields (deferT (regCleanup E p B) (tstore_Close B 0)) st' () all_good" if "one_store view 1 m st'" for m st'
  proof -
    from that obtain h c where h: "\<not> tfailed st'" "tstores st' = [(h, ''test'')]" "view (Suc 0) (tworld st') [''test'' \<mapsto> h] c"
      by (auto simp: one_store_def)
    show ?thesis
      by (rule yields_deferT [OF tstore_Close_ok [OF h(1,3), of "''test''" h 0]]) (use h in \<open>auto intro: regCleanup_ok\<close>)
  qed
  have "yields (SetupTestStore E) st (B, 0, deferT (regCleanup E p B) (tstore_Close B 0)) (one_store view 8 Map.empty)"
    unfolding SetupTestStore_def
    by (rule yields_bindT [OF started]) (auto intro!: yields_bindT [OF access] simp: yields_retT)
  then show ?thesis
    unfolding WithStore_def
  proof (rule yields_bindT)
    fix st' assume one: "one_store view 8 Map.empty st'"
    from assms(3) one obtain m where "yields (fn B 0) st' () (one_store view 1 m)"
      unfolding store_body_def by blast
    then show "yields (case (B, 0, deferT (regCleanup E p B) (tstore_Close B 0)) of (B, s, cleanup) \<Rightarrow> deferT cleanup (fn B s))
        st' () all_good"
      by (simp add: yields_deferT [OF _ teardown])
  qed
qed

lemma withBools_ok:
  assumes "all_good st" and "\<And>st b. all_good st \<Longrightarrow> tstores st = [] \<Longrightarrow> yields (fn b) st () all_good"
  shows "yields (runWithBools fn) st () all_good"
  unfolding runWithBools_def withBools_def
  by (rule yields_bindT [OF t_Run_ok [OF assms(1)]]) (auto intro: assms(2) t_Run_ok)

lemma assertT_ok: "one_store view n m st \<Longrightarrow> b \<Longrightarrow> yields (assertT b) st () (one_store view n m)"
  by (rule yields_assertT)

lemma one_store_down: "one_store view n m st \<Longrightarrow> k \<le> n \<Longrightarrow> one_store view k m st"
  using view_down unfolding one_store_def by blast

lemma in_names [simp]: "''test'' \<in> names" "''test1'' \<in> names" "''test2'' \<in> names"
  using test_names by auto

text \<open>The bodies of the tests, each on a new store.\<close>

lemma SetHave_ok:
  "store_body view B (\<lambda>B s. bindT (MustSet B ''key'' (entryA1 V) s) (\<lambda>_. bindT (ReopenIf B reopen s) (\<lambda>_.
      bindT (MustHave B ''key'' s) (\<lambda>has. assertT has))))"
proof (rule store_bodyI)
  fix st assume new: "one_store view 8 Map.empty st"
  let ?m = "[''key'' \<mapsto> entryA1 V]"
  have "one_store view (Suc 4) Map.empty st" using one_store_down [OF new] by simp
  from MustSet_ok [OF this test_values(1)]
  have 1: "yields (MustSet B ''key'' (entryA1 V) 0) st () (one_store view (Suc (Suc 2)) ?m)" by (simp add: numeral_eq_Suc)
  have 2: "yields (ReopenIf B reopen 0) st () (one_store view (Suc 1) ?m)" if "one_store view (Suc (Suc 2)) ?m st" for st
    using ReopenIf_ok [OF that] by (simp add: numeral_eq_Suc)
  have 3: "yields (MustHave B ''key'' 0) st True (one_store view 1 ?m)" if "one_store view (Suc 1) ?m st" for st
    using MustHave_ok [OF that, of "''key''"] by simp
  show "yields (bindT (MustSet B ''key'' (entryA1 V) 0) (\<lambda>_. bindT (ReopenIf B reopen 0) (\<lambda>_.
      bindT (MustHave B ''key'' 0) (\<lambda>has. assertT has)))) st () (one_store view 1 ?m)"
    by (rule yields_bindT [OF 1] yields_bindT [OF 2] yields_bindT [OF 3] assertT_ok TrueI | assumption)+
qed

lemma SetGet_ok:
  "store_body view B (\<lambda>B s. bindT (MustSet B ''key'' (entryA1 V) s) (\<lambda>_. bindT (ReopenIf B reopen s) (\<lambda>_.
      bindT (MustGet B ''key'' s) (\<lambda>actual. assertT (entryA1 V = actual)))))"
proof (rule store_bodyI)
  fix st assume new: "one_store view 8 Map.empty st"
  let ?m = "[''key'' \<mapsto> entryA1 V]"
  have "one_store view (Suc 4) Map.empty st" using one_store_down [OF new] by simp
  from MustSet_ok [OF this test_values(1)]
  have 1: "yields (MustSet B ''key'' (entryA1 V) 0) st () (one_store view (Suc (Suc 2)) ?m)" by (simp add: numeral_eq_Suc)
  have 2: "yields (ReopenIf B reopen 0) st () (one_store view (Suc 1) ?m)" if "one_store view (Suc (Suc 2)) ?m st" for st
    using ReopenIf_ok [OF that] by (simp add: numeral_eq_Suc)
  have 3: "yields (MustGet B ''key'' 0) st (entryA1 V) (one_store view 1 ?m)" if "one_store view (Suc 1) ?m st" for st
    using MustGet_ok [OF that, of "''key''"] by simp
  show "yields (bindT (MustSet B ''key'' (entryA1 V) 0) (\<lambda>_. bindT (ReopenIf B reopen 0) (\<lambda>_.
      bindT (MustGet B ''key'' 0) (\<lambda>actual. assertT (entryA1 V = actual))))) st () (one_store view 1 ?m)"
    by (rule yields_bindT [OF 1] yields_bindT [OF 2] yields_bindT [OF 3] assertT_ok refl | assumption)+
qed

lemma SetRemove_ok:
  "store_body view B (\<lambda>B s. bindT (MustSet B ''key'' (entryA1 V) s) (\<lambda>_. bindT (ReopenIf B reopen s) (\<lambda>_.
      bindT (MustRemove B ''key'' s) (\<lambda>_. bindT (ReopenIf B reopen s) (\<lambda>_.
      bindT (MustHave B ''key'' s) (\<lambda>has. assertT (\<not> has)))))))"
proof (rule store_bodyI)
  fix st assume new: "one_store view 8 Map.empty st"
  let ?m = "[''key'' \<mapsto> entryA1 V]"
  have "one_store view (Suc 7) Map.empty st" using new by simp
  from MustSet_ok [OF this test_values(1)]
  have 1: "yields (MustSet B ''key'' (entryA1 V) 0) st () (one_store view (Suc (Suc 5)) ?m)" by (simp add: numeral_eq_Suc)
  have 2: "yields (ReopenIf B reopen 0) st () (one_store view (Suc 4) ?m)" if "one_store view (Suc (Suc 5)) ?m st" for st
    using ReopenIf_ok [OF that] by (simp add: numeral_eq_Suc)
  have 3: "yields (MustRemove B ''key'' 0) st () (one_store view (Suc (Suc 2)) Map.empty)" if "one_store view (Suc 4) ?m st" for st
    using MustRemove_ok [OF that test_values(2)] by (simp add: numeral_eq_Suc)
  have 4: "yields (ReopenIf B reopen 0) st () (one_store view (Suc 1) Map.empty)" if "one_store view (Suc (Suc 2)) Map.empty st" for st
    using ReopenIf_ok [OF that] by (simp add: numeral_eq_Suc)
  have 5: "yields (MustHave B ''key'' 0) st False (one_store view 1 Map.empty)" if "one_store view (Suc 1) Map.empty st" for st
    using MustHave_ok [OF that, of "''key''"] by simp
  show "yields (bindT (MustSet B ''key'' (entryA1 V) 0) (\<lambda>_. bindT (ReopenIf B reopen 0) (\<lambda>_.
      bindT (MustRemove B ''key'' 0) (\<lambda>_. bindT (ReopenIf B reopen 0) (\<lambda>_.
      bindT (MustHave B ''key'' 0) (\<lambda>has. assertT (\<not> has))))))) st () (one_store view 1 Map.empty)"
    by (rule yields_bindT [OF 1] yields_bindT [OF 2] yields_bindT [OF 3] yields_bindT [OF 4] yields_bindT [OF 5]
      assertT_ok | assumption | simp)+
qed

text \<open>The tests of \<open>Each\<close>, all on the two documents of the test data.\<close>

lemma data_rows:
  assumes "distinct (map fst kvs)" and "map_of kvs = fmlookup (test_data V)"
  shows "kvs = [(''a'', fieldHello V), (''b'', fieldWorld V)] \<or> kvs = [(''b'', fieldWorld V), (''a'', fieldHello V)]"
proof -
  have rows: "set kvs = {(''a'', fieldHello V), (''b'', fieldWorld V)}"
  proof -
    have "(k, v) \<in> set kvs \<longleftrightarrow> fmlookup (test_data V) k = Some v" for k v
      using assms by (metis map_of_eq_Some_iff)
    then show ?thesis by (auto simp: test_data_def split: if_splits)
  qed
  have "distinct kvs" using assms(1) by (simp add: distinct_map)
  then have "length kvs = 2" using distinct_card [of kvs] by (simp add: rows)
  then obtain x y where "kvs = [x, y]" by (auto simp: numeral_2_eq_2 length_Suc_conv)
  then show ?thesis using rows by (auto simp: doubleton_eq_iff)
qed

lemma Data_ok:
  assumes "one_store view 8 Map.empty st"
  shows "yields (addTestData V B 0 reopen) st () (one_store view (Suc 1) (fmlookup (test_data V)))"
proof -
  let ?kvs = "rangeData V (test_data V)"
  have d: "distinct (map fst ?kvs)" "map_of ?kvs = fmlookup (test_data V)" by (rule range_law)+
  have "length ?kvs = 2" "\<forall>(k, v) \<in> set ?kvs. storable k v" using data_rows [OF d] test_values(3,4) by auto
  moreover have "map_of (rev ?kvs) = fmlookup (test_data V)"
    using d by (metis distinct_rev map_of_inject_set rev_map set_rev)
  moreover have "one_store view (2 + 4) Map.empty st" using one_store_down [OF assms] by simp
  ultimately have "yields (setAll B 0 ?kvs) st () (one_store view (Suc (Suc 2)) (fmlookup (test_data V)))"
    using setAll_ok [of ?kvs 4 Map.empty st] by (simp add: numeral_eq_Suc)
  then show ?thesis
    unfolding addTestData_def
    by (rule yields_bindT) (use ReopenIf_ok in \<open>simp add: numeral_eq_Suc\<close>)
qed

lemma Each_test_ok:
  assumes "\<And>kvs. kvs = [(''a'', fieldHello V), (''b'', fieldWorld V)] \<or> kvs = [(''b'', fieldWorld V), (''a'', fieldHello V)]
      \<Longrightarrow> (case range_loop Inr fn kvs (fmempty, 0) of (err, u) \<Rightarrow> p err u \<and> q err u)"
  shows "store_body view B (\<lambda>B s. bindT (addTestData V B s reopen) (\<lambda>_. bindT (tstore_Each B fn (fmempty, 0) s) (\<lambda>(err, u).
      bindT (assertT (p err u)) (\<lambda>_. assertT (q err u)))))"
proof (rule store_bodyI, rule yields_bindT [OF Data_ok], assumption)
  fix st' assume "one_store view (Suc 1) (fmlookup (test_data V)) st'"
  from Each_ok [OF this, of fn "(fmempty, 0)"] obtain kvs where
    kvs: "distinct (map fst kvs)" "map_of kvs = fmlookup (test_data V)"
    and each: "yields (tstore_Each B fn (fmempty, 0) 0) st' (range_loop Inr fn kvs (fmempty, 0))
      (one_store view 1 (fmlookup (test_data V)))"
    by blast
  obtain err u where r: "range_loop Inr fn kvs (fmempty, 0) = (err, u)" by (metis prod.exhaust)
  have pq: "p err u" "q err u" using assms [OF data_rows [OF kvs]] r by simp_all
  show "yields (bindT (tstore_Each B fn (fmempty, 0) 0) (\<lambda>(err, u). bindT (assertT (p err u)) (\<lambda>_. assertT (q err u))))
      st' () (one_store view 1 (fmlookup (test_data V)))"
  proof (rule yields_bindT [OF each [unfolded r]])
    fix st'' assume "one_store view 1 (fmlookup (test_data V)) st''"
    from yields_bindT [OF assertT_ok [OF this pq(1)] assertT_ok [OF _ pq(2)]]
    show "yields (case (err, u) of (err, u) \<Rightarrow> bindT (assertT (p err u)) (\<lambda>_. assertT (q err u))) st'' ()
      (one_store view 1 (fmlookup (test_data V)))"
      by simp
  qed
qed

lemma open_stores_ok:
  assumes "\<not> tfailed st" and "tstores st = []" and "view 9 (tworld st) Map.empty (\<lambda>_. Map.empty)"
  shows "yields (bindT (MustAccess B ''test1'') (\<lambda>s. deferT (tstore_Close B s)
      (bindT (MustAccess B ''test2'') (\<lambda>s2. deferT (tstore_Close B s2) (retT ()))))) st ()
    (\<lambda>st'. \<not> tfailed st' \<and> (\<exists>n os c. view n (tworld st') os c))"
proof -
  let ?none = "\<lambda>_. Map.empty"
  have "view (Suc 3) (tworld st) Map.empty ?none" using view_down [OF assms(3)] by simp
  from access_law [OF this, of "''test1''"] obtain h1 w1 where
    1: "bAccess B ''test1'' (tworld st) = (Inr h1, w1)" "view (Suc 2) w1 [''test1'' \<mapsto> h1] ?none"
    by (auto simp: numeral_eq_Suc)
  from access_law [OF 1(2), of "''test2''"] obtain h2 w2 where
    2: "bAccess B ''test2'' w1 = (Inr h2, w2)" "view (Suc 1) w2 [''test1'' \<mapsto> h1, ''test2'' \<mapsto> h2] ?none"
    by (auto simp: numeral_eq_Suc)
  from close_law [OF 2(2), of "''test2''" h2] obtain w3 where
    3: "bClose B h2 w2 = (None, w3)" "view (Suc 0) w3 ([''test1'' \<mapsto> h1, ''test2'' \<mapsto> h2](''test2'' := None)) ?none"
    by auto
  from close_law [OF 3(2), of "''test1''" h1] obtain w4 os where 4: "bClose B h1 w3 = (None, w4)" "view 0 w4 os ?none"
    by auto
  show ?thesis
    using assms(1,2) 1(1) 2(1) 3(1) 4
    by (auto simp: yields_def MustAccess_def treg_Access_def tstore_Close_def deferT_def test_steps nth_append)
qed

lemma store_test_ok:
  assumes "all_good st" and "store_body view B fn"
  shows "yields (t_Run (WithStore E fn)) st () all_good"
  by (rule t_Run_ok [OF assms(1)]) (rule WithStore_ok [OF _ _ assms(2)])

lemma testSetGet_ok:
  assumes "all_good st"
  shows "yields (testSetGet V E) st () all_good"
proof -
  have 1: "store_body view B (\<lambda>B s. bindT (MustHave B ''key'' s) (\<lambda>has. assertT (\<not> has)))"
  proof (rule store_bodyI)
    fix st assume "one_store view 8 Map.empty st"
    then have "one_store view (Suc 1) Map.empty st" using one_store_down by fastforce
    from MustHave_ok [OF this, of "''key''"]
    have "yields (MustHave B ''key'' 0) st False (one_store view 1 Map.empty)" by simp
    then show "yields (bindT (MustHave B ''key'' 0) (\<lambda>has. assertT (\<not> has))) st () (one_store view 1 Map.empty)"
      by (rule yields_bindT) (erule assertT_ok, simp)
  qed
  show ?thesis
    unfolding testSetGet_def
    by (rule yields_bindT [OF store_test_ok [OF assms 1]], rule withBools_ok, assumption,
        rule yields_bindT [OF store_test_ok [OF _ SetHave_ok]], assumption, rule store_test_ok [OF _ SetGet_ok])
qed

lemma testRemove_ok:
  assumes "all_good st"
  shows "yields (testRemove V E) st () all_good"
proof -
  have 1: "store_body view B (\<lambda>B s. MustRemove B ''key'' s)"
  proof (rule store_bodyI)
    fix st assume "one_store view 8 Map.empty st"
    then have "one_store view (Suc 1) Map.empty st" using one_store_down by fastforce
    from MustRemove_ok [OF this test_values(2)]
    show "yields (MustRemove B ''key'' 0) st () (one_store view 1 (Map.empty(''key'' := None)))" by simp
  qed
  show ?thesis
    unfolding testRemove_def
    by (rule yields_bindT [OF store_test_ok [OF assms 1]], rule withBools_ok, assumption, rule store_test_ok [OF _ SetRemove_ok])
qed

lemma testIteration_ok:
  assumes "all_good st"
  shows "yields (testIteration V E) st () all_good"
proof -
  note loops = collect_def stop_on_error_def stop_on_bool_def test_data_def
  have swap: "fmupd ''a'' x (fmupd ''b'' y m) = fmupd ''b'' y (fmupd ''a'' x m)" for x y and m :: "(string, 'v) fmap"
    by (rule fmap_ext) auto
  have 1: "store_body view B (\<lambda>B s. bindT (addTestData V B s reopen) (\<lambda>_. bindT (tstore_Each B collect (fmempty, 0) s) (\<lambda>(err, u).
      bindT (assertT (err = None)) (\<lambda>_. assertT (test_data V = fst u)))))" for reopen
    by (rule Each_test_ok) (auto simp: loops swap)
  have 2: "store_body view B (\<lambda>B s. bindT (addTestData V B s reopen) (\<lambda>_. bindT (tstore_Each B stop_on_error (fmempty, 0) s) (\<lambda>(err, u).
      bindT (assertT (1 = snd u)) (\<lambda>_. assertT (err \<noteq> None)))))" for reopen
    by (rule Each_test_ok) (auto simp: loops)
  have 3: "store_body view B (\<lambda>B s. bindT (addTestData V B s reopen) (\<lambda>_. bindT (tstore_Each B stop_on_bool (fmempty, 0) s) (\<lambda>(err, u).
      bindT (assertT (1 = snd u)) (\<lambda>_. assertT (err = None)))))" for reopen
    by (rule Each_test_ok) (auto simp: loops)
  show ?thesis
    unfolding testIteration_def
    by (rule withBools_ok [OF assms], rule yields_bindT [OF store_test_ok [OF _ 1]], assumption,
        rule yields_bindT [OF store_test_ok [OF _ 2]], assumption, rule store_test_ok [OF _ 3])
qed

lemma suite_ok:
  assumes "good w"
  shows "suite_passes V E w"
proof -
  let ?st = "\<lparr>tworld = w, tfailed = False, tstores = []\<rparr>"
  have st: "all_good ?st" using assms by simp
  have 1: "yields (t_Run (WithPath E (\<lambda>B. retT ()))) st () all_good" if "all_good st" for st
    by (rule t_Run_ok [OF that], rule WithPath_ok, assumption+) (auto simp: yields_retT)
  have 2: "yields (t_Run (WithPath E (\<lambda>B. bindT (MustAccess B ''test1'') (\<lambda>s. deferT (tstore_Close B s)
      (bindT (MustAccess B ''test2'') (\<lambda>s2. deferT (tstore_Close B s2) (retT ()))))))) st () all_good" if "all_good st" for st
    by (rule t_Run_ok [OF that], rule WithPath_ok, assumption+, rule open_stores_ok)
  have "yields (TestBackendCompliance V E) ?st () all_good"
    unfolding TestBackendCompliance_def
    by (intro yields_bindT [OF 1 [OF st]] yields_bindT [OF 2] yields_bindT [OF t_Run_ok] t_Run_ok testSetGet_ok testRemove_ok
        testIteration_ok)
  then show ?thesis by (auto simp: yields_def suite_passes_def)
qed

end

end
