(* ===== verification/Compliance_Storetest.thy ===== *)
theory Compliance_Storetest
  imports Compliance
begin

text \<open>
  The in-memory backend passes the compliance suite, and what the helpers of the suite clean up, whatever the
  backend does.
\<close>

section \<open>The contract of the in-memory backend\<close>

text \<open>The documents as the callers see them: everything in the table can be decoded.\<close>

definition decodes :: "('r \<Rightarrow> 'v result) \<Rightarrow> (string \<rightharpoonup> 'r) \<Rightarrow> (string \<rightharpoonup> 'v) \<Rightarrow> bool" where
  "decodes dec t m \<longleftrightarrow> (\<forall>k. map_option dec (t k) = map_option Inr (m k))"

lemma decodesD:
  assumes "decodes dec t m"
  shows "t k = None \<Longrightarrow> m k = None" and "t k = Some x \<Longrightarrow> \<exists>v. dec x = Inr v \<and> m k = Some v"
proof -
  have "map_option dec (t k) = map_option Inr (m k)" using assms by (simp add: decodes_def)
  then show "t k = None \<Longrightarrow> m k = None" and "t k = Some x \<Longrightarrow> \<exists>v. dec x = Inr v \<and> m k = Some v"
    by (cases "m k"; simp)+
qed

lemma decodes_dom: "decodes dec t m \<Longrightarrow> t k = None \<longleftrightarrow> m k = None"
  using decodesD [of dec t m k] by (cases "t k") auto

lemma decodes_upd: "decodes dec t m \<Longrightarrow> dec x = Inr v \<Longrightarrow> decodes dec (t(k \<mapsto> x)) (m(k \<mapsto> v))"
  by (simp add: decodes_def)

lemma decodes_drop: "decodes dec t m \<Longrightarrow> decodes dec (t(k := None)) (m(k := None))"
  by (simp add: decodes_def)

lemma range_loop_decoded:
  "\<forall>(k, x) \<in> set kvs. \<exists>v. dec x = Inr v \<Longrightarrow>
     range_loop dec fn kvs u = range_loop Inr fn (map (\<lambda>(k, x). (k, projr (dec x))) kvs) u"
proof (induction dec fn kvs u rule: range_loop.induct)
  case (2 dec fn k v kvs u)
  then obtain d where "dec v = Inr d" by auto
  then show ?case using 2 by (auto split: prod.splits)
qed simp

lemma decoded_rows:
  assumes "distinct (map fst kvs)" and "map_of kvs = t" and "decodes dec t m"
  shows "distinct (map fst (map (\<lambda>(k, x). (k, projr (dec x))) kvs))"
    and "map_of (map (\<lambda>(k, x). (k, projr (dec x))) kvs) = m"
    and "range_loop dec fn kvs u = range_loop Inr fn (map (\<lambda>(k, x). (k, projr (dec x))) kvs) u"
proof -
  have "map fst (map (\<lambda>(k, x). (k, projr (dec x))) kvs) = map fst kvs" by (induction kvs) auto
  then show "distinct (map fst (map (\<lambda>(k, x). (k, projr (dec x))) kvs))" using assms(1) by metis
  have "map_of (map (\<lambda>(k, x). (k, projr (dec x))) kvs) k = map_option (\<lambda>x. projr (dec x)) (t k)" for k
    unfolding assms(2) [symmetric] by (induction kvs) auto
  moreover have "map_option (\<lambda>x. projr (dec x)) (t k) = m k" for k
    using decodesD [OF assms(3), of k] by (cases "t k") auto
  ultimately show "map_of (map (\<lambda>(k, x). (k, projr (dec x))) kvs) = m" by (simp add: fun_eq_iff)
  have "\<forall>(k, x) \<in> set kvs. \<exists>v. dec x = Inr v"
  proof clarify
    fix k x assume "(k, x) \<in> set kvs"
    then have "t k = Some x" using assms(1,2) by (metis map_of_is_SomeI)
    then show "\<exists>v. dec x = Inr v" using decodesD(2) [OF assms(3)] by blast
  qed
  then show "range_loop dec fn kvs u = range_loop Inr fn (map (\<lambda>(k, x). (k, projr (dec x))) kvs) u"
    by (rule range_loop_decoded)
qed

definition visits_table :: "((string, 'r) fmap \<Rightarrow> (string \<times> 'r) list) \<Rightarrow> bool" where
  "visits_table order \<longleftrightarrow> (\<forall>t. distinct (map fst (order t)) \<and> map_of (order t) = fmlookup t)"

definition mem_view ::
    "((string, 'r) fmap \<Rightarrow> (string \<times> 'r) list) \<Rightarrow> ('r \<Rightarrow> 'v result) \<Rightarrow> (string, 'v, 'r MemoryStore) view" where
  "mem_view order dec n m os c \<longleftrightarrow> visits_table order
     \<and> (\<forall>nm. os nm = (if mem_opened nm m then Some nm else None)) \<and> (\<forall>nm. decodes dec (mem_content nm m) (c nm))"

lemma mem_view_becomes:
  assumes "mem_view order dec n m os c" and "os nm = Some h" and "becomes mem_opened mem_content h t m m'"
    and "decodes dec t d"
  shows "mem_view order dec k m' os (c(nm := d))"
  using assms by (auto simp: mem_view_def becomes_def split: if_splits)

lemma mem_view_open: "mem_view order dec n m os c \<Longrightarrow> os nm = Some h \<Longrightarrow> h = nm \<and> mem_opened nm m"
  by (auto simp: mem_view_def split: if_splits)

lemma mem_view_content: "mem_view order dec n m os c \<Longrightarrow> decodes dec (mem_content nm m) (c nm)"
  by (simp add: mem_view_def)

interpretation mapstore_compliant: compliant_backend "storetest_backend enc dec order :: (string, 'v, 'u, 'r MemoryStore) backend" "mem_view order dec" UNIV
    "\<lambda>k v. \<exists>x. enc v = Inr x \<and> dec x = Inr v" "\<lambda>k. True"
  for enc :: "'v \<Rightarrow> 'r result" and dec :: "'r \<Rightarrow> 'v result" and order
proof -
  let ?B = "storetest_backend enc dec order :: (string, 'v, 'u, 'r MemoryStore) backend"
  show "compliant_backend ?B (mem_view order dec) UNIV (\<lambda>k v. \<exists>x. enc v = Inr x \<and> dec x = Inr v) (\<lambda>k. True)"
  proof
    fix n m os c
    assume "mem_view order dec (Suc n) m os c"
    then show "mem_view order dec n m os c" by (simp add: mem_view_def)
  next
    fix n m and os :: "string \<rightharpoonup> string" and c nm
    assume v: "mem_view order dec (Suc n) m os c" and "os nm = None"
    define m' where "m' = snd (MemoryStore_Access nm m)"
    have "MemoryStore_Access nm m = (Inr nm, m')"
      by (simp add: m'_def MemoryStore_Access_def Let_def split: option.splits)
    moreover have "mem_opened x m' = (x = nm \<or> mem_opened x m)" "mem_content x m' = mem_content x m" for x
      by (auto simp: m'_def MemoryStore_Access_def mem_opened_def mem_content_def MapStore_Reopen_def MapStore_init_def Let_def
          fun_eq_iff split: option.splits)
    then have "mem_view order dec n m' (os(nm \<mapsto> nm)) c" using v by (simp add: mem_view_def)
    ultimately show "\<exists>h w'. bAccess ?B nm m = (Inr h, w') \<and> mem_view order dec n w' (os(nm \<mapsto> h)) c"
      by (auto simp: storetest_backend_def)
  next
    fix n m os c nm h
    assume v: "mem_view order dec (Suc n) m os c" and o: "os nm = Some h"
    then have h: "h = nm" "mem_opened nm m" using mem_view_open by blast+
    then obtain s where s: "fmlookup (MemoryStore_init m) nm = Some s" by (auto simp: mem_opened_def split: option.splits)
    define m' where "m' = Some (fmupd nm (s\<lparr>closed := True\<rparr>) (MemoryStore_init m))"
    have run: "bClose ?B h m = (None, m')"
      by (simp add: storetest_backend_def deref_def h(1) s MapStore_Close_def m'_def)
    have "mem_opened x m' = (x \<noteq> nm \<and> mem_opened x m)" "mem_content x m' = mem_content x m" for x
      using s by (auto simp: m'_def mem_opened_def mem_content_def MapStore_init_def)
    then have "mem_view order dec n m' (os(nm := None)) c" using v by (simp add: mem_view_def)
    then show "\<exists>w'. bClose ?B h m = (None, w') \<and> mem_view order dec n w' (os(nm := None)) c"
      using run by blast
  next
    fix n m os c nm h k
    assume v: "mem_view order dec (Suc n) m os c" and o: "os nm = Some h"
    then have h: "mem_opened h m" "h = nm" using mem_view_open by blast+
    obtain r m' where run: "bHas ?B h k m = (r, m')" by fastforce
    note law = mapstore.has_law [OF h(1) run]
    have "mem_view order dec n m' os (c(nm := c nm))"
      by (rule mem_view_becomes [OF v o conjunct2 [OF law]]) (use mem_view_content [OF v] h in simp)
    moreover have "r = Inr (c nm k \<noteq> None)" using law decodes_dom [OF mem_view_content [OF v, of nm]] h by simp
    ultimately show "\<exists>w'. bHas ?B h k m = (Inr (c nm k \<noteq> None), w') \<and> mem_view order dec n w' os c"
      using run by simp
  next
    fix n m os c nm h k val
    assume v: "mem_view order dec (Suc n) m os c" and o: "os nm = Some h" and k: "c nm k = Some val"
    then have h: "mem_opened h m" "h = nm" using mem_view_open by blast+
    obtain r m' where run: "bGet ?B h k m = (r, m')" by fastforce
    note law = mapstore.get_law [OF h(1) run]
    have "mem_view order dec n m' os (c(nm := c nm))"
      by (rule mem_view_becomes [OF v o conjunct2 [OF law]]) (use mem_view_content [OF v] h in simp)
    moreover obtain x where "mem_content nm m k = Some x" "dec x = Inr val"
      using k decodesD [OF mem_view_content [OF v, of nm], of k] by (cases "mem_content nm m k") auto
    then have "r = Inr val" using law h by simp
    ultimately show "\<exists>w'. bGet ?B h k m = (Inr val, w') \<and> mem_view order dec n w' os c"
      using run by simp
  next
    fix n m os c nm h k val
    assume v: "mem_view order dec (Suc n) m os c" and o: "os nm = Some h" and "\<exists>x. enc val = Inr x \<and> dec x = Inr val"
    then obtain x where x: "enc val = Inr x" "dec x = Inr val" by blast
    have h: "mem_opened h m" "h = nm" using mem_view_open [OF v o] by blast+
    obtain r m' where run: "bSet ?B h k val m = (r, m')" by fastforce
    have law: "becomes mem_opened mem_content h ((mem_content h m)(k \<mapsto> x)) m m'"
      using mapstore.set_law [OF h(1) run] x(1) by simp
    have "mem_view order dec n m' os (c(nm := (c nm)(k \<mapsto> val)))"
      by (rule mem_view_becomes [OF v o law]) (use decodes_upd [OF mem_view_content [OF v] x(2)] h in simp)
    moreover have "r = None"
      using run h(1) x(1)
      by (auto simp: storetest_backend_def deref_def MapStore_Set_def Let_def mem_opened_def split: option.splits prod.splits)
    ultimately show "\<exists>w'. bSet ?B h k val m = (None, w')
        \<and> mem_view order dec n w' os (c(nm := (c nm)(k \<mapsto> val)))"
      using run by simp
  next
    fix n m os c nm h k
    assume v: "mem_view order dec (Suc n) m os c" and o: "os nm = Some h"
    then have h: "mem_opened h m" "h = nm" using mem_view_open by blast+
    obtain r m' where run: "bRemove ?B h k m = (r, m')" by fastforce
    have "mem_view order dec n m' os (c(nm := (c nm)(k := None)))"
      by (rule mem_view_becomes [OF v o mapstore.remove_law [OF h(1) run]])
        (use decodes_drop [OF mem_view_content [OF v]] h in simp)
    moreover have "r = None"
      using run h(1)
      by (auto simp: storetest_backend_def deref_def MapStore_Remove_def Let_def mem_opened_def split: option.splits prod.splits)
    ultimately show "\<exists>w'. bRemove ?B h k m = (None, w')
        \<and> mem_view order dec n w' os (c(nm := (c nm)(k := None)))"
      using run by simp
  next
    fix n m os c nm h fn u
    assume v: "mem_view order dec (Suc n) m os c" and o: "os nm = Some h"
    then have h: "mem_opened nm m" "h = nm" using mem_view_open by blast+
    then obtain s where s: "fmlookup (MemoryStore_init m) nm = Some s" "\<not> closed s"
      by (auto simp: mem_opened_def split: option.splits)
    define m' where "m' = Some (fmupd nm (MapStore_init s) (MemoryStore_init m))"
    have run: "bEach ?B h fn u m = (range_loop dec fn (order (tbl s)) u, m')"
      using s by (simp add: storetest_backend_def deref_def h(2) MapStore_Each_def Let_def m'_def)
    have "mem_opened x m' = mem_opened x m" "mem_content x m' = mem_content x m" for x
      using s by (auto simp: m'_def mem_opened_def mem_content_def)
    then have view: "mem_view order dec n m' os c" using v by (simp add: mem_view_def)
    have "mem_content nm m = fmlookup (tbl s)" using s(1) by (rule mem_content_open)
    then have dec: "decodes dec (fmlookup (tbl s)) (c nm)" using mem_view_content [OF v, of nm] by simp
    have "distinct (map fst (order (tbl s)))" "map_of (order (tbl s)) = fmlookup (tbl s)"
      using v by (simp_all add: mem_view_def visits_table_def)
    note rows = decoded_rows [OF this dec]
    let ?kvs = "map (\<lambda>(k, x). (k, projr (dec x))) (order (tbl s))"
    have "bEach ?B h fn u m = (range_loop Inr fn ?kvs u, m')" unfolding run rows(3) ..
    with rows(1,2) view show "\<exists>kvs w'. distinct (map fst kvs) \<and> map_of kvs = c nm
        \<and> bEach ?B h fn u m = (range_loop Inr fn kvs u, w') \<and> mem_view order dec n w' os c"
      by (intro exI [of _ ?kvs] exI [of _ m'] conjI)
  qed
qed

section \<open>The in-memory backend passes\<close>

text \<open>\<open>TestCompliance\<close> of \<open>storetest_test.go\<close>: every registry is a new \<open>MemoryStore\<close>, the temporary directory is not used.\<close>

definition storetest_suite ::
    "(string \<Rightarrow> string result) \<Rightarrow> string \<Rightarrow> bool \<Rightarrow> ('v \<Rightarrow> 'r result) \<Rightarrow> ('r \<Rightarrow> 'v result)
     \<Rightarrow> ((string, 'r) fmap \<Rightarrow> (string \<times> 'r) list) \<Rightarrow> (string, 'v, 'r MemoryStore) suite" where
  "storetest_suite mk tmp keep enc dec order =
     \<lparr>MkdirTemp = (\<lambda>d w. (mk d, w)), RemoveAll = (\<lambda>p w. w),
      factory = (\<lambda>p w. (Inr (storetest_backend enc dec order), NewMemoryStoreBackend)),
      defaultTempDir = tmp, keepTmpDir = keep\<rparr>"

text \<open>What the run relies on: \<open>range\<close> visits every entry of a map once, the values of the tests survive their conversion,
  and the temporary directory can be made.\<close>

locale storetest_run =
  fixes enc :: "'v \<Rightarrow> 'r result" and dec :: "'r \<Rightarrow> 'v result" and order :: "(string, 'r) fmap \<Rightarrow> (string \<times> 'r) list"
    and V :: "'v suite_values" and mk :: "string \<Rightarrow> string result" and tmp :: string and keep :: bool
  assumes order: "visits_table order" and data_order: "visits_table (rangeData V)"
    and value_law: "v \<in> {entryA1 V, fieldHello V, fieldWorld V} \<Longrightarrow> \<exists>x. enc v = Inr x \<and> dec x = Inr v"
    and tmp_dir: "\<exists>p. mk tmp = Inr p"

sublocale storetest_run \<subseteq> suite: compliance_suite "storetest_backend enc dec order" "mem_view order dec" UNIV
    "\<lambda>k v. \<exists>x. enc v = Inr x \<and> dec x = Inr v" "\<lambda>k. True" "storetest_suite mk tmp keep enc dec order" "\<lambda>w. True" V
proof unfold_locales
  fix w :: "'r MemoryStore"
  have "mem_view order dec 9 (NewMemoryStoreBackend :: 'r MemoryStore) Map.empty (\<lambda>_. Map.empty)"
    using order by (simp add: mem_view_def NewMemoryStoreBackend_def mem_opened_def mem_content_def MemoryStore_init_def decodes_def)
  then show "\<exists>p w1 w2. MkdirTemp (storetest_suite mk tmp keep enc dec order)
        (defaultTempDir (storetest_suite mk tmp keep enc dec order)) w = (Inr p, w1)
      \<and> factory (storetest_suite mk tmp keep enc dec order) p w1 = (Inr (storetest_backend enc dec order), w2)
      \<and> mem_view order dec 9 w2 Map.empty (\<lambda>_. Map.empty)"
    using tmp_dir by (auto simp: storetest_suite_def)
qed (use data_order value_law in \<open>auto simp: visits_table_def\<close>)

context storetest_run
begin

lemma passes: "suite_passes V (storetest_suite mk tmp keep enc dec order) w"
  by (rule suite.suite_ok) simp

end

text \<open>The in-memory backend passes the compliance suite, in whatever order \<open>range\<close> visits maps, when the values
  of the tests survive \<open>typeconv.Convert\<close> and the temporary directory can be made.\<close>

lemma storetest_passes_compliance:
  assumes "visits_table order" and "visits_table (rangeData V)"
    and "\<forall>v \<in> {entryA1 V, fieldHello V, fieldWorld V}. \<exists>x. enc v = Inr x \<and> dec x = Inr v" and "mk tmp = Inr p"
  shows "suite_passes V (storetest_suite mk tmp keep enc dec order) w"
  using assms by (intro storetest_run.passes storetest_run.intro) auto

definition sorted_rows :: "(string, 'v) fmap \<Rightarrow> (string \<times> 'v) list" where
  "sorted_rows m = map (\<lambda>k. (k, the (fmlookup m k))) (sorted_list_of_fset (fmdom m))"

lemma sorted_rows_visits: "visits_table sorted_rows"
  unfolding visits_table_def
proof
  fix m :: "(string, 'v) fmap"
  have "map_of (sorted_rows m) k = fmlookup m k" for k
  proof (cases "fmlookup m k")
    case None
    then have "k \<notin> fst ` set (sorted_rows m)"
      by (auto simp: sorted_rows_def sorted_list_of_fset.rep_eq fmlookup_dom_iff image_iff)
    then show ?thesis using None by (simp add: map_of_eq_None_iff)
  next
    case (Some v)
    have "distinct (map fst (sorted_rows m))" by (simp add: sorted_rows_def comp_def sorted_list_of_fset.rep_eq)
    moreover have "(k, v) \<in> set (sorted_rows m)"
      using Some by (auto simp: sorted_rows_def sorted_list_of_fset.rep_eq fmdomI image_iff intro!: bexI [of _ k])
    ultimately show ?thesis using Some by simp
  qed
  then show "distinct (map fst (sorted_rows m)) \<and> map_of (sorted_rows m) = fmlookup m"
    by (simp add: fun_eq_iff) (simp add: sorted_rows_def comp_def sorted_list_of_fset.rep_eq)
qed

definition sample_values :: "nat suite_values" where
  "sample_values = \<lparr>entryA1 = 1, fieldHello = 2, fieldWorld = 3, rangeData = sorted_rows\<rparr>"

interpretation nat_run: storetest_run "Inr :: nat \<Rightarrow> nat result" Inr sorted_rows sample_values Inr "''/tmp''" False
  by (unfold_locales) (auto simp: sorted_rows_visits sample_values_def)

lemma storetest_passes_compliance_witness:
  "suite_passes sample_values (storetest_suite Inr ''/tmp'' False (Inr :: nat \<Rightarrow> nat result) Inr sorted_rows) None"
  by (rule storetest_passes_compliance) (auto simp: sorted_rows_visits sample_values_def)

section \<open>What the helpers clean up\<close>

text \<open>C36. \<open>WithStore\<close> cleans up on every path, for every backend and every test function: the store it opened is closed as
  it is when the function ends, reopened or not, then the registry is closed, and the temporary directory is removed
  last, unless it is to be kept.  A failing factory, a store that cannot be opened and a failing \<open>Close\<close> fail the test.\<close>

theorem WithStore_cleans_up:
  assumes "MkdirTemp E (defaultTempDir E) (tworld st) = (Inr p, w1)" and "WithStore E fn st = (r, st')"
  shows "let rm = (\<lambda>w. if keepTmpDir E then w else RemoveAll E p w) in
    case factory E p w1 of
      (Inl e, w2) \<Rightarrow> tworld st' = rm w2 \<and> tfailed st' \<and> r = Exit
    | (Inr B, w2) \<Rightarrow>
        (case bAccess B ''test'' w2 of
           (Inl e, w3) \<Rightarrow> tworld st' = rm (snd (bRegClose B w3)) \<and> tfailed st' \<and> r = Exit
         | (Inr h, w3) \<Rightarrow>
             (let s = length (tstores st);
                  body = fn B s (st\<lparr>tworld := w3, tstores := tstores st @ [(h, ''test'')]\<rparr>);
                  close = bClose B (fst (tstores (snd body) ! s)) (tworld (snd body)) in
              tworld st' = rm (snd (bRegClose B (snd close)))
              \<and> (tfailed st' \<longleftrightarrow> tfailed (snd body) \<or> fst close \<noteq> None)
              \<and> r = (if fst close = None then fst body else Exit)))"
proof -
  obtain fr w2 where f: "factory E p w1 = (fr, w2)" by fastforce
  show ?thesis
  proof (cases fr)
    case (Inl e)
    then show ?thesis
      using assms f
      by (auto simp: WithStore_def SetupTestStore_def SetupRegistry_def removePath_def Fatal_def test_steps)
  next
    case (Inr B)
    have setup_ok: "SetupRegistry E st = (Ret (B, regCleanup E p B), st\<lparr>tworld := w2\<rparr>)"
      using assms(1) f Inr by (simp add: SetupRegistry_def test_steps)
    obtain ar w3 where a: "bAccess B ''test'' w2 = (ar, w3)" by fastforce
    have rm: "regCleanup E p B s = (Ret (), s\<lparr>tworld := (if keepTmpDir E then snd (bRegClose B (tworld s))
        else RemoveAll E p (snd (bRegClose B (tworld s))))\<rparr>)" for s :: "('b, 'a) tstate"
      by (auto simp: regCleanup_def removePath_def deferT_def test_steps split: prod.splits)
    show ?thesis
    proof (cases ar)
      case (Inl e)
      then have "SetupTestStore E st = deferT (regCleanup E p B) (bindT (must (Some e)) (\<lambda>_. Fatal)) (st\<lparr>tworld := w3\<rparr>)"
        using setup_ok a by (simp add: SetupTestStore_def treg_Access_def test_steps)
      then show ?thesis
        using assms(2) f \<open>fr = Inr B\<close> a Inl by (auto simp: WithStore_def deferT_def rm Fatal_def test_steps)
    next
      case (Inr h)
      let ?st = "st\<lparr>tworld := w3, tstores := tstores st @ [(h, ''test'')]\<rparr>" and ?s = "length (tstores st)"
      have ts: "SetupTestStore E st = (Ret (B, ?s, deferT (regCleanup E p B) (tstore_Close B ?s)), ?st)"
        using setup_ok a Inr by (simp add: SetupTestStore_def treg_Access_def test_steps)
      obtain q st4 where body: "fn B ?s ?st = (q, st4)" by fastforce
      obtain ce w5 where close: "bClose B (fst (tstores st4 ! ?s)) (tworld st4) = (ce, w5)" by fastforce
      have "WithStore E fn st = deferT (deferT (regCleanup E p B) (tstore_Close B ?s)) (fn B ?s) ?st"
        by (simp add: WithStore_def bindT_def ts)
      also have "\<dots> = (if ce = None then q else Exit, st4\<lparr>tworld := (if keepTmpDir E then snd (bRegClose B w5)
          else RemoveAll E p (snd (bRegClose B w5))), tfailed := tfailed st4 \<or> ce \<noteq> None\<rparr>)"
        using body close by (cases ce) (auto simp: deferT_def rm tstore_Close_def Fatal_def test_steps)
      finally show ?thesis using assms(2) f \<open>fr = Inr B\<close> a Inr body close by (auto simp: Let_def)
    qed
  qed
qed

text \<open>A world that records the calls, and a test that fails at once.\<close>

definition trace_suite :: "(nat, unit, unit, string list) suite_env" where
  "trace_suite =
     \<lparr>MkdirTemp = (\<lambda>d w. (Inr ''p'', w @ [''mkdir''])), RemoveAll = (\<lambda>p w. w @ [''rm'', p]),
      factory = (\<lambda>p w. (Inr \<lparr>bAccess = (\<lambda>n w. (Inr 0, w @ [''open'', n])), bRegClose = (\<lambda>w. (None, w @ [''close''])),
        bClose = (\<lambda>h w. (None, w @ [''close store''])), bHas = (\<lambda>h k w. (Inr True, w)), bGet = (\<lambda>h k w. (Inr (), w)),
        bSet = (\<lambda>h k v w. (None, w)), bRemove = (\<lambda>h k w. (None, w)), bEach = (\<lambda>h f u w. ((None, u), w))\<rparr>, w)),
      defaultTempDir = [], keepTmpDir = False\<rparr>"

theorem WithStore_cleans_up_witness:
  "tworld (snd (WithStore trace_suite (\<lambda>B s. Fatal) \<lparr>tworld = [], tfailed = False, tstores = []\<rparr>))
   = [''mkdir'', ''open'', ''test'', ''close store'', ''close'', ''rm'', ''p'']"
proof -
  obtain r st' where run: "WithStore trace_suite (\<lambda>B s. Fatal) \<lparr>tworld = [], tfailed = False, tstores = []\<rparr> = (r, st')"
    by (metis prod.exhaust)
  have "MkdirTemp trace_suite (defaultTempDir trace_suite) (tworld \<lparr>tworld = [], tfailed = False, tstores = []\<rparr>) = (Inr ''p'', [''mkdir''])"
    by (simp add: trace_suite_def)
  from WithStore_cleans_up [OF this run] show ?thesis unfolding run by (simp add: Let_def Fatal_def trace_suite_def)
qed

end
