(* ===== verification/Compliance_Memlog.thy ===== *)
theory Compliance_Memlog
  imports Compliance_Storetest Memlog_Backend
begin

text \<open>
  The memlog backend passes the compliance suite, with any checkpoint predicate, when no system call fails
  (\<open>TestCompliance_Default\<close> and \<open>TestCompliance_AlwaysCheckpoint\<close> of \<open>memlog_test.go\<close>).
\<close>

section \<open>Home directories\<close>

lemma path_split_append: "path_split acc (xs @ CHR ''/'' # ys) = path_split acc xs @ path_split [] ys"
  by (induction xs arbitrary: acc) auto

lemma path_split_plain: "CHR ''/'' \<notin> set xs \<Longrightarrow> path_split acc xs = [rev acc @ xs]"
  by (induction xs arbitrary: acc) auto

definition plain_name :: "string \<Rightarrow> bool" where
  "plain_name nm \<longleftrightarrow> nm \<noteq> [] \<and> nm \<noteq> ''.'' \<and> nm \<noteq> ''..'' \<and> CHR ''/'' \<notin> set nm"

lemma clean_parts_snoc: "plain_name nm \<Longrightarrow> clean_parts r acc (ps @ [nm]) = clean_parts r acc ps @ [nm]"
  by (induction r acc ps rule: clean_parts.induct) (auto simp: plain_name_def split: list.splits)

lemma path_join_snoc: "path_join (ps @ [nm]) = (if ps = [] then nm else path_join ps @ ''/'' @ nm)"
  by (induction ps rule: path_join.induct) auto

lemma filepath_Join_plain:
  assumes "root \<noteq> []" and "plain_name nm"
  shows "filepath_Join [root, nm] =
     (let rooted = (hd root = CHR ''/''); ps = path_join (clean_parts rooted [] (path_split [] root) @ [nm]) in
      if rooted then CHR ''/'' # ps else ps)"
proof -
  have "nm \<noteq> []" "CHR ''/'' \<notin> set nm" using assms(2) by (simp_all add: plain_name_def)
  then have "path_split [] (root @ ''/'' @ nm) = path_split [] root @ [nm]"
    by (simp add: path_split_append path_split_plain)
  moreover have "path_join (ps @ [nm]) \<noteq> []" for ps using \<open>nm \<noteq> []\<close> by (simp add: path_join_snoc)
  ultimately show ?thesis
    using assms(1) \<open>nm \<noteq> []\<close> clean_parts_snoc [OF assms(2)]
    by (simp add: filepath_Join_def filepath_Clean_def Let_def)
qed

lemma filepath_Join_inj: "root \<noteq> [] \<Longrightarrow> inj_on (\<lambda>nm. filepath_Join [root, nm]) {nm. plain_name nm}"
  by (rule inj_onI) (auto simp: filepath_Join_plain path_join_snoc Let_def split: if_splits)

lemma filepath_Clean_nonempty: "filepath_Clean p \<noteq> []"
  by (simp add: filepath_Clean_def Let_def)

section \<open>A healthy log\<close>

text \<open>The buffer of an open log has no error that it kept from an earlier write.\<close>

definition healthy :: "diskstore \<Rightarrow> bool" where
  "healthy s \<longleftrightarrow> (\<forall>fh b. logOut s = Some (fh, b) \<longrightarrow> bw_err b = None)"

lemma writeLogEntry_healthy: "writeLogEntry E tid op0 cst = (None, cnt, b, fh, w) \<Longrightarrow> bw_err b = None"
  by (auto simp: writeLogEntry_def bw_Flush_def split: prod.splits option.splits if_splits)

lemma tryOpenLog_healthy: "tryOpenLog s w = (e, s', w') \<Longrightarrow> healthy s \<Longrightarrow> healthy s'"
  by (auto simp: tryOpenLog_def healthy_def NewWriterSize_def Let_def split: sum.splits prod.splits if_splits)

lemma LogOperation_healthy: "LogOperation E op0 s w = (None, s', w') \<Longrightarrow> healthy s'"
  by (auto simp: LogOperation_def healthy_def Let_def dest: writeLogEntry_healthy
      split: if_splits prod.splits option.splits)

lemma WriteCheckpoint_healthy:
  assumes "WriteCheckpoint E t s w = (None, s', w')" and "healthy s"
  shows "healthy s'"
proof -
  have clear: "healthy (fst (checkpointClearLog s u))" for u
    using assms(2) by (auto simp: checkpointClearLog_def healthy_def split: option.splits prod.splits sum.splits)
  obtain r1 w1 where 1: "checkpointTmpFile E checkpointTmpFileName t s w = (r1, w1)" by fastforce
  obtain r2 w2 where 2: "os_Rename (case r1 of Inr p \<Rightarrow> p | Inl e \<Rightarrow> []) (dataFileName (nextTxID s)) w1 = (r2, w2)" by fastforce
  obtain s3 w3 where 3: "checkpointClearLog s (trySyncPath w2) = (s3, w3)" by fastforce
  have "healthy s3" using clear [of "trySyncPath w2"] 3 by simp
  then show ?thesis using assms 1 2 3
    by (cases r1; cases r2) (auto simp: WriteCheckpoint_def Let_def removeOldDataFiles_def healthy_def split: prod.splits)
qed

lemma logOperation_healthy:
  "logOperation E op0 s w = (None, s', w') \<Longrightarrow> healthy (disk s) \<Longrightarrow> healthy (disk s')"
  by (auto simp: logOperation_def dest: LogOperation_healthy WriteCheckpoint_healthy
      split: if_splits prod.splits option.splits)

lemma openStore_healthy: "openStore E h mode bufSz ign cp w = (Inr s, w') \<Longrightarrow> healthy (disk s)"
  by (auto simp: openStore_def newDiskStore_def Let_def healthy_def
      dest!: tryOpenLog_healthy [unfolded healthy_def] split: prod.splits sum.splits option.splits)

lemma store_Close_healthy:
  assumes "DInv E N (disk s) w t" and "healthy (disk s)" and "faults w = []" and "store_Close s w = (err, s', w')"
  shows "err = None"
proof (cases "logOut (disk s)")
  case None
  then show ?thesis using assms(4) by (auto simp: store_Close_def diskstore_Close_def)
next
  case (Some x)
  obtain fh b where x: "x = (fh, b)" by fastforce
  have "bw_err b = None" "bw_buf b = []"
    using assms(1,2) Some x unfolding healthy_def DInv_def handle_ok_def by auto
  then have "bw_Flush (b, fh, w) = (None, b, fh, w)" by (simp add: bw_Flush_def)
  moreover obtain w2 where "syncFile fh w = (Inr (), w2)"
    using syncFile_no_faults [of w fh] assms(3) by (cases "syncFile fh w") auto
  ultimately show ?thesis using assms(4) Some x by (auto simp: store_Close_def diskstore_Close_def)
qed

lemma exec_healthy:
  assumes "exec E c s w = (None, s', w')" and "healthy (disk s)"
  shows "healthy (disk s')"
  using assms
  by (cases c) (auto simp: exec_def store_Set_def store_Remove_def store_Checkpoint_def
      dest!: logOperation_healthy WriteCheckpoint_healthy split: option.splits prod.splits)

section \<open>The view\<close>

text \<open>An open store, and a home directory nobody has open, with \<open>n\<close> calls to go in the window of transaction ids.\<close>

definition opened_ok ::
    "memlog_env \<Rightarrow> (mapstr \<Rightarrow> 'v result) \<Rightarrow> nat \<Rightarrow> store \<Rightarrow> fs \<Rightarrow> (string \<rightharpoonup> 'v) \<Rightarrow> bool" where
  "opened_ok E dec n s w d \<longleftrightarrow> (\<exists>t N. N + n + 1 < 2 ^ 63 \<and> DInv E N (disk s) w t \<and> mem s = Some t \<and> table_codec E t
     \<and> decodes dec (fmlookup t) d \<and> faults w = [] \<and> healthy (disk s))"

definition closed_ok :: "memlog_env \<Rightarrow> (mapstr \<Rightarrow> 'v result) \<Rightarrow> nat \<Rightarrow> fs \<Rightarrow> (string \<rightharpoonup> 'v) \<Rightarrow> bool" where
  "closed_ok E dec n w d \<longleftrightarrow>
     (fresh w \<and> d = Map.empty \<and> n + 2 < 2 ^ 63)
     \<or> (\<exists>s t N. N + n + 1 < 2 ^ 63 \<and> Durable E N s w t \<and> faults w = [] \<and> table_codec E t \<and> decodes dec (fmlookup t) d)"

lemma opened_ok_less: "opened_ok E dec (Suc n) s w d \<Longrightarrow> opened_ok E dec n s w d"
  unfolding opened_ok_def by (metis Suc_lessD add_Suc_right add_Suc)

lemma closed_ok_less: "closed_ok E dec (Suc n) w d \<Longrightarrow> closed_ok E dec n w d"
  unfolding closed_ok_def by (metis Suc_lessD add_Suc_right add_Suc)

lemma open_ok:
  assumes "closed_ok E dec (Suc n) w d" and "meta_codec E"
  shows "\<exists>s w'. openStore E h mode bufSz ign cp w = (Inr s, w') \<and> opened_ok E dec n s w' d"
  using assms(1) unfolding closed_ok_def
proof (elim disjE conjE exE)
  assume "fresh w" "d = Map.empty" and n: "Suc n + 2 < 2 ^ 63"
  from openStore_fresh [OF this(1) assms(2), of h mode bufSz ign cp] obtain s w' where
    s: "openStore E h mode bufSz ign cp w = (Inr s, w')" "mem s = Some fmempty" "DInv E 2 (disk s) w' fmempty" "faults w' = []"
    by blast
  then have "opened_ok E dec n s w' Map.empty"
    using openStore_healthy [OF s(1)] n
    by (auto simp: opened_ok_def table_codec_empty decodes_def intro!: exI [of _ fmempty] exI [of _ 2])
  then show ?thesis using s(1) \<open>d = Map.empty\<close> by blast
next
  fix s0 t N
  assume N: "N + Suc n + 1 < 2 ^ 63" and "Durable E N s0 w t" "faults w = []" and t: "table_codec E t" "decodes dec (fmlookup t) d"
  from openStore_recovers [OF this(2) _ this(3), of h mode bufSz ign cp] obtain s w' where
    s: "openStore E h mode bufSz ign cp w = (Inr s, w')" "mem s = Some t" "DInv E (N + 1) (disk s) w' t" "faults w' = []"
    using N by (metis Suc_eq_plus1 add_Suc_right add_lessD1 less_trans_Suc add.commute)
  moreover have "N + 1 + n + 1 < 2 ^ 63" using N by simp
  ultimately have "opened_ok E dec n s w' d" using openStore_healthy [OF s(1)] t unfolding opened_ok_def by blast
  then show ?thesis using s(1) by blast
qed

lemma exec_ok:
  assumes "opened_ok E dec (Suc n) s w d" and "exec E c s w = (err, s', w')" and "call_codec E c" and "range_spec E"
    and "\<And>t. decodes dec (fmlookup t) d \<Longrightarrow> decodes dec (fmlookup (effect c t)) d'"
  shows "err = None \<and> opened_ok E dec n s' w' d'"
proof -
  obtain t N where s: "N + Suc n + 1 < 2 ^ 63" "DInv E N (disk s) w t" "mem s = Some t" "table_codec E t"
    "decodes dec (fmlookup t) d" "faults w = []" "healthy (disk s)"
    using assms(1) by (auto simp: opened_ok_def)
  have "SInv E N s w t" using s(2,3) by (simp add: SInv_def)
  from exec_step [OF this s(3) assms(3) s(4) assms(4) _ assms(2)] s(1,6)
  have r: "mem s' = Some (effect c t)" "err = None" "faults w' = []" "SInv E (N + 1) s' w' (effect c t)" by auto
  have "N + 1 + n + 1 < 2 ^ 63" using s(1) by simp
  moreover have "healthy (disk s')" using exec_healthy assms(2) r(2) s(7) by blast
  moreover have "table_codec E (effect c t)" by (rule table_codec_effect [OF s(4) assms(3)])
  ultimately have "opened_ok E dec n s' w' d'" using r assms(5) [OF s(5)] unfolding opened_ok_def SInv_def by blast
  then show ?thesis using r(2) by simp
qed

lemma close_ok:
  assumes "opened_ok E dec (Suc n) s w d" and "store_Close s w = (err, s', w')"
  shows "err = None \<and> closed_ok E dec n w' d"
proof -
  obtain t N where s: "N + Suc n + 1 < 2 ^ 63" "DInv E N (disk s) w t" "mem s = Some t" "table_codec E t"
    "decodes dec (fmlookup t) d" "faults w = []" "healthy (disk s)"
    using assms(1) by (auto simp: opened_ok_def)
  have "N + n + 1 < 2 ^ 63" using s(1) by simp
  then have "closed_ok E dec n w' d" using store_Close_Durable [OF s(2) assms(2)] s unfolding closed_ok_def by blast
  then show ?thesis using store_Close_healthy [OF s(2,7,6) assms(2)] by simp
qed

definition suite_names :: "string set" where
  "suite_names = {''test'', ''test1'', ''test2''}"

definition ml_home :: "mlog \<Rightarrow> string \<Rightarrow> string" where
  "ml_home m nm = filepath_Join [Root (settings (ml_reg m)), nm]"

definition ml_view :: "memlog_env \<Rightarrow> (mapstr \<Rightarrow> 'v result) \<Rightarrow> (nat, 'v, mlog) view" where
  "ml_view E dec n m os c \<longleftrightarrow> meta_codec E \<and> range_spec E \<and> active (ml_reg m) \<and> Root (settings (ml_reg m)) \<noteq> []
     \<and> dom os \<subseteq> suite_names
     \<and> (\<forall>nm \<in> suite_names.
          case os nm of
            None \<Rightarrow> closed_ok E dec n (ml_files m (ml_home m nm)) (c nm)
          | Some p \<Rightarrow> p < length (ml_stores m) \<and> fst (ml_stores m ! p) = ml_home m nm
              \<and> opened_ok E dec n (snd (ml_stores m ! p)) (ml_files m (ml_home m nm)) (c nm))"

lemma suite_homes:
  assumes "Root (settings (ml_reg m)) \<noteq> []"
  shows "inj_on (ml_home m) suite_names"
proof -
  have "ml_home m = (\<lambda>nm. filepath_Join [Root (settings (ml_reg m)), nm])" by (rule ext) (simp add: ml_home_def)
  then have "inj_on (ml_home m) {nm. plain_name nm}" using filepath_Join_inj [OF assms] by simp
  then show ?thesis by (rule inj_on_subset) (auto simp: suite_names_def plain_name_def)
qed

lemma ml_viewD:
  assumes "ml_view E dec n m os c"
  shows "os nm = Some p \<Longrightarrow> nm \<in> suite_names \<and> p < length (ml_stores m) \<and> fst (ml_stores m ! p) = ml_home m nm
      \<and> opened_ok E dec n (snd (ml_stores m ! p)) (ml_files m (ml_home m nm)) (c nm)"
    and "nm \<in> suite_names \<Longrightarrow> os nm = None \<Longrightarrow> closed_ok E dec n (ml_files m (ml_home m nm)) (c nm)"
    and "meta_codec E \<and> range_spec E \<and> active (ml_reg m) \<and> Root (settings (ml_reg m)) \<noteq> []"
proof -
  show "os nm = Some p \<Longrightarrow> nm \<in> suite_names \<and> p < length (ml_stores m) \<and> fst (ml_stores m ! p) = ml_home m nm
      \<and> opened_ok E dec n (snd (ml_stores m ! p)) (ml_files m (ml_home m nm)) (c nm)"
  proof -
    assume o: "os nm = Some p"
    then have "nm \<in> suite_names" using assms unfolding ml_view_def by blast
    then show ?thesis using assms o unfolding ml_view_def by fastforce
  qed
  show "nm \<in> suite_names \<Longrightarrow> os nm = None \<Longrightarrow> closed_ok E dec n (ml_files m (ml_home m nm)) (c nm)"
    using assms unfolding ml_view_def by fastforce
qed (use assms in \<open>simp add: ml_view_def\<close>)

lemma ml_view_less: "ml_view E dec (Suc n) m os c \<Longrightarrow> ml_view E dec n m os c"
  unfolding ml_view_def by (auto dest: opened_ok_less closed_ok_less split: option.splits)

text \<open>A write to the store \<open>nm\<close> leaves the other names alone.\<close>

lemma ml_view_write:
  assumes v: "ml_view E dec (Suc n) m os c" and o: "os nm = Some p"
    and f: "f (snd (ml_stores m ! p)) (ml_files m (ml_home m nm)) = (err, s', w')"
    and d: "opened_ok E dec n s' w' d \<and> os' = os \<or> closed_ok E dec n w' d \<and> os' = os(nm := None)"
  shows "\<exists>m'. ml_write f p m = (err, m') \<and> ml_view E dec n m' os' (c(nm := d))"
proof -
  have p: "nm \<in> suite_names" "p < length (ml_stores m)" "fst (ml_stores m ! p) = ml_home m nm"
    using ml_viewD(1) [OF v o] by blast+
  let ?m = "m\<lparr>ml_stores := (ml_stores m)[p := (ml_home m nm, s')], ml_files := (ml_files m)(ml_home m nm := w')\<rparr>"
  have run: "ml_write f p m = (err, ?m)" using f p(3) by (simp add: ml_write_def Let_def)
  have home: "ml_home ?m = ml_home m" by (simp add: ml_home_def fun_eq_iff)
  have inj: "ml_home m x = ml_home m nm \<longleftrightarrow> x = nm" if "x \<in> suite_names" for x
    using suite_homes ml_viewD(3) [OF v] that p(1) by (metis inj_onD)
  have other: "q \<noteq> p" if "os x = Some q" "x \<noteq> nm" for x q
    using ml_viewD(1) [OF v that(1)] p inj that(2) by metis
  note v' = ml_view_less [OF v]
  have "case os' x of None \<Rightarrow> closed_ok E dec n (ml_files ?m (ml_home m x)) ((c(nm := d)) x)
      | Some q \<Rightarrow> q < length (ml_stores ?m) \<and> fst (ml_stores ?m ! q) = ml_home m x
        \<and> opened_ok E dec n (snd (ml_stores ?m ! q)) (ml_files ?m (ml_home m x)) ((c(nm := d)) x)" if "x \<in> suite_names" for x
  proof (cases "x = nm")
    case True
    then show ?thesis using d o p by auto
  next
    case False
    have "os' x = os x" using d False by auto
    then show ?thesis
      using False inj [OF that] ml_viewD(1) [OF v', of x] ml_viewD(2) [OF v' that] other [OF _ False]
      by (cases "os x") auto
  qed
  moreover have "dom os \<subseteq> suite_names" using v by (simp add: ml_view_def)
  then have "dom os' \<subseteq> suite_names" using d by (auto split: if_splits)
  ultimately have "ml_view E dec n ?m os' (c(nm := d))"
    using ml_viewD(3) [OF v] unfolding ml_view_def home by simp
  then show ?thesis using run by blast
qed

lemma ml_view_Access:
  assumes v: "ml_view E dec (Suc n) m os c" and nm: "nm \<in> suite_names" "os nm = None"
  shows "\<exists>h m'. ml_Access E nm m = (Inr h, m') \<and> ml_view E dec n m' (os(nm \<mapsto> h)) c"
proof -
  let ?st = "settings (ml_reg m)"
  let ?cp = "case CheckpointPred ?st of Some p \<Rightarrow> p | None \<Rightarrow> defaultCheckpoint"
  note g = ml_viewD(3) [OF v]
  obtain s w' where s: "openStore E (ml_home m nm) (FileMode ?st) (BufferSize ?st) (IgnoreVersionCheck ?st) ?cp
      (ml_files m (ml_home m nm)) = (Inr s, w')" "opened_ok E dec n s w' (c nm)"
    using open_ok [OF ml_viewD(2) [OF v nm]] g by metis
  let ?m = "m\<lparr>ml_stores := ml_stores m @ [(ml_home m nm, s)], ml_files := (ml_files m)(ml_home m nm := w')\<rparr>"
  have run: "ml_Access E nm m = (Inr (length (ml_stores m)), ?m)"
    using g s(1) by (simp add: ml_Access_def memlog_Access_def ml_home_def Let_def)
  have home: "ml_home ?m = ml_home m" by (simp add: ml_home_def fun_eq_iff)
  have inj: "ml_home m x = ml_home m nm \<longleftrightarrow> x = nm" if "x \<in> suite_names" for x
    using suite_homes g that nm(1) by (metis inj_onD)
  note v' = ml_view_less [OF v]
  have "case (os(nm \<mapsto> length (ml_stores m))) x of None \<Rightarrow> closed_ok E dec n (ml_files ?m (ml_home m x)) (c x)
      | Some q \<Rightarrow> q < length (ml_stores ?m) \<and> fst (ml_stores ?m ! q) = ml_home m x
        \<and> opened_ok E dec n (snd (ml_stores ?m ! q)) (ml_files ?m (ml_home m x)) (c x)" if "x \<in> suite_names" for x
    using s(2) inj [OF that] ml_viewD(1) [OF v', of x] ml_viewD(2) [OF v' that]
    by (cases "os x") (auto simp: nth_append)
  moreover have "dom (os(nm \<mapsto> length (ml_stores m))) \<subseteq> suite_names" using v nm(1) by (auto simp: ml_view_def)
  ultimately have "ml_view E dec n ?m (os(nm \<mapsto> length (ml_stores m))) c"
    using g unfolding ml_view_def home by simp
  then show ?thesis using run by blast
qed

lemma each_loop_range: "each_loop (\<lambda>k x. fn k (dec x)) kvs u = range_loop dec fn kvs u"
  by (induction kvs arbitrary: u) (auto split: prod.splits)

interpretation memlog_compliant: compliant_backend "memlog_backend E enc dec :: (nat, 'v, 'u, mlog) backend" "ml_view E dec" suite_names
    "\<lambda>k v. \<exists>x. enc v = Inr x \<and> dec x = Inr v \<and> call_codec E (CSet k x)" "\<lambda>k. call_codec E (CRemove k)"
  for E and enc :: "'v \<Rightarrow> mapstr result" and dec
proof -
  let ?B = "memlog_backend E enc dec :: (nat, 'v, 'u, mlog) backend"
  show "compliant_backend ?B (ml_view E dec) suite_names (\<lambda>k v. \<exists>x. enc v = Inr x \<and> dec x = Inr v \<and> call_codec E (CSet k x))
      (\<lambda>k. call_codec E (CRemove k))"
  proof
    fix n m os c
    assume "ml_view E dec (Suc n) m os c"
    then show "ml_view E dec n m os c" by (rule ml_view_less)
  next
    fix n m os c nm
    assume "ml_view E dec (Suc n) m os c" "nm \<in> suite_names" "os nm = None"
    then show "\<exists>h w'. bAccess ?B nm m = (Inr h, w') \<and> ml_view E dec n w' (os(nm \<mapsto> h)) c"
      by (simp add: memlog_backend_def ml_view_Access)
  next
    fix n m os c nm p
    assume v: "ml_view E dec (Suc n) m os c" and o: "os nm = Some p"
    obtain err s' w' where run: "store_Close (snd (ml_stores m ! p)) (ml_files m (ml_home m nm)) = (err, s', w')"
      by (metis prod.exhaust)
    from close_ok [OF _ run] ml_viewD(1) [OF v o] have "err = None" "closed_ok E dec n w' (c nm)" by blast+
    from ml_view_write [where f = store_Close, OF v o run, of "c nm" "os(nm := None)"] this
    show "\<exists>w'. bClose ?B p m = (None, w') \<and> ml_view E dec n w' (os(nm := None)) c" by (simp add: memlog_backend_def)
  next
    fix n m os c nm p k
    assume v: "ml_view E dec (Suc n) m os c" and o: "os nm = Some p"
    obtain t where t: "mem (snd (ml_stores m ! p)) = Some t" "decodes dec (fmlookup t) (c nm)"
      using ml_viewD(1) [OF v o] by (auto simp: opened_ok_def)
    have "(fmlookup t k \<noteq> None) = (c nm k \<noteq> None)" using decodes_dom [OF t(2), of k] by simp
    then show "\<exists>w'. bHas ?B p k m = (Inr (c nm k \<noteq> None), w') \<and> ml_view E dec n w' os c"
      using t(1) ml_view_less [OF v]
      by (auto simp: memlog_backend_def store_Has_def mem_table_def memstore_Has_def fmlookup_dom_iff)
  next
    fix n m os c nm p k val
    assume v: "ml_view E dec (Suc n) m os c" and o: "os nm = Some p" and k: "c nm k = Some val"
    obtain t where t: "mem (snd (ml_stores m ! p)) = Some t" "decodes dec (fmlookup t) (c nm)"
      using ml_viewD(1) [OF v o] by (auto simp: opened_ok_def)
    obtain x where "fmlookup t k = Some x" "dec x = Inr val"
      using k decodesD [OF t(2), of k] by (cases "fmlookup t k") auto
    then show "\<exists>w'. bGet ?B p k m = (Inr val, w') \<and> ml_view E dec n w' os c"
      using t(1) ml_view_less [OF v] by (simp add: memlog_backend_def store_Get_def mem_table_def memstore_Get_def)
  next
    fix n m os c nm p k val
    assume v: "ml_view E dec (Suc n) m os c" and o: "os nm = Some p"
      and "\<exists>x. enc val = Inr x \<and> dec x = Inr val \<and> call_codec E (CSet k x)"
    then obtain x where x: "enc val = Inr x" "dec x = Inr val" "call_codec E (CSet k x)" by blast
    let ?s = "snd (ml_stores m ! p)" and ?w = "ml_files m (ml_home m nm)"
    obtain err s' w' where run: "store_Set E enc k val ?s ?w = (err, s', w')" by (metis prod.exhaust)
    then have ex: "exec E (CSet k x) ?s ?w = (err, s', w')" by (simp add: exec_def store_Set_def x(1))
    have ok: "opened_ok E dec (Suc n) ?s ?w (c nm)" "range_spec E" using ml_viewD(1) [OF v o] ml_viewD(3) [OF v] by blast+
    have "decodes dec (fmlookup (effect (CSet k x) t)) ((c nm)(k \<mapsto> val))" if "decodes dec (fmlookup t) (c nm)" for t
      using that x(2) by (simp add: decodes_def)
    from exec_ok [OF ok(1) ex x(3) ok(2) this]
    have "err = None" "opened_ok E dec n s' w' ((c nm)(k \<mapsto> val))" by auto
    from ml_view_write [where f = "store_Set E enc k val", OF v o run, of "(c nm)(k \<mapsto> val)" os] this
    show "\<exists>w'. bSet ?B p k val m = (None, w') \<and> ml_view E dec n w' os (c(nm := (c nm)(k \<mapsto> val)))"
      by (simp add: memlog_backend_def)
  next
    fix n m os c nm p k
    assume v: "ml_view E dec (Suc n) m os c" and o: "os nm = Some p" and x: "call_codec E (CRemove k)"
    let ?s = "snd (ml_stores m ! p)" and ?w = "ml_files m (ml_home m nm)"
    obtain err s' w' where run: "store_Remove E k ?s ?w = (err, s', w')" by (metis prod.exhaust)
    then have ex: "exec E (CRemove k) ?s ?w = (err, s', w')" by (simp add: exec_def)
    have ok: "opened_ok E dec (Suc n) ?s ?w (c nm)" "range_spec E" using ml_viewD(1) [OF v o] ml_viewD(3) [OF v] by blast+
    have "decodes dec (fmlookup (effect (CRemove k) t)) ((c nm)(k := None))" if "decodes dec (fmlookup t) (c nm)" for t
      using that by (simp add: decodes_def)
    from exec_ok [OF ok(1) ex x ok(2) this]
    have "err = None" "opened_ok E dec n s' w' ((c nm)(k := None))" by auto
    from ml_view_write [where f = "store_Remove E k", OF v o run, of "(c nm)(k := None)" os] this
    show "\<exists>w'. bRemove ?B p k m = (None, w') \<and> ml_view E dec n w' os (c(nm := (c nm)(k := None)))"
      by (simp add: memlog_backend_def)
  next
    fix n m os c nm p fn u
    assume v: "ml_view E dec (Suc n) m os c" and o: "os nm = Some p"
    obtain t where t: "mem (snd (ml_stores m ! p)) = Some t" "decodes dec (fmlookup t) (c nm)"
      using ml_viewD(1) [OF v o] by (auto simp: opened_ok_def)
    have "distinct (map fst (rangeTable E t))" "fmap_of_list (rangeTable E t) = t"
      using ml_viewD(3) [OF v] by (simp_all add: range_spec_def)
    then have "distinct (map fst (rangeTable E t))" "map_of (rangeTable E t) = fmlookup t"
      by (auto simp: fun_eq_iff) (metis fmlookup_of_list)
    note rows = decoded_rows [OF this t(2)]
    have "bEach ?B p fn u m = (range_loop Inr fn (map (\<lambda>(k, x). (k, projr (dec x))) (rangeTable E t)) u, m)"
      using t(1) rows(3) by (simp add: memlog_backend_def store_Each_def mem_table_def each_loop_range)
    with rows(1,2) ml_view_less [OF v] show "\<exists>kvs w'. distinct (map fst kvs) \<and> map_of kvs = c nm
        \<and> bEach ?B p fn u m = (range_loop Inr fn kvs u, w') \<and> ml_view E dec n w' os c"
      by (intro exI [of _ "map (\<lambda>(k, x). (k, projr (dec x))) (rangeTable E t)"] exI [of _ m] conjI)
  qed
qed

section \<open>The memlog backend passes\<close>

text \<open>The factory of \<open>memlog_test.go\<close>, for a checkpoint predicate: nil, the default, or one that always holds.\<close>

definition memlog_suite ::
    "memlog_env \<Rightarrow> string result \<Rightarrow> (u64 \<Rightarrow> bool) option \<Rightarrow> (string \<Rightarrow> mlog \<Rightarrow> string result \<times> mlog) \<Rightarrow> (string \<Rightarrow> mlog \<Rightarrow> mlog)
     \<Rightarrow> string \<Rightarrow> bool \<Rightarrow> ('v \<Rightarrow> mapstr result) \<Rightarrow> (mapstr \<Rightarrow> 'v result) \<Rightarrow> (nat, 'v, mlog) suite" where
  "memlog_suite E cwd cp mk rm tmp keep enc dec =
     \<lparr>MkdirTemp = mk, RemoveAll = rm,
      factory = (\<lambda>path m.
        case memlog_New cwd \<lparr>Root = path, FileMode = 0, BufferSize = 0, CheckpointPred = cp, IgnoreVersionCheck = False\<rparr> of
          Inl e \<Rightarrow> (Inl e, m)
        | Inr r \<Rightarrow> (Inr (memlog_backend E enc dec), m\<lparr>ml_reg := r\<rparr>)),
      defaultTempDir = tmp, keepTmpDir = keep\<rparr>"

text \<open>\<open>os.MkdirTemp\<close> makes a new directory, given by an absolute path, with nothing in it; no system call fails there.\<close>

definition makes_tmp :: "(string \<Rightarrow> mlog \<Rightarrow> string result \<times> mlog) \<Rightarrow> string \<Rightarrow> bool" where
  "makes_tmp mk tmp \<longleftrightarrow> (\<forall>m. \<exists>p m'. mk tmp m = (Inr p, m') \<and> p \<noteq> [] \<and> hd p = CHR ''/''
     \<and> (\<forall>nm \<in> suite_names. fresh (ml_files m' (filepath_Join [filepath_Clean p, nm]))))"

definition test_codec :: "memlog_env \<Rightarrow> ('v \<Rightarrow> mapstr result) \<Rightarrow> (mapstr \<Rightarrow> 'v result) \<Rightarrow> string \<Rightarrow> 'v \<Rightarrow> bool" where
  "test_codec E enc dec k v \<longleftrightarrow> (\<exists>x. enc v = Inr x \<and> dec x = Inr v \<and> call_codec E (CSet k x))"

locale memlog_run =
  fixes E :: memlog_env and cwd :: "string result" and cp :: "(u64 \<Rightarrow> bool) option"
    and mk :: "string \<Rightarrow> mlog \<Rightarrow> string result \<times> mlog" and rm :: "string \<Rightarrow> mlog \<Rightarrow> mlog" and tmp :: string and keep :: bool
    and enc :: "'v \<Rightarrow> mapstr result" and dec :: "mapstr \<Rightarrow> 'v result" and V :: "'v suite_values"
  assumes env: "meta_codec E" "range_spec E" and data_order: "visits_table (rangeData V)"
    and codec: "test_codec E enc dec ''key'' (entryA1 V)" "call_codec E (CRemove ''key'')"
      "test_codec E enc dec ''a'' (fieldHello V)" "test_codec E enc dec ''b'' (fieldWorld V)"
    and tmp_dir: "makes_tmp mk tmp"

sublocale memlog_run \<subseteq> suite: compliance_suite "memlog_backend E enc dec" "ml_view E dec" suite_names
    "\<lambda>k v. \<exists>x. enc v = Inr x \<and> dec x = Inr v \<and> call_codec E (CSet k x)" "\<lambda>k. call_codec E (CRemove k)"
    "memlog_suite E cwd cp mk rm tmp keep enc dec" "\<lambda>m. True" V
proof unfold_locales
  fix m :: mlog
  obtain p m' where p: "mk tmp m = (Inr p, m')" "p \<noteq> []" "hd p = CHR ''/''"
    "\<forall>nm \<in> suite_names. fresh (ml_files m' (filepath_Join [filepath_Clean p, nm]))"
    using tmp_dir unfolding makes_tmp_def by meson
  obtain r where r: "memlog_New cwd \<lparr>Root = p, FileMode = 0, BufferSize = 0, CheckpointPred = cp, IgnoreVersionCheck = False\<rparr> = Inr r"
    "active r" "Root (settings r) = filepath_Clean p"
    using p(2,3) by (cases cp) (simp_all add: memlog_New_def filepath_Abs_def Let_def)
  have "ml_view E dec 9 (m'\<lparr>ml_reg := r\<rparr>) Map.empty (\<lambda>_. Map.empty)"
    using env r(2,3) p(4) filepath_Clean_nonempty [of p] by (simp add: ml_view_def closed_ok_def ml_home_def)
  then show "\<exists>p w1 w2. MkdirTemp (memlog_suite E cwd cp mk rm tmp keep enc dec)
        (defaultTempDir (memlog_suite E cwd cp mk rm tmp keep enc dec)) m = (Inr p, w1)
      \<and> factory (memlog_suite E cwd cp mk rm tmp keep enc dec) p w1 = (Inr (memlog_backend E enc dec), w2)
      \<and> ml_view E dec 9 w2 Map.empty (\<lambda>_. Map.empty)"
    using p(1) r(1) by (simp add: memlog_suite_def)
qed (use data_order codec in \<open>auto simp: visits_table_def test_codec_def suite_names_def\<close>)

context memlog_run
begin

lemma passes: "suite_passes V (memlog_suite E cwd cp mk rm tmp keep enc dec) m"
  by (rule suite.suite_ok) simp

end

text \<open>C35. The memlog backend passes the compliance suite with every checkpoint predicate, the default and
  the one that always writes a checkpoint included, when no system call fails and the values of the tests survive
  \<open>typeconv.Convert\<close> and the encoder.\<close>

theorem memlog_passes_compliance:
  assumes "meta_codec E" and "range_spec E" and "visits_table (rangeData V)"
    and "test_codec E enc dec ''key'' (entryA1 V)" and "call_codec E (CRemove ''key'')"
    and "test_codec E enc dec ''a'' (fieldHello V)" and "test_codec E enc dec ''b'' (fieldWorld V)"
    and "makes_tmp mk tmp"
  shows "suite_passes V (memlog_suite E cwd cp mk rm tmp keep enc dec) m"
  by (intro memlog_run.passes memlog_run.intro assms)

text \<open>Temporary directories that were never used before.\<close>

definition empty_tmp :: "string \<Rightarrow> mlog \<Rightarrow> string result \<times> mlog" where
  "empty_tmp d m = (Inr ''/tmp/x'', m\<lparr>ml_files := (\<lambda>_. no_home)\<rparr>)"

definition mapstr_values :: "mapstr suite_values" where
  "mapstr_values =
     \<lparr>entryA1 = sample_value, fieldHello = fmempty, fieldWorld = sample_value, rangeData = sorted_rows\<rparr>"

interpretation plain_run: memlog_run plain_env "Inr ''/''" None empty_tmp "\<lambda>p m. m" "''/tmp''" False Inr Inr mapstr_values
proof unfold_locales
  have "plain_string ''key''" "plain_string ''a''" "plain_string ''b''" "flat sample_value" "flat fmempty"
    by (auto simp: plain_string_def flat_def sample_value_def keyField_def split: if_splits)
  then show "test_codec plain_env Inr Inr ''key'' (entryA1 mapstr_values)" "call_codec plain_env (CRemove ''key'')"
    "test_codec plain_env Inr Inr ''a'' (fieldHello mapstr_values)" "test_codec plain_env Inr Inr ''b'' (fieldWorld mapstr_values)"
    using plain_codecs by (simp_all add: test_codec_def call_codec_def mapstr_values_def)
qed (simp_all add: plain_meta_codec plain_range_spec sorted_rows_visits mapstr_values_def makes_tmp_def empty_tmp_def fresh_no_home)

theorem memlog_passes_compliance_witness:
  "suite_passes mapstr_values (memlog_suite plain_env (Inr ''/'') (Some (\<lambda>_. True)) empty_tmp (\<lambda>p m. m) ''/tmp'' False Inr Inr)
     failing_mlog"
  by (rule memlog_passes_compliance) (rule plain_run.env plain_run.data_order plain_run.codec plain_run.tmp_dir)+

end
