(* ===== verification/Publisher.thy ===== *)
theory Publisher
  imports Prelude
begin

text \<open>
  \<open>pkg/publisher/pipeline.go\<close>: clients and pipelines as records of functions on a world \<open>'w\<close>, and the helpers of
  \<open>pkg/publisher/testing\<close> (\<open>testing.go\<close>, \<open>connector.go\<close>).  A call returns, panics, or blocks for ever because no
  other goroutine acts meanwhile.
\<close>

section \<open>Clients and pipelines\<close>

datatype panic_value = PanicError error | PanicValue string

datatype 'a call = CRet 'a | CPanic panic_value | CBlock

datatype PublishMode = DefaultGuarantees | OutputChooses | GuaranteedSend | DropIfFull

text \<open>The part of \<open>ClientConfig\<close> the repository sets: the mode, the reference that closes the client, the handler of acknowledgements.\<close>

record ('ref, 'k) ClientConfig =
  cfgPublishMode :: PublishMode
  cfgCloseRef :: "'ref option"
  cfgWaitClose :: int
  cfgACKHandler :: "'k option"

definition noClientConfig :: "('ref, 'k) ClientConfig" where
  "noClientConfig = \<lparr>cfgPublishMode = DefaultGuarantees, cfgCloseRef = None, cfgWaitClose = 0, cfgACKHandler = None\<rparr>"

record ('e, 'w) Client =
  clPublish :: "'e \<Rightarrow> 'w \<Rightarrow> unit call \<times> 'w"
  clPublishAll :: "'e list \<Rightarrow> 'w \<Rightarrow> unit call \<times> 'w"
  clClose :: "'w \<Rightarrow> error option call \<times> 'w"

record ('e, 'ref, 'k, 'w) Pipeline =
  plConnectWith :: "('ref, 'k) ClientConfig \<Rightarrow> 'w \<Rightarrow> ('e, 'w) Client result call \<times> 'w"
  plConnect :: "'w \<Rightarrow> ('e, 'w) Client result call \<times> 'w"

section \<open>testing.go\<close>

record ('e, 'w) FakeClient =
  PublishFunc :: "('e \<Rightarrow> 'w \<Rightarrow> unit call \<times> 'w) option"
  CloseFunc :: "('w \<Rightarrow> error option call \<times> 'w) option"

definition fake_Publish :: "('e, 'w) FakeClient \<Rightarrow> 'e \<Rightarrow> 'w \<Rightarrow> unit call \<times> 'w" where
  "fake_Publish c event w = (case PublishFunc c of None \<Rightarrow> (CRet (), w) | Some f \<Rightarrow> f event w)"

definition fake_Close :: "('e, 'w) FakeClient \<Rightarrow> 'w \<Rightarrow> error option call \<times> 'w" where
  "fake_Close c w = (case CloseFunc c of None \<Rightarrow> (CRet None, w) | Some f \<Rightarrow> f w)"

text \<open>\<open>PublishAll\<close> of both clients: one \<open>Publish\<close> after the other.\<close>

fun publish_loop :: "('e \<Rightarrow> 'w \<Rightarrow> unit call \<times> 'w) \<Rightarrow> 'e list \<Rightarrow> 'w \<Rightarrow> unit call \<times> 'w" where
  "publish_loop f [] w = (CRet (), w)"
| "publish_loop f (e # es) w =
     (case f e w of (CRet _, w1) \<Rightarrow> publish_loop f es w1 | (CPanic v, w1) \<Rightarrow> (CPanic v, w1) | (CBlock, w1) \<Rightarrow> (CBlock, w1))"

definition fake_PublishAll :: "('e, 'w) FakeClient \<Rightarrow> 'e list \<Rightarrow> 'w \<Rightarrow> unit call \<times> 'w" where
  "fake_PublishAll c events w = publish_loop (fake_Publish c) events w"

definition fake_Client :: "('e, 'w) FakeClient \<Rightarrow> ('e, 'w) Client" where
  "fake_Client c = \<lparr>clPublish = fake_Publish c, clPublishAll = fake_PublishAll c, clClose = fake_Close c\<rparr>"

text \<open>A \<open>FakeConnector\<close> is its \<open>ConnectFunc\<close>.\<close>

definition FakeConnector ::
    "(('ref, 'k) ClientConfig \<Rightarrow> 'w \<Rightarrow> ('e, 'w) Client result call \<times> 'w) \<Rightarrow> ('e, 'ref, 'k, 'w) Pipeline" where
  "FakeConnector ConnectFunc = \<lparr>plConnectWith = ConnectFunc, plConnect = ConnectFunc noClientConfig\<rparr>"

definition FailingConnector :: "error \<Rightarrow> ('e, 'ref, 'k, 'w) Pipeline" where
  "FailingConnector err = FakeConnector (\<lambda>_ w. (CRet (Inl err), w))"

definition ConstClient :: "('e, 'w) Client \<Rightarrow> ('e, 'ref, 'k, 'w) Pipeline" where
  "ConstClient client = FakeConnector (\<lambda>_ w. (CRet (Inr client), w))"

text \<open>A buffered channel, somewhere in the world.\<close>

record 'e channel =
  buf :: "'e list"
  chcap :: nat

definition chan_send :: "'e \<Rightarrow> 'e channel \<Rightarrow> unit call \<times> 'e channel" where
  "chan_send e ch = (if length (buf ch) < chcap ch then (CRet (), ch\<lparr>buf := buf ch @ [e]\<rparr>) else (CBlock, ch))"

definition chan_receive :: "'e channel \<Rightarrow> 'e call \<times> 'e channel" where
  "chan_receive ch = (case buf ch of [] \<Rightarrow> (CBlock, ch) | e # es \<Rightarrow> (CRet e, ch\<lparr>buf := es\<rparr>))"

definition ChClient :: "('e, 'e channel) Client" where
  "ChClient = fake_Client \<lparr>PublishFunc = Some chan_send, CloseFunc = None\<rparr>"

text \<open>\<open>ClientCounter\<close>, next to the rest of the world.\<close>

record ClientCounter =
  total_clients :: int
  active_clients :: int

definition Active :: "ClientCounter \<Rightarrow> int" where "Active c = active_clients c"
definition Total :: "ClientCounter \<Rightarrow> int" where "Total c = total_clients c"

definition BuildConnector :: "('e, 'ref, 'k, ClientCounter \<times> 'w) Pipeline" where
  "BuildConnector = FakeConnector (\<lambda>_ (c, w).
     (CRet (Inr (fake_Client \<lparr>PublishFunc = None,
        CloseFunc = Some (\<lambda>(c, w). (CRet None, (c\<lparr>active_clients := active_clients c - 1\<rparr>, w)))\<rparr>)),
      (c\<lparr>total_clients := total_clients c + 1, active_clients := active_clients c + 1\<rparr>, w)))"

section \<open>connector.go\<close>

definition PublisherWithClient :: "('e, 'w) Client \<Rightarrow> ('e, 'ref, 'k, 'w) Pipeline" where
  "PublisherWithClient client =
     \<lparr>plConnectWith = (\<lambda>_ w. (CRet (Inr client), w)), plConnect = (\<lambda>w. (CRet (Inr client), w))\<rparr>"

text \<open>The callback acts on the world next to the client.\<close>

record ('e, 'w) ChanClient =
  doneClosed :: bool
  Channel :: "'e channel"
  publishCallback :: "('e \<Rightarrow> 'w \<Rightarrow> 'w) option"

definition NewChanClientWith :: "'e channel option \<Rightarrow> ('e, 'w) ChanClient" where
  "NewChanClientWith ch =
     \<lparr>doneClosed = False, Channel = (case ch of None \<Rightarrow> \<lparr>buf = [], chcap = 1\<rparr> | Some c \<Rightarrow> c), publishCallback = None\<rparr>"

definition NewChanClient :: "nat \<Rightarrow> ('e, 'w) ChanClient" where
  "NewChanClient bufSize = NewChanClientWith (Some \<lparr>buf = [], chcap = bufSize\<rparr>)"

definition NewChanClientWithCallback :: "nat \<Rightarrow> ('e \<Rightarrow> 'w \<Rightarrow> 'w) \<Rightarrow> ('e, 'w) ChanClient" where
  "NewChanClientWithCallback bufSize callback =
     (NewChanClientWith (Some \<lparr>buf = [], chcap = bufSize\<rparr>))\<lparr>publishCallback := Some callback\<rparr>"

definition chan_Close :: "('e, 'w) ChanClient \<Rightarrow> error option call \<times> ('e, 'w) ChanClient" where
  "chan_Close c =
     (if doneClosed c then (CPanic (PanicValue ''close of closed channel''), c) else (CRet None, c\<lparr>doneClosed := True\<rparr>))"

text \<open>The \<open>select\<close> of \<open>Publish\<close>: when the client is closed and the channel has room, either case may be taken (\<open>pick\<close>).\<close>

definition chan_Publish :: "bool \<Rightarrow> 'e \<Rightarrow> ('e, 'w) ChanClient \<times> 'w \<Rightarrow> unit call \<times> ('e, 'w) ChanClient \<times> 'w" where
  "chan_Publish pick event cw =
     (case cw of (c, w) \<Rightarrow>
      case chan_send event (Channel c) of
        (CRet _, ch) \<Rightarrow>
          if doneClosed c \<and> pick then (CRet (), c, w)
          else (case publishCallback c of
              None \<Rightarrow> (CRet (), c\<lparr>Channel := ch\<rparr>, w)
            | Some f \<Rightarrow> (CRet (), c\<lparr>Channel := snd (chan_receive ch)\<rparr>, f event w))
      | (_, ch) \<Rightarrow> if doneClosed c then (CRet (), c, w) else (CBlock, c, w))"

definition chan_PublishAll :: "bool \<Rightarrow> 'e list \<Rightarrow> ('e, 'w) ChanClient \<times> 'w \<Rightarrow> unit call \<times> ('e, 'w) ChanClient \<times> 'w" where
  "chan_PublishAll pick events cw = publish_loop (chan_Publish pick) events cw"

definition ReceiveEvent :: "('e, 'w) ChanClient \<Rightarrow> 'e call \<times> ('e, 'w) ChanClient" where
  "ReceiveEvent c = apsnd (\<lambda>ch. c\<lparr>Channel := ch\<rparr>) (chan_receive (Channel c))"

section \<open>Behaviour of the test clients\<close>

text \<open>Without a callback the client is a bounded queue: events are received in the order of their publication.\<close>

lemma chan_PublishAll_queue:
  assumes "\<not> doneClosed c" and "publishCallback c = None" and "length (buf (Channel c)) + length es \<le> chcap (Channel c)"
  shows "chan_PublishAll pick es (c, w) = (CRet (), c\<lparr>Channel := (Channel c)\<lparr>buf := buf (Channel c) @ es\<rparr>\<rparr>, w)"
  using assms unfolding chan_PublishAll_def
  by (induction es arbitrary: c) (auto simp: chan_Publish_def chan_send_def)

text \<open>One event too many blocks, and a closed client never does.\<close>

lemma chan_Publish_full:
  assumes "length (buf (Channel c)) = chcap (Channel c)"
  shows "chan_Publish pick e (c, w) = (if doneClosed c then CRet () else CBlock, c, w)"
  using assms by (simp add: chan_Publish_def chan_send_def)

text \<open>With a callback every event is handed to it at once, in order, and the channel is as before.\<close>

lemma chan_PublishAll_callback:
  assumes "\<not> doneClosed c" and "publishCallback c = Some f" and "buf (Channel c) = []" and "0 < chcap (Channel c)"
  shows "chan_PublishAll pick es (c, w) = (CRet (), c, fold f es w)"
proof -
  have same: "c\<lparr>Channel := Channel c\<lparr>buf := []\<rparr>\<rparr> = c" using assms(3) by (cases c; cases "Channel c") simp
  show ?thesis
    using assms unfolding chan_PublishAll_def
    by (induction es arbitrary: w) (auto simp: chan_Publish_def chan_send_def chan_receive_def same)
qed

text \<open>A counter counts the clients that were opened and not closed.\<close>

lemma BuildConnector_counts:
  "\<exists>client. plConnectWith BuildConnector cfg (c, w) = (CRet (Inr client), (c\<lparr>total_clients := Total c + 1, active_clients := Active c + 1\<rparr>, w))
     \<and> (\<forall>c' w'. clClose client (c', w') = (CRet None, (c'\<lparr>active_clients := Active c' - 1\<rparr>, w')))"
  by (simp add: BuildConnector_def FakeConnector_def fake_Client_def fake_Close_def Active_def Total_def)

end
