(* ===== verification/Input_Plugin.thy ===== *)
theory Input_Plugin
  imports Feature
begin

text \<open>
  \<open>pkg/manager/input\<close>: the interface of input managers (\<open>input.go\<close>, \<open>simplemanager.go\<close>, \<open>mode_string.go\<close>), plugins
  (\<open>plugin.go\<close>), the errors (\<open>error.go\<close>) and the \<open>Loader\<close> (\<open>loader.go\<close>).

  Parameters: the configuration object (\<open>'c\<close>) with its method \<open>String\<close>, the inputs (\<open>'i\<close>), the state the
  managers work on (\<open>'w\<close>) and the order in which a \<open>range\<close> over a map visits it.  Log messages are
  not modelled.
\<close>

section \<open>Modes and managers\<close>

datatype Mode = ModeRun | ModeTest | ModeOther

definition mode_String :: "Mode \<Rightarrow> string" where
  "mode_String m = (case m of ModeRun \<Rightarrow> ''Run'' | ModeTest \<Rightarrow> ''Test'' | ModeOther \<Rightarrow> ''Other'')"

record ('c, 'i, 'w) manager =
  mInit :: "Mode \<Rightarrow> 'w \<Rightarrow> error option \<times> 'w"
  mCreate :: "'c \<Rightarrow> 'w \<Rightarrow> 'i result \<times> 'w"

definition ConfigureWith :: "('c \<Rightarrow> 'w \<Rightarrow> 'i result \<times> 'w) \<Rightarrow> ('c, 'i, 'w) manager" where
  "ConfigureWith fn = \<lparr>mInit = (\<lambda>m w. (None, w)), mCreate = fn\<rparr>"

section \<open>Errors\<close>

definition ErrUnknownInput :: error where "ErrUnknownInput = ErrNew ''unknown input type''"
definition ErrNoInputConfigured :: error where "ErrNoInputConfigured = ErrNew ''no input type configured''"
definition ErrPluginWithoutName :: error where "ErrPluginWithoutName = ErrNew ''the plugin has no name''"

definition IsUnknownInputError :: "error \<Rightarrow> bool" where
  "IsUnknownInputError err = errors_Is err ErrUnknownInput"

text \<open>The texts of the errors, from the name, the text of the reason (if there is one) and the message.\<close>

definition LoadError_Error :: "string \<Rightarrow> string option \<Rightarrow> string \<Rightarrow> string" where
  "LoadError_Error name reason message =
     (let buf = (if message \<noteq> [] then message else if name \<noteq> [] then ''failed to load '' @ name else []);
          buf' = (case reason of None \<Rightarrow> buf | Some r \<Rightarrow> (if length buf > 0 then buf @ '': '' else buf) @ r) in
      if length buf' = 0 then ''<loader error>'' else buf')"

definition SetupError_Error :: "string list \<Rightarrow> string" where
  "SetupError_Error fails =
     ''invalid plugin setup found:'' @ concat (map (\<lambda>err. CHR 0x0A # CHR 0x09 # err) fails)"

section \<open>Plugins\<close>

record ('c, 'i, 'w) Plugin =
  pName :: string
  pStability :: Stability
  pDeprecated :: bool
  pInfo :: string
  pDoc :: string
  pManager :: "('c, 'i, 'w) manager option"

definition plugin_Details :: "('c, 'i, 'w) Plugin \<Rightarrow> Details" where
  "plugin_Details p =
     \<lparr>dName = pName p, dStability = pStability p, dDeprecated = pDeprecated p, dInfo = pInfo p, dDoc = pDoc p\<rparr>"

definition plugin_validate :: "('c, 'i, 'w) Plugin \<Rightarrow> error option" where
  "plugin_validate p =
     (if pName p = [] then Some (ErrNew ''input plugin without name found'')
      else if pStability p \<notin> {Beta, Experimental, Stable}
      then Some (ErrNew (''plugin '' @ quoted (pName p) @ '' has stability not set''))
      else if pManager p = None then Some (ErrNew (''invalid plugin ('' @ pName p @ '') structure detected''))
      else None)"

section \<open>The loader\<close>

record ('c, 'i, 'w) Loader =
  registry :: "(string, ('c, 'i, 'w) Plugin) fmap"
  typeField :: string
  defaultType :: string

text \<open>The two loops of \<open>validatePlugins\<close>: over the plugins and over the counts of their names.\<close>

fun count_loop :: "('c, 'i, 'w) Plugin list \<Rightarrow> (string, nat) fmap \<times> error list \<Rightarrow> (string, nat) fmap \<times> error list" where
  "count_loop [] (counts, errs) = (counts, errs)"
| "count_loop (p # ps) (counts, errs) =
     (let n = (case fmlookup counts (pName p) of None \<Rightarrow> 0 | Some n \<Rightarrow> n) in
      count_loop ps (fmupd (pName p) (n + 1) counts,
        case plugin_validate p of None \<Rightarrow> errs | Some err \<Rightarrow> errs @ [err]))"

fun duplicate_loop :: "(string \<times> nat) list \<Rightarrow> error list \<Rightarrow> error list" where
  "duplicate_loop [] errs = errs"
| "duplicate_loop ((name, n) # cs) errs =
     duplicate_loop cs
       (if n > 1 then errs @ [ErrNew (''plugin '' @ quoted name @ '' found '' @ show_nat n @ '' times'')] else errs)"

definition validatePlugins ::
    "((string, nat) fmap \<Rightarrow> (string \<times> nat) list) \<Rightarrow> ('c, 'i, 'w) Plugin list \<Rightarrow> error list" where
  "validatePlugins order plugins =
     (case count_loop plugins (fmempty, []) of (counts, errs) \<Rightarrow> duplicate_loop (order counts) errs)"

definition NewLoader ::
    "((string, nat) fmap \<Rightarrow> (string \<times> nat) list) \<Rightarrow> ('c, 'i, 'w) Plugin list \<Rightarrow> string \<Rightarrow> string
     \<Rightarrow> ('c, 'i, 'w) Loader result" where
  "NewLoader order plugins tf dflt =
     (let tf' = (if tf = [] then ''type'' else tf); errs = validatePlugins order plugins in
      if length errs > 0 then Inl (SetupError errs)
      else Inr \<lparr>registry = fold (\<lambda>p r. fmupd (pName p) p r) plugins fmempty, typeField = tf', defaultType = dflt\<rparr>)"

text \<open>\<open>Init\<close>: the managers in the order of a \<open>range\<close> over the registry, up to the first error.\<close>

fun init_loop :: "Mode \<Rightarrow> ('c, 'i, 'w) Plugin list \<Rightarrow> 'w \<Rightarrow> error option \<times> 'w" where
  "init_loop mode [] w = (None, w)"
| "init_loop mode (p # ps) w =
     (case pManager p of
        None \<Rightarrow> (Some (Panic ''nil pointer dereference''), w)
      | Some m \<Rightarrow> (case mInit m mode w of (Some err, w') \<Rightarrow> (Some err, w') | (None, w') \<Rightarrow> init_loop mode ps w'))"

definition loader_Init ::
    "((string, ('c, 'i, 'w) Plugin) fmap \<Rightarrow> ('c, 'i, 'w) Plugin list) \<Rightarrow> Mode \<Rightarrow> ('c, 'i, 'w) Loader \<Rightarrow> 'w
     \<Rightarrow> error option \<times> 'w" where
  "loader_Init order mode l w = init_loop mode (order (registry l)) w"

definition Configure ::
    "('c \<Rightarrow> string \<Rightarrow> string result) \<Rightarrow> 'c \<Rightarrow> ('c, 'i, 'w) Loader \<Rightarrow> 'w \<Rightarrow> 'i result \<times> 'w" where
  "Configure cfg_String cfg l w =
     (let missing = LoadError [] ErrNoInputConfigured (typeField l @ '' setting is missing'') in
      case (case cfg_String cfg (typeField l) of
              Inl _ \<Rightarrow> (if defaultType l = [] then Inl missing else Inr (defaultType l))
            | Inr name \<Rightarrow> Inr name) of
        Inl e \<Rightarrow> (Inl e, w)
      | Inr name \<Rightarrow>
          (case fmlookup (registry l) name of
             None \<Rightarrow> (Inl (LoadError name ErrUnknownInput []), w)
           | Some p \<Rightarrow>
               (case pManager p of
                  None \<Rightarrow> (Inl (Panic ''nil pointer dereference''), w)
                | Some m \<Rightarrow> mCreate m cfg w)))"

section \<open>Properties\<close>

definition lists_map :: "((string, nat) fmap \<Rightarrow> (string \<times> nat) list) \<Rightarrow> bool" where
  "lists_map order \<longleftrightarrow> (\<forall>m. set (order m) = {(k, v). fmlookup m k = Some v})"

lemma count_loop_result:
  "count_loop ps (counts, errs) =
     (counts', errs') \<Longrightarrow>
     errs' = errs @ List.map_filter plugin_validate ps
     \<and> (\<forall>k. (case fmlookup counts' k of None \<Rightarrow> 0 | Some n \<Rightarrow> n)
          = (case fmlookup counts k of None \<Rightarrow> 0 | Some n \<Rightarrow> n) + count_list (map pName ps) k)
     \<and> (\<forall>k. fmlookup counts' k \<noteq> None \<longleftrightarrow> fmlookup counts k \<noteq> None \<or> k \<in> pName ` set ps)"
proof (induction ps arbitrary: counts errs)
  case Nil
  then show ?case by (simp add: List.map_filter_simps)
next
  case (Cons p ps)
  let ?n = "(case fmlookup counts (pName p) of None \<Rightarrow> 0 | Some n \<Rightarrow> n)"
  have "count_loop ps (fmupd (pName p) (?n + 1) counts,
      case plugin_validate p of None \<Rightarrow> errs | Some err \<Rightarrow> errs @ [err]) = (counts', errs')"
    using Cons.prems by (simp add: Let_def)
  from Cons.IH [OF this] show ?case
    by (auto simp: List.map_filter_simps split: option.splits)
qed

lemma duplicate_loop_nil:
  "duplicate_loop cs errs = [] \<longleftrightarrow> errs = [] \<and> (\<forall>(k, n) \<in> set cs. n \<le> 1)"
  by (induction cs errs rule: duplicate_loop.induct) auto

lemma duplicate_loop_prefix: "set errs \<subseteq> set (duplicate_loop cs errs)"
proof (induction cs errs rule: duplicate_loop.induct)
  case (2 name n cs errs)
  then show ?case by (cases "n > 1") auto
qed simp

lemma distinct_count_le: "distinct xs \<longleftrightarrow> (\<forall>k. count_list xs k \<le> 1)"
proof (induction xs)
  case (Cons x xs)
  have "(\<forall>k. count_list (x # xs) k \<le> 1) \<longleftrightarrow> count_list xs x = 0 \<and> (\<forall>k. count_list xs k \<le> 1)"
  proof
    assume le: "\<forall>k. count_list (x # xs) k \<le> 1"
    have "count_list xs k \<le> 1" for k using le [rule_format, of k] by (cases "k = x") auto
    then show "count_list xs x = 0 \<and> (\<forall>k. count_list xs k \<le> 1)" using le [rule_format, of x] by simp
  qed auto
  then show ?case using Cons by (simp add: count_list_0_iff)
qed simp

lemma validatePlugins_nil:
  assumes "lists_map order"
  shows "validatePlugins order ps = [] \<longleftrightarrow> (\<forall>p \<in> set ps. plugin_validate p = None) \<and> distinct (map pName ps)"
proof -
  obtain counts errs where loop: "count_loop ps (fmempty, []) = (counts, errs)" by fastforce
  note res = count_loop_result [OF loop]
  have errs: "errs = [] \<longleftrightarrow> (\<forall>p \<in> set ps. plugin_validate p = None)"
    using res by (auto simp: List.map_filter_def filter_empty_conv)
  have "(\<forall>(k, n) \<in> set (order counts). n \<le> 1) \<longleftrightarrow> (\<forall>k. count_list (map pName ps) k \<le> 1)"
  proof -
    have "count_list (map pName ps) k = (case fmlookup counts k of None \<Rightarrow> 0 | Some n \<Rightarrow> n)" for k using res by simp
    moreover have "set (order counts) = {(k, v). fmlookup counts k = Some v}" using assms by (simp add: lists_map_def)
    ultimately show ?thesis by (auto split: option.splits)
  qed
  then show ?thesis by (simp add: validatePlugins_def loop duplicate_loop_nil errs distinct_count_le)
qed

lemma registry_lookup:
  "distinct (map pName ps) \<Longrightarrow>
     fmlookup (fold (\<lambda>p r. fmupd (pName p) p r) ps m) k =
       (case find (\<lambda>p. pName p = k) ps of None \<Rightarrow> fmlookup m k | Some p \<Rightarrow> Some p)"
proof (induction ps arbitrary: m)
  case (Cons p ps)
  have "pName p \<noteq> k \<or> find (\<lambda>q. pName q = k) ps = None"
  proof (cases "find (\<lambda>q. pName q = k) ps")
    case (Some q)
    then have "q \<in> set ps" "pName q = k" by (auto simp: find_Some_iff)
    then show ?thesis using Cons.prems by auto
  qed simp
  then show ?case using Cons by (auto split: option.splits)
qed simp

text \<open>\<open>NewLoader\<close> accepts exactly the plugin lists in which every plugin is valid and no name occurs twice;
  the registry then maps each name to its plugin.  Otherwise it returns a \<open>SetupError\<close> that reports the error of every
  invalid plugin.\<close>

lemma NewLoader_accepts:
  assumes "lists_map order"
  shows "case NewLoader order ps tf dflt of
      Inr l \<Rightarrow> (\<forall>p \<in> set ps. plugin_validate p = None) \<and> distinct (map pName ps)
        \<and> typeField l = (if tf = [] then ''type'' else tf) \<and> defaultType l = dflt
        \<and> (\<forall>k. fmlookup (registry l) k = find (\<lambda>p. pName p = k) ps)
    | Inl e \<Rightarrow> \<not> ((\<forall>p \<in> set ps. plugin_validate p = None) \<and> distinct (map pName ps))
        \<and> (\<exists>errs. e = SetupError errs \<and> errs \<noteq> []
            \<and> (\<forall>p \<in> set ps. \<forall>x. plugin_validate p = Some x \<longrightarrow> x \<in> set errs))"
proof (cases "validatePlugins order ps = []")
  case True
  then have "(\<forall>p \<in> set ps. plugin_validate p = None) \<and> distinct (map pName ps)"
    using validatePlugins_nil [OF assms] by blast
  then show ?thesis using True registry_lookup [of ps fmempty] by (auto simp: NewLoader_def Let_def split: option.splits)
next
  case False
  obtain counts errs where loop: "count_loop ps (fmempty, []) = (counts, errs)" by fastforce
  have "x \<in> set (validatePlugins order ps)" if "p \<in> set ps" "plugin_validate p = Some x" for p x
  proof -
    have "errs = List.map_filter plugin_validate ps" using count_loop_result [OF loop] by simp
    moreover have "x \<in> set (List.map_filter plugin_validate ps)" using that by (force simp: List.map_filter_def)
    ultimately show ?thesis
      using duplicate_loop_prefix [of errs "order counts"] by (auto simp: validatePlugins_def loop)
  qed
  then show ?thesis using False validatePlugins_nil [OF assms, of ps] by (auto simp: NewLoader_def Let_def)
qed

text \<open>Two plugins whose managers return their names.\<close>

definition sample_plugin :: "string \<Rightarrow> (string, string, nat) Plugin" where
  "sample_plugin name = \<lparr>pName = name, pStability = Stable, pDeprecated = False, pInfo = [], pDoc = [],
     pManager = Some (ConfigureWith (\<lambda>c w. (Inr (name @ c), w)))\<rparr>"

definition sorted_counts :: "(string, nat) fmap \<Rightarrow> (string \<times> nat) list" where
  "sorted_counts m = map (\<lambda>k. (k, the (fmlookup m k))) (sorted_list_of_fset (fmdom m))"

lemma sorted_counts_lists: "lists_map sorted_counts"
  by (auto simp: lists_map_def sorted_counts_def sorted_list_of_fset.rep_eq fmdomI fmlookup_dom_iff image_iff)

lemma sample_validate: "name \<noteq> [] \<Longrightarrow> plugin_validate (sample_plugin name) = None"
  by (simp add: plugin_validate_def sample_plugin_def)

lemma NewLoader_accepts_witness:
  "(\<exists>l. NewLoader sorted_counts [sample_plugin ''log'', sample_plugin ''tcp''] [] [] = Inr l
      \<and> fmlookup (registry l) ''tcp'' = Some (sample_plugin ''tcp''))
   \<and> (\<exists>e. NewLoader sorted_counts [sample_plugin ''log'', sample_plugin ''log''] [] [] = Inl e)"
proof -
  have ok: "(\<forall>p \<in> set [sample_plugin ''log'', sample_plugin ''tcp'']. plugin_validate p = None)
      \<and> distinct (map pName [sample_plugin ''log'', sample_plugin ''tcp''])"
    by (simp add: sample_validate) (simp add: sample_plugin_def)
  have "find (\<lambda>p. pName p = ''tcp'') [sample_plugin ''log'', sample_plugin ''tcp''] = Some (sample_plugin ''tcp'')"
    by (simp add: sample_plugin_def)
  moreover have "\<not> distinct (map pName [sample_plugin ''log'', sample_plugin ''log''])" by simp
  ultimately show ?thesis
    using NewLoader_accepts [OF sorted_counts_lists, of "[sample_plugin ''log'', sample_plugin ''tcp'']" "[]" "[]"]
      NewLoader_accepts [OF sorted_counts_lists, of "[sample_plugin ''log'', sample_plugin ''log'']" "[]" "[]"] ok
    by (auto split: sum.splits)
qed

text \<open>C34. A loader gives a configuration to the manager of the plugin that has the configured type, or the default
  type when none is configured, and to no other; an unknown type is an error \<open>IsUnknownInputError\<close>
  recognizes, a missing one an error that wraps \<open>ErrNoInputConfigured\<close>.  It never meets a nil manager.\<close>

theorem loader_dispatch:
  assumes "NewLoader order ps tf dflt = Inr l" and "lists_map order"
  shows "case (case cfg_String cfg (typeField l) of Inr n \<Rightarrow> Some n | Inl _ \<Rightarrow> if dflt = [] then None else Some dflt) of
      None \<Rightarrow> (\<exists>e. Configure cfg_String cfg l w = (Inl e, w) \<and> errors_Is e ErrNoInputConfigured \<and> \<not> IsUnknownInputError e)
    | Some n \<Rightarrow>
        if n \<in> pName ` set ps
        then \<exists>p m. p \<in> set ps \<and> pName p = n \<and> pManager p = Some m \<and> Configure cfg_String cfg l w = mCreate m cfg w
        else \<exists>e. Configure cfg_String cfg l w = (Inl e, w) \<and> IsUnknownInputError e"
proof -
  have valid: "\<forall>p \<in> set ps. plugin_validate p = None" and dist: "distinct (map pName ps)"
    and reg: "\<And>k. fmlookup (registry l) k = find (\<lambda>p. pName p = k) ps" and dflt: "defaultType l = dflt"
    using assms(1) validatePlugins_nil [OF assms(2), of ps] registry_lookup [of ps fmempty]
    by (auto simp: NewLoader_def Let_def split: if_splits option.splits)
  have missing: "errors_Is (LoadError [] ErrNoInputConfigured m) ErrNoInputConfigured"
      "\<not> IsUnknownInputError (LoadError [] ErrNoInputConfigured m)" for m
    by (simp_all add: errors_Is.simps IsUnknownInputError_def ErrNoInputConfigured_def ErrUnknownInput_def)
  have unknown: "IsUnknownInputError (LoadError n ErrUnknownInput [])" for n
    by (simp add: errors_Is.simps IsUnknownInputError_def)
  show ?thesis
  proof (cases "case cfg_String cfg (typeField l) of Inr n \<Rightarrow> Some n | Inl _ \<Rightarrow> if dflt = [] then None else Some dflt")
    case None
    then show ?thesis using missing by (auto simp: Configure_def Let_def dflt split: sum.splits if_splits)
  next
    case (Some n)
    then have conf: "Configure cfg_String cfg l w =
        (case find (\<lambda>p. pName p = n) ps of
           None \<Rightarrow> (Inl (LoadError n ErrUnknownInput []), w)
         | Some p \<Rightarrow> (case pManager p of
             None \<Rightarrow> (Inl (Panic ''nil pointer dereference''), w) | Some m \<Rightarrow> mCreate m cfg w))"
      by (auto simp: Configure_def Let_def dflt reg split: sum.splits if_splits)
    show ?thesis
    proof (cases "find (\<lambda>p. pName p = n) ps")
      case None
      then have "n \<notin> pName ` set ps" by (auto simp: find_None_iff)
      then show ?thesis using Some conf None unknown by simp
    next
      case (Some p)
      then have p: "p \<in> set ps" "pName p = n" by (auto simp: find_Some_iff)
      with valid obtain m where "pManager p = Some m" by (auto simp: plugin_validate_def split: if_splits)
      then show ?thesis using \<open>_ = Some n\<close> conf Some p by auto
    qed
  qed
qed

theorem loader_dispatch_witness:
  "\<exists>l. NewLoader sorted_counts [sample_plugin ''log'', sample_plugin ''tcp''] [] [] = Inr l
     \<and> fst (Configure (\<lambda>c f. Inr c) ''tcp'' l 0) = Inr ''tcptcp''
     \<and> (\<exists>e. Configure (\<lambda>c f. Inr c) ''udp'' l 0 = (Inl e, 0) \<and> IsUnknownInputError e)"
proof -
  let ?ps = "[sample_plugin ''log'', sample_plugin ''tcp'']"
  have "validatePlugins sorted_counts ?ps = []"
    unfolding validatePlugins_nil [OF sorted_counts_lists] by (simp add: sample_validate) (simp add: sample_plugin_def)
  then obtain l where l: "NewLoader sorted_counts ?ps [] [] = Inr l" by (simp add: NewLoader_def Let_def)
  have names: "pName (sample_plugin n) = n" "pManager (sample_plugin n) = Some (ConfigureWith (\<lambda>c w. (Inr (n @ c), w)))" for n
    by (simp_all add: sample_plugin_def)
  from loader_dispatch [OF l sorted_counts_lists, of "\<lambda>c f. Inr c" "''tcp''" 0]
    loader_dispatch [OF l sorted_counts_lists, of "\<lambda>c f. Inr c" "''udp''" 0] l
  show ?thesis by (auto simp: names ConfigureWith_def)
qed

end
