(* ===== verification/Input_Stateless.thy ===== *)
theory Input_Stateless
  imports Publisher Input_Plugin
begin

text \<open>
  \<open>pkg/manager/input/input-stateless/stateless.go\<close>: the manager of stateless inputs and the run of one.  Inputs are the
  user's code: functions on the world, which may return, panic or block.
\<close>

section \<open>The manager\<close>

text \<open>The interface \<open>Publisher\<close> has the one method \<open>Publish\<close>.\<close>

type_synonym ('e, 'w) Publisher = "'e \<Rightarrow> 'w \<Rightarrow> unit call \<times> 'w"

record ('ctx, 'e, 'w) stateless_input =
  inName :: string
  inTest :: "'ctx \<Rightarrow> 'w \<Rightarrow> error option call \<times> 'w"
  inRun :: "'ctx \<Rightarrow> ('e, 'w) Publisher \<Rightarrow> 'w \<Rightarrow> error option call \<times> 'w"

text \<open>A \<open>configuredInput\<close> is the input it holds.\<close>

definition stateless_Init :: "Mode \<Rightarrow> 'w \<Rightarrow> error option \<times> 'w" where
  "stateless_Init m w = (None, w)"

definition stateless_Create ::
    "('c \<Rightarrow> ('ctx, 'e, 'v) stateless_input result) \<Rightarrow> 'c \<Rightarrow> 'w \<Rightarrow> ('ctx, 'e, 'v) stateless_input result \<times> 'w" where
  "stateless_Create configure cfg w = (case configure cfg of Inl e \<Rightarrow> (Inl e, w) | Inr inp \<Rightarrow> (Inr inp, w))"

definition NewInputManager ::
    "('c \<Rightarrow> ('ctx, 'e, 'v) stateless_input result) \<Rightarrow> ('c, ('ctx, 'e, 'v) stateless_input, 'w) manager" where
  "NewInputManager configure = \<lparr>mInit = stateless_Init, mCreate = stateless_Create configure\<rparr>"

definition stateless_Name :: "('ctx, 'e, 'w) stateless_input \<Rightarrow> string" where
  "stateless_Name si = inName si"

definition stateless_Test :: "('ctx, 'e, 'w) stateless_input \<Rightarrow> 'ctx \<Rightarrow> 'w \<Rightarrow> error option call \<times> 'w" where
  "stateless_Test si ctx w = inTest si ctx w"

section \<open>Running an input\<close>

text \<open>What the deferred \<open>recover\<close> makes of a panic; the stack trace is not modelled.\<close>

definition panic_error :: "panic_value \<Rightarrow> error" where
  "panic_error v = (case v of PanicError e \<Rightarrow> e | PanicValue s \<Rightarrow> ErrNew (''input panic with: '' @ s))"

text \<open>\<open>defer client.Close()\<close>: the error is dropped, a panic replaces what the body was doing, a blocked body is never left.\<close>

definition with_close :: "('e, 'w) Client \<Rightarrow> error option call \<times> 'w \<Rightarrow> error option call \<times> 'w" where
  "with_close client body =
     (case body of
        (CBlock, w) \<Rightarrow> (CBlock, w)
      | (out, w) \<Rightarrow>
          (case clClose client w of
             (CRet _, w1) \<Rightarrow> (out, w1)
           | (CPanic v, w1) \<Rightarrow> (CPanic v, w1)
           | (CBlock, w1) \<Rightarrow> (CBlock, w1)))"

definition recovering :: "error option call \<times> 'w \<Rightarrow> error option call \<times> 'w" where
  "recovering body = (case body of (CPanic v, w) \<Rightarrow> (CRet (Some (panic_error v)), w) | r \<Rightarrow> r)"

definition stateless_config :: "'ref \<Rightarrow> ('ref, 'k) ClientConfig" where
  "stateless_config ref =
     \<lparr>cfgPublishMode = DefaultGuarantees, cfgCloseRef = Some ref, cfgWaitClose = 0, cfgACKHandler = None\<rparr>"

definition stateless_Run ::
    "('ctx \<Rightarrow> 'ref) \<Rightarrow> ('ctx, 'e, 'w) stateless_input \<Rightarrow> 'ctx \<Rightarrow> ('e, 'ref, 'k, 'w) Pipeline \<Rightarrow> 'w \<Rightarrow> error option call \<times> 'w" where
  "stateless_Run Cancelation si ctx pipeline w =
     recovering
       (case plConnectWith pipeline (stateless_config (Cancelation ctx)) w of
          (CPanic v, w1) \<Rightarrow> (CPanic v, w1)
        | (CBlock, w1) \<Rightarrow> (CBlock, w1)
        | (CRet (Inl err), w1) \<Rightarrow> (CRet (Some err), w1)
        | (CRet (Inr client), w1) \<Rightarrow> with_close client (inRun si ctx (clPublish client) w1))"

section \<open>No client leaks and no panic escapes\<close>

text \<open>
  What an observer sees of a run: connections, runs of the input, calls of \<open>Close\<close>.  \<open>observed\<close> says that \<open>seen\<close> is such a
  record for a pipeline and an input: every call is noted whether it returns, panics or blocks, an attempt to connect only
  when it gives a client, and nothing but these calls writes the record.
\<close>

datatype seen_call = Connected | Ran | Closed

definition observed ::
    "('w \<Rightarrow> seen_call list) \<Rightarrow> ('e, 'ref, 'k, 'w) Pipeline \<Rightarrow> ('ctx, 'e, 'w) stateless_input \<Rightarrow> bool" where
  "observed seen P si \<longleftrightarrow>
     (\<forall>cfg w client w1. plConnectWith P cfg w = (CRet (Inr client), w1) \<longrightarrow>
        seen w1 = seen w @ [Connected]
        \<and> (\<forall>e w2. seen (snd (clPublish client e w2)) = seen w2)
        \<and> (\<forall>w2. seen (snd (clClose client w2)) = seen w2 @ [Closed]))
     \<and> (\<forall>cfg w. (\<forall>client. fst (plConnectWith P cfg w) \<noteq> CRet (Inr client)) \<longrightarrow> seen (snd (plConnectWith P cfg w)) = seen w)
     \<and> (\<forall>ctx publish w. (\<forall>e w2. seen (snd (publish e w2)) = seen w2) \<longrightarrow> seen (snd (inRun si ctx publish w)) = seen w @ [Ran])"

lemma recovering_no_panic: "recovering r = (out, w) \<Longrightarrow> out \<noteq> CPanic v"
  by (cases r; cases "fst r") (auto simp: recovering_def)

text \<open>C37. Running a stateless input, for any pipeline, client and input, whose calls may return, panic or block.  A panic
  never escapes, also not one of \<open>ConnectWith\<close> or of \<open>Close\<close>.  Without a client the input does not run, and the error or the panic is
  returned.  With one the input runs once, and unless it blocks the client is closed exactly once, afterwards; the
  result is the input's, a panic of \<open>Close\<close> takes its place, and a panic of an error value is returned as that error.\<close>

theorem stateless_Run_closes_client:
  assumes "observed seen P si" and "stateless_Run Cancelation si ctx P w = (out, w')"
  shows "(\<forall>v. out \<noteq> CPanic v)
     \<and> (\<forall>r w1. plConnectWith P (stateless_config (Cancelation ctx)) w = (r, w1) \<longrightarrow>
         (case r of
            CRet (Inl err) \<Rightarrow> out = CRet (Some err) \<and> seen w' = seen w
          | CPanic v \<Rightarrow> out = CRet (Some (panic_error v)) \<and> seen w' = seen w
          | CBlock \<Rightarrow> out = CBlock \<and> seen w' = seen w
          | CRet (Inr client) \<Rightarrow>
              (\<exists>ran w2. inRun si ctx (clPublish client) w1 = (ran, w2) \<and> seen w2 = seen w @ [Connected, Ran]
                 \<and> (if ran = CBlock then out = CBlock \<and> w' = w2
                    else w' = snd (clClose client w2) \<and> seen w' = seen w @ [Connected, Ran, Closed]
                      \<and> out = (case (fst (clClose client w2), ran) of
                            (CBlock, _) \<Rightarrow> CBlock
                          | (CPanic v, _) \<Rightarrow> CRet (Some (panic_error v))
                          | (CRet _, CPanic v) \<Rightarrow> CRet (Some (panic_error v))
                          | (CRet _, _) \<Rightarrow> ran)))))"
proof (intro conjI allI impI)
  show "out \<noteq> CPanic v" for v using recovering_no_panic [OF assms(2) [unfolded stateless_Run_def]] .
next
  fix r w1
  assume conn: "plConnectWith P (stateless_config (Cancelation ctx)) w = (r, w1)"
  have same: "seen w1 = seen w" if "\<And>client. r \<noteq> CRet (Inr client)"
    using assms(1) conn that unfolding observed_def by (metis fst_conv snd_conv)
  show "case r of
      CRet (Inl err) \<Rightarrow> out = CRet (Some err) \<and> seen w' = seen w
    | CPanic v \<Rightarrow> out = CRet (Some (panic_error v)) \<and> seen w' = seen w
    | CBlock \<Rightarrow> out = CBlock \<and> seen w' = seen w
    | CRet (Inr client) \<Rightarrow>
        (\<exists>ran w2. inRun si ctx (clPublish client) w1 = (ran, w2) \<and> seen w2 = seen w @ [Connected, Ran]
           \<and> (if ran = CBlock then out = CBlock \<and> w' = w2
              else w' = snd (clClose client w2) \<and> seen w' = seen w @ [Connected, Ran, Closed]
                \<and> out = (case (fst (clClose client w2), ran) of
                      (CBlock, _) \<Rightarrow> CBlock
                    | (CPanic v, _) \<Rightarrow> CRet (Some (panic_error v))
                    | (CRet _, CPanic v) \<Rightarrow> CRet (Some (panic_error v))
                    | (CRet _, _) \<Rightarrow> ran)))"
  proof (cases r)
    case (CRet x)
    show ?thesis
    proof (cases x)
      case (Inl err)
      then show ?thesis using assms(2) conn same CRet by (simp add: stateless_Run_def recovering_def)
    next
      case (Inr client)
      obtain ran w2 where run: "inRun si ctx (clPublish client) w1 = (ran, w2)" by fastforce
      obtain c w3 where close: "clClose client w2 = (c, w3)" by fastforce
      have seen: "seen w1 = seen w @ [Connected]" "seen w2 = seen w1 @ [Ran]" "seen w3 = seen w2 @ [Closed]"
        using assms(1) conn [unfolded CRet Inr] run close unfolding observed_def by (metis snd_conv)+
      have "recovering (with_close client (ran, w2)) = (out, w')"
        using assms(2) by (simp add: stateless_Run_def conn CRet Inr run)
      then show ?thesis unfolding CRet Inr using run close seen
        by (cases ran; cases c) (auto simp: with_close_def recovering_def)
    qed
  next
    case (CPanic v)
    then show ?thesis using assms(2) conn same by (simp add: stateless_Run_def recovering_def)
  next
    case CBlock
    then show ?thesis using assms(2) conn same by (simp add: stateless_Run_def recovering_def)
  qed
qed

text \<open>A connector that counts its clients is observed, and the client of a panicking input is closed although \<open>Close\<close> panics too.\<close>

definition noting_client :: "(nat, seen_call list) Client" where
  "noting_client = fake_Client \<lparr>PublishFunc = None,
     CloseFunc = Some (\<lambda>tr. (CPanic (PanicError (ErrNew ''close'')), tr @ [Closed]))\<rparr>"

definition noting_connector :: "(nat, unit, unit, seen_call list) Pipeline" where
  "noting_connector = FakeConnector (\<lambda>_ tr. (CRet (Inr noting_client), tr @ [Connected]))"

definition crashing_input :: "(unit, nat, seen_call list) stateless_input" where
  "crashing_input = \<lparr>inName = ''crash'', inTest = (\<lambda>_ w. (CRet None, w)),
     inRun = (\<lambda>_ publish tr. (CPanic (PanicError (ErrNew ''boom'')), snd (publish 7 tr) @ [Ran]))\<rparr>"

theorem stateless_Run_closes_client_witness:
  "stateless_Run (\<lambda>_. ()) crashing_input () noting_connector [] = (CRet (Some (ErrNew ''close'')), [Connected, Ran, Closed])"
proof -
  obtain out w' where run: "stateless_Run (\<lambda>_. ()) crashing_input () noting_connector [] = (out, w')" by fastforce
  have "observed (\<lambda>tr. tr) noting_connector crashing_input"
    by (auto simp: observed_def noting_connector_def noting_client_def crashing_input_def FakeConnector_def fake_Client_def fake_Publish_def fake_Close_def)
  note q = stateless_Run_closes_client [OF this run, THEN conjunct2, rule_format]
  have "plConnectWith noting_connector (stateless_config ()) [] = (CRet (Inr noting_client), [Connected])"
    by (simp add: noting_connector_def FakeConnector_def)
  from q [OF this] have "out = CRet (Some (ErrNew ''close''))" "w' = [Connected, Ran, Closed]"
    by (simp_all add: crashing_input_def noting_client_def fake_Client_def fake_Publish_def fake_Close_def panic_error_def)
  then show ?thesis using run by simp
qed

text \<open>With the connector of the tests the number of active clients is back at its old value.\<close>

lemma stateless_Run_BuildConnector:
  assumes "\<And>publish c w. \<exists>out w'. inRun si ctx publish (c, w) = (out, (c, w')) \<and> out \<noteq> CBlock"
  shows "\<exists>r w'. stateless_Run Cancelation si ctx (BuildConnector :: ('e, 'ref, 'k, ClientCounter \<times> 'w) Pipeline) (c, w)
       = (CRet r, (c\<lparr>total_clients := Total c + 1\<rparr>, w'))"
proof -
  let ?P = "BuildConnector :: ('e, 'ref, 'k, ClientCounter \<times> 'w) Pipeline"
  let ?c1 = "c\<lparr>total_clients := Total c + 1, active_clients := Active c + 1\<rparr>"
  have "\<exists>client. plConnectWith ?P (stateless_config (Cancelation ctx)) (c, w) = (CRet (Inr client), (?c1, w))
     \<and> (\<forall>c' w'. clClose client (c', w') = (CRet None, (c'\<lparr>active_clients := Active c' - 1\<rparr>, w')))"
    by (rule BuildConnector_counts)
  then obtain client where client: "plConnectWith ?P (stateless_config (Cancelation ctx)) (c, w) = (CRet (Inr client), (?c1, w))"
    "\<forall>c' w'. clClose client (c', w') = (CRet None, (c'\<lparr>active_clients := Active c' - 1\<rparr>, w'))"
    by blast
  obtain out w' where run: "inRun si ctx (clPublish client) (?c1, w) = (out, (?c1, w'))" "out \<noteq> CBlock" using assms by blast
  then show ?thesis using client
    by (cases out) (simp_all add: stateless_Run_def with_close_def recovering_def Active_def)
qed

end
