(* ===== verification/App.thy ===== *)
theory App
  imports Memlog_Store Loadgenerator
begin

text \<open>
  The application: its configuration file (\<open>pkg/config/config.go\<close>), the command of the load generator
  (\<open>inputs/loadgenerator/loadgenerator.go\<close>) and \<open>main.go\<close>.

  Parameters: reading a file, parsing and unpacking YAML, the logger (\<open>logp\<close>), the flag parser of \<open>cobra\<close>, and
  \<open>Start\<close> of the load generator.  The log output itself is not modelled.
\<close>

section \<open>The configuration file\<close>

definition defaultConfigName :: string where "defaultConfigName = ''agent-inputs.yml''"

text \<open>The variables the flags \<open>c\<close> and \<open>path.config\<close> are bound to, as \<open>init\<close> sets them.\<close>

record config_flags =
  ConfigPath :: string
  ConfigFilePath :: string

definition init_flags :: config_flags where
  "init_flags = \<lparr>ConfigPath = [], ConfigFilePath = defaultConfigName\<rparr>"

definition filepath_IsAbs :: "string \<Rightarrow> bool" where
  "filepath_IsAbs p \<longleftrightarrow> p \<noteq> [] \<and> hd p = CHR ''/''"

definition Filepath :: "config_flags \<Rightarrow> string" where
  "Filepath fl =
     (if ConfigFilePath fl = [] \<or> ConfigFilePath fl = defaultConfigName
      then filepath_Join [ConfigPath fl, defaultConfigName]
      else if filepath_IsAbs (ConfigFilePath fl) then ConfigFilePath fl
      else filepath_Join [ConfigPath fl, ConfigFilePath fl])"

text \<open>The part of \<open>logp.Config\<close> the code sets; \<open>'l\<close> is the rest.\<close>

record 'l log_config =
  Beat :: string
  ToStderr :: bool
  ToFiles :: bool
  DebugLevel :: bool
  Selectors :: "string list"
  logRest :: 'l

record 'l app_config =
  Log :: "'l log_config"
  LoadGenerator :: Config

definition defaultConfig :: "'l log_config \<Rightarrow> 'l app_config" where
  "defaultConfig logp_DefaultConfig =
     \<lparr>Log = logp_DefaultConfig\<lparr>Beat := ''agent-inputs'', ToStderr := True, ToFiles := False, DebugLevel := True, Selectors := [''*'']\<rparr>,
      LoadGenerator = DefaultConfig\<rparr>"

text \<open>What the application takes from outside; \<open>'y\<close> is a parsed YAML document.\<close>

record ('l, 'y, 'w) app_env =
  ReadFile :: "string \<Rightarrow> 'w \<Rightarrow> string result \<times> 'w"
  NewConfigWithYAML :: "string \<Rightarrow> 'y result"
  UnpackConfig :: "'y \<Rightarrow> 'l app_config \<Rightarrow> error option \<times> 'l app_config"
  logp_DefaultConfig :: "'l log_config"
  logp_Configure :: "'l log_config \<Rightarrow> 'w \<Rightarrow> error option \<times> 'w"
  ParseFlags :: "string list \<Rightarrow> config_flags \<Rightarrow> (config_flags \<times> string list) result"
  loadgen_Start :: "'w \<Rightarrow> error option \<times> 'w"

definition ReadConfig :: "('l, 'y, 'w) app_env \<Rightarrow> config_flags \<Rightarrow> 'w \<Rightarrow> 'l app_config result \<times> 'w" where
  "ReadConfig A fl w =
     (let path = Filepath fl in
      case ReadFile A path w of
        (Inl err, w1) \<Rightarrow> (Inl (ErrWrap (''error reading input file '' @ quoted path) err), w1)
      | (Inr configYAML, w1) \<Rightarrow>
          (case NewConfigWithYAML A configYAML of
             Inl err \<Rightarrow> (Inl (ErrWrap ''error parsing yaml config'' err), w1)
           | Inr raw \<Rightarrow>
               (case UnpackConfig A raw (defaultConfig (logp_DefaultConfig A)) of
                  (Some err, config) \<Rightarrow> (Inl (ErrWrap ''error unpacking shipper config'' err), w1)
                | (None, config) \<Rightarrow> (Inr config, w1))))"

section \<open>Commands\<close>

text \<open>How the program ends: it returns from \<open>main\<close>, panics, or logs a fatal message.\<close>

datatype app_end = Done | AppPanic error | LoggedFatal string error

text \<open>The run function of the command does not use the configuration it is made with.\<close>

definition loadgen_run :: "('l, 'y, 'w) app_env \<Rightarrow> Config \<Rightarrow> 'w \<Rightarrow> app_end \<times> 'w" where
  "loadgen_run A cfg w =
     (case loadgen_Start A w of (Some err, w1) \<Rightarrow> (LoggedFatal [] err, w1) | (None, w1) \<Rightarrow> (Done, w1))"

record ('l, 'y, 'w) command =
  Use :: string
  Short :: string
  RunCmd :: "('l, 'y, 'w) app_env \<Rightarrow> 'w \<Rightarrow> app_end \<times> 'w"

definition Command :: "Config \<Rightarrow> ('l, 'y, 'w) command" where
  "Command cfg = \<lparr>Use = ''loadgenerator'', Short = ''Load generator'', RunCmd = (\<lambda>A. loadgen_run A cfg)\<rparr>"

text \<open>\<open>rootCmd.Execute\<close>: parse the flags, then run the command named first; without one the help is printed.\<close>

definition unknown_command :: "string \<Rightarrow> error" where
  "unknown_command c = ErrNew (''unknown command '' @ c)"

definition Execute_root ::
    "('l, 'y, 'w) app_env \<Rightarrow> ('l, 'y, 'w) command \<Rightarrow> string list \<Rightarrow> config_flags \<Rightarrow> 'w \<Rightarrow> app_end \<times> 'w" where
  "Execute_root A cmd args fl w =
     (case ParseFlags A args fl of
        Inl err \<Rightarrow> (LoggedFatal [] err, w)
      | Inr (fl', rest) \<Rightarrow>
          (case rest of
             [] \<Rightarrow> (Done, w)
           | c # _ \<Rightarrow> if c = Use cmd then RunCmd cmd A w else (LoggedFatal [] (unknown_command c), w)))"

definition app_main :: "('l, 'y, 'w) app_env \<Rightarrow> string list \<Rightarrow> 'w \<Rightarrow> app_end \<times> 'w" where
  "app_main A args w =
     (case logp_Configure A ((logp_DefaultConfig A)\<lparr>Beat := ''agent-inputs'', ToStderr := True, ToFiles := False\<rparr>) w of
        (Some err, w1) \<Rightarrow> (AppPanic (ErrWrap ''could not initialise logger'' err), w1)
      | (None, w1) \<Rightarrow>
          (case ReadConfig A init_flags w1 of
             (Inl err, w2) \<Rightarrow> (LoggedFatal ''could not read config file'' err, w2)
           | (Inr cfg, w2) \<Rightarrow>
               (case logp_Configure A (Log cfg) w2 of
                  (Some err, w3) \<Rightarrow> (LoggedFatal ''applying logger configuration'' err, w3)
                | (None, w3) \<Rightarrow> Execute_root A (Command (LoadGenerator cfg)) args init_flags w3)))"

section \<open>Properties\<close>

lemma Filepath_init: "Filepath init_flags = defaultConfigName"
  by code_simp

text \<open>A path given with \<open>-c\<close> is used as it is when it is absolute, the default name only in \<open>path.config\<close>.\<close>

lemma Filepath_absolute: "filepath_IsAbs f \<Longrightarrow> Filepath \<lparr>ConfigPath = d, ConfigFilePath = f\<rparr> = f"
  by (auto simp: Filepath_def filepath_IsAbs_def defaultConfigName_def)

lemma Filepath_example:
  "Filepath \<lparr>ConfigPath = ''/etc/agent'', ConfigFilePath = ''sub/../my.yml''\<rparr> = ''/etc/agent/my.yml''"
  by code_simp

text \<open>C38. The flags \<open>-c\<close> and \<open>--path.config\<close> have no effect: \<open>main\<close> reads the configuration before \<open>cobra\<close> parses
  the flags.  Two command lines that differ only in flags do the same, whatever the world is; the only file that
  matters is \<open>agent-inputs.yml\<close> in the working directory, and its \<open>loadgenerator\<close> section does not matter to the command.\<close>

theorem main_ignores_flags:
  assumes "ParseFlags A args init_flags = Inr (fl, rest)" and "ParseFlags A args' init_flags = Inr (fl', rest)"
    and "\<forall>w. read ''agent-inputs.yml'' w = ReadFile A ''agent-inputs.yml'' w"
  shows "app_main A args w = app_main A args' w \<and> app_main (A\<lparr>ReadFile := read\<rparr>) args w = app_main A args w
     \<and> RunCmd (Command cfg) A = RunCmd (Command cfg') A"
proof -
  have exec: "Execute_root A cmd args init_flags = Execute_root A cmd args' init_flags" for cmd
    by (rule ext) (simp add: Execute_root_def assms)
  have args: "app_main A args w = app_main A args' w" unfolding app_main_def exec ..
  have fpath: "Filepath init_flags = ''agent-inputs.yml''" unfolding Filepath_init by (simp add: defaultConfigName_def)
  have sel: "NewConfigWithYAML (A\<lparr>ReadFile := read\<rparr>) = NewConfigWithYAML A" "UnpackConfig (A\<lparr>ReadFile := read\<rparr>) = UnpackConfig A"
    "logp_DefaultConfig (A\<lparr>ReadFile := read\<rparr>) = logp_DefaultConfig A" "logp_Configure (A\<lparr>ReadFile := read\<rparr>) = logp_Configure A"
    "ReadFile (A\<lparr>ReadFile := read\<rparr>) = read" "ParseFlags (A\<lparr>ReadFile := read\<rparr>) = ParseFlags A"
    by simp_all
  have conf: "ReadConfig (A\<lparr>ReadFile := read\<rparr>) init_flags = ReadConfig A init_flags"
    by (rule ext) (simp only: ReadConfig_def fpath Let_def assms(3) sel)
  have "RunCmd (Command c) (A\<lparr>ReadFile := read\<rparr>) = RunCmd (Command c) A" for c
    by (simp add: Command_def loadgen_run_def fun_eq_iff)
  then have exec2: "Execute_root (A\<lparr>ReadFile := read\<rparr>) (Command c) args init_flags = Execute_root A (Command c) args init_flags" for c
    by (intro ext) (simp add: Execute_root_def assms(1) split: list.split)
  have "app_main (A\<lparr>ReadFile := read\<rparr>) args w = app_main A args w" unfolding app_main_def conf sel exec2 ..
  then show ?thesis using args by (simp add: Command_def loadgen_run_def fun_eq_iff)
qed

text \<open>The world is the list of the files read; the flag \<open>-c\<close> is parsed.\<close>

definition trace_app :: "(unit, string, string list) app_env" where
  "trace_app =
     \<lparr>ReadFile = (\<lambda>p w. (Inr [], w @ [p])), NewConfigWithYAML = Inr, UnpackConfig = (\<lambda>y c. (None, c)),
      logp_DefaultConfig = \<lparr>Beat = [], ToStderr = False, ToFiles = True, DebugLevel = False, Selectors = [], logRest = ()\<rparr>,
      logp_Configure = (\<lambda>c w. (None, w)),
      ParseFlags = (\<lambda>args fl. case args of [''-c'', f] \<Rightarrow> Inr (fl\<lparr>ConfigFilePath := f\<rparr>, []) | _ \<Rightarrow> Inr (fl, args)),
      loadgen_Start = (\<lambda>w. (None, w))\<rparr>"

theorem main_ignores_flags_witness:
  "app_main trace_app [''-c'', ''/my.yml''] [] = app_main trace_app [] []
   \<and> app_main trace_app [''-c'', ''/my.yml''] [] = (Done, [''agent-inputs.yml''])"
proof -
  have p: "ParseFlags trace_app [''-c'', ''/my.yml''] init_flags = Inr (init_flags\<lparr>ConfigFilePath := ''/my.yml''\<rparr>, [])"
    "ParseFlags trace_app [] init_flags = Inr (init_flags, [])"
    by (simp_all add: trace_app_def)
  have "app_main trace_app [] [] = (Done, [''agent-inputs.yml''])"
    by (simp add: app_main_def ReadConfig_def Filepath_init Execute_root_def trace_app_def defaultConfigName_def Let_def)
  then show ?thesis using main_ignores_flags [OF p, of "ReadFile trace_app" "[]"] by simp
qed

end
