(* ===== verification/Cursor_Run.thy ===== *)
theory Cursor_Run
  imports Cursor_Manager
begin

text \<open>
  \<open>managedInput.Run\<close> (\<open>input-cursor/input.go\<close>) of all inputs of a manager at once: every input starts one goroutine per
  source, which executes \<open>runSource\<close>, next to the acknowledgements and the cleaner.  A worker is a pair of the number of
  its input and of its source; its steps are the calls of \<open>runSource\<close> that touch the shared store, the pipeline or the
  context, so all interleavings of these are covered.  The error a call outside the repository returns is arbitrary.
\<close>

section \<open>The workers\<close>

text \<open>Where a worker is: the resource it has taken, and the error it is about to return.\<close>

datatype pc =
    Starting
  | Connected
  | Holding nat
  | Locked nat
  | Running nat
  | Leaving nat "error option"
  | Closing "error option"
  | Returning "error option"
  | Reporting "error option"
  | Ended "error option"

type_synonym worker = "nat \<times> nat"

record 'p run_state =
  rsys :: "'p csys"
  clients :: nat
  cancelled :: "nat \<Rightarrow> bool"
  pcs :: "worker \<Rightarrow> pc"
  collected :: "nat \<Rightarrow> error list"

definition workers :: "'i managedInput list \<Rightarrow> worker set" where
  "workers inputs = {(g, i). g < length inputs \<and> i < length (sources (inputs ! g))}"

definition source_key :: "string \<Rightarrow> 'i managedInput list \<Rightarrow> worker \<Rightarrow> string" where
  "source_key mtype inputs w = createSourceID mtype (inputs ! fst w) (sources (inputs ! fst w) ! snd w)"

definition goto :: "worker \<Rightarrow> pc \<Rightarrow> 'p run_state \<Rightarrow> 'p run_state" where
  "goto w q s = s\<lparr>pcs := (pcs s)(w := q)\<rparr>"

definition on_store :: "'p store \<Rightarrow> 'p run_state \<Rightarrow> 'p run_state" where
  "on_store c s = s\<lparr>rsys := (rsys s)\<lparr>sys_store := c\<rparr>\<rparr>"

definition set_holders :: "nat \<Rightarrow> nat \<Rightarrow> 'p run_state \<Rightarrow> 'p run_state" where
  "set_holders a n s = s\<lparr>rsys := (rsys s)\<lparr>holders := (holders (rsys s))(a := n)\<rparr>\<rparr>"

abbreviation the_store :: "'p run_state \<Rightarrow> 'p store" where
  "the_store s \<equiv> sys_store (rsys s)"

text \<open>
  \<open>runSource\<close>: connect, take the resource, lock it or give up when the context is cancelled, update the time to live, run
  the input, which publishes updates, and the deferred calls.  Then the goroutine cancels the context on an
  error and returns to the group, which collects the error.
\<close>

inductive source_step ::
    "'p persist \<Rightarrow> conversion \<Rightarrow> string \<Rightarrow> 'i managedInput list \<Rightarrow> worker \<Rightarrow> 'p run_state \<Rightarrow> 'p run_state \<Rightarrow> bool"
  for P conv mtype inputs w where
  connect_fails: "pcs s w = Starting \<Longrightarrow> source_step P conv mtype inputs w s (goto w (Returning (Some err)) s)"
| connects: "pcs s w = Starting \<Longrightarrow>
    source_step P conv mtype inputs w s (goto w Connected (s\<lparr>clients := Suc (clients s)\<rparr>))"
| gets: "pcs s w = Connected \<Longrightarrow> store_Get (source_key mtype inputs w) (the_store s) = (Some a, c) \<Longrightarrow>
    Suc (in_use (rsys s) a) < 2 ^ 64 \<Longrightarrow>
    source_step P conv mtype inputs w s (goto w (Holding a) (set_holders a (Suc (holders (rsys s) a)) (on_store c s)))"
| locks: "pcs s w = Holding a \<Longrightarrow> resource_TryLock (resources (the_store s) ! a) = (True, r) \<Longrightarrow>
    source_step P conv mtype inputs w s (goto w (Locked a) (on_store (upd_resource a (\<lambda>_. r) (the_store s)) s))"
| gives_up: "pcs s w = Holding a \<Longrightarrow> cancelled s (fst w) \<Longrightarrow>
    source_step P conv mtype inputs w s (goto w (Closing (Some err))
      (set_holders a (holders (rsys s) a - 1) (on_store (upd_resource a resource_Release (the_store s)) s)))"
| sets_ttl: "pcs s w = Locked a \<Longrightarrow>
    source_step P conv mtype inputs w s
      (goto w (Running a) (on_store (UpdateTTL P now a (cleanTimeout (inputs ! fst w)) (the_store s)) s))"
| publishes: "pcs s w = Running a \<Longrightarrow> Suc (in_use (rsys s) a) < 2 ^ 64 \<Longrightarrow>
    createUpdateOp conv ts a u (the_store s) = (Inr k, c) \<Longrightarrow>
    source_step P conv mtype inputs w s
      (s\<lparr>rsys := (rsys s)\<lparr>sys_store := c, queue := (queue (rsys s))(a := queue (rsys s) a @ [k])\<rparr>\<rparr>)"
| publish_fails: "pcs s w = Running a \<Longrightarrow> createUpdateOp conv ts a u (the_store s) = (Inl e, c) \<Longrightarrow>
    source_step P conv mtype inputs w s (on_store c s)"
| run_ends: "pcs s w = Running a \<Longrightarrow> source_step P conv mtype inputs w s (goto w (Leaving a (recovered out)) s)"
| releases: "pcs s w = Leaving a err \<Longrightarrow>
    source_step P conv mtype inputs w s (goto w (Closing err)
      (set_holders a (holders (rsys s) a - 1) (on_store (upd_resource a releaseResource (the_store s)) s)))"
| closes: "pcs s w = Closing err \<Longrightarrow>
    source_step P conv mtype inputs w s (goto w (Returning err) (s\<lparr>clients := clients s - 1\<rparr>))"
| cancels: "pcs s w = Returning err \<Longrightarrow>
    source_step P conv mtype inputs w s
      (goto w (Reporting err) (s\<lparr>cancelled := (cancelled s)(fst w := cancelled s (fst w) \<or> err \<noteq> None)\<rparr>))"
| returns: "pcs s w = Reporting err \<Longrightarrow>
    source_step P conv mtype inputs w s
      (goto w (Ended err) (s\<lparr>collected := (collected s)(fst w := collected s (fst w) @ (case err of None \<Rightarrow> [] | Some e \<Rightarrow> [e]))\<rparr>))"

text \<open>The other steps: outputs acknowledge, the cleaner runs, somebody stops an input.\<close>

inductive run_step ::
    "'p persist \<Rightarrow> conversion \<Rightarrow> (string fset \<Rightarrow> string list) \<Rightarrow> go_time \<Rightarrow> string \<Rightarrow> 'i managedInput list
     \<Rightarrow> 'p run_state \<Rightarrow> 'p run_state \<Rightarrow> bool"
  for P conv order started mtype inputs where
  source: "w \<in> workers inputs \<Longrightarrow> source_step P conv mtype inputs w s s' \<Longrightarrow> run_step P conv order started mtype inputs s s'"
| acks: "0 < n \<Longrightarrow> n \<le> length (queue (rsys s) a) \<Longrightarrow>
    Execute P conv (of_nat n) (queue (rsys s) a ! (n - 1)) (the_store s) = Inr c \<Longrightarrow>
    run_step P conv order started mtype inputs s
      (s\<lparr>rsys := (rsys s)\<lparr>sys_store := c, queue := (queue (rsys s))(a := drop n (queue (rsys s) a))\<rparr>\<rparr>)"
| cleans: "run_step P conv order started mtype inputs s (on_store (gcStore P order started now (the_store s)) s)"
| stops: "run_step P conv order started mtype inputs s (s\<lparr>cancelled := (cancelled s)(g := True)\<rparr>)"

text \<open>All inputs start on a store that was just opened.\<close>

definition run_start :: "'p store \<Rightarrow> 'p run_state" where
  "run_start c = \<lparr>rsys = \<lparr>sys_store = c, holders = (\<lambda>_. 0), queue = (\<lambda>_. [])\<rparr>, clients = 0, cancelled = (\<lambda>_. False),
     pcs = (\<lambda>_. Starting), collected = (\<lambda>_. [])\<rparr>"

inductive run_reachable ::
    "'p persist \<Rightarrow> conversion \<Rightarrow> (string fset \<Rightarrow> string list) \<Rightarrow> go_time \<Rightarrow> 'p result \<Rightarrow> string \<Rightarrow> 'i managedInput list
     \<Rightarrow> 'p run_state \<Rightarrow> bool"
  for P conv order started access mtype inputs where
  opened: "cursor_openStore P access mtype = (Inr c, p) \<Longrightarrow> run_reachable P conv order started access mtype inputs (run_start c)"
| step: "run_reachable P conv order started access mtype inputs s \<Longrightarrow> run_step P conv order started mtype inputs s s' \<Longrightarrow>
    run_reachable P conv order started access mtype inputs s'"

text \<open>\<open>grp.Wait\<close> of an input returns when its workers have ended.  \<open>sderr.WrapAll\<close> is a parameter.\<close>

definition all_ended :: "'i managedInput list \<Rightarrow> nat \<Rightarrow> 'p run_state \<Rightarrow> bool" where
  "all_ended inputs g s \<longleftrightarrow> (\<forall>i < length (sources (inputs ! g)). \<exists>err. pcs s (g, i) = Ended err)"

definition run_result :: "(error list \<Rightarrow> string \<Rightarrow> error) \<Rightarrow> string \<Rightarrow> nat \<Rightarrow> 'p run_state \<Rightarrow> error option" where
  "run_result WrapAll inputID g s =
     (if collected s g \<noteq> [] then Some (WrapAll (collected s g) (''input '' @ inputID @ '' failed'')) else None)"

inductive_cases source_stepE: "source_step P conv mtype inputs w s s'"
inductive_cases run_stepE: "run_step P conv order started mtype inputs s s'"

lemmas run_simps = goto_def on_store_def set_holders_def

section \<open>The effect of a step\<close>

text \<open>What a worker owes at a point: a reference to a resource, its lock, an open client.\<close>

fun has_lock :: "pc \<Rightarrow> nat \<Rightarrow> bool" where
  "has_lock (Locked b) a = (a = b)"
| "has_lock (Running b) a = (a = b)"
| "has_lock (Leaving b err) a = (a = b)"
| "has_lock q a = False"

fun holds :: "pc \<Rightarrow> nat \<Rightarrow> bool" where
  "holds (Holding b) a = (a = b)"
| "holds q a = has_lock q a"

fun connected :: "pc \<Rightarrow> bool" where
  "connected Starting = False"
| "connected (Returning err) = False"
| "connected (Reporting err) = False"
| "connected (Ended err) = False"
| "connected q = True"

definition locked_at :: "'p store \<Rightarrow> nat \<Rightarrow> bool" where
  "locked_at c a \<longleftrightarrow> a < length (resources c) \<and> locked (resources c ! a)"

lemma upd_nth: "b < length xs \<Longrightarrow> xs[a := x] ! b = (if a = b then x else xs ! b)"
  by (cases "a = b") auto

lemma has_lock_holds: "has_lock q a \<Longrightarrow> holds q a"
  by (cases q) auto

lemma holds_connected: "holds q a \<Longrightarrow> connected q"
  by (cases q) auto

lemma source_step_others: "source_step P conv mtype inputs w s s' \<Longrightarrow> v \<noteq> w \<Longrightarrow> pcs s' v = pcs s v"
  by (cases rule: source_step.cases) (auto simp: run_simps)

text \<open>Every step is one of the system of \<open>Cursor_System\<close>, or does not touch the store.\<close>

lemma source_step_system:
  assumes "source_step P conv mtype inputs w s s'"
    and "\<And>a. holds (pcs s w) a \<Longrightarrow> 0 < holders (rsys s) a" and "\<And>a. has_lock (pcs s w) a \<Longrightarrow> locked_at (the_store s) a"
  shows "rsys s' = rsys s \<or> cur_step P conv order started (rsys s) (rsys s')"
  using assms
  by (cases rule: source_step.cases) (auto simp: run_simps locked_at_def simp del: One_nat_def intro: cur_step.intros)

lemma source_step_holders:
  assumes "source_step P conv mtype inputs w s s'" and "\<And>a. holds (pcs s w) a \<Longrightarrow> 0 < holders (rsys s) a"
  shows "holders (rsys s') a + of_bool (holds (pcs s w) a) = holders (rsys s) a + of_bool (holds (pcs s' w) a)"
  using assms by (cases rule: source_step.cases) (auto simp: run_simps)

lemma source_step_clients:
  assumes "source_step P conv mtype inputs w s s'" and "connected (pcs s w) \<Longrightarrow> 0 < clients s"
  shows "clients s' + of_bool (connected (pcs s w)) = clients s + of_bool (connected (pcs s' w))"
  using assms by (cases rule: source_step.cases) (auto simp: run_simps)

text \<open>Which resources a change of the store leaves as they are, up to counters and cursors.\<close>

definition frame :: "nat set \<Rightarrow> 'p store \<Rightarrow> 'p store \<Rightarrow> bool" where
  "frame A c c' \<longleftrightarrow> length (resources c) \<le> length (resources c')
     \<and> (\<forall>b < length (resources c). rkey (resources c' ! b) = rkey (resources c ! b)
          \<and> (b \<notin> A \<longrightarrow> locked (resources c' ! b) = locked (resources c ! b)))
     \<and> (\<forall>b < length (resources c'). length (resources c) \<le> b \<longrightarrow> \<not> locked (resources c' ! b))"

lemma frame_upd_resource:
  assumes "rkey (f (resources c ! a)) = rkey (resources c ! a)"
    and "a \<notin> A \<Longrightarrow> locked (f (resources c ! a)) = locked (resources c ! a)"
  shows "frame A c (upd_resource a f c)"
  using assms by (auto simp: frame_def upd_resource_def upd_nth)

lemma frame_resources: "resources c' = resources c \<Longrightarrow> frame A c c'"
  by (simp add: frame_def)

lemma frame_trans:
  assumes "frame {} c c1" and "frame {} c1 c2"
  shows "frame {} c c2"
proof -
  have len: "length (resources c) \<le> length (resources c1)" "length (resources c1) \<le> length (resources c2)"
    using assms by (simp_all add: frame_def)
  have "\<not> locked (resources c2 ! b)" if "b < length (resources c2)" "length (resources c) \<le> b" for b
    using that assms by (cases "b < length (resources c1)") (simp_all add: frame_def)
  then show ?thesis using assms len by (simp add: frame_def)
qed

lemma frame_store_Get:
  assumes "store_Get key c = (Some a, c')"
  shows "frame {} c c'"
  using assms
  by (auto simp: store_Get_def states_Find_def Let_def frame_def upd_resource_def resource_Retain_def new_resource_def
      nth_append upd_nth split: option.splits if_splits)

lemma store_Get_result:
  assumes "store_Get key c = (Some a, c')" and "table_ok c"
  shows "a < length (resources c') \<and> rkey (resources c' ! a) = key"
  using assms
  by (auto simp: store_Get_def states_Find_def Let_def upd_resource_def resource_Retain_def new_resource_def table_ok_def
      nth_append upd_nth split: option.splits)

lemma frame_UpdateTTL: "frame {} c (UpdateTTL P now a t c)"
  by (auto simp: UpdateTTL_def Let_def frame_def upd_resource_def upd_nth split: prod.splits option.splits)

lemma frame_createUpdateOp: "createUpdateOp conv ts a u c = (res, c') \<Longrightarrow> frame {} c c'"
  by (auto simp: createUpdateOp_def Let_def frame_def upd_resource_def upd_nth resource_Retain_def
      split: prod.splits option.splits if_splits)

lemma frame_Execute:
  assumes "Execute P conv n i c = Inr c'"
  shows "frame {} c c'"
proof -
  have exec: "rkey (executed conv n u r) = rkey r" "locked (executed conv n u r) = locked r" for u r
    by (simp_all add: executed_def Let_def)
  have fin: "frame {} c1 (op_done n i c1)" for c1 :: "'a store"
    by (auto simp: op_done_def frame_def upd_resource_def UpdatesReleaseN_def upd_nth split: option.splits)
  show ?thesis
    using assms
    by (auto simp: Execute_def Let_def exec split: option.splits prod.splits
        intro!: frame_trans [OF _ fin] frame_trans [OF frame_resources frame_upd_resource])
qed

lemma frame_locked_at: "frame {} c c' \<Longrightarrow> locked_at c' b = locked_at c b"
  by (cases "b < length (resources c)") (auto simp: frame_def locked_at_def)

lemma locked_at_upd:
  "locked_at (upd_resource a f c) b \<longleftrightarrow>
     (if a = b then a < length (resources c) \<and> locked (f (resources c ! a)) else locked_at c b)"
  by (auto simp: locked_at_def upd_resource_def)

lemma frame_gcStore:
  assumes "enumerates order"
  shows "frame {} c (gcStore P order started now c)"
  by (rule frame_resources) (use gcStore_memory [OF assms] in blast)

text \<open>A lock is taken only when it is free, and changes hands only by a step of its owner.\<close>

lemma source_step_locks:
  assumes "source_step P conv mtype inputs w s s'"
    and "\<And>a. holds (pcs s w) a \<Longrightarrow> a < length (resources (the_store s))" and "\<And>a. has_lock (pcs s w) a \<Longrightarrow> locked_at (the_store s) a"
  shows "(locked_at (the_store s') b \<longleftrightarrow> has_lock (pcs s' w) b \<or> locked_at (the_store s) b \<and> \<not> has_lock (pcs s w) b)
     \<and> (has_lock (pcs s' w) b \<longrightarrow> has_lock (pcs s w) b \<or> \<not> locked_at (the_store s) b)"
  using assms(1)
proof (cases rule: source_step.cases)
  case (gets a c)
  then show ?thesis using frame_locked_at [OF frame_store_Get [OF gets(3)]] by (simp add: run_simps)
next
  case (locks a r)
  have "a < length (resources (the_store s))" "r = (resources (the_store s) ! a)\<lparr>locked := True\<rparr>"
    "\<not> locked (resources (the_store s) ! a)"
    using assms(2) locks by (auto simp: resource_TryLock_def split: if_splits)
  moreover from this have "\<not> locked_at (the_store s) a" by (simp add: locked_at_def)
  ultimately show ?thesis using locks by (auto simp: run_simps locked_at_upd)
next
  case (gives_up a err)
  moreover have "frame {} (the_store s) (upd_resource a resource_Release (the_store s))"
    by (rule frame_upd_resource) (simp_all add: resource_Release_def)
  ultimately show ?thesis using frame_locked_at by (auto simp: run_simps)
next
  case (sets_ttl a now)
  then show ?thesis using assms(3) by (auto simp: run_simps frame_locked_at [OF frame_UpdateTTL])
next
  case (publishes a ts u k c)
  then show ?thesis using frame_locked_at [OF frame_createUpdateOp [OF publishes(4)]] assms(3) by auto
next
  case (publish_fails a ts u e c)
  then show ?thesis using frame_locked_at [OF frame_createUpdateOp [OF publish_fails(3)]] assms(3) by (auto simp: run_simps)
next
  case (run_ends a out)
  then show ?thesis using assms(3) by (auto simp: run_simps)
next
  case (releases a err)
  then show ?thesis
    using assms(3) by (auto simp: run_simps locked_at_upd releaseResource_def resource_Release_def)
qed (auto simp: run_simps)

text \<open>Resources are never forgotten and keep their keys; a worker takes the resource of its own source.\<close>

definition keeps_keys :: "'p store \<Rightarrow> 'p store \<Rightarrow> bool" where
  "keeps_keys c c' \<longleftrightarrow> length (resources c) \<le> length (resources c')
     \<and> (\<forall>b < length (resources c). rkey (resources c' ! b) = rkey (resources c ! b))"

lemma frame_keeps_keys: "frame A c c' \<Longrightarrow> keeps_keys c c'"
  by (auto simp: frame_def keeps_keys_def)

lemma keeps_keys_refl [simp]: "keeps_keys c c"
  by (simp add: keeps_keys_def)

lemma source_step_keys:
  assumes "source_step P conv mtype inputs w s s'"
  shows "keeps_keys (the_store s) (the_store s')"
  using assms
proof (cases rule: source_step.cases)
  case (gets a c)
  then show ?thesis using frame_keeps_keys [OF frame_store_Get [OF gets(3)]] by (simp add: run_simps)
next
  case (locks a r)
  then have "rkey r = rkey (resources (the_store s) ! a)" by (auto simp: resource_TryLock_def split: if_splits)
  then show ?thesis using locks frame_keeps_keys [OF frame_upd_resource [of "\<lambda>_. r" "the_store s" a "{a}"]] by (simp add: run_simps)
next
  case (gives_up a err)
  then show ?thesis
    using frame_keeps_keys [OF frame_upd_resource [of resource_Release "the_store s" a "{}"]] by (simp add: run_simps resource_Release_def)
next
  case (sets_ttl a now)
  then show ?thesis using frame_keeps_keys [OF frame_UpdateTTL] by (simp add: run_simps)
next
  case (publishes a ts u k c)
  then show ?thesis using frame_keeps_keys [OF frame_createUpdateOp [OF publishes(4)]] by simp
next
  case (publish_fails a ts u e c)
  then show ?thesis using frame_keeps_keys [OF frame_createUpdateOp [OF publish_fails(3)]] by (simp add: run_simps)
next
  case (releases a err)
  then show ?thesis
    using frame_keeps_keys [OF frame_upd_resource [of releaseResource "the_store s" a "{a}"]]
    by (simp add: run_simps releaseResource_def resource_Release_def)
qed (simp_all add: run_simps)

lemma source_step_takes:
  assumes "source_step P conv mtype inputs w s s'" and "CInv (rsys s)" and "holds (pcs s' w) a" and "\<not> holds (pcs s w) a"
  shows "a < length (resources (the_store s')) \<and> rkey (resources (the_store s') ! a) = source_key mtype inputs w"
  using assms(1)
proof (cases rule: source_step.cases)
  case (gets b c)
  moreover have "table_ok (the_store s)" using assms(2) by (simp add: CInv_def)
  ultimately show ?thesis using assms(3) store_Get_result [OF gets(3)] by (simp add: run_simps)
qed (use assms(3,4) in \<open>auto simp: run_simps\<close>)

section \<open>The invariant of all inputs\<close>

lemma finite_workers: "finite (workers inputs)"
proof -
  have "workers inputs = (SIGMA g : {..<length inputs}. {..<length (sources (inputs ! g))})" by (auto simp: workers_def)
  then show ?thesis by simp
qed

text \<open>When one worker moves, the number of those with a property changes by what it does.\<close>

lemma card_upd:
  assumes "finite W" and "v \<in> W" and "\<And>u. u \<noteq> v \<Longrightarrow> g u = f u"
  shows "card {w \<in> W. Q (g w)} + of_bool (Q (f v)) = card {w \<in> W. Q (f w)} + of_bool (Q (g v))"
proof -
  let ?R = "{w \<in> W - {v}. Q (f w)}"
  have "{w \<in> W. Q (h w)} = (if Q (h v) then insert v ?R else ?R)" if "\<And>u. u \<noteq> v \<Longrightarrow> h u = f u" for h
  proof (rule set_eqI)
    fix x show "x \<in> {w \<in> W. Q (h w)} \<longleftrightarrow> x \<in> (if Q (h v) then insert v ?R else ?R)"
      using that assms(2) by (cases "x = v") auto
  qed
  from this [of f] this [of g] assms show ?thesis by simp
qed

definition run_inv :: "string \<Rightarrow> 'i managedInput list \<Rightarrow> 'p run_state \<Rightarrow> bool" where
  "run_inv mtype inputs s \<longleftrightarrow> CInv (rsys s)
     \<and> (\<forall>a. holders (rsys s) a = card {w \<in> workers inputs. holds (pcs s w) a})
     \<and> clients s = card {w \<in> workers inputs. connected (pcs s w)}
     \<and> (\<forall>a. locked_at (the_store s) a \<longleftrightarrow> (\<exists>w \<in> workers inputs. has_lock (pcs s w) a))
     \<and> (\<forall>a. \<forall>v \<in> workers inputs. \<forall>w \<in> workers inputs. has_lock (pcs s v) a \<longrightarrow> has_lock (pcs s w) a \<longrightarrow> v = w)
     \<and> (\<forall>w \<in> workers inputs. \<forall>a. holds (pcs s w) a \<longrightarrow>
          a < length (resources (the_store s)) \<and> rkey (resources (the_store s) ! a) = source_key mtype inputs w)"

lemma run_invD:
  assumes "run_inv mtype inputs s"
  shows "CInv (rsys s)" "holders (rsys s) a = card {w \<in> workers inputs. holds (pcs s w) a}"
    "clients s = card {w \<in> workers inputs. connected (pcs s w)}"
    "locked_at (the_store s) a \<longleftrightarrow> (\<exists>w \<in> workers inputs. has_lock (pcs s w) a)"
    "v \<in> workers inputs \<Longrightarrow> w \<in> workers inputs \<Longrightarrow> has_lock (pcs s v) a \<Longrightarrow> has_lock (pcs s w) a \<Longrightarrow> v = w"
    "w \<in> workers inputs \<Longrightarrow> holds (pcs s w) a \<Longrightarrow>
       a < length (resources (the_store s)) \<and> rkey (resources (the_store s) ! a) = source_key mtype inputs w"
  using assms unfolding run_inv_def by blast+

lemma card_pos: "w \<in> workers inputs \<Longrightarrow> Q w \<Longrightarrow> 0 < card {v \<in> workers inputs. Q v}"
proof -
  assume "w \<in> workers inputs" "Q w"
  then have "w \<in> {v \<in> workers inputs. Q v}" by simp
  moreover have "finite {v \<in> workers inputs. Q v}" using finite_workers [of inputs] by simp
  ultimately show ?thesis by (simp only: card_gt_0_iff) blast
qed

lemma worker_owes:
  assumes "run_inv mtype inputs s" and "w \<in> workers inputs"
  shows "holds (pcs s w) a \<Longrightarrow> 0 < holders (rsys s) a" "has_lock (pcs s w) a \<Longrightarrow> locked_at (the_store s) a"
    "connected (pcs s w) \<Longrightarrow> 0 < clients s" "holds (pcs s w) a \<Longrightarrow> a < length (resources (the_store s))"
  using run_invD(2,4) [OF assms(1), of a] run_invD(3) [OF assms(1)] run_invD(6) [OF assms, of a]
    card_pos [OF assms(2), of "\<lambda>w. holds (pcs s w) a"] card_pos [OF assms(2), of "\<lambda>w. connected (pcs s w)"] assms(2)
  by auto

lemma run_inv_source:
  assumes "source_step P conv mtype inputs w s s'" and "run_inv mtype inputs s" and "w \<in> workers inputs"
    and "enumerates order"
  shows "run_inv mtype inputs s'"
  unfolding run_inv_def
proof (intro conjI allI ballI impI)
  note owes = worker_owes [OF assms(2,3)] and moved = source_step_others [OF assms(1)]
  have locks: "(locked_at (the_store s') b \<longleftrightarrow> has_lock (pcs s' w) b \<or> locked_at (the_store s) b \<and> \<not> has_lock (pcs s w) b)
     \<and> (has_lock (pcs s' w) b \<longrightarrow> has_lock (pcs s w) b \<or> \<not> locked_at (the_store s) b)" for b
    using source_step_locks [OF assms(1)] owes(2,4) by blast
  have "rsys s' = rsys s \<or> cur_step P conv order 0 (rsys s) (rsys s')"
    using source_step_system [OF assms(1)] owes(1,2) by blast
  then show "CInv (rsys s')" using CInv_step [OF _ assms(4)] run_invD(1) [OF assms(2)] by auto
  show "holders (rsys s') a = card {w \<in> workers inputs. holds (pcs s' w) a}" for a
    using source_step_holders [OF assms(1), of a] owes(1) run_invD(2) [OF assms(2), of a]
      card_upd [where g = "pcs s'" and f = "pcs s" and Q = "\<lambda>q. holds q a", OF finite_workers assms(3) moved] by simp
  show "clients s' = card {w \<in> workers inputs. connected (pcs s' w)}"
    using source_step_clients [OF assms(1)] owes(3) run_invD(3) [OF assms(2)]
      card_upd [where g = "pcs s'" and f = "pcs s" and Q = connected, OF finite_workers assms(3) moved] by simp
  show "locked_at (the_store s') a \<longleftrightarrow> (\<exists>w \<in> workers inputs. has_lock (pcs s' w) a)" for a
    using locks [of a] run_invD(4) [OF assms(2), of a] run_invD(5) [OF assms(2), of _ _ a] moved assms(3) by metis
  show "u = v" if "u \<in> workers inputs" "v \<in> workers inputs" "has_lock (pcs s' u) a" "has_lock (pcs s' v) a" for a u v
    using that locks [of a] run_invD(4) [OF assms(2), of a] run_invD(5) [OF assms(2), of _ _ a] moved assms(3) by metis
next
  fix v a
  assume v: "v \<in> workers inputs" "holds (pcs s' v) a"
  note keep = source_step_keys [OF assms(1)] and known = run_invD(6) [OF assms(2)]
  have "a < length (resources (the_store s')) \<and> rkey (resources (the_store s') ! a) = source_key mtype inputs v"
  proof (cases "holds (pcs s v) a")
    case True
    then show ?thesis using known [OF v(1) True] keep by (simp add: keeps_keys_def)
  next
    case False
    then have "v = w" using v(2) source_step_others [OF assms(1)] by metis
    then show ?thesis using source_step_takes [OF assms(1) run_invD(1) [OF assms(2)]] v(2) False by simp
  qed
  then show "a < length (resources (the_store s'))" "rkey (resources (the_store s') ! a) = source_key mtype inputs v"
    by simp_all
qed

lemma run_inv_env:
  assumes "run_inv mtype inputs s" and "cur_step P conv order started (rsys s) t" and "enumerates order"
    and "holders t = holders (rsys s)" and "frame {} (the_store s) (sys_store t)"
  shows "run_inv mtype inputs (s\<lparr>rsys := t\<rparr>)"
proof -
  have "CInv t" using CInv_step [OF assms(2,3)] run_invD(1) [OF assms(1)] .
  moreover have "locked_at (sys_store t) a = locked_at (the_store s) a" for a by (rule frame_locked_at [OF assms(5)])
  moreover have "a < length (resources (sys_store t)) \<and> rkey (resources (sys_store t) ! a) = rkey (resources (the_store s) ! a)"
    if "a < length (resources (the_store s))" for a
    using frame_keeps_keys [OF assms(5)] that by (simp add: keeps_keys_def)
  ultimately show ?thesis using assms(1,4) unfolding run_inv_def by simp
qed

lemma run_inv_step:
  assumes "run_step P conv order started mtype inputs s s'" and "run_inv mtype inputs s" and "enumerates order"
  shows "run_inv mtype inputs s'"
  using assms(1)
proof (cases rule: run_step.cases)
  case (source w)
  then show ?thesis using run_inv_source [OF _ assms(2) _ assms(3)] by blast
next
  case (acks n a c)
  then show ?thesis
    using run_inv_env [OF assms(2) cur_step.acked [OF acks(2-4)] assms(3)] frame_Execute [OF acks(4)] by simp
next
  case (cleans now)
  have "cur_step P conv order started (rsys s) ((rsys s)\<lparr>sys_store := gcStore P order started now (the_store s)\<rparr>)"
    by (rule cur_step.gc)
  moreover have "frame {} (the_store s) (gcStore P order started now (the_store s))" by (rule frame_gcStore [OF assms(3)])
  ultimately show ?thesis using run_inv_env [OF assms(2) _ assms(3)] cleans by (simp add: on_store_def)
next
  case (stops g)
  then show ?thesis using assms(2) by (simp add: run_inv_def)
qed

lemma run_inv_start:
  assumes "visits P ok entries" and "ok p" and "cursor_openStore P (Inr p) mtype = (Inr c, p')"
  shows "run_inv mtype inputs (run_start c)"
proof -
  obtain c0 where "cursor_openStore P (Inr p) mtype = (Inr c0, Some p)"
    "\<forall>a < length (resources c0). pending (resources c0 ! a) = 0 \<and> \<not> locked (resources c0 ! a)"
    using opened_store [OF assms(1,2), of mtype] by metis
  then have "\<not> locked_at c a" for a using assms(3) by (simp add: locked_at_def)
  then show ?thesis using CInv_opened [OF assms] by (simp add: run_inv_def run_start_def)
qed

section \<open>What the inputs report\<close>

definition report_inv :: "'i managedInput list \<Rightarrow> 'p run_state \<Rightarrow> bool" where
  "report_inv inputs s \<longleftrightarrow>
     (\<forall>g < length inputs.
        set (collected s g) = {e. \<exists>i < length (sources (inputs ! g)). pcs s (g, i) = Ended (Some e)}
        \<and> length (collected s g) = card {i. i < length (sources (inputs ! g)) \<and> (\<exists>e. pcs s (g, i) = Ended (Some e))})
     \<and> (\<forall>w \<in> workers inputs. \<forall>e. pcs s w = Reporting (Some e) \<or> pcs s w = Ended (Some e) \<longrightarrow> cancelled s (fst w))"

lemma source_step_report:
  assumes "source_step P conv mtype inputs w s s'"
  shows "(\<exists>err. pcs s w = Reporting err \<and> pcs s' w = Ended err \<and> cancelled s' = cancelled s
       \<and> collected s' = (collected s)(fst w := collected s (fst w) @ (case err of None \<Rightarrow> [] | Some e \<Rightarrow> [e])))
     \<or> (\<forall>err. pcs s w \<noteq> Ended err \<and> pcs s' w \<noteq> Ended err) \<and> collected s' = collected s
       \<and> (\<forall>g. cancelled s g \<longrightarrow> cancelled s' g) \<and> (\<forall>e. pcs s' w = Reporting (Some e) \<longrightarrow> cancelled s' (fst w))"
  using assms by (cases rule: source_step.cases) (auto simp: run_simps)

lemma report_inv_source:
  assumes "source_step P conv mtype inputs w s s'" and "report_inv inputs s" and "w \<in> workers inputs"
  shows "report_inv inputs s'"
  using source_step_report [OF assms(1)]
proof (elim disjE exE conjE)
  note moved = source_step_others [OF assms(1)]
  assume quiet: "\<forall>err. pcs s w \<noteq> Ended err \<and> pcs s' w \<noteq> Ended err" "collected s' = collected s"
    "\<forall>g. cancelled s g \<longrightarrow> cancelled s' g" "\<forall>e. pcs s' w = Reporting (Some e) \<longrightarrow> cancelled s' (fst w)"
  have same: "pcs s' v = Ended err \<longleftrightarrow> pcs s v = Ended err" for v err using quiet(1) moved by (cases "v = w") auto
  have "cancelled s' (fst v)" if "v \<in> workers inputs" "pcs s' v = Reporting (Some e) \<or> pcs s' v = Ended (Some e)" for v e
    using that assms(2) quiet moved [of v] unfolding report_inv_def by (cases "v = w") auto
  then show ?thesis using assms(2) unfolding report_inv_def same quiet(2) by blast
next
  note moved = source_step_others [OF assms(1)]
  fix err
  assume ended: "pcs s w = Reporting err" "pcs s' w = Ended err" "cancelled s' = cancelled s"
    "collected s' = (collected s)(fst w := collected s (fst w) @ (case err of None \<Rightarrow> [] | Some e \<Rightarrow> [e]))"
  let ?g = "fst w" and ?bad = "\<lambda>s g. {i. i < length (sources (inputs ! g)) \<and> (\<exists>e. pcs s (g, i) = Ended (Some e))}"
  let ?errs = "\<lambda>s g. {e. \<exists>i < length (sources (inputs ! g)). pcs s (g, i) = Ended (Some e)}"
  have w: "snd w < length (sources (inputs ! ?g))" using assms(3) by (auto simp: workers_def)
  have same: "pcs s' (g, i) = (if g = ?g \<and> i = snd w then Ended err else pcs s (g, i))" for g i
    using moved [of "(g, i)"] ended(2) by (cases w) auto
  have "cancelled s' (fst v)" if "v \<in> workers inputs" "pcs s' v = Reporting (Some e) \<or> pcs s' v = Ended (Some e)" for v e
    using that assms(2) ended moved [of v] unfolding report_inv_def by (cases "v = w") auto
  moreover have "set (collected s' g) = ?errs s' g \<and> length (collected s' g) = card (?bad s' g)" if g: "g < length inputs" for g
  proof (cases "g = ?g \<and> err \<noteq> None")
    case True
    then obtain e where e: "err = Some e" by blast
    have "?bad s' g = insert (snd w) (?bad s g)" "snd w \<notin> ?bad s g" using True w ended(1) by (auto simp: same e)
    then have "card (?bad s' g) = Suc (card (?bad s g))" by simp
    moreover have "i \<noteq> snd w" if "pcs s (?g, i) = Ended x" for i x using that ended(1) by (cases w) auto
    then have "?errs s' g = insert e (?errs s g)" using True w by (auto simp: same e)
    ultimately show ?thesis using assms(2) g True by (simp add: report_inv_def ended(4) e)
  next
    case False
    then have "pcs s' (g, i) = Ended (Some e) \<longleftrightarrow> pcs s (g, i) = Ended (Some e)" for i e using ended(1) by (auto simp: same)
    moreover have "collected s' g = collected s g" using False by (auto simp: ended(4))
    ultimately show ?thesis using assms(2) g by (simp add: report_inv_def)
  qed
  ultimately show ?thesis unfolding report_inv_def by blast
qed

section \<open>All inputs of a manager\<close>

lemma report_inv_step:
  assumes "run_step P conv order started mtype inputs s s'" and "report_inv inputs s"
  shows "report_inv inputs s'"
  using assms(1)
proof (cases rule: run_step.cases)
  case (source w)
  then show ?thesis using report_inv_source [OF _ assms(2)] by blast
qed (use assms(2) in \<open>simp_all add: report_inv_def on_store_def\<close>)

lemma reachable_inv:
  assumes "run_reachable P conv order started (Inr p) mtype inputs s" and "enumerates order" and "visits P ok entries" and "ok p"
  shows "run_inv mtype inputs s \<and> report_inv inputs s"
  using assms(1)
proof (induction rule: run_reachable.induct)
  case (opened c p')
  have "report_inv inputs (run_start c)" by (simp add: report_inv_def run_start_def)
  then show ?case using run_inv_start [OF assms(3,4) opened] by simp
next
  case (step s s')
  then show ?case using run_inv_step [OF step.hyps(2) _ assms(2)] report_inv_step [OF step.hyps(2)] by blast
qed

lemma run_step_system:
  assumes "run_step P conv order started mtype inputs s s'" and "run_inv mtype inputs s"
  shows "rsys s' = rsys s \<or> cur_step P conv order started (rsys s) (rsys s')"
  using assms(1)
proof (cases rule: run_step.cases)
  case (source w)
  show ?thesis using source_step_system [OF source(2)] worker_owes [OF assms(2) source(1)] by blast
next
  case (acks n a c)
  then show ?thesis using cur_step.acked [OF acks(2-4)] by simp
next
  case (cleans now)
  then show ?thesis using cur_step.gc [of P conv order started "rsys s" now] by (simp add: on_store_def)
qed simp

lemma run_reachable_system:
  assumes "run_reachable P conv order started (Inr p) mtype inputs s" and "enumerates order" and "visits P ok entries" and "ok p"
  shows "cur_reachable P conv order started (Inr p) mtype (rsys s)"
  using assms(1)
proof (induction rule: run_reachable.induct)
  case (opened c p')
  then show ?case using cur_reachable.opened by (simp add: run_start_def)
next
  case (step s s')
  have "run_inv mtype inputs s" using reachable_inv [OF step.hyps(1) assms(2-4)] by simp
  then show ?case using run_step_system [OF step.hyps(2)] step.IH cur_reachable.step by metis
qed

text \<open>A worker that has not ended can move, unless it waits for a lock another worker has.\<close>

lemma worker_moves:
  assumes "run_inv mtype inputs s" and "w \<in> workers inputs" and "\<forall>err. pcs s w \<noteq> Ended err"
    and "\<forall>a. Suc (in_use (rsys s) a) < 2 ^ 64"
  shows "(\<exists>s'. source_step P conv mtype inputs w s s')
     \<or> (\<exists>a v. pcs s w = Holding a \<and> \<not> cancelled s (fst w) \<and> v \<in> workers inputs \<and> v \<noteq> w \<and> has_lock (pcs s v) a)"
proof (cases "pcs s w")
  case Connected
  obtain a c where "store_Get (source_key mtype inputs w) (the_store s) = (Some a, c)"
    by (cases "fmlookup (table (the_store s)) (source_key mtype inputs w)") (auto simp: store_Get_def states_Find_def Let_def)
  then show ?thesis using source_step.gets [OF Connected] assms(4) by blast
next
  case (Holding a)
  show ?thesis
  proof (cases "locked (resources (the_store s) ! a)")
    case True
    then have "locked_at (the_store s) a" using worker_owes(4) [OF assms(1,2), of a] Holding by (simp add: locked_at_def)
    then obtain v where v: "v \<in> workers inputs" "has_lock (pcs s v) a" using run_invD(4) [OF assms(1)] by blast
    then have "v \<noteq> w" using Holding by auto
    then show ?thesis using v Holding source_step.gives_up [OF Holding] by blast
  next
    case False
    then have "resource_TryLock (resources (the_store s) ! a) = (True, (resources (the_store s) ! a)\<lparr>locked := True\<rparr>)"
      by (simp add: resource_TryLock_def)
    then show ?thesis using source_step.locks [OF Holding] by blast
  qed
qed (use assms(3) in \<open>blast intro: source_step.intros\<close>)+

text \<open>One input with two sources: the first publishes nothing and ends without error, the second cannot connect.\<close>

definition two_sources :: "unit managedInput list" where
  "two_sources = [\<lparr>userID = [], sources = [''a'', ''b''], runner = (), cleanTimeout = 5\<rparr>]"

abbreviation two_reach :: "(string \<rightharpoonup> state) run_state \<Rightarrow> bool" where
  "two_reach \<equiv> run_reachable plain_persist copies plain_order 0 (Inr Map.empty) ''t'' two_sources"

lemma two_source_step:
  "two_reach s \<Longrightarrow> source_step plain_persist copies ''t'' two_sources (0, i) s s' \<Longrightarrow> i < 2 \<Longrightarrow> two_reach s'"
  by (rule run_reachable.step [OF _ run_step.source]) (auto simp: workers_def two_sources_def)

lemma two_sources_end:
  "\<exists>s. two_reach s \<and> pcs s (0, 0) = Ended None \<and> pcs s (0, 1) = Ended (Some (ErrNew ''broken''))"
proof -
  let ?w = "(0, 0) :: worker" and ?v = "(0, 1) :: worker" and ?e = "Some (ErrNew ''broken'')"
  let ?c = "\<lparr>persistentStore = Map.empty, table = fmempty, resources = [], ops = []\<rparr> :: (string \<rightharpoonup> state) store"
  note move = two_source_step [where i = 0] and move' = two_source_step [where i = 1]
  define s1 where "s1 = goto ?w Connected ((run_start ?c)\<lparr>clients := Suc (clients (run_start ?c))\<rparr>)"
  have "two_reach (run_start ?c)" by (rule run_reachable.opened [OF opened_empty])
  then have s1: "two_reach s1" unfolding s1_def by (rule move [OF _ source_step.connects]) (simp_all add: run_start_def)
  let ?c1 = "\<lparr>persistentStore = Map.empty, table = fmupd ''t::a'' 0 fmempty,
     resources = [(new_resource ''t::a'')\<lparr>pending := 1\<rparr>], ops = []\<rparr> :: (string \<rightharpoonup> state) store"
  define s2 where "s2 = goto ?w (Holding 0) (set_holders 0 (Suc (holders (rsys s1) 0)) (on_store ?c1 s1))"
  have "store_Get (source_key ''t'' two_sources ?w) (the_store s1) = (Some 0, ?c1)"
    by (simp add: s1_def run_simps run_start_def source_key_def two_sources_def createSourceID_def store_Get_def states_Find_def
        upd_resource_def resource_Retain_def new_resource_def Let_def)
  with s1 have s2: "two_reach s2"
    unfolding s2_def by (intro move [OF _ source_step.gets]) (simp_all add: s1_def run_simps run_start_def in_use_def)
  define s3 where "s3 = goto ?w (Locked 0) (on_store (upd_resource 0 (\<lambda>_. (resources ?c1 ! 0)\<lparr>locked := True\<rparr>) (the_store s2)) s2)"
  have s3: "two_reach s3"
    unfolding s3_def by (rule move [OF s2 source_step.locks]) (simp_all add: s2_def run_simps resource_TryLock_def new_resource_def)
  define s4 where "s4 = goto ?w (Running 0) (on_store (UpdateTTL plain_persist 7 0 (cleanTimeout (two_sources ! fst ?w)) (the_store s3)) s3)"
  have s4: "two_reach s4" unfolding s4_def by (rule move [OF s3 source_step.sets_ttl]) (simp_all add: s3_def run_simps)
  define s5 where "s5 = goto ?w (Leaving 0 (recovered (Returned None))) s4"
  have s5: "two_reach s5" unfolding s5_def by (rule move [OF s4 source_step.run_ends]) (simp_all add: s4_def run_simps)
  define s6 where "s6 = goto ?w (Closing None)
    (set_holders 0 (holders (rsys s5) 0 - 1) (on_store (upd_resource 0 releaseResource (the_store s5)) s5))"
  have s6: "two_reach s6"
    unfolding s6_def by (rule move [OF s5 source_step.releases]) (simp_all add: s5_def run_simps recovered_def)
  define s7 where "s7 = goto ?w (Returning None) (s6\<lparr>clients := clients s6 - 1\<rparr>)"
  have s7: "two_reach s7" unfolding s7_def by (rule move [OF s6 source_step.closes]) (simp_all add: s6_def run_simps)
  obtain s8 where s8: "two_reach s8" "pcs s8 = (pcs s7)(?w := Ended None)"
    using move [OF move [OF s7 source_step.cancels] source_step.returns, of None None] by (auto simp: s7_def run_simps)
  have v: "pcs s8 ?v = Starting" by (simp add: s8(2) s7_def s6_def s5_def s4_def s3_def s2_def s1_def run_simps run_start_def)
  have "two_reach (goto ?v (Returning ?e) s8)" by (rule move' [OF s8(1) source_step.connect_fails [OF v]]) simp
  then obtain s9 where "two_reach s9" "pcs s9 = (pcs s8)(?v := Ended ?e)"
    using move' [OF move' [OF _ source_step.cancels] source_step.returns, of "goto ?v (Returning ?e) s8" ?e ?e]
    by (auto simp: run_simps)
  then show ?thesis using s8(2) by (intro exI [of _ s9]) simp
qed

text \<open>C26. The inputs of a manager, in every interleaving of their sources, the acknowledgements and the cleaner: two sources
  with the same registry key never run at the same time, also when they belong to different inputs.  When all have ended,
  whatever errors and panics there were, every client is closed, every resource is given back and every lock is free.
  Before that no worker is stuck: each can move, unless it waits for the lock of its source, which another worker
  has, and its input is not cancelled.  The store goes through states of the system of \<open>Cursor_System\<close> only.\<close>

theorem sources_exclude_each_other:
  assumes "run_reachable P conv order started (Inr p) mtype inputs s"
    and "enumerates order" and "visits P ok entries" and "ok p"
  shows "(\<forall>v \<in> workers inputs. \<forall>w \<in> workers inputs. \<forall>a b. has_lock (pcs s v) a \<longrightarrow> has_lock (pcs s w) b \<longrightarrow>
        source_key mtype inputs v = source_key mtype inputs w \<longrightarrow> v = w)
     \<and> ((\<forall>w \<in> workers inputs. \<exists>err. pcs s w = Ended err) \<longrightarrow>
          clients s = 0 \<and> (\<forall>a. holders (rsys s) a = 0 \<and> \<not> locked_at (the_store s) a))
     \<and> (\<forall>w \<in> workers inputs. (\<forall>err. pcs s w \<noteq> Ended err) \<longrightarrow> (\<forall>a. Suc (in_use (rsys s) a) < 2 ^ 64) \<longrightarrow>
          (\<exists>s'. source_step P conv mtype inputs w s s')
          \<or> (\<exists>a v. pcs s w = Holding a \<and> \<not> cancelled s (fst w) \<and> v \<in> workers inputs \<and> v \<noteq> w \<and> has_lock (pcs s v) a))
     \<and> cur_reachable P conv order started (Inr p) mtype (rsys s)"
proof (intro conjI)
  have inv: "run_inv mtype inputs s" using reachable_inv [OF assms] by simp
  show "\<forall>v \<in> workers inputs. \<forall>w \<in> workers inputs. \<forall>a b. has_lock (pcs s v) a \<longrightarrow> has_lock (pcs s w) b \<longrightarrow>
      source_key mtype inputs v = source_key mtype inputs w \<longrightarrow> v = w"
  proof (intro ballI allI impI)
    fix v w a b
    assume vw: "v \<in> workers inputs" "w \<in> workers inputs" "has_lock (pcs s v) a" "has_lock (pcs s w) b"
      and key: "source_key mtype inputs v = source_key mtype inputs w"
    have known: "0 < in_use (rsys s) c \<and> rkey (resources (the_store s) ! c) = source_key mtype inputs u"
      if "u \<in> workers inputs" "has_lock (pcs s u) c" for u c
      using worker_owes(1) [OF inv that(1) has_lock_holds [OF that(2)]] run_invD(6) [OF inv that(1) has_lock_holds [OF that(2)]]
      by (simp add: in_use_def)
    have "fmlookup (table (the_store s)) (source_key mtype inputs u) = Some c"
      if "u \<in> workers inputs" "has_lock (pcs s u) c" for u c
      using use_okD(3) [OF CInv_use [OF run_invD(1) [OF inv]], of c] known [OF that] by simp
    from this [OF vw(1,3)] this [OF vw(2,4)] have "a = b" unfolding key by simp
    then show "v = w" using run_invD(5) [OF inv vw(1,2)] vw(3,4) by simp
  qed
  show "(\<forall>w \<in> workers inputs. \<exists>err. pcs s w = Ended err) \<longrightarrow>
      clients s = 0 \<and> (\<forall>a. holders (rsys s) a = 0 \<and> \<not> locked_at (the_store s) a)"
  proof
    assume "\<forall>w \<in> workers inputs. \<exists>err. pcs s w = Ended err"
    then have "\<not> holds (pcs s w) a \<and> \<not> connected (pcs s w)" if "w \<in> workers inputs" for w a using that by fastforce
    then have none: "{w \<in> workers inputs. holds (pcs s w) a} = {}" "{w \<in> workers inputs. connected (pcs s w)} = {}"
      "\<not> (\<exists>w \<in> workers inputs. has_lock (pcs s w) a)" for a
      using has_lock_holds by blast+
    show "clients s = 0 \<and> (\<forall>a. holders (rsys s) a = 0 \<and> \<not> locked_at (the_store s) a)"
      unfolding run_invD(2) [OF inv] run_invD(3) [OF inv] run_invD(4) [OF inv] none(1,2) using none(3) by simp
  qed
qed (use reachable_inv [OF assms] worker_moves run_reachable_system [OF assms] in blast)+

theorem sources_exclude_each_other_witness:
  "\<exists>s. two_reach s \<and> pcs s (0, 0) = Ended None \<and> clients s = 0 \<and> (\<forall>a. \<not> locked_at (the_store s) a)"
proof -
  obtain s where s: "two_reach s" "pcs s (0, 0) = Ended None" "pcs s (0, 1) = Ended (Some (ErrNew ''broken''))"
    using two_sources_end by blast
  have "\<exists>err. pcs s w = Ended err" if "w \<in> workers two_sources" for w
    using that s(2,3) by (auto simp: workers_def two_sources_def less_2_cases_iff numeral_2_eq_2 less_Suc_eq)
  then show ?thesis
    using sources_exclude_each_other [OF s(1) plain_order_enumerates plain_visits TrueI] s by blast
qed

text \<open>C28. What \<open>Run\<close> of an input returns, in every such interleaving: as soon as a source has returned an error the context
  of the others is cancelled for good.  When all sources of the input have ended \<open>Run\<close> succeeds exactly when every source did;
  otherwise its error wraps one error for each source that failed.\<close>

theorem managed_Run_collects:
  assumes "run_reachable P conv order started (Inr p) mtype inputs s"
    and "enumerates order" and "visits P ok entries" and "ok p" and "g < length inputs"
  shows "(\<forall>i < length (sources (inputs ! g)). \<forall>e. pcs s (g, i) = Ended (Some e) \<longrightarrow> cancelled s g)
     \<and> (all_ended inputs g s \<longrightarrow>
          (run_result WrapAll inputID g s = None \<longleftrightarrow> (\<forall>i < length (sources (inputs ! g)). pcs s (g, i) = Ended None))
          \<and> (\<exists>errs. set errs = {e. \<exists>i < length (sources (inputs ! g)). pcs s (g, i) = Ended (Some e)}
              \<and> length errs = card {i. i < length (sources (inputs ! g)) \<and> pcs s (g, i) \<noteq> Ended None}
              \<and> (errs \<noteq> [] \<longrightarrow> run_result WrapAll inputID g s = Some (WrapAll errs (''input '' @ inputID @ '' failed'')))))"
proof (intro conjI impI)
  let ?n = "length (sources (inputs ! g))"
  have inv: "report_inv inputs s" using reachable_inv [OF assms(1-4)] by simp
  then have coll: "set (collected s g) = {e. \<exists>i < ?n. pcs s (g, i) = Ended (Some e)}"
    "length (collected s g) = card {i. i < ?n \<and> (\<exists>e. pcs s (g, i) = Ended (Some e))}"
    using assms(5) unfolding report_inv_def by blast+
  show "\<forall>i < ?n. \<forall>e. pcs s (g, i) = Ended (Some e) \<longrightarrow> cancelled s g"
    using inv assms(5) unfolding report_inv_def workers_def by auto
  assume ended: "all_ended inputs g s"
  then have failed: "pcs s (g, i) \<noteq> Ended None \<longleftrightarrow> (\<exists>e. pcs s (g, i) = Ended (Some e))" if "i < ?n" for i
  proof -
    from ended that obtain err where "pcs s (g, i) = Ended err" unfolding all_ended_def by blast
    then show ?thesis by (cases err) simp_all
  qed
  have bad: "{i. i < ?n \<and> (\<exists>e. pcs s (g, i) = Ended (Some e))} = {i. i < ?n \<and> pcs s (g, i) \<noteq> Ended None}"
    using failed by blast
  have "collected s g = [] \<longleftrightarrow> (\<forall>i < ?n. pcs s (g, i) = Ended None)"
    using coll(2) unfolding bad by (auto simp: card_eq_0_iff simp flip: length_0_conv)
  then show "run_result WrapAll inputID g s = None \<longleftrightarrow> (\<forall>i < ?n. pcs s (g, i) = Ended None)"
    by (simp add: run_result_def)
  show "\<exists>errs. set errs = {e. \<exists>i < ?n. pcs s (g, i) = Ended (Some e)}
      \<and> length errs = card {i. i < ?n \<and> pcs s (g, i) \<noteq> Ended None}
      \<and> (errs \<noteq> [] \<longrightarrow> run_result WrapAll inputID g s = Some (WrapAll errs (''input '' @ inputID @ '' failed'')))"
    using coll unfolding bad by (intro exI [of _ "collected s g"]) (simp add: run_result_def)
qed

theorem managed_Run_collects_witness:
  "\<exists>s. two_reach s
     \<and> run_result (\<lambda>es t. ErrWrap t (hd es)) ''7'' 0 s = Some (ErrWrap ''input 7 failed'' (ErrNew ''broken'')) \<and> cancelled s 0"
proof -
  let ?W = "\<lambda>es t. ErrWrap t (hd es)"
  obtain s where s: "two_reach s" "pcs s (0, 0) = Ended None" "pcs s (0, 1) = Ended (Some (ErrNew ''broken''))"
    using two_sources_end by blast
  have n: "length (sources (two_sources ! 0)) = 2" "0 < length two_sources" by (simp_all add: two_sources_def)
  have ended: "all_ended two_sources 0 s" using s(2,3) by (auto simp: all_ended_def n less_2_cases_iff)
  note q = managed_Run_collects [OF s(1) plain_order_enumerates plain_visits TrueI n(2), of ?W "''7''", unfolded n(1)]
  have "{i. i < 2 \<and> pcs s (0, i) \<noteq> Ended None} = {1}" using s(2,3) by (auto simp: less_2_cases_iff)
  moreover have "{e. \<exists>i < 2. pcs s (0, i) = Ended (Some e)} = {ErrNew ''broken''}" using s(2,3) by (auto simp: less_2_cases_iff)
  ultimately obtain errs where errs: "set errs = {ErrNew ''broken''}" "length errs = 1"
    "errs \<noteq> [] \<longrightarrow> run_result ?W ''7'' 0 s = Some (?W errs (''input '' @ ''7'' @ '' failed''))"
    using q ended by auto
  then have "errs = [ErrNew ''broken'']" by (cases errs) auto
  then have "run_result ?W ''7'' 0 s = Some (ErrWrap ''input 7 failed'' (ErrNew ''broken''))" using errs(3) by simp
  moreover have "cancelled s 0" using q s(3) by (auto simp: less_2_cases_iff)
  ultimately show ?thesis using s(1) by blast
qed

end
