(* ===== verification/Cursor_Run_Ends.thy ===== *)
theory Cursor_Run_Ends
  imports Cursor_Run
begin

text \<open>
  The goroutines of all inputs come to an end: from every state the system can reach each worker has a bounded number of
  moves left, whatever the other workers, the outputs and the cleaner do in between, and until all have ended one
  of them has a move.
\<close>

section \<open>The moves left\<close>

fun rank :: "pc \<Rightarrow> nat" where
  "rank Starting = 9"
| "rank Connected = 8"
| "rank (Holding a) = 7"
| "rank (Locked a) = 6"
| "rank (Running a) = 5"
| "rank (Leaving a err) = 4"
| "rank (Closing err) = 3"
| "rank (Returning err) = 2"
| "rank (Reporting err) = 1"
| "rank (Ended err) = 0"

definition moves_left :: "'i managedInput list \<Rightarrow> 'p run_state \<Rightarrow> nat" where
  "moves_left inputs s = (\<Sum>w \<in> workers inputs. rank (pcs s w))"

definition ended :: "'i managedInput list \<Rightarrow> 'p run_state \<Rightarrow> bool" where
  "ended inputs s \<longleftrightarrow> (\<forall>w \<in> workers inputs. \<exists>err. pcs s w = Ended err)"

text \<open>A run with \<open>n\<close> moves of workers: publishing an event is not one, nor are the steps of others.\<close>

inductive run_moves ::
    "'p persist \<Rightarrow> conversion \<Rightarrow> (string fset \<Rightarrow> string list) \<Rightarrow> go_time \<Rightarrow> string \<Rightarrow> 'i managedInput list
     \<Rightarrow> nat \<Rightarrow> 'p run_state \<Rightarrow> 'p run_state \<Rightarrow> bool"
  for P conv order started mtype inputs where
  none: "run_moves P conv order started mtype inputs 0 s s"
| quiet: "run_moves P conv order started mtype inputs n s t \<Longrightarrow> run_step P conv order started mtype inputs t t' \<Longrightarrow>
    pcs t' = pcs t \<Longrightarrow> run_moves P conv order started mtype inputs n s t'"
| move: "run_moves P conv order started mtype inputs n s t \<Longrightarrow> run_step P conv order started mtype inputs t t' \<Longrightarrow>
    pcs t' \<noteq> pcs t \<Longrightarrow> run_moves P conv order started mtype inputs (Suc n) s t'"

lemma rank_bound: "rank q \<le> 9"
  by (cases q) simp_all

lemma moves_left_bound: "moves_left inputs s \<le> 9 * card (workers inputs)"
  unfolding moves_left_def using sum_bounded_above [of "workers inputs" "\<lambda>w. rank (pcs s w)" 9] rank_bound by simp

lemma moves_left_pos:
  assumes "\<not> ended inputs s"
  shows "0 < moves_left inputs s"
proof -
  obtain w where w: "w \<in> workers inputs" "\<forall>err. pcs s w \<noteq> Ended err" using assms by (auto simp: ended_def)
  then have "0 < rank (pcs s w)" by (cases "pcs s w") simp_all
  then show ?thesis unfolding moves_left_def by (rule sum_pos2 [OF finite_workers w(1)]) simp
qed

lemma source_step_rank:
  "source_step P conv mtype inputs w s s' \<Longrightarrow> pcs s' = pcs s \<or> rank (pcs s' w) < rank (pcs s w)"
  by (cases rule: source_step.cases) (auto simp: run_simps)

lemma source_step_moves:
  assumes "source_step P conv mtype inputs w s s'" and "w \<in> workers inputs" and "pcs s' \<noteq> pcs s"
  shows "moves_left inputs s' < moves_left inputs s"
  unfolding moves_left_def
proof (rule sum_strict_mono_ex1 [OF finite_workers])
  have less: "rank (pcs s' w) < rank (pcs s w)" using source_step_rank [OF assms(1)] assms(3) by blast
  show "\<forall>v \<in> workers inputs. rank (pcs s' v) \<le> rank (pcs s v)"
    using source_step_others [OF assms(1)] less by (metis less_imp_le_nat order_refl)
  show "\<exists>v \<in> workers inputs. rank (pcs s' v) < rank (pcs s v)" using assms(2) less by blast
qed

lemma run_step_moves:
  assumes "run_step P conv order started mtype inputs s s'" and "pcs s' \<noteq> pcs s"
  shows "moves_left inputs s' < moves_left inputs s"
  using assms(1)
proof (cases rule: run_step.cases)
  case (source w)
  then show ?thesis using source_step_moves assms(2) by blast
qed (use assms(2) in \<open>simp_all add: on_store_def\<close>)

lemma run_moves_bound: "run_moves P conv order started mtype inputs n s t \<Longrightarrow> n + moves_left inputs t \<le> moves_left inputs s"
proof (induction rule: run_moves.induct)
  case (quiet n s t t')
  then show ?case by (simp add: moves_left_def)
next
  case (move n s t t')
  then show ?case using run_step_moves [OF move.hyps(2,3)] by simp
qed simp

lemma run_moves_trans:
  assumes "run_moves P conv order started mtype inputs n t u" and "run_moves P conv order started mtype inputs m s t"
  shows "run_moves P conv order started mtype inputs (m + n) s u"
  using assms by (induction rule: run_moves.induct) (auto intro: run_moves.intros)

section \<open>One worker can move\<close>

lemma lock_owner_moves:
  assumes "has_lock (pcs s w) a"
  shows "\<exists>s'. source_step P conv mtype inputs w s s' \<and> pcs s' \<noteq> pcs s"
proof (cases "pcs s w")
  case (Locked b)
  show ?thesis by (intro exI conjI, rule source_step.sets_ttl [OF Locked]) (auto simp: run_simps Locked fun_upd_idem_iff)
next
  case (Running b)
  show ?thesis by (intro exI conjI, rule source_step.run_ends [OF Running]) (auto simp: run_simps Running fun_upd_idem_iff)
next
  case (Leaving b err)
  show ?thesis by (intro exI conjI, rule source_step.releases [OF Leaving]) (auto simp: run_simps Leaving fun_upd_idem_iff)
qed (use assms in simp_all)

lemma some_worker_moves:
  assumes "run_inv mtype inputs s" and "\<not> ended inputs s" and "\<forall>a. Suc (in_use (rsys s) a) < 2 ^ 64"
  shows "\<exists>w \<in> workers inputs. \<exists>s'. source_step P conv mtype inputs w s s' \<and> pcs s' \<noteq> pcs s"
proof -
  obtain w where w: "w \<in> workers inputs" "\<forall>err. pcs s w \<noteq> Ended err" using assms(2) by (auto simp: ended_def)
  from worker_moves [OF assms(1) w assms(3), of P conv] show ?thesis
  proof (elim disjE exE conjE)
    fix s' assume step: "source_step P conv mtype inputs w s s'"
    show ?thesis
    proof (cases "pcs s' = pcs s")
      case True
      with step have "\<exists>a. has_lock (pcs s w) a" by (cases rule: source_step.cases) (auto simp: run_simps fun_upd_idem_iff)
      then show ?thesis using lock_owner_moves w(1) by blast
    qed (use step w(1) in blast)
  next
    fix a v assume "v \<in> workers inputs" "has_lock (pcs s v) a"
    then show ?thesis using lock_owner_moves by blast
  qed
qed

text \<open>A move takes at most one more reference to a resource.\<close>

lemma move_in_use:
  assumes "source_step P conv mtype inputs w s s'" and "pcs s' \<noteq> pcs s"
  shows "in_use (rsys s') a \<le> Suc (in_use (rsys s) a)"
  using assms by (cases rule: source_step.cases) (auto simp: run_simps in_use_def)

lemma all_end:
  assumes "run_inv mtype inputs s" and "enumerates order" and "\<forall>a. in_use (rsys s) a + moves_left inputs s < 2 ^ 64"
  shows "\<exists>n t. run_moves P conv order started mtype inputs n s t \<and> ended inputs t"
  using assms
proof (induction "moves_left inputs s" arbitrary: s rule: less_induct)
  case less
  show ?case
  proof (cases "ended inputs s")
    case True
    then show ?thesis using run_moves.none by blast
  next
    case False
    then have pos: "0 < moves_left inputs s" by (rule moves_left_pos)
    have "Suc (in_use (rsys s) a) < 2 ^ 64" for a
      using pos spec [OF less.prems(3), of a] by linarith
    then obtain w s' where w: "w \<in> workers inputs" "source_step P conv mtype inputs w s s'" "pcs s' \<noteq> pcs s"
      using some_worker_moves [OF less.prems(1) False, of P conv] by blast
    have fewer: "moves_left inputs s' < moves_left inputs s" by (rule source_step_moves [OF w(2,1,3)])
    have "in_use (rsys s') a + moves_left inputs s' < 2 ^ 64" for a
      using move_in_use [OF w(2,3), of a] spec [OF less.prems(3), of a] fewer by linarith
    then obtain n t where n: "run_moves P conv order started mtype inputs n s' t" "ended inputs t"
      using less.hyps [OF fewer run_inv_source [OF w(2) less.prems(1) w(1) assms(2)] assms(2)] by blast
    have "run_moves P conv order started mtype inputs (Suc 0) s s'"
      by (rule run_moves.move [OF run_moves.none run_step.source [OF w(1,2)] w(3)])
    then show ?thesis using run_moves_trans [OF n(1)] n(2) by blast
  qed
qed

section \<open>Property\<close>

text \<open>C27. \<open>Run\<close> of every input returns.  Whatever state the inputs of a manager are in, in any interleaving with the outputs
  and the cleaner the workers have at most nine moves each left, apart from publishing; as long as one has not ended
  one of them has a move, which leaves fewer; and a state in which all have ended is in reach.  So once the inputs stop
  publishing, every schedule that does not starve the workers forever ends all of them: no deadlock between the locks of the sources
  and no endless exchange.\<close>

theorem workers_end:
  assumes "run_reachable P conv order started (Inr p) mtype inputs s"
    and "enumerates order" and "visits P ok entries" and "ok p"
    and "\<forall>a. in_use (rsys s) a + 9 * card (workers inputs) < 2 ^ 64"
  shows "(\<forall>n t. run_moves P conv order started mtype inputs n s t \<longrightarrow> n + moves_left inputs t \<le> 9 * card (workers inputs))
     \<and> (\<not> ended inputs s \<longrightarrow>
          (\<exists>w \<in> workers inputs. \<exists>t. source_step P conv mtype inputs w s t \<and> moves_left inputs t < moves_left inputs s))
     \<and> (\<exists>n t. run_moves P conv order started mtype inputs n s t \<and> ended inputs t)"
proof (intro conjI impI allI)
  have inv: "run_inv mtype inputs s" using reachable_inv [OF assms(1-4)] by simp
  note bound = moves_left_bound [of inputs s]
  show "n + moves_left inputs t \<le> 9 * card (workers inputs)"
    if "run_moves P conv order started mtype inputs n s t" for n t
    using run_moves_bound [OF that] bound by simp
  have room: "in_use (rsys s) a + moves_left inputs s < 2 ^ 64" for a using spec [OF assms(5), of a] bound by linarith
  then show "\<exists>n t. run_moves P conv order started mtype inputs n s t \<and> ended inputs t" using all_end [OF inv assms(2)] by blast
  assume busy: "\<not> ended inputs s"
  have "Suc (in_use (rsys s) a) < 2 ^ 64" for a using room [of a] moves_left_pos [OF busy] by linarith
  then show "\<exists>w \<in> workers inputs. \<exists>t. source_step P conv mtype inputs w s t \<and> moves_left inputs t < moves_left inputs s"
    using some_worker_moves [OF inv busy, of P conv] source_step_moves by blast
qed

lemma two_sources_workers: "card (workers two_sources) = 2"
proof -
  have "workers two_sources = {(0, 0), (0, 1)}" by (auto simp: workers_def two_sources_def less_2_cases_iff)
  then show ?thesis by simp
qed

theorem workers_end_witness:
  "let s = run_start \<lparr>persistentStore = Map.empty, table = fmempty, resources = [], ops = []\<rparr> :: (string \<rightharpoonup> state) run_state in
     \<not> ended two_sources s
     \<and> (\<exists>n t. n \<le> 18 \<and> run_moves plain_persist copies plain_order 0 ''t'' two_sources n s t \<and> ended two_sources t)"
proof -
  let ?s = "run_start \<lparr>persistentStore = Map.empty, table = fmempty, resources = [], ops = []\<rparr> :: (string \<rightharpoonup> state) run_state"
  have reach: "two_reach ?s" by (rule run_reachable.opened [OF opened_empty])
  have room: "\<forall>a. in_use (rsys ?s) a + 9 * card (workers two_sources) < 2 ^ 64"
    by (simp add: in_use_def run_start_def two_sources_workers)
  have "(0, 0) \<in> workers two_sources" by (simp add: workers_def two_sources_def)
  then have "\<not> ended two_sources ?s" by (force simp: ended_def run_start_def)
  moreover obtain n t where n: "run_moves plain_persist copies plain_order 0 ''t'' two_sources n ?s t" "ended two_sources t"
    "n + moves_left two_sources t \<le> 9 * card (workers two_sources)"
    using workers_end [OF reach plain_order_enumerates plain_visits TrueI room] by blast
  ultimately show ?thesis unfolding Let_def two_sources_workers
    using two_sources_workers by (intro conjI exI [of _ n] exI [of _ t]) simp_all
qed

end
