(* ===== verification/Cursor_Durable.thy ===== *)
theory Cursor_Durable
  imports Statestore_Memlog Cursor_Updates
begin

text \<open>
  The layers of the state of an input put together: the cursor store of \<open>input-cursor\<close> on a store of
  \<open>statestore\<close> on the memlog backend, on a disk that may fail at any system call or stop the machine.
\<close>

section \<open>The calls that reach the persistent store\<close>

text \<open>A persistent store that also remembers the \<open>Set\<close> calls it got, and the cursor store without that memory.\<close>

definition logged :: "'p persist \<Rightarrow> ('p \<times> (string \<times> state) list) persist" where
  "logged P =
     \<lparr>pSet = (\<lambda>k v (p, l). case pSet P k v p of (e, p') \<Rightarrow> (e, (p', l @ [(k, v)]))),
      pRemove = (\<lambda>k (p, l). case pRemove P k p of (e, p') \<Rightarrow> (e, (p', l))),
      pEach = (\<lambda>fn u (p, l). case pEach P fn u p of (r, p') \<Rightarrow> (r, (p', l))),
      pClose = (\<lambda>(p, l). case pClose P p of (e, p') \<Rightarrow> (e, (p', l)))\<rparr>"

definition forget :: "('p \<times> 'l) store \<Rightarrow> 'p store" where
  "forget c = \<lparr>persistentStore = fst (persistentStore c), table = table c, resources = resources c, ops = ops c\<rparr>"

abbreviation calls_of :: "('p \<times> 'l) store \<Rightarrow> 'l" where
  "calls_of c \<equiv> snd (persistentStore c)"

lemma forget_simps [simp]:
  "persistentStore (forget c) = fst (persistentStore c)" "resources (forget c) = resources c" "ops (forget c) = ops c"
  "forget (upd_resource a f c) = upd_resource a f (forget c)"
  "forget (c\<lparr>ops := us\<rparr>) = (forget c)\<lparr>ops := us\<rparr>"
  "forget (c\<lparr>persistentStore := q\<rparr>) = (forget c)\<lparr>persistentStore := fst q\<rparr>"
  by (simp_all add: forget_def upd_resource_def)

lemma calls_of_simps [simp]:
  "calls_of (upd_resource a f c) = calls_of c" "calls_of (op_done n i c) = calls_of c"
  by (simp_all add: upd_resource_def op_done_def split: option.splits)

lemma forget_op_done [simp]: "forget (op_done n i c) = op_done n i (forget c)"
  by (simp add: op_done_def split: option.splits)

text \<open>One run is the other with the calls forgotten, and adds at most one call per step.\<close>

definition one_call :: "('p \<times> 'x list) store \<Rightarrow> ('p \<times> 'x list) store \<Rightarrow> bool" where
  "one_call c c' \<longleftrightarrow> calls_of c' = calls_of c \<or> (\<exists>x. calls_of c' = calls_of c @ [x])"

lemma one_call_refl [simp]: "one_call c c"
  by (simp add: one_call_def)

fun follows :: "'s result \<Rightarrow> ('s \<Rightarrow> 't) \<Rightarrow> ('s \<Rightarrow> bool) \<Rightarrow> 't result \<Rightarrow> bool" where
  "follows (Inl e) f Q r \<longleftrightarrow> r = Inl e"
| "follows (Inr x) f Q r \<longleftrightarrow> r = Inr (f x) \<and> Q x"

lemma follows_bind:
  assumes "follows r f Q r'" and "\<And>x. Q x \<Longrightarrow> follows (g x) f' Q' (g' (f x))"
  shows "follows (bind_result r g) f' Q' (bind_result r' g')"
  using assms by (cases r) simp_all

lemma Execute_follows:
  "follows (Execute (logged P) conv n i c) forget (one_call c) (Execute P conv n i (forget c))"
  by (auto simp: Execute_def Let_def logged_def one_call_def split: option.splits prod.splits)

lemma handler_follows:
  "follows (newInputACKHandler (logged P) conv n d c) forget (one_call c) (newInputACKHandler P conv n d (forget c))"
  using Execute_follows by (auto simp: newInputACKHandler_def split: prod.splits option.splits priv.splits)


text \<open>The trackers call the handler at most once.\<close>

lemma onACK_follows:
  assumes "\<And>n d. follows (fn n d s) f Q (fn' n d (f s))" and "Q s"
  shows "follows (onACK fn n tot (d, s)) (apsnd f) (\<lambda>(_, s'). Q s') (onACK fn' n tot (d, f s))"
  using assms(2) by (auto simp: onACK_def Let_def intro!: follows_bind [OF assms(1)])

lemma tracking_AddEvent_follows:
  assumes "\<And>n tot. follows (fn n tot s) f Q (fn' n tot (f s))" and "Q s"
  shows "follows (tracking_AddEvent fn pass k s) (apsnd f) (\<lambda>(_, s'). Q s') (tracking_AddEvent fn' pass k (f s))"
  using assms(2)
  by (auto simp: tracking_AddEvent_def addDropEvent_def Let_def intro!: follows_bind [OF assms(1)])

lemma tracking_ACKEvents_follows:
  assumes "\<And>n tot. follows (fn n tot s) f Q (fn' n tot (f s))"
  shows "follows (tracking_ACKEvents fn n k s) (apsnd f) (\<lambda>(_, s'). Q s') (tracking_ACKEvents fn' n k (f s))"
  unfolding tracking_ACKEvents_def bind_result_def [of "ack_loop n 0 False (lst k)"]
  by (auto intro!: follows_bind [OF assms] split: sum.splits)

lemma onACK_handler_follows:
  "follows (onACK (newInputACKHandler (logged P) conv) n tot (d, c)) (apsnd forget) (\<lambda>(_, c'). one_call c c')
     (onACK (newInputACKHandler P conv) n tot (d, forget c))"
  by (rule onACK_follows [where f = forget and Q = "one_call c"]) (simp_all add: handler_follows)

lemma AddEvent_follows:
  "follows (eventData_AddEvent tracking_AddEvent (newInputACKHandler (logged P) conv) e pass k c)
     (apsnd forget) (\<lambda>(_, c'). one_call c c')
     (eventData_AddEvent tracking_AddEvent (newInputACKHandler P conv) e pass k (forget c))"
proof -
  have "follows (tracking_AddEvent (onACK (newInputACKHandler (logged P) conv)) pass (inner k) (data k @ [Private e], c))
      (apsnd (apsnd forget)) (\<lambda>(_, _, c'). one_call c c')
      (tracking_AddEvent (onACK (newInputACKHandler P conv)) pass (inner k) (apsnd forget (data k @ [Private e], c)))"
    by (rule tracking_AddEvent_follows) (use onACK_handler_follows in auto)
  then show ?thesis unfolding eventData_AddEvent_def apsnd_conv by (rule follows_bind) auto
qed

lemma ACKEvents_follows:
  "follows (eventData_ACKEvents tracking_ACKEvents (newInputACKHandler (logged P) conv) n k c)
     (apsnd forget) (\<lambda>(_, c'). one_call c c')
     (eventData_ACKEvents tracking_ACKEvents (newInputACKHandler P conv) n k (forget c))"
proof -
  have "follows (tracking_ACKEvents (onACK (newInputACKHandler (logged P) conv)) n (inner k) (data k, c))
      (apsnd (apsnd forget)) (\<lambda>(_, _, c'). one_call c c')
      (tracking_ACKEvents (onACK (newInputACKHandler P conv)) n (inner k) (apsnd forget (data k, c)))"
    by (rule tracking_ACKEvents_follows) (use onACK_handler_follows in auto)
  then show ?thesis unfolding eventData_ACKEvents_def apsnd_conv by (rule follows_bind) auto
qed

lemma Publish_forget:
  "cursor_Publish conv ts a pr u (forget c) = apsnd forget (cursor_Publish conv ts a pr u c)
     \<and> calls_of (snd (cursor_Publish conv ts a pr u c)) = calls_of c"
  by (auto simp: cursor_Publish_def createUpdateOp_def Let_def split: prod.splits option.splits sum.splits)

section \<open>Runs of a client\<close>

lemma cursor_run_Cons:
  "cursor_run P conv a (st # steps) k c = bind_result (cursor_run P conv a [st] k c) (\<lambda>(k', c'). cursor_run P conv a steps k' c')"
  by (cases st) (auto simp: bind_result_def split: prod.splits sum.splits)

lemma one_step_follows:
  "follows (cursor_run (logged P) conv a [st] k c) (apsnd forget) (\<lambda>(_, c'). one_call c c')
     (cursor_run P conv a [st] k (forget c))"
proof (cases st)
  case (Published own u pass ts)
  obtain r c1 where pub: "cursor_Publish conv ts a (if own then Some POther else None) u c = (r, c1)" by fastforce
  then have "cursor_Publish conv ts a (if own then Some POther else None) u (forget c) = (r, forget c1)"
    and log: "calls_of c1 = calls_of c"
    using Publish_forget [of conv ts a "if own then Some POther else None" u c] by simp_all
  moreover have "one_call c1 c' \<Longrightarrow> one_call c c'" for c' :: "('a \<times> (string \<times> state) list) store"
    using log by (simp add: one_call_def)
  ultimately show ?thesis
    using pub Published
    by (auto split: sum.splits intro!: follows_bind [OF AddEvent_follows])
next
  case (Acked n)
  then show ?thesis by (auto intro!: follows_bind [OF ACKEvents_follows])
qed

lemma cursor_run_follows:
  "follows (cursor_run (logged P) conv a steps k c) (apsnd forget) (\<lambda>_. True) (cursor_run P conv a steps k (forget c))"
proof (induction steps arbitrary: k c)
  case (Cons st steps)
  show ?case unfolding cursor_run_Cons [of _ _ _ st steps]
    by (rule follows_bind [OF one_step_follows]) (auto simp: Cons.IH)
qed simp

lemma cursor_run_forget:
  "cursor_run (logged P) conv a steps k c = Inr (k', c') \<Longrightarrow> cursor_run P conv a steps k (forget c) = Inr (k', forget c')"
  using cursor_run_follows [of P conv a steps k c] by simp

text \<open>After any number of the calls the store got, the run was at the end of some of its steps.\<close>

lemma cursor_run_calls:
  assumes "cursor_run (logged P) conv a steps k c = Inr (k', c')"
  shows "\<exists>l. calls_of c' = calls_of c @ l \<and> length l \<le> length steps
     \<and> (\<forall>j \<le> length l. \<exists>i k1 c1. i \<le> length steps \<and> (j = length l \<longrightarrow> i = length steps)
          \<and> cursor_run (logged P) conv a (take i steps) k c = Inr (k1, c1) \<and> calls_of c1 = calls_of c @ take j l)"
  using assms
proof (induction steps arbitrary: k c)
  case Nil
  then show ?case by auto
next
  case (Cons st steps)
  obtain k1 c1 where one: "cursor_run (logged P) conv a [st] k c = Inr (k1, c1)"
    and rest: "cursor_run (logged P) conv a steps k1 c1 = Inr (k', c')"
    using Cons.prems by (auto simp: cursor_run_Cons [of _ _ _ st steps] bind_result_Inr)
  obtain x where x: "calls_of c1 = calls_of c @ x" "length x \<le> 1"
    using one_step_follows [of P conv a st k c] one by (force simp: one_call_def)
  obtain l where l: "calls_of c' = calls_of c1 @ l" "length l \<le> length steps"
    and at: "\<And>j. j \<le> length l \<Longrightarrow> \<exists>i k2 c2. i \<le> length steps \<and> (j = length l \<longrightarrow> i = length steps)
          \<and> cursor_run (logged P) conv a (take i steps) k1 c1 = Inr (k2, c2) \<and> calls_of c2 = calls_of c1 @ take j l"
    using Cons.IH [OF rest] by blast
  have "\<exists>i k2 c2. i \<le> length (st # steps) \<and> (j = length (x @ l) \<longrightarrow> i = length (st # steps))
      \<and> cursor_run (logged P) conv a (take i (st # steps)) k c = Inr (k2, c2) \<and> calls_of c2 = calls_of c @ take j (x @ l)"
    if j: "j \<le> length (x @ l)" for j
  proof (cases "length x \<le> j")
    case True
    with j have "j - length x \<le> length l" by simp
    from at [OF this] obtain i k2 c2 where i: "i \<le> length steps" "j - length x = length l \<longrightarrow> i = length steps"
        "cursor_run (logged P) conv a (take i steps) k1 c1 = Inr (k2, c2)" "calls_of c2 = calls_of c1 @ take (j - length x) l"
      by blast
    have "cursor_run (logged P) conv a (take (Suc i) (st # steps)) k c = Inr (k2, c2)"
      using one i(3) by (simp only: take_Suc_Cons cursor_run_Cons [of _ _ _ st "take i steps"]) simp
    moreover have "calls_of c2 = calls_of c @ take j (x @ l)" using x i(4) True by simp
    ultimately show ?thesis using i(1,2) True j by (intro exI [of _ "Suc i"]) auto
  next
    case False
    with x(2) have "j = 0" "j \<noteq> length (x @ l)" by auto
    then show ?thesis by (intro exI [of _ 0]) auto
  qed
  moreover have "calls_of c' = calls_of c @ (x @ l)" "length (x @ l) \<le> length (st # steps)"
    using x l by simp_all
  ultimately show ?case by blast
qed

section \<open>A store of the registry on memlog\<close>

text \<open>
  The store of the state registry an input manager holds, as the persistent store of its cursors.  \<open>Close\<close>
  would block while operations of the store are active; the cursor store closes it between operations.
\<close>

definition registry_persist ::
    "('h, state, (string, resource) fmap, 'w) backend \<Rightarrow> 'g wait_group \<Rightarrow> nat \<Rightarrow> ('h, 'g, 'w) sstate persist" where
  "registry_persist B W s =
     \<lparr>pSet = Store_Set B W s, pRemove = Store_Remove B W s, pEach = Store_Each B W s,
      pClose = (\<lambda>st. case Store_Close B W s st of Some r \<Rightarrow> r | None \<Rightarrow> (None, st))\<rparr>"

abbreviation cursor_backend ::
    "memlog_env \<Rightarrow> (state \<Rightarrow> mapstr result) \<Rightarrow> (mapstr \<Rightarrow> state result) \<Rightarrow> (nat, state, (string, resource) fmap, mlog) backend" where
  "cursor_backend \<equiv> memlog_backend"

text \<open>Store \<open>s\<close> of the registry is open, and its memlog store, in directory \<open>h\<close>, is \<open>m\<close> on the disk \<open>w\<close>.\<close>

definition stored_in :: "('g \<Rightarrow> bool) \<Rightarrow> nat \<Rightarrow> string \<Rightarrow> (nat, 'g, mlog) sstate \<Rightarrow> Memlog_Store.store \<Rightarrow> fs \<Rightarrow> bool" where
  "stored_in cl s h st m w \<longleftrightarrow> s < length (stores st) \<and> \<not> cl (activeOps (stores st ! s))
     \<and> store_backend s st < length (ml_stores (world st))
     \<and> ml_stores (world st) ! store_backend s st = (h, m) \<and> ml_files (world st) h = w"

lemma Store_Set_stored:
  assumes "wait_group_spec W cl n" and "stored_in cl s h st m w"
    and "Store_Set (cursor_backend E enc dec) W s k v st = (e, st')"
  shows "\<exists>e0 m' w'. Memlog_Store.store_Set E enc k v m w = (e0, m', w') \<and> stored_in cl s h st' m' w'"
proof -
  obtain e0 m' w' where set: "Memlog_Store.store_Set E enc k v m w = (e0, m', w')" by (metis prod.exhaust)
  note at = assms(2) [unfolded stored_in_def]
  obtain o1 where run: "active_call W s o1
      (\<lambda>w. apfst (wrap_error (store_name s st) ''store/get'') (bSet (cursor_backend E enc dec) (store_backend s st) k v w)) st = (e, st')"
    using assms(3) unfolding Store_Set_def Let_def by blast
  from active_call_open [OF assms(1) _ _ run] at
  have "world st' = (world st)\<lparr>ml_stores := (ml_stores (world st))[store_backend s st := (h, m')],
      ml_files := (ml_files (world st))(h := w')\<rparr>" "heap st' = heap st" "same_ops cl n st st'"
    by (auto simp: memlog_backend_def ml_write_def set)
  then have "stored_in cl s h st' m' w'"
    using at by (simp add: stored_in_def same_ops_def store_backend_def)
  then show ?thesis using set by blast
qed

lemma runs_snoc:
  "runs E (cs @ [c]) m w =
     (case runs E cs m w of (errs, m1, w1) \<Rightarrow> case exec E c m1 w1 of (e, m2, w2) \<Rightarrow> (errs @ [e], m2, w2))"
  by (induction cs arbitrary: m w) (auto split: prod.splits)

text \<open>The call of memlog a \<open>Set\<close> of the cursor store becomes when its state can be converted.\<close>

definition set_call :: "(state \<Rightarrow> mapstr result) \<Rightarrow> string \<times> state \<Rightarrow> call" where
  "set_call enc kv = CSet (fst kv) (case enc (snd kv) of Inr x \<Rightarrow> x | Inl e \<Rightarrow> fmempty)"

definition converts :: "(state \<Rightarrow> mapstr result) \<Rightarrow> (string \<times> state) list \<Rightarrow> bool" where
  "converts enc l \<longleftrightarrow> (\<forall>kv \<in> set l. \<exists>x. enc (snd kv) = Inr x)"

definition ran ::
    "memlog_env \<Rightarrow> (state \<Rightarrow> mapstr result) \<Rightarrow> ('g \<Rightarrow> bool) \<Rightarrow> nat \<Rightarrow> string \<Rightarrow> Memlog_Store.store \<Rightarrow> fs
     \<Rightarrow> (nat, 'g, mlog) sstate \<times> (string \<times> state) list \<Rightarrow> bool" where
  "ran E enc cl s h m0 w0 p \<longleftrightarrow>
     (\<exists>m w. stored_in cl s h (fst p) m w
        \<and> (converts enc (snd p) \<longrightarrow> (\<exists>errs. runs E (map (set_call enc) (snd p)) m0 w0 = (errs, m, w))))"

definition last_set :: "'p \<times> (string \<times> state) list \<Rightarrow> string \<rightharpoonup> state" where
  "last_set p = map_of (rev (snd p))"

lemma registry_persist_ok:
  assumes "wait_group_spec W cl n"
  shows "persist_ok (logged (registry_persist (cursor_backend E enc dec) W s)) (ran E enc cl s h m0 w0) last_set"
  unfolding persist_ok_def
proof (intro allI impI)
  fix p k v e p'
  assume ok: "ran E enc cl s h m0 w0 p"
    and run: "pSet (logged (registry_persist (cursor_backend E enc dec) W s)) k v p = (e, p')"
  obtain st l where p: "p = (st, l)" by fastforce
  obtain st' where set: "Store_Set (cursor_backend E enc dec) W s k v st = (e, st')" and p': "p' = (st', l @ [(k, v)])"
    using run by (auto simp: logged_def registry_persist_def p split: prod.splits)
  obtain m w where m: "stored_in cl s h st m w"
      "converts enc l \<Longrightarrow> \<exists>errs. runs E (map (set_call enc) l) m0 w0 = (errs, m, w)"
    using ok by (auto simp: ran_def p)
  obtain e0 m' w' where m': "Memlog_Store.store_Set E enc k v m w = (e0, m', w')" "stored_in cl s h st' m' w'"
    using Store_Set_stored [OF assms m(1) set] by blast
  have "\<exists>errs. runs E (map (set_call enc) (l @ [(k, v)])) m0 w0 = (errs, m', w')" if c: "converts enc (l @ [(k, v)])"
  proof -
    from c obtain x where "enc v = Inr x" and l: "converts enc l" by (auto simp: converts_def)
    then have "exec E (set_call enc (k, v)) m w = (e0, m', w')"
      using m'(1) by (simp add: exec_def set_call_def Memlog_Store.store_Set_def)
    then show ?thesis using m(2) [OF l] by (auto simp: runs_snoc)
  qed
  then show "ran E enc cl s h m0 w0 p' \<and> last_set p' = (last_set p)(k \<mapsto> v)"
    using m'(2) by (auto simp: ran_def p p' last_set_def)
qed

section \<open>What the next process finds\<close>

lemma runs_reopened:
  assumes "SInv E N m w t" and "mem m = Some t" and "table_codec E t" and "range_spec E"
    and "\<forall>c \<in> set cs. call_codec E c" and "N + length cs + 1 < 2 ^ 63" and "runs E cs m w = (errs, m', w')"
  shows "\<exists>j \<le> length cs. reopened E h mode bufSz ign cp w' = Some (effects (take j cs) t) \<and> (faults w = [] \<longrightarrow> j = length cs)"
proof -
  have "N + length cs < 2 ^ 63" using assms(6) by simp
  from runs_durable [OF assms(1-5) this assms(7)] obtain t' where t': "SInv E (N + length cs) m' w' t'"
      "(t' = t \<and> (\<forall>i < length cs. errs ! i \<noteq> None)) \<or>
       (\<exists>k < length cs. t' = effects (take (Suc k) cs) t \<and> (\<forall>i < length cs. errs ! i = None \<longrightarrow> i \<le> k))"
    and len: "length errs = length cs" and nf: "faults w = [] \<longrightarrow> (\<forall>e \<in> set errs. e = None)"
    by blast
  have "Durable E (N + length cs) (disk m') (w'\<lparr>faults := []\<rparr>) t'"
    using t'(1) by (simp add: SInv_def DInv_Durable Durable_faults)
  from openStore_recovers [OF this assms(6), of h mode bufSz ign cp] have re: "reopened E h mode bufSz ign cp w' = Some t'"
    by (auto simp: reopened_def)
  have all: "faults w = [] \<Longrightarrow> i < length cs \<Longrightarrow> errs ! i = None" for i using nf len by simp
  from t'(2) show ?thesis
  proof
    assume t: "t' = t \<and> (\<forall>i < length cs. errs ! i \<noteq> None)"
    with all [of 0] have "faults w = [] \<longrightarrow> length cs = 0" by auto
    then show ?thesis using re t by (intro exI [of _ 0]) (simp add: effects_def)
  next
    assume "\<exists>k < length cs. t' = effects (take (Suc k) cs) t \<and> (\<forall>i < length cs. errs ! i = None \<longrightarrow> i \<le> k)"
    then obtain k where k: "k < length cs" "t' = effects (take (Suc k) cs) t" "\<forall>i < length cs. errs ! i = None \<longrightarrow> i \<le> k"
      by blast
    have "Suc k = length cs" if "faults w = []"
    proof -
      have "errs ! (length cs - 1) = None" using all [OF that, of "length cs - 1"] k(1) by simp
      then have "length cs - 1 \<le> k" using k(1,3) by simp
      then show ?thesis using k(1) by simp
    qed
    then show ?thesis using re k(1,2) by (intro exI [of _ "Suc k"]) simp
  qed
qed

lemma set_effects:
  "fmlookup (effects (map (set_call enc) l) t) k =
     (case map_of (rev l) k of None \<Rightarrow> fmlookup t k | Some v \<Rightarrow> Some (case enc v of Inr x \<Rightarrow> x | Inl e \<Rightarrow> fmempty))"
proof (induction l rule: rev_induct)
  case (snoc kv l)
  then show ?case by (cases kv) (auto simp: effects_def set_call_def)
qed (simp add: effects_def)

lemma acks_honest_take: "acks_honest F N steps \<Longrightarrow> acks_honest F N (take i steps)"
proof (induction F N steps arbitrary: i rule: acks_honest.induct)
  case (2 F N own u pass ts steps)
  then show ?case by (cases i) auto
next
  case (3 F N n steps)
  then show ?case by (cases i) auto
qed simp

lemma updates_take: "set (updates (take i steps)) \<subseteq> set (updates steps)"
proof (induction steps arbitrary: i rule: updates.induct)
  case (2 own u pass ts steps)
  then show ?case by (cases i) auto
next
  case (3 n steps)
  then show ?case by (cases i) auto
qed simp

lemma length_updates_take: "length (updates (take i steps)) \<le> length (updates steps)"
proof (induction steps arbitrary: i rule: updates.induct)
  case (2 own u pass ts steps)
  then show ?case by (cases i) auto
next
  case (3 n steps)
  then show ?case by (cases i) auto
qed simp

text \<open>The updates of a history that its acknowledgements cover.\<close>

definition settled :: "cursor_step list \<Rightarrow> gval list" where
  "settled steps = real_updates (take (covered (acked_total steps) (fates steps)) (updates steps))"

lemma settled_updates: "set (settled (take i steps)) \<subseteq> set (real_updates (updates steps))"
  using updates_take [of i steps] by (auto simp: settled_def dest: in_set_takeD)

text \<open>The \<open>Set\<close> calls a run makes: all of the record of the source, the last with the update settled last.\<close>

lemma logged_run:
  assumes "idle c a key owners" and "replaces conv norm" and "persist_ok (logged P) ok last_set"
    and "ok (persistentStore c, [])" and "acks_honest [] 0 steps" and "length (updates steps) < 2 ^ 64"
  obtains k' c' l where "cursor_run P conv a steps EventPrivateReporter c = Inr (k', c')" and "ok (persistentStore c', l)"
    and "length l \<le> length steps"
    and "\<And>j. j \<le> length l \<Longrightarrow> \<exists>i \<le> length steps. (j = length l \<longrightarrow> i = length steps)
       \<and> persisted norm Map.empty (map_of (rev (take j l))) key (settled (take i steps))"
proof -
  define c0 where "c0 = \<lparr>persistentStore = (persistentStore c, [] :: (string \<times> state) list), table = table c,
      resources = resources c, ops = ops c\<rparr>"
  have c0: "forget c0 = c" "idle c0 a key owners" "ok (persistentStore c0)" "calls_of c0 = []"
    using assms(1,4) by (simp_all add: c0_def forget_def idle_def)
  have run: "\<exists>k1 c1. cursor_run (logged P) conv a (take i steps) EventPrivateReporter c0 = Inr (k1, c1)
      \<and> ok (persistentStore c1) \<and> persisted norm Map.empty (map_of (rev (calls_of c1))) key (settled (take i steps))" for i
  proof -
    have "length (updates (take i steps)) < 2 ^ 64" using length_updates_take [of i steps] assms(6) by simp
    from idle_run [OF c0(2) assms(2,3) c0(3) acks_honest_take [OF assms(5)] this] show ?thesis
      by (auto simp: cursor_inv_def store_inv_def settled_def c0(4) last_set_def)
  qed
  from run [of "length steps"] obtain k' c1 where c1:
    "cursor_run (logged P) conv a steps EventPrivateReporter c0 = Inr (k', c1)" "ok (persistentStore c1)"
    by auto
  obtain l where l: "calls_of c1 = l" "length l \<le> length steps"
    and at: "\<And>j. j \<le> length l \<Longrightarrow> \<exists>i k2 c2. i \<le> length steps \<and> (j = length l \<longrightarrow> i = length steps)
          \<and> cursor_run (logged P) conv a (take i steps) EventPrivateReporter c0 = Inr (k2, c2) \<and> calls_of c2 = take j l"
    using cursor_run_calls [OF c1(1)] by (auto simp: c0_def)
  show thesis
  proof (rule that)
    show "cursor_run P conv a steps EventPrivateReporter c = Inr (k', forget c1)"
      using cursor_run_forget [OF c1(1)] c0(1) by simp
    show "ok (persistentStore (forget c1), l)" using c1(2) l(1) by (metis forget_simps(1) prod.collapse)
    show "\<exists>i \<le> length steps. (j = length l \<longrightarrow> i = length steps)
       \<and> persisted norm Map.empty (map_of (rev (take j l))) key (settled (take i steps))" if j: "j \<le> length l" for j
    proof -
      from at [OF j] obtain i k2 c2 where i: "i \<le> length steps" "j = length l \<longrightarrow> i = length steps"
          "cursor_run (logged P) conv a (take i steps) EventPrivateReporter c0 = Inr (k2, c2)" "calls_of c2 = take j l"
        by blast
      with run [of i] show ?thesis by auto
    qed
  qed (rule l(2))
qed

section \<open>Cursors survive a crash\<close>

text \<open>
  The states with one of the cursors \<open>curs\<close> can be converted for the record \<open>key\<close> and back, and the log and the
  data file keep them.
\<close>

definition state_codec ::
    "memlog_env \<Rightarrow> (state \<Rightarrow> mapstr result) \<Rightarrow> (mapstr \<Rightarrow> state result) \<Rightarrow> string \<Rightarrow> gval set \<Rightarrow> bool" where
  "state_codec E enc dec key curs \<longleftrightarrow>
     (\<forall>st. sCursor st \<in> curs \<longrightarrow> (\<exists>x. enc st = Inr x \<and> dec x = Inr st \<and> call_codec E (CSet key x)))"

text \<open>In the table \<open>t\<close> the record \<open>key\<close> has the last of the updates \<open>us\<close>; without one it is as in \<open>t0\<close>, as the others are.\<close>

definition resumes_at ::
    "(mapstr \<Rightarrow> state result) \<Rightarrow> (gval \<Rightarrow> gval) \<Rightarrow> (string, mapstr) fmap \<Rightarrow> (string, mapstr) fmap \<Rightarrow> string \<Rightarrow> gval list \<Rightarrow> bool" where
  "resumes_at dec norm t0 t key us \<longleftrightarrow>
     (\<forall>k. k \<noteq> key \<longrightarrow> fmlookup t k = fmlookup t0 k)
     \<and> (if us = [] then fmlookup t key = fmlookup t0 key
        else \<exists>x st. fmlookup t key = Some x \<and> dec x = Inr st \<and> sCursor st = norm (last us))"

lemma resumes_at_effects:
  assumes "persisted norm Map.empty (map_of (rev l)) key us" and "state_codec E enc dec key (norm ` set us)"
  shows "resumes_at dec norm t (effects (map (set_call enc) l) t) key us"
proof -
  have other: "map_of (rev l) k = None" if "k \<noteq> key" for k
    using assms(1) that by (simp add: persisted_def)
  show ?thesis
  proof (cases "us = []")
    case True
    then show ?thesis using assms(1) other by (simp add: resumes_at_def set_effects persisted_def)
  next
    case False
    then obtain st where st: "map_of (rev l) key = Some st" "sCursor st = norm (last us)"
      using assms(1) by (auto simp: persisted_def)
    then have "sCursor st \<in> norm ` set us" using False by simp
    then obtain x where "enc st = Inr x" "dec x = Inr st" using assms(2) by (auto simp: state_codec_def)
    then show ?thesis using False st other by (auto simp: resumes_at_def set_effects)
  qed
qed

text \<open>Every call of the log has a state that was the last one settled when the call was made.\<close>

lemma logged_states:
  assumes "\<And>j. j \<le> length l \<Longrightarrow> \<exists>i \<le> length steps. (j = length l \<longrightarrow> i = length steps)
       \<and> persisted norm Map.empty (map_of (rev (take j l))) key (settled (take i steps))"
    and "kv \<in> set l"
  shows "fst kv = key \<and> sCursor (snd kv) \<in> norm ` set (real_updates (updates steps))"
proof -
  obtain j where j: "j < length l" "l ! j = kv" using assms(2) by (meson in_set_conv_nth)
  then have tk: "map_of (rev (take (Suc j) l)) (fst kv) = Some (snd kv)" by (simp add: take_Suc_conv_app_nth)
  from assms(1) [of "Suc j"] j(1) obtain i where
    i: "persisted norm Map.empty (map_of (rev (take (Suc j) l))) key (settled (take i steps))"
    by auto
  then have key: "fst kv = key" using tk by (metis persisted_def option.distinct(1))
  then have ne: "settled (take i steps) \<noteq> []" using i tk by (auto simp: persisted_def)
  then have "sCursor (snd kv) = norm (last (settled (take i steps)))" using i tk key by (auto simp: persisted_def)
  moreover have "last (settled (take i steps)) \<in> set (real_updates (updates steps))"
    using last_in_set [OF ne] settled_updates by blast
  ultimately show ?thesis using key by simp
qed

text \<open>A store opened in a new directory and used without a failure.\<close>

lemma used_store:
  assumes "fresh w" and "meta_codec E" and "range_spec E" and "\<forall>c \<in> set cs. call_codec E c" and "length cs + 3 < 2 ^ 63"
    and "openStore E h mode bufSz ign cp w = (Inr m1, w1)" and "runs E cs m1 w1 = (errs, m, w2)"
  shows "SInv E (2 + length cs) m w2 (effects cs fmempty)" and "mem m = Some (effects cs fmempty)"
    and "table_codec E (effects cs fmempty)"
proof -
  have m1: "mem m1 = Some fmempty" "SInv E 2 m1 w1 fmempty" "faults w1 = []"
    using openStore_fresh [OF assms(1,2), of h mode bufSz ign cp] assms(6) by (auto simp: SInv_def)
  have N: "2 + length cs < 2 ^ 63" using assms(5) by simp
  note R = runs_durable [OF m1(2,1) table_codec_empty assms(3,4) N assms(7)]
  then obtain t' where t': "SInv E (2 + length cs) m w2 t'"
     "(t' = fmempty \<and> (\<forall>i < length cs. errs ! i \<noteq> None)) \<or>
      (\<exists>k < length cs. t' = effects (take (Suc k) cs) fmempty \<and> (\<forall>i < length cs. errs ! i = None \<longrightarrow> i \<le> k))"
    by blast
  have ok: "i < length cs \<Longrightarrow> errs ! i = None" for i using R m1(3) by simp
  have "t' = effects cs fmempty" using t'(2)
  proof
    assume t: "t' = fmempty \<and> (\<forall>i < length cs. errs ! i \<noteq> None)"
    then have "cs = []" using ok [of 0] by (cases cs) auto
    then show ?thesis using t by (simp add: effects_def)
  next
    assume "\<exists>k < length cs. t' = effects (take (Suc k) cs) fmempty \<and> (\<forall>i < length cs. errs ! i = None \<longrightarrow> i \<le> k)"
    then obtain k where k: "k < length cs" "t' = effects (take (Suc k) cs) fmempty" "length cs - 1 \<le> k"
      using ok [of "length cs - 1"] by fastforce
    then have "Suc k = length cs" by simp
    then show ?thesis using k(2) by simp
  qed
  then show "SInv E (2 + length cs) m w2 (effects cs fmempty)" using t'(1) by simp
  show "mem m = Some (effects cs fmempty)" using R by blast
  have "table_codec E (fold effect cs t)" if "table_codec E t" for t
    using that assms(4) by (induction cs arbitrary: t) (simp_all add: table_codec_effect)
  then show "table_codec E (effects cs fmempty)" unfolding effects_def using table_codec_empty by blast
qed

text \<open>At least once delivery across a crash, through all layers.  An input manager uses a store of the state
  registry on memlog, in a directory that has seen any calls before; then a client of one source publishes events with cursor
  updates and its events are acknowledged, in any order, while any system call of the disk may fail, writes are torn, or
  the machine stops.  No call of the client fails.  The next process opens the directory without an error and
  finds for the source the last update settled at some step of the history, never one whose events were
  not acknowledged, and the other records as they were; if the disk did not fail it is the last update settled in
  the whole history.\<close>

lemma cursor_survives_crash:
  assumes "fresh w" and "meta_codec E" and "range_spec E" and "\<forall>c \<in> set cs. call_codec E c"
    and "openStore E h mode bufSz ign cp w = (Inr m1, w1)" and "runs E cs m1 w1 = (errs, m, w2)"
    and "wait_group_spec W cl n" and "stored_in cl s h (persistentStore c) m (w2\<lparr>faults := fl\<rparr>)"
    and "idle c a key owners" and "replaces conv norm" and "acks_honest [] 0 steps"
    and "state_codec E enc dec key (norm ` set (real_updates (updates steps)))"
    and "length (updates steps) < 2 ^ 64" and "length cs + length steps + 3 < 2 ^ 63"
  shows "\<exists>k' c' i t. i \<le> length steps
     \<and> cursor_run (registry_persist (memlog_backend E enc dec) W s) conv a steps EventPrivateReporter c = Inr (k', c')
     \<and> reopened E h mode bufSz ign cp (ml_files (world (persistentStore c')) h) = Some t
     \<and> resumes_at dec norm (effects cs fmempty) t key (settled (take i steps))
     \<and> (fl = [] \<longrightarrow> i = length steps)"
proof -
  let ?w = "w2\<lparr>faults := fl\<rparr>" and ?t0 = "effects cs fmempty"
  have "length cs + 3 < 2 ^ 63" using assms(14) by simp
  note used = used_store [OF assms(1-4) this assms(5,6)]
  have S: "SInv E (2 + length cs) m ?w ?t0" using used(1) by (simp add: SInv_def DInv_faults)
  have start: "ran E enc cl s h m ?w (persistentStore c, [])" using assms(8) by (auto simp: ran_def)
  obtain k' c' l where run:
      "cursor_run (registry_persist (memlog_backend E enc dec) W s) conv a steps EventPrivateReporter c = Inr (k', c')"
      "ran E enc cl s h m ?w (persistentStore c', l)" "length l \<le> length steps"
    and at: "\<And>j. j \<le> length l \<Longrightarrow> \<exists>i \<le> length steps. (j = length l \<longrightarrow> i = length steps)
       \<and> persisted norm Map.empty (map_of (rev (take j l))) key (settled (take i steps))"
    using logged_run [OF assms(9,10) registry_persist_ok [OF assms(7)] start assms(11,13)] by blast
  have states: "fst kv = key \<and> sCursor (snd kv) \<in> norm ` set (real_updates (updates steps))" if "kv \<in> set l" for kv
    by (rule logged_states [OF _ that]) (rule at)
  have conv: "\<exists>x. enc (snd kv) = Inr x \<and> call_codec E (CSet key x)" if "kv \<in> set l" for kv
    using states [OF that] assms(12) by (auto simp: state_codec_def)
  then have "converts enc l" by (auto simp: converts_def)
  then obtain m' w' es where end': "stored_in cl s h (persistentStore c') m' w'" "runs E (map (set_call enc) l) m ?w = (es, m', w')"
    using run(2) by (auto simp: ran_def)
  have codec: "\<forall>c \<in> set (map (set_call enc) l). call_codec E c"
  proof
    fix c assume "c \<in> set (map (set_call enc) l)"
    then obtain kv where kv: "kv \<in> set l" "c = set_call enc kv" by auto
    with conv [OF kv(1)] states [OF kv(1)] show "call_codec E c" by (auto simp: set_call_def)
  qed
  have "2 + length cs + length (map (set_call enc) l) + 1 < 2 ^ 63" using run(3) assms(14) by simp
  from runs_reopened [OF S used(2,3) assms(3) codec this end'(2), of h mode bufSz ign cp] obtain j where
    j: "j \<le> length l" "reopened E h mode bufSz ign cp w' = Some (effects (map (set_call enc) (take j l)) ?t0)"
      "fl = [] \<longrightarrow> j = length l"
    by (auto simp: take_map)
  from at [OF j(1)] obtain i where i: "i \<le> length steps" "j = length l \<longrightarrow> i = length steps"
    "persisted norm Map.empty (map_of (rev (take j l))) key (settled (take i steps))"
    by blast
  have "state_codec E enc dec key (norm ` set (settled (take i steps)))"
    using assms(12) settled_updates [of i steps] unfolding state_codec_def by blast
  note res = resumes_at_effects [OF i(3) this]
  have "ml_files (world (persistentStore c')) h = w'" using end'(1) by (simp add: stored_in_def)
  then show ?thesis using run(1) i(1,2) j(2,3) res by blast
qed

text \<open>A conversion of states with a number as the cursor, a disk that tears a write and then stops, and a source on it.\<close>

definition unary :: "int \<Rightarrow> string" where
  "unary i = (if 0 \<le> i then replicate (nat i) (CHR ''1'') else CHR ''n'' # replicate (nat (- i)) (CHR ''1''))"

definition of_unary :: "string \<Rightarrow> int" where
  "of_unary s = (if s \<noteq> [] \<and> hd s = CHR ''n'' then - int (length (tl s)) else int (length s))"

definition encode_state :: "state \<Rightarrow> mapstr result" where
  "encode_state st =
     (case sCursor st of
        VNum s \<Rightarrow> Inr (fmap_of_list [(''ttl'', VStr (unary (TTL st))), (''updated'', VStr (unary (Updated st))), (''cursor'', VStr s)])
      | _ \<Rightarrow> Inl (ErrNew ''unsupported cursor''))"

definition decode_state :: "mapstr \<Rightarrow> state result" where
  "decode_state x =
     (case (fmlookup x ''ttl'', fmlookup x ''updated'', fmlookup x ''cursor'') of
        (Some (VStr t), Some (VStr u), Some (VStr s)) \<Rightarrow> Inr \<lparr>TTL = of_unary t, Updated = of_unary u, sCursor = VNum s\<rparr>
      | _ \<Rightarrow> Inl (ErrNew ''unexpected document''))"

lemma of_unary: "of_unary (unary i) = i"
  by (auto simp: of_unary_def unary_def hd_replicate)

lemma flat_state:
  assumes "plain_string s"
  shows "flat (fmap_of_list [(''ttl'', VStr (unary i)), (''updated'', VStr (unary j)), (''cursor'', VStr s)])"
proof -
  have "plain_string (unary i)" for i by (auto simp: plain_string_def unary_def)
  moreover have "plain_string ''ttl''" "plain_string ''updated''" "plain_string ''cursor''" by (simp_all add: plain_string_def)
  moreover have "''ttl'' \<noteq> keyField" "''updated'' \<noteq> keyField" "''cursor'' \<noteq> keyField" by (simp_all add: keyField_def)
  ultimately show ?thesis using assms unfolding flat_def
    by (simp add: fmlookup_of_list, intro allI conjI impI) (hypsubst, assumption)+
qed

lemma decode_encode:
  "sCursor (st :: state) = VNum s \<Longrightarrow>
     decode_state (fmap_of_list [(''ttl'', VStr (unary (TTL st))), (''updated'', VStr (unary (Updated st))), (''cursor'', VStr s)]) = Inr st"
  by (cases st) (simp add: decode_state_def fmlookup_of_list of_unary)

lemma plain_state_codec:
  assumes "plain_string key" and "\<forall>u \<in> curs. \<exists>s. u = VNum s \<and> plain_string s"
  shows "state_codec plain_env encode_state decode_state key curs"
  unfolding state_codec_def
proof (intro allI impI)
  fix st :: state
  assume "sCursor st \<in> curs"
  with assms(2) obtain s where s: "sCursor st = VNum s" "plain_string s" by blast
  show "\<exists>x. encode_state st = Inr x \<and> decode_state x = Inr st \<and> call_codec plain_env (CSet key x)"
    using s(1) decode_encode [OF s(1)] plain_codecs(1,3) [OF assms(1) flat_state [OF s(2)]]
    by (simp add: encode_state_def call_codec_def)
qed

lemma sample_state_codec:
  "state_codec plain_env encode_state decode_state ''in::a'' ((\<lambda>u. u) ` set (real_updates (updates sample_history)))"
  by (rule plain_state_codec) (simp_all add: plain_string_def sample_history_simps)

definition torn :: "fault list" where
  "torn = [NoFault, Partial 3 EIO, Crash]"

definition registry_of :: "Memlog_Store.store \<Rightarrow> fs \<Rightarrow> (nat, bool \<times> nat, mlog) sstate" where
  "registry_of m w =
     \<lparr>reg_active = fmupd ''a'' 0 fmempty, reg_wg = 1, heap = [\<lparr>refCount = 1, sname = ''a'', sbackend = 0\<rparr>],
      stores = [\<lparr>shared = 0, activeOps = (False, 0)\<rparr>],
      world = \<lparr>ml_reg = \<lparr>active = True, settings = sample_settings\<rparr>, ml_stores = [(''/r/a'', m)],
        ml_files = (\<lambda>d. if d = ''/r/a'' then w else no_home)\<rparr>\<rparr>"

lemma registry_of_stored: "stored_in fst 0 ''/r/a'' (registry_of m w) m w"
  by (simp add: registry_of_def stored_in_def store_backend_def)

definition disk_registry :: "fault list \<Rightarrow> (nat, bool \<times> nat, mlog) sstate" where
  "disk_registry fl =
     (case openStore plain_env ''/r/a'' 384 4096 False defaultCheckpoint no_home of
        (Inr m, w) \<Rightarrow> registry_of m (w\<lparr>faults := fl\<rparr>)
      | (Inl e, w) \<Rightarrow> one_store)"

definition disk_source :: "fault list \<Rightarrow> (nat, bool \<times> nat, mlog) sstate store" where
  "disk_source fl = snd (store_Get ''in::a'' \<lparr>persistentStore = disk_registry fl, table = fmempty, resources = [], ops = []\<rparr>)"

lemma disk_source_idle: "idle (disk_source fl) 0 ''in::a'' 1" "persistentStore (disk_source fl) = disk_registry fl"
  by (simp_all add: disk_source_def store_Get_def states_Find_def upd_resource_def new_resource_def
      resource_Retain_def idle_def Let_def)

lemma disk_source_stored:
  obtains m w where "openStore plain_env ''/r/a'' 384 4096 False defaultCheckpoint no_home = (Inr m, w)"
    and "stored_in fst 0 ''/r/a'' (persistentStore (disk_source fl)) m (w\<lparr>faults := fl\<rparr>)"
proof -
  obtain m w where "openStore plain_env ''/r/a'' 384 4096 False defaultCheckpoint no_home = (Inr m, w)"
    using openStore_fresh [OF fresh_no_home plain_meta_codec] by blast
  then show thesis by (rule that) (simp add: disk_source_idle disk_registry_def registry_of_stored \<open>openStore _ _ _ _ _ _ _ = _\<close>)
qed

lemma sample_bounds:
  "length (updates sample_history) < 2 ^ 64" "length ([] :: call list) + length sample_history + 3 < 2 ^ 63"
  "\<forall>c \<in> set []. call_codec plain_env c" "runs plain_env [] m w = ([], m, w)"
  by (simp_all add: sample_history_def)

lemma cursor_survives_crash_witness:
  "\<exists>k' c' i t. i \<le> length sample_history
     \<and> cursor_run (registry_persist (memlog_backend plain_env encode_state decode_state) plain_wait_group 0) copies 0
         sample_history EventPrivateReporter (disk_source torn) = Inr (k', c')
     \<and> reopened plain_env ''/r/a'' 384 4096 False defaultCheckpoint (ml_files (world (persistentStore c')) ''/r/a'') = Some t
     \<and> resumes_at decode_state (\<lambda>u. u) (effects [] fmempty) t ''in::a'' (settled (take i sample_history))"
proof (rule disk_source_stored [of torn])
  fix m w
  assume op: "openStore plain_env ''/r/a'' 384 4096 False defaultCheckpoint no_home = (Inr m, w)"
    and at: "stored_in fst 0 ''/r/a'' (persistentStore (disk_source torn)) m (w\<lparr>faults := torn\<rparr>)"
  show ?thesis
    using cursor_survives_crash [OF fresh_no_home plain_meta_codec plain_range_spec sample_bounds(3) op sample_bounds(4)
        plain_wait_group_spec at disk_source_idle(1) copies_replaces sample_history_simps(1) sample_state_codec sample_bounds(1,2)]
    by blast
qed

end
