(* ===== verification/Cursor_Restart.thy ===== *)
theory Cursor_Restart
  imports Cursor_Durable Cursor_Clean
begin

text \<open>
  The whole cycle of a stateful input: its cursor updates reach the disk as \<open>Cursor_Durable\<close> says, the process dies, and the next one
  opens the directory, a store of the state registry on it and the cursor store of the input type.
\<close>

section \<open>Reading the records of a store on memlog\<close>

text \<open>An operation leaves an open wait group as it found it: \<open>Done\<close> takes back what \<open>Add\<close> did.\<close>

definition takes_back :: "'g wait_group \<Rightarrow> bool" where
  "takes_back W \<longleftrightarrow> (\<forall>g g'. wg_Add W g = (None, g') \<longrightarrow> wg_Done W g' = g)"

lemma set_active_undo:
  "s < length (stores st) \<Longrightarrow> set_active s (activeOps (stores st ! s)) (set_active s g st) = st"
  by (simp add: set_active_def)

lemma active_call_reads:
  assumes "wait_group_spec W cl n" and "takes_back W" and "s < length (stores st)" and "\<not> cl (activeOps (stores st ! s))"
    and "snd (body (world st)) = world st"
  shows "active_call W s closedErr body st = (fst (body (world st)), st)"
proof -
  obtain e g where a: "wg_Add W (activeOps (stores st ! s)) = (e, g)" by fastforce
  then have "e = None" using assms(1,4) by (auto simp: wait_group_spec_def)
  then have done': "wg_Done W g = activeOps (stores st ! s)" using assms(2) a by (auto simp: takes_back_def)
  have same: "(set_active s g st)\<lparr>world := world st\<rparr> = set_active s g st" by (simp add: set_active_def)
  then show ?thesis
    using a \<open>e = None\<close> done' assms(3,5) set_active_undo [OF assms(3)]
    by (cases "body (world st)") (auto simp: active_call_def active_Add_def active_Done_def same)
qed

lemma each_range: "each_loop (\<lambda>k x. fn k (dec x)) kvs u = range_loop (\<lambda>d. d) fn (map (\<lambda>(k, x). (k, dec x)) kvs) u"
  by (induction kvs arbitrary: u) (auto split: prod.splits)

definition records :: "memlog_env \<Rightarrow> (mapstr \<Rightarrow> state result) \<Rightarrow> Memlog_Store.store \<Rightarrow> (string \<times> state result) list" where
  "records E dec m = map (\<lambda>(k, x). (k, dec x)) (rangeTable E (mem_table m))"

lemma records_lookup:
  assumes "range_spec E"
  shows "distinct (map fst (records E dec m)) \<and> map_of (records E dec m) key = map_option dec (fmlookup (mem_table m) key)"
proof -
  have spec: "distinct (map fst (rangeTable E (mem_table m)))" "fmap_of_list (rangeTable E (mem_table m)) = mem_table m"
    using assms by (simp_all add: range_spec_def)
  have "map fst (records E dec m) = map fst (rangeTable E (mem_table m))" by (simp add: records_def case_prod_beta o_def)
  moreover have "map_of (records E dec m) key = map_option dec (map_of (rangeTable E (mem_table m)) key)"
    by (simp add: records_def map_of_map)
  ultimately show ?thesis using spec by (metis fmlookup_of_list)
qed

text \<open>So the store visits its records as \<open>readStates\<close> needs it.\<close>

lemma registry_visits:
  assumes "wait_group_spec W cl n" and "takes_back W" and "range_spec E"
  shows "visits (registry_persist (memlog_backend E enc dec) W s) (\<lambda>st. stored_in cl s h st m w) (\<lambda>_. records E dec m)"
  unfolding visits_def
proof (intro allI impI conjI)
  fix st fn u
  assume "stored_in cl s h st m w"
  note at = this [unfolded stored_in_def]
  let ?body = "bEach (cursor_backend E enc dec) (store_backend s st) fn u"
  have body: "?body (world st) = (range_loop (\<lambda>d. d) fn (records E dec m) u, world st)"
    using at by (simp add: memlog_backend_def store_Each_def each_range records_def)
  show "pEach (registry_persist (memlog_backend E enc dec) W s) fn u st = (range_loop (\<lambda>d. d) fn (records E dec m) u, st)"
    using active_call_reads [OF assms(1,2), of s st ?body] at body
    by (simp add: registry_persist_def Store_Each_def)
qed (use records_lookup [OF assms(3)] in blast)

section \<open>The whole cycle\<close>

lemma reopened_store:
  assumes "reopened E h mode bufSz ign cp w = Some t"
  obtains m w' where "openStore E h mode bufSz ign cp (w\<lparr>faults := []\<rparr>) = (Inr m, w')" and "mem_table m = t"
  using assms by (auto simp: reopened_def mem_table_def split: prod.splits sum.splits)

lemma resumed_record:
  assumes "wait_group_spec W cl n" and "takes_back W" and "range_spec E" and "stored_in cl s h st m w"
    and "resumes_at dec norm t0 (mem_table m) key us" and "prefix (pfx @ ''::'') key"
  shows "\<exists>c. cursor_openStore (registry_persist (memlog_backend E enc dec) W s) (Inr st) pfx = (Inr c, Some st)
     \<and> (us \<noteq> [] \<longrightarrow> (\<exists>r. holds_state c key r \<and> sCursor r = norm (last us)))
     \<and> (us = [] \<and> fmlookup t0 key = None \<longrightarrow> fmlookup (table c) key = None)"
proof -
  obtain c where c: "cursor_openStore (registry_persist (memlog_backend E enc dec) W s) (Inr st) pfx = (Inr c, Some st)"
    "\<And>key. case map_of (records E dec m) key of
        Some (Inr r) \<Rightarrow> (if prefix (pfx @ ''::'') key then holds_state c key r else fmlookup (table c) key = None)
      | _ \<Rightarrow> fmlookup (table c) key = None"
    using opened_store [OF registry_visits [OF assms(1-3)] assms(4)] by metis
  have "map_of (records E dec m) key = map_option dec (fmlookup (mem_table m) key)" using records_lookup [OF assms(3)] by blast
  then show ?thesis using c(1) c(2) [of key] assms(5,6) by (auto simp: resumes_at_def split: if_splits)
qed

text \<open>C17. At least once delivery across a restart, through all layers.  An input manager uses a store of the state registry on
  memlog, in a directory that has seen any calls before; a client of one source publishes events with cursor updates and
  its events are acknowledged, in any order, while any system call of the disk may fail, writes are torn, or the machine
  stops.  No call of the client fails.  The next process opens the directory without an error, and any store of its state registry
  on it gives the inputs of the type their resources: the source resumes from the last update settled at some step of
  the history, never from one whose events were not acknowledged, and from the last one settled in the whole history if the
  disk did not fail.  A source that was new and had nothing settled is new again.\<close>

theorem cursor_resumes_after_crash:
  assumes "fresh w" and "meta_codec E" and "range_spec E" and "\<forall>c \<in> set cs. call_codec E c"
    and "openStore E h mode bufSz ign cp w = (Inr m1, w1)" and "runs E cs m1 w1 = (errs, m, w2)"
    and "wait_group_spec W cl n" and "takes_back W" and "stored_in cl s h (persistentStore c) m (w2\<lparr>faults := fl\<rparr>)"
    and "idle c a key owners" and "prefix (pfx @ ''::'') key" and "replaces conv norm" and "acks_honest [] 0 steps"
    and "state_codec E enc dec key (norm ` set (real_updates (updates steps)))"
    and "length (updates steps) < 2 ^ 64" and "length cs + length steps + 3 < 2 ^ 63"
  shows "\<exists>k' c' i m2 w3. i \<le> length steps
     \<and> cursor_run (registry_persist (memlog_backend E enc dec) W s) conv a steps EventPrivateReporter c = Inr (k', c')
     \<and> openStore E h mode bufSz ign cp ((ml_files (world (persistentStore c')) h)\<lparr>faults := []\<rparr>) = (Inr m2, w3)
     \<and> (\<forall>s2 st2. stored_in cl s2 h st2 m2 w3 \<longrightarrow>
          (\<exists>c2. cursor_openStore (registry_persist (memlog_backend E enc dec) W s2) (Inr st2) pfx = (Inr c2, Some st2)
            \<and> (settled (take i steps) \<noteq> [] \<longrightarrow>
                 (\<exists>r. holds_state c2 key r \<and> sCursor r = norm (last (settled (take i steps)))))
            \<and> (settled (take i steps) = [] \<and> fmlookup (effects cs fmempty) key = None \<longrightarrow> fmlookup (table c2) key = None)))
     \<and> (fl = [] \<longrightarrow> i = length steps)"
proof -
  from cursor_survives_crash [OF assms(1-7,9,10,12-16)] obtain k' c' i t where run: "i \<le> length steps"
    "cursor_run (registry_persist (memlog_backend E enc dec) W s) conv a steps EventPrivateReporter c = Inr (k', c')"
    "reopened E h mode bufSz ign cp (ml_files (world (persistentStore c')) h) = Some t"
    "resumes_at dec norm (effects cs fmempty) t key (settled (take i steps))" "fl = [] \<longrightarrow> i = length steps"
    by blast
  from reopened_store [OF run(3)] obtain m2 w3 where m2:
    "openStore E h mode bufSz ign cp ((ml_files (world (persistentStore c')) h)\<lparr>faults := []\<rparr>) = (Inr m2, w3)" "mem_table m2 = t"
    by blast
  note found = resumed_record [OF assms(7,8,3) _ run(4) [folded m2(2)] assms(11), where enc = enc]
  show ?thesis using run(1,2,5) m2(1) found by blast
qed

lemma plain_takes_back: "takes_back plain_wait_group"
  by (auto simp: takes_back_def plain_wait_group_def split: if_splits)

lemma sample_settled: "settled (take (length sample_history) sample_history) = [VNum ''1'']"
  by (simp add: settled_def sample_history_simps numeral_2_eq_2)

theorem cursor_resumes_after_crash_witness:
  "\<exists>k' c' m2 w3 c2 r.
     cursor_run (registry_persist (memlog_backend plain_env encode_state decode_state) plain_wait_group 0) copies 0
         sample_history EventPrivateReporter (disk_source []) = Inr (k', c')
     \<and> openStore plain_env ''/r/a'' 384 4096 False defaultCheckpoint
         ((ml_files (world (persistentStore c')) ''/r/a'')\<lparr>faults := []\<rparr>) = (Inr m2, w3)
     \<and> cursor_openStore (registry_persist (memlog_backend plain_env encode_state decode_state) plain_wait_group 0)
         (Inr (registry_of m2 w3)) ''in'' = (Inr c2, Some (registry_of m2 w3))
     \<and> holds_state c2 ''in::a'' r \<and> sCursor r = VNum ''1''"
proof (rule disk_source_stored [of "[]"])
  fix m w
  assume op: "openStore plain_env ''/r/a'' 384 4096 False defaultCheckpoint no_home = (Inr m, w)"
    and at: "stored_in fst 0 ''/r/a'' (persistentStore (disk_source [])) m (w\<lparr>faults := []\<rparr>)"
  have pre: "prefix (''in'' @ ''::'') ''in::a''" by simp
  from cursor_resumes_after_crash [OF fresh_no_home plain_meta_codec plain_range_spec sample_bounds(3) op sample_bounds(4)
      plain_wait_group_spec plain_takes_back at disk_source_idle(1) pre copies_replaces sample_history_simps(1)
      sample_state_codec sample_bounds(1,2)]
  obtain k' c' m2 w3 where run:
    "cursor_run (registry_persist (memlog_backend plain_env encode_state decode_state) plain_wait_group 0) copies 0
       sample_history EventPrivateReporter (disk_source []) = Inr (k', c')"
    "openStore plain_env ''/r/a'' 384 4096 False defaultCheckpoint
       ((ml_files (world (persistentStore c')) ''/r/a'')\<lparr>faults := []\<rparr>) = (Inr m2, w3)"
    and again: "\<And>s2 st2. stored_in fst s2 ''/r/a'' st2 m2 w3 \<Longrightarrow>
      \<exists>c2. cursor_openStore (registry_persist (memlog_backend plain_env encode_state decode_state) plain_wait_group s2) (Inr st2) ''in''
          = (Inr c2, Some st2)
        \<and> (settled (take (length sample_history) sample_history) \<noteq> [] \<longrightarrow>
             (\<exists>r. holds_state c2 ''in::a'' r \<and> sCursor r = last (settled (take (length sample_history) sample_history))))"
    by blast
  from again [OF registry_of_stored] obtain c2 r where
    "cursor_openStore (registry_persist (memlog_backend plain_env encode_state decode_state) plain_wait_group 0)
       (Inr (registry_of m2 w3)) ''in'' = (Inr c2, Some (registry_of m2 w3))"
    "holds_state c2 ''in::a'' r" "sCursor r = VNum ''1''"
    unfolding sample_settled by auto
  with run show ?thesis by blast
qed

end
