(* ===== verification/Inputest.thy ===== *)
theory Inputest
  imports Input_Plugin Publisher
begin

text \<open>
  \<open>pkg/manager/input/internal/inputest\<close>: the mock manager and input (\<open>inputest.go\<close>) and the test loader
  (\<open>loader.go\<close>).  A test that calls \<open>t.Fatalf\<close> ends there: \<open>Inl\<close> with the error of the message.
\<close>

section \<open>inputest.go\<close>

record ('c, 'i, 'w) MockInputManager =
  OnInit :: "(Mode \<Rightarrow> 'w \<Rightarrow> error option \<times> 'w) option"
  OnConfigure :: "('c \<Rightarrow> 'w \<Rightarrow> 'i result \<times> 'w) option"

record ('tctx, 'ctx, 'pl, 'w) MockInput =
  mockType :: string
  OnTest :: "('tctx \<Rightarrow> 'w \<Rightarrow> error option \<times> 'w) option"
  OnRun :: "('ctx \<Rightarrow> 'pl \<Rightarrow> 'w \<Rightarrow> error option \<times> 'w) option"

definition mockm_Init :: "('c, 'i, 'w) MockInputManager \<Rightarrow> Mode \<Rightarrow> 'w \<Rightarrow> error option \<times> 'w" where
  "mockm_Init m mode w = (case OnInit m of Some f \<Rightarrow> f mode w | None \<Rightarrow> (None, w))"

definition mockm_Create :: "('c, 'i, 'w) MockInputManager \<Rightarrow> 'c \<Rightarrow> 'w \<Rightarrow> 'i result \<times> 'w" where
  "mockm_Create m cfg w =
     (case OnConfigure m of
        Some f \<Rightarrow> f cfg w
      | None \<Rightarrow> (Inl (ErrNew (''oo'' @ ''ps, OnConfigure not implemented '')), w))"

definition mock_manager :: "('c, 'i, 'w) MockInputManager \<Rightarrow> ('c, 'i, 'w) manager" where
  "mock_manager m = \<lparr>mInit = mockm_Init m, mCreate = mockm_Create m\<rparr>"

definition mock_Name :: "('tctx, 'ctx, 'pl, 'w) MockInput \<Rightarrow> string" where
  "mock_Name f = mockType f"

definition mock_Test :: "('tctx, 'ctx, 'pl, 'w) MockInput \<Rightarrow> 'tctx \<Rightarrow> 'w \<Rightarrow> error option \<times> 'w" where
  "mock_Test f ctx w = (case OnTest f of Some g \<Rightarrow> g ctx w | None \<Rightarrow> (None, w))"

definition mock_Run :: "('tctx, 'ctx, 'pl, 'w) MockInput \<Rightarrow> 'ctx \<Rightarrow> 'pl \<Rightarrow> 'w \<Rightarrow> error option \<times> 'w" where
  "mock_Run f ctx pipeline w = (case OnRun f of Some g \<Rightarrow> g ctx pipeline w | None \<Rightarrow> (None, w))"

definition ConfigureConstInput :: "'i \<Rightarrow> 'c \<Rightarrow> 'w \<Rightarrow> 'i result \<times> 'w" where
  "ConfigureConstInput i cfg w = (Inr i, w)"

definition ConstInputManager :: "'i \<Rightarrow> ('c, 'i, 'w) MockInputManager" where
  "ConstInputManager inp = \<lparr>OnInit = None, OnConfigure = Some (ConfigureConstInput inp)\<rparr>"

definition SinglePlugin :: "string \<Rightarrow> ('c, 'i, 'w) manager \<Rightarrow> ('c, 'i, 'w) Plugin list" where
  "SinglePlugin name m =
     [\<lparr>pName = name, pStability = Stable, pDeprecated = False, pInfo = [], pDoc = [], pManager = Some m\<rparr>]"

section \<open>loader.go\<close>

definition MustNewTestLoader ::
    "((string, nat) fmap \<Rightarrow> (string \<times> nat) list) \<Rightarrow> ('c, 'i, 'w) Plugin list \<Rightarrow> string \<Rightarrow> string \<Rightarrow> ('c, 'i, 'w) Loader result" where
  "MustNewTestLoader order plugins tf dflt =
     (case NewLoader order plugins tf dflt of
        Inl err \<Rightarrow> Inl (ErrWrap ''Failed to create loader'' err)
      | Inr l \<Rightarrow> Inr l)"

definition MustConfigure ::
    "('c \<Rightarrow> string \<Rightarrow> string result) \<Rightarrow> 'c \<Rightarrow> ('c, 'i, 'w) Loader \<Rightarrow> 'w \<Rightarrow> 'i result \<times> 'w" where
  "MustConfigure cfg_String cfg l w =
     (case Configure cfg_String cfg l w of
        (Inl err, w1) \<Rightarrow> (Inl (ErrWrap ''Failed to create the input'' err), w1)
      | (Inr i, w1) \<Rightarrow> (Inr i, w1))"

section \<open>The fixture of the tests\<close>

text \<open>
  A loader made of one plugin with a constant manager can always be created when the plugin has a name, and gives its
  input for exactly the configurations of that type; a configuration without type gets it by the default.
\<close>

lemma single_plugin_fixture:
  assumes "name \<noteq> []" and "lists_map order"
  shows "\<exists>l. MustNewTestLoader order (SinglePlugin name (mock_manager (ConstInputManager inp :: ('c, 'i, 'w) MockInputManager))) tf name = Inr l
     \<and> (\<forall>cfg_String cfg w. MustConfigure cfg_String cfg l w =
          (case cfg_String cfg (if tf = [] then ''type'' else tf) of
             Inr n \<Rightarrow> if n = name then (Inr inp, w)
                      else (Inl (ErrWrap ''Failed to create the input'' (LoadError n ErrUnknownInput [])), w)
           | Inl _ \<Rightarrow> (Inr inp, w)))"
proof -
  let ?m = "ConstInputManager inp :: ('c, 'i, 'w) MockInputManager"
  let ?ps = "SinglePlugin name (mock_manager ?m)"
  have "validatePlugins order ?ps = []"
    unfolding validatePlugins_nil [OF assms(2)] using assms(1) by (simp add: SinglePlugin_def plugin_validate_def)
  moreover define l where "l = \<lparr>registry = fmupd name (hd ?ps) fmempty, typeField = if tf = [] then ''type'' else tf, defaultType = name\<rparr>"
  ultimately have new: "MustNewTestLoader order ?ps tf name = Inr l"
    by (simp add: MustNewTestLoader_def NewLoader_def Let_def SinglePlugin_def)
  have man: "pManager (hd ?ps) = Some (mock_manager ?m)" by (simp add: SinglePlugin_def)
  have create: "mCreate (mock_manager ?m) cfg w = (Inr inp, w)" for cfg w
    by (simp add: mock_manager_def mockm_Create_def ConstInputManager_def ConfigureConstInput_def)
  have "MustConfigure cfg_String cfg l w =
      (case cfg_String cfg (if tf = [] then ''type'' else tf) of
         Inr n \<Rightarrow> if n = name then (Inr inp, w)
                  else (Inl (ErrWrap ''Failed to create the input'' (LoadError n ErrUnknownInput [])), w)
       | Inl _ \<Rightarrow> (Inr inp, w))" for cfg_String cfg w
    using assms(1)
    by (cases "cfg_String cfg (if tf = [] then ''type'' else tf)") (auto simp: MustConfigure_def Configure_def l_def man create)
  then show ?thesis using new by blast
qed

text \<open>Without a name no loader is made: the test fails.\<close>

lemma single_plugin_unnamed:
  assumes "lists_map order"
  shows "\<exists>errs. MustNewTestLoader order (SinglePlugin [] m) tf dflt = Inl (ErrWrap ''Failed to create loader'' (SetupError errs))"
proof -
  have "validatePlugins order (SinglePlugin [] m) \<noteq> []"
    unfolding validatePlugins_nil [OF assms] by (simp add: SinglePlugin_def plugin_validate_def)
  then show ?thesis by (simp add: MustNewTestLoader_def NewLoader_def Let_def)
qed

end
