(* ===== verification/Resources.thy ===== *)
theory Resources
  imports Prelude
begin

text \<open>
  \<open>pkg/manager/internal/resources/goroutines.go\<close>: waiting for the goroutines of a test to end.  The clock, the
  number of goroutines and sleeping are the environment: other goroutines act whenever it is asked.  Times are in
  nanoseconds, as a \<open>time.Duration\<close> holds them.  A wait that never ends is \<open>None\<close>; dumping the stacks is not modelled.
\<close>

section \<open>The checker\<close>

record 'w resource_env =
  Now :: "'w \<Rightarrow> int \<times> 'w"
  NumGoroutine :: "'w \<Rightarrow> int \<times> 'w"
  Sleep :: "int \<Rightarrow> 'w \<Rightarrow> 'w"

definition defaultFinalizationTimeout :: int where
  "defaultFinalizationTimeout = 35 * 1000000000"

record GoroutinesChecker =
  goroutines_before :: int
  FinalizationTimeout :: int

definition NewGoroutinesChecker :: "'w resource_env \<Rightarrow> 'w \<Rightarrow> GoroutinesChecker \<times> 'w" where
  "NewGoroutinesChecker R w =
     (case NumGoroutine R w of (n, w1) \<Rightarrow> (\<lparr>goroutines_before = n, FinalizationTimeout = defaultFinalizationTimeout\<rparr>, w1))"

definition ErrTimeout :: error where
  "ErrTimeout = ErrNew ''timeout waiting for finalization of goroutines''"

partial_function (option) wait_loop ::
    "'w resource_env \<Rightarrow> int \<Rightarrow> int \<Rightarrow> int \<Rightarrow> 'w \<Rightarrow> ((int \<times> error option) \<times> 'w) option" where
  "wait_loop R before timeout after w =
     (case Now R w of (t, w1) \<Rightarrow>
        if t < timeout
        then (case NumGoroutine R w1 of (n, w2) \<Rightarrow>
                if n \<le> before then Some ((n, None), w2)
                else wait_loop R before timeout n (Sleep R (10 * 1000000) w2))
        else Some ((after, Some ErrTimeout), w1))"

definition WaitUntilOriginalCount ::
    "'w resource_env \<Rightarrow> GoroutinesChecker \<Rightarrow> 'w \<Rightarrow> ((int \<times> error option) \<times> 'w) option" where
  "WaitUntilOriginalCount R c w =
     (case Now R w of (t, w1) \<Rightarrow> wait_loop R (goroutines_before c) (t + FinalizationTimeout c) 0 w1)"

text \<open>The text of the error, from the two numbers as texts.\<close>

definition possible_leak :: "(int \<Rightarrow> string) \<Rightarrow> int \<Rightarrow> int \<Rightarrow> error" where
  "possible_leak show_int before after =
     ErrNew (''possible goroutines leak, before: '' @ show_int before @ '', after: '' @ show_int after)"

definition checker_check ::
    "(int \<Rightarrow> string) \<Rightarrow> 'w resource_env \<Rightarrow> GoroutinesChecker \<Rightarrow> 'w \<Rightarrow> (error option \<times> 'w) option" where
  "checker_check show_int R c w =
     map_option
       (\<lambda>((after, err), w1).
          (case err of
             None \<Rightarrow> None
           | Some e \<Rightarrow> if errors_Is e ErrTimeout then Some (possible_leak show_int (goroutines_before c) after) else Some e, w1))
       (WaitUntilOriginalCount R c w)"

text \<open>\<open>Check\<close> marks the test as failed (\<open>t.Error\<close>) when there is an error: the result is that mark.\<close>

definition checker_Check :: "(int \<Rightarrow> string) \<Rightarrow> 'w resource_env \<Rightarrow> GoroutinesChecker \<Rightarrow> 'w \<Rightarrow> (bool \<times> 'w) option" where
  "checker_Check show_int R c w = map_option (\<lambda>(err, w1). (err \<noteq> None, w1)) (checker_check show_int R c w)"

definition CallAndCheckGoroutines ::
    "(int \<Rightarrow> string) \<Rightarrow> 'w resource_env \<Rightarrow> ('w \<Rightarrow> 'w) \<Rightarrow> 'w \<Rightarrow> (bool \<times> 'w) option" where
  "CallAndCheckGoroutines show_int R f w =
     (case NewGoroutinesChecker R w of (c, w1) \<Rightarrow> checker_Check show_int R c (f w1))"

partial_function (option) increase_loop :: "'w resource_env \<Rightarrow> int \<Rightarrow> 'w \<Rightarrow> 'w option" where
  "increase_loop R target w =
     (case NumGoroutine R w of (n, w1) \<Rightarrow>
        if n < target then increase_loop R target (Sleep R (10 * 1000000) w1) else Some w1)"

definition WaitUntilIncreased :: "'w resource_env \<Rightarrow> int \<Rightarrow> GoroutinesChecker \<Rightarrow> 'w \<Rightarrow> 'w option" where
  "WaitUntilIncreased R n c w = increase_loop R (goroutines_before c + n) w"

section \<open>The wait ends\<close>

text \<open>A clock \<open>time\<close> that never goes back and advances by at least the time slept.\<close>

definition monotonic :: "('w \<Rightarrow> int) \<Rightarrow> 'w resource_env \<Rightarrow> bool" where
  "monotonic time R \<longleftrightarrow>
     (\<forall>w. fst (Now R w) = time (snd (Now R w)) \<and> time w \<le> time (snd (Now R w)) \<and> time w \<le> time (snd (NumGoroutine R w)))
     \<and> (\<forall>w d. time w + d \<le> time (Sleep R d w))"

lemma wait_loop_ends:
  assumes "monotonic time R"
  shows "\<exists>n err w'. wait_loop R before timeout after w = Some ((n, err), w')
     \<and> (err = None \<longrightarrow> n \<le> before)
     \<and> (err \<noteq> None \<longrightarrow> err = Some ErrTimeout \<and> timeout \<le> time w' \<and> (n = after \<or> n > before))"
proof (induction "nat (timeout - time w)" arbitrary: after w rule: less_induct)
  case less
  obtain t w1 where now: "Now R w = (t, w1)" by fastforce
  obtain n w2 where num: "NumGoroutine R w1 = (n, w2)" by fastforce
  have t: "t = time w1" "time w \<le> time w1" "time w1 \<le> time w2"
    using assms [unfolded monotonic_def, THEN conjunct1, rule_format, of w]
      assms [unfolded monotonic_def, THEN conjunct1, rule_format, of w1] by (simp_all add: now num)
  show ?case
  proof (cases "t < timeout \<and> \<not> n \<le> before")
    case True
    have "time w2 + 10 * 1000000 \<le> time (Sleep R (10 * 1000000) w2)" using assms by (simp add: monotonic_def)
    then have "nat (timeout - time (Sleep R (10 * 1000000) w2)) < nat (timeout - time w)" using t True by simp
    from less [OF this, of n] True show ?thesis
      unfolding wait_loop.simps [of R before timeout after w] by (auto simp: now num)
  next
    case False
    then show ?thesis using t unfolding wait_loop.simps [of R before timeout after w] by (auto simp: now num)
  qed
qed

text \<open>
  \<open>check\<close> always returns: without error when the number of goroutines was seen at or below the old one, with the leak
  error when \<open>FinalizationTimeout\<close> has passed.
\<close>

lemma checker_check_ends:
  assumes "monotonic time R"
  shows "\<exists>err w'. checker_check show_int R c w = Some (err, w')
     \<and> (\<forall>e. err = Some e \<longrightarrow>
          (\<exists>n. e = possible_leak show_int (goroutines_before c) n) \<and> time w + FinalizationTimeout c \<le> time w')"
proof -
  obtain t w1 where now: "Now R w = (t, w1)" by fastforce
  have t: "t = time w1" "time w \<le> time w1"
    using assms [unfolded monotonic_def, THEN conjunct1, rule_format, of w] by (simp_all add: now)
  obtain n err w' where "wait_loop R (goroutines_before c) (t + FinalizationTimeout c) 0 w1 = Some ((n, err), w')"
    "err \<noteq> None \<longrightarrow> err = Some ErrTimeout \<and> t + FinalizationTimeout c \<le> time w'"
    using wait_loop_ends [OF assms] by blast
  then show ?thesis using t by (auto simp: checker_check_def WaitUntilOriginalCount_def now split: option.split)
qed

text \<open>\<open>WaitUntilIncreased\<close> has no timeout: when the number never rises far enough it does not return.\<close>

lemma WaitUntilIncreased_hangs:
  assumes "\<And>w. fst (NumGoroutine R w) < goroutines_before c + n"
  shows "WaitUntilIncreased R n c w = None"
proof -
  have "increase_loop R (goroutines_before c + n) w = Some w' \<Longrightarrow> False" for w w'
  proof (rule increase_loop.raw_induct [where P = "\<lambda>R' target w w'. R' = R \<and> target = goroutines_before c + n \<longrightarrow> False", rule_format])
    fix loop :: "'a resource_env \<Rightarrow> int \<Rightarrow> 'a \<Rightarrow> 'a option" and R' target u u'
    assume ih: "\<And>R' target w w'. loop R' target w = Some w' \<Longrightarrow> R' = R \<and> target = goroutines_before c + n \<Longrightarrow> False"
      and run: "(case NumGoroutine R' u of (k, w1) \<Rightarrow>
          if k < target then loop R' target (Sleep R' (10 * 1000000) w1) else Some w1) = Some u'"
      and same: "R' = R \<and> target = goroutines_before c + n"
    then show False using assms [of u] by (auto split: prod.splits if_splits)
  qed auto
  then show ?thesis unfolding WaitUntilIncreased_def by (metis not_None_eq)
qed

end
