(* ===== verification/Memlog_Sync.thy ===== *)
theory Memlog_Sync
  imports Memlog_Util
begin

text \<open>
  The variants of \<open>syncFile\<close> for the other systems, \<open>util_darwin.go\<close> and \<open>util_windows.go\<close>, as instances of one interface, and the
  reason why the theorems on the store, which use the variant of \<open>util_other.go\<close>, hold with them.
\<close>

section \<open>macOS\<close>

text \<open>\<open>fcntl\<close> with \<open>F_FULLFSYNC\<close>.\<close>

definition FcntlInt_FULLFSYNC :: "fhandle \<Rightarrow> fs \<Rightarrow> unit result \<times> fs" where
  "FcntlInt_FULLFSYNC fh = syscall (\<lambda>w. (Inr (), w))"

text \<open>The innermost error, \<open>None\<close> when that is the error number 0.\<close>

function errorRootCause :: "error \<Rightarrow> error option" where
  "errorRootCause err =
     (case Unwrap err of
        Some u \<Rightarrow> errorRootCause u
      | None \<Rightarrow> if errors_Is err (Errno Errno0) then None else Some err)"
  by pat_completeness auto
termination
  by (relation "measure size") (auto dest: Unwrap_size)

declare errorRootCause.simps [simp del]

text \<open>\<open>errors.Is\<close> of a nil error is false for every target.\<close>

definition isIOError :: "error option \<Rightarrow> bool" where
  "isIOError err =
     (case err of
        None \<Rightarrow> False
      | Some e \<Rightarrow>
          list_ex (\<lambda>n. errors_Is e (Errno n)) [EIO, ENOSPC, EDQUOT, EFBIG, ECONNRESET, ENETDOWN, ENETUNREACH])"

lemma sync_call:
  assumes "syscall (\<lambda>w. (Inr (), w)) w = (r, w')"
  shows "w' = w\<lparr>faults := faults w'\<rparr>" and "length (faults w') \<le> length (faults w)"
    and "r = Inl e \<Longrightarrow> \<exists>n. e = Errno n" and "r = Inl e \<Longrightarrow> isRetryErr e \<Longrightarrow> length (faults w') < length (faults w)"
  using assms by (auto simp: syscall_def next_fault_def split: list.splits fault.splits)

lemma sync_call_progress:
  assumes "(Inl e, w') = syscall (\<lambda>w. (Inr (), w)) w"
  shows "length (faults w') \<le> length (faults w) \<and> (isRetryErr e \<longrightarrow> length (faults w') < length (faults w))"
  using sync_call(2,4) [OF assms [symmetric]] by blast

function syncFile_darwin :: "fhandle \<Rightarrow> fs \<Rightarrow> unit result \<times> fs" where
  "syncFile_darwin fh w =
     (case FcntlInt_FULLFSYNC fh w of
        (Inr u, w1) \<Rightarrow> (Inr u, w1)
      | (Inl err, w1) \<Rightarrow>
          if isIOError (errorRootCause err) then (Inl err, w1)
          else if isRetryErr err then syncFile_darwin fh w1
          else case file_Sync fh w1 of
              (Inr u, w2) \<Rightarrow> (Inr u, w2)
            | (Inl err2, w2) \<Rightarrow> if isRetryErr err2 then syncFile_darwin fh w2 else (Inl err2, w2))"
  by pat_completeness auto
termination
  by (relation "measure (\<lambda>(fh, w). length (faults w))")
    (auto simp: FcntlInt_FULLFSYNC_def file_Sync_def dest!: sync_call_progress)

declare syncFile_darwin.simps [simp del]

section \<open>Windows\<close>

definition syncFile_windows :: "fhandle \<Rightarrow> fs \<Rightarrow> unit result \<times> fs" where
  "syncFile_windows fh w = file_Sync fh w"

section \<open>What the store relies on\<close>

text \<open>
  A sync of a file leaves the directory as it is and succeeds when no system call fails; the variants that retry never report an
  error that stands for a retry.
\<close>

locale file_sync =
  fixes sync :: "fhandle \<Rightarrow> fs \<Rightarrow> unit result \<times> fs"
  assumes quiet: "faults w = [] \<Longrightarrow> sync fh w = (Inr (), w)"
    and same_disk: "sync fh w = (r, w') \<Longrightarrow> w' = w\<lparr>faults := faults w'\<rparr>"
    and fewer_faults: "sync fh w = (r, w') \<Longrightarrow> length (faults w') \<le> length (faults w)"
    and call_error: "sync fh w = (Inl e, w') \<Longrightarrow> \<exists>n. e = Errno n"
begin

lemma sync_frame: "only {} w (snd (sync fh w))"
proof -
  obtain r w' where run: "sync fh w = (r, w')" by fastforce
  have "home w' = home w" "umask w' = umask w" "dir w' = dir w" using same_disk [OF run] by (metis fs.ext_inject fs.surjective fs.update_convs(4))+
  moreover have "faults w = [] \<longrightarrow> faults w' = []" using quiet [of w fh] run by auto
  ultimately show ?thesis using run by (simp add: only_def all_regular_def)
qed

text \<open>Every outcome is one a single attempt can have, with no more faults to come.\<close>

lemma sync_outcome:
  assumes "sync fh w = (r, w')"
  shows "\<exists>fl. length fl \<le> Suc (length (faults w)) \<and> file_Sync fh (w\<lparr>faults := fl\<rparr>) = (r, w')"
proof (cases r)
  case (Inl e)
  then obtain n where e: "e = Errno n" using call_error assms by blast
  have "file_Sync fh (w\<lparr>faults := Fail n # faults w'\<rparr>) = (r, w')"
    using same_disk [OF assms] Inl e by (simp add: file_Sync_def syscall_def next_fault_def)
  then show ?thesis using fewer_faults [OF assms] by (intro exI [of _ "Fail n # faults w'"]) simp
next
  case (Inr u)
  have "file_Sync fh (w\<lparr>faults := NoFault # faults w'\<rparr>) = (r, w')"
    using same_disk [OF assms] Inr by (simp add: file_Sync_def syscall_def next_fault_def)
  then show ?thesis using fewer_faults [OF assms] by (intro exI [of _ "NoFault # faults w'"]) simp
qed

end

locale retrying_sync = file_sync +
  assumes no_retry: "sync fh w = (Inl e, w') \<Longrightarrow> \<not> isRetryErr e"
begin

text \<open>So every outcome is one of \<open>syncFile\<close>, on the same disk with other faults.\<close>

lemma refines_syncFile:
  "\<exists>fl. length fl \<le> Suc (length (faults w)) \<and> syncFile fh (w\<lparr>faults := fl\<rparr>) = sync fh w"
proof -
  obtain r w' where run: "sync fh w = (r, w')" by fastforce
  from sync_outcome [OF run] obtain fl where fl: "length fl \<le> Suc (length (faults w))"
    "file_Sync fh (w\<lparr>faults := fl\<rparr>) = (r, w')" by blast
  have "syncFile fh (w\<lparr>faults := fl\<rparr>) = (r, w')"
    using fl(2) no_retry run by (subst syncFile.simps) (auto split: sum.splits)
  then show ?thesis using fl(1) run by auto
qed

end

section \<open>The variants\<close>

lemma file_Sync_no_faults: "faults w = [] \<Longrightarrow> file_Sync fh w = (Inr (), w)"
  by (simp add: file_Sync_def syscall_def next_fault_def)

interpretation windows: file_sync syncFile_windows
  by unfold_locales (use sync_call file_Sync_no_faults in \<open>auto simp: syncFile_windows_def file_Sync_def\<close>)

text \<open>What a loop of calls passes on from its last call.\<close>

definition sync_laws :: "fs \<Rightarrow> unit result \<times> fs \<Rightarrow> bool" where
  "sync_laws w res \<longleftrightarrow> snd res = w\<lparr>faults := faults (snd res)\<rparr> \<and> length (faults (snd res)) \<le> length (faults w)
     \<and> (\<forall>e. fst res = Inl e \<longrightarrow> (\<exists>n. e = Errno n) \<and> \<not> isRetryErr e)"

lemma sync_laws_call:
  assumes "syscall (\<lambda>w. (Inr (), w)) w = (r, w')" and "\<And>e. r = Inl e \<Longrightarrow> \<not> isRetryErr e"
  shows "sync_laws w (r, w')"
  using sync_call [OF assms(1)] assms(2) by (auto simp: sync_laws_def)

lemma sync_laws_again:
  assumes "syscall (\<lambda>w. (Inr (), w)) w = (r, w1)" and "sync_laws w1 res"
  shows "sync_laws w res"
  using sync_call(1,2) [OF assms(1)] assms(2) unfolding sync_laws_def
  by (metis fs.surjective fs.update_convs(4) le_trans)

lemma isIOError_Errno: "isIOError (errorRootCause (Errno n)) \<Longrightarrow> \<not> isRetryErr (Errno n)"
  by (auto simp: errorRootCause.simps isIOError_def errors_Is.simps split: if_splits)

lemma syncFile_laws: "sync_laws w (syncFile fh w)"
proof (induction fh w rule: syncFile.induct)
  case (1 fh w)
  obtain r w1 where c: "file_Sync fh w = (r, w1)" by fastforce
  note call = c [unfolded file_Sync_def]
  show ?case
    using c "1.IH" [OF c [symmetric]] sync_laws_call [OF call] sync_laws_again [OF call]
    by (subst syncFile.simps) (auto split: sum.splits)
qed

lemma syncFile_darwin_laws: "sync_laws w (syncFile_darwin fh w)"
proof (induction fh w rule: syncFile_darwin.induct)
  case (1 fh w)
  obtain r w1 where c: "FcntlInt_FULLFSYNC fh w = (r, w1)" by fastforce
  note call = c [unfolded FcntlInt_FULLFSYNC_def]
  show ?case
  proof (cases r)
    case (Inr u)
    then show ?thesis using c sync_laws_call [OF call] by (subst syncFile_darwin.simps) simp
  next
    case (Inl e)
    then obtain n where n: "e = Errno n" using sync_call(3) [OF call] by blast
    obtain r2 w2 where c2: "file_Sync fh w1 = (r2, w2)" by fastforce
    note call2 = c2 [unfolded file_Sync_def]
    have stop: "sync_laws w (Inl e, w1)" if "isIOError (errorRootCause e)"
      using sync_laws_call [OF call] isIOError_Errno that n Inl by blast
    have again: "sync_laws w (syncFile_darwin fh w1)" if "\<not> isIOError (errorRootCause e)" "isRetryErr e"
      using sync_laws_again [OF call] "1.IH"(1) [OF c [symmetric] Inl that] by blast
    have last: "sync_laws w (r2, w2)" if "\<And>e2. r2 = Inl e2 \<Longrightarrow> \<not> isRetryErr e2"
      using sync_laws_again [OF call sync_laws_call [OF call2 that]] .
    have last_again: "sync_laws w (syncFile_darwin fh w2)"
      if "\<not> isIOError (errorRootCause e)" "\<not> isRetryErr e" "r2 = Inl e2" "isRetryErr e2" for e2
      using sync_laws_again [OF call sync_laws_again [OF call2]] "1.IH"(2) [OF c [symmetric] Inl that(1,2) c2 [symmetric] that(3,4)]
      by blast
    show ?thesis
      using c Inl c2 stop again last last_again by (subst syncFile_darwin.simps) (auto split: sum.splits)
  qed
qed

lemma syncFile_darwin_no_faults: "faults w = [] \<Longrightarrow> syncFile_darwin fh w = (Inr (), w)"
  by (subst syncFile_darwin.simps) (simp add: FcntlInt_FULLFSYNC_def syscall_def next_fault_def)

lemma sync_lawsD:
  assumes "\<And>w fh. sync_laws w (sync fh w)" and "\<And>w fh. faults w = [] \<Longrightarrow> sync fh w = (Inr (), w)"
  shows "retrying_sync sync"
proof
  fix fh w r w' e
  show "faults w = [] \<Longrightarrow> sync fh w = (Inr (), w)" by (rule assms(2))
  show "sync fh w = (r, w') \<Longrightarrow> w' = w\<lparr>faults := faults w'\<rparr>"
    "sync fh w = (r, w') \<Longrightarrow> length (faults w') \<le> length (faults w)"
    "sync fh w = (Inl e, w') \<Longrightarrow> \<exists>n. e = Errno n" "sync fh w = (Inl e, w') \<Longrightarrow> \<not> isRetryErr e"
    using assms(1) [of w fh] by (auto simp: sync_laws_def)
qed

interpretation unix: retrying_sync syncFile
  by (rule sync_lawsD [OF syncFile_laws syncFile_no_faults])

interpretation darwin: retrying_sync syncFile_darwin
  by (rule sync_lawsD [OF syncFile_darwin_laws syncFile_darwin_no_faults])

text \<open>
  With each variant a sync that fails leaves the disk as it was, and one on macOS ends as \<open>syncFile\<close> of the other systems may end.  The
  theorems on runs of the store hold for all faults, so they cover macOS as well.
\<close>

lemma syncFile_darwin_refines:
  "\<exists>fl. length fl \<le> Suc (length (faults w)) \<and> syncFile fh (w\<lparr>faults := fl\<rparr>) = syncFile_darwin fh w"
  by (rule darwin.refines_syncFile)

lemma syncFile_variants_frame:
  "only {} w (snd (syncFile_darwin fh w))" "only {} w (snd (syncFile_windows fh w))"
  by (rule darwin.sync_frame, rule windows.sync_frame)

end
