(* ===== verification/Spec2Isabelle.thy ===== *)
theory Spec2Isabelle
  imports Acker Memlog_Properties Statestore_Race Statestore_Memlog Cleanup Cursor_Manager Feature
    Loadgenerator_Units Compliance_Memlog Input_Stateless App Cursor_Run_Ends Cursor_Restart Inputest Resources Memlog_Sync
begin

text \<open>
  Verification of \<open>elastic-agent-inputs\<close> (Go).  The program runs inputs on behalf of the Elastic Agent.  An input publishes events;
  a stateful one attaches an update of its cursor to an event, and the update is written to a persistent key-value store once the
  event was acknowledged.  After a restart the input resumes from the stored cursor.

  \<^bold>\<open>The parts, and the theories that model them\<close> (source files are under \<open>src/\<close>)

  \<^item> \<open>Prelude\<close>: Go's error values with \<open>errors.Is\<close> and \<open>errors.As\<close>, decoded documents, generic lemmas.

  \<^item> Acknowledgements.  \<open>Acker\<close> is \<open>pkg/publisher/acker/acker.go\<close> with \<open>pkg/publisher/event.go\<close>: the gap list of \<open>trackingACKer\<close>
    (\<open>tracking_AddEvent\<close>, \<open>tracking_ACKEvents\<close>) and everything built on it, up to \<open>EventPrivateReporter\<close>.  \<open>Publisher\<close> is
    \<open>pkg/publisher/pipeline.go\<close> with the clients of \<open>pkg/publisher/testing\<close>.

  \<^item> The memlog backend, \<open>pkg/statestore/backend/memlog\<close>.  \<open>Fs\<close> is the home directory of a store and the system calls on it, \<open>Json\<close> the
    decoder of \<open>encoding/json\<close>.  \<open>Memlog_Util\<close> is \<open>util.go\<close>, \<open>util_other.go\<close>, \<open>op.go\<close>, \<open>error.go\<close> and the encoder of \<open>json.go\<close>;
    \<open>Memlog_Diskstore\<close> is \<open>diskstore.go\<close>; \<open>Memlog_Store\<close> is \<open>store.go\<close> and \<open>memlog.go\<close>.  The other \<open>Memlog_\<close> theories hold the facts:
    \<open>Memlog_Log\<close> and \<open>Memlog_Checkpoint\<close> on what is written and read back, \<open>Memlog_Files\<close> on names and order of data files,
    \<open>Memlog_Recovery\<close> and \<open>Memlog_Reopen\<close> on the invariant between a store and its directory, \<open>Memlog_Durability\<close> on whole runs,
    \<open>Memlog_Properties\<close> on single operations, \<open>Memlog_Encoder\<close> on a concrete encoder for the witnesses.  \<open>Memlog_Sync\<close> is
    \<open>util_darwin.go\<close> and \<open>util_windows.go\<close>.

  \<^item> Backends.  \<open>Backend\<close> is \<open>backend.go\<close>: the interface as a record of functions, and as the locale \<open>kv_backend\<close> the contract that an open store
    is a dictionary.  \<open>Storetest\<close> is the in-memory backend of \<open>pkg/statestore/storetest\<close>, \<open>Memlog_Backend\<close> the memlog registry as a backend; both
    interpret the locale.  \<open>Compliance\<close> is the test suite of \<open>pkg/statestore/internal/storecompliance\<close> with the locale of the laws it
    relies on; \<open>Compliance_Storetest\<close> and \<open>Compliance_Memlog\<close> prove that the two backends pass it.

  \<^item> The store of the program, \<open>pkg/statestore\<close>.  \<open>Statestore\<close> is \<open>registry.go\<close>, \<open>store.go\<close> and \<open>error.go\<close>: stores of one name share a backend store by
    reference counting.  \<open>Statestore_Sharing\<close> treats calls that do not overlap, \<open>Statestore_Race\<close> all interleavings of goroutines,
    \<open>Statestore_Memlog\<close> the stack of both layers.  \<open>Cleanup\<close> is \<open>pkg/statestore/cleanup\<close>.

  \<^item> Stateful inputs, \<open>pkg/manager/input/input-cursor\<close>.  \<open>Cursor\<close> has the critical sections of \<open>store.go\<close>, \<open>publish.go\<close>, \<open>clean.go\<close>,
    \<open>cursor.go\<close> and the acknowledgement handler of \<open>input.go\<close>.  \<open>Cursor_Updates\<close> follows an update from \<open>Publish\<close> to the store, \<open>Cursor_Clean\<close> is
    about the cleaner and restarts, \<open>Cursor_System\<close> about all interleavings of inputs, acknowledgements and cleaner.
    \<open>Cursor_Manager\<close> is \<open>manager.go\<close> and \<open>runSource\<close> of \<open>input.go\<close>, \<open>Cursor_Run\<close> is \<open>managedInput.Run\<close>
    of all inputs of a manager, cut at the calls of \<open>runSource\<close> that touch shared state.  \<open>Cursor_Run_Ends\<close> shows that all
    its workers end.  \<open>Cursor_Durable\<close> puts the cursor store on a store of \<open>statestore\<close> on memlog and follows an update to the disk,
    \<open>Cursor_Restart\<close> on into the next process.

  \<^item> Plugins.  \<open>Feature\<close> is the registry and the bundles of \<open>pkg/feature\<close>, \<open>Input_Plugin\<close> the plugins, the loader and the errors of \<open>pkg/manager/input\<close>,
    \<open>Input_Stateless\<close> is \<open>input-stateless\<close>, \<open>Inputest\<close> the mocks of \<open>internal/inputest\<close>, \<open>Resources\<close> the goroutine checker of \<open>pkg/manager/internal\<close>.

  \<^item> The program.  \<open>Loadgenerator\<close> is the event loop of \<open>inputs/loadgenerator\<close>, \<open>Loadgenerator_Units\<close> its units and streams, \<open>App\<close> the
    configuration file (\<open>pkg/config\<close>), the command and \<open>main.go\<close>.

  \<^bold>\<open>How the code is modelled.\<close>  A definition is a function of the source, or the critical section of the lock it holds.  State is passed
  explicitly; a call that may fail returns \<open>error + 'a\<close>, a panic is an error \<open>Panic\<close> or, in \<open>Publisher\<close>, an outcome \<open>CPanic\<close>.
  Goroutines are steps of a transition relation, so a theorem about reachable states holds in every interleaving.  The unsigned
  counters of the source are words: \<open>TrackingCounter\<close>, transaction ids, sizes, the pending users of a resource and the events of a
  stream wrap around at \<open>2 ^ 64\<close>.  Its signed \<open>int\<close> and \<open>time.Duration\<close> (the gap counts of \<open>acker.go\<close>, reference counts, times) are
  unbounded.  Loops that may not end are \<open>partial_function (option)\<close>, and
  \<open>None\<close> is not returning: the stream loop ends for \<open>Loop = False\<close>, the goroutine checker because the clock advances.
\<close>

text \<open>
  \<^bold>\<open>What the lemmas show.\<close>

  \<^item> Acknowledgements: the gap list implements the longest pending prefix with the acknowledged number of published events; private fields are
    reported exactly once and in order.

  \<^item> Memlog: whatever system calls fail and wherever the machine stops, reopening finds the effects of a prefix of the calls that contains every
    acknowledged call; without faults it finds all of them.  Checkpoints are atomic, a torn log loads up to its last complete record.  Some
    theorems state what the code does where it hardly means to: a log once invalid stays so, an error of opening it is ignored, a crash
    before the meta file is written makes the directory unusable.

  \<^item> Stores: both backends are dictionaries and answer alike, writes included when the disk is intact; the shared store passes its calls on and
    wraps the errors; every operation of a closed store is refused; a backend store is closed by the last close and
    never under an open store; one theorem shows the interleaving of two \<open>Release\<close> calls that the reference count does not exclude.

  \<^item> Cursors: a record of the store holds the last update of the longest acknowledged prefix, and is that part of the state in memory; there is one resource per source in every
    interleaving, two sources with one key never run together, every run gives back what it took and comes to an end; the cleaner removes only
    the expired, unused entries, record and table entry together; the manager opens its store once and closes it once; a restart resumes from what was stored; a source that fails cancels the others of its input.
    Through all layers and any failure of the disk, a restart never resumes behind an event that was not acknowledged.

  \<^item> Inputs, plugins, load generator, application: the registry is a map from normalized names, but for \<open>Unregister\<close> and \<open>Overwrite\<close> under
    other names and \<open>Overwrite\<close> without a factory, whose deviation is stated exactly; the loader reaches the right manager, clients are
    closed on panics, also panics of the pipeline, streams end and are never lost, and the command line flags of \<open>main\<close> have no effect.

  \<^bold>\<open>Bounds.\<close>  The theorems on memlog runs assume fewer than \<open>2 ^ 63 - 3\<close> calls: \<open>isTxIDLessEqual\<close> orders ids only within half of the ring
  of 64-bit integers, and no store lives that long.  The compliance laws count the calls that remain; a test makes at most nine on a store, so
  the laws are instantiated at a fresh store.  Loops over retried writes end because the bytes and the faults that are left get fewer.

  \<^bold>\<open>Parameters.\<close>  Code outside the repository is an argument of the definitions, with the documented behaviour used as a named hypothesis:
  the JSON encoder of \<open>go-structform\<close> (\<open>call_codec\<close>, \<open>meta_codec\<close>: what it writes, the decoder reads back), \<open>typeconv.Convert\<close>, the wait
  group and the reference count of \<open>go-concert\<close>, \<open>unison.Mutex\<close> and its task groups, \<open>config.Unpack\<close>, \<open>sderr.WrapAll\<close>, the flag parser of \<open>cobra\<close>,
  the client of the agent, the random generators of log lines.  So are the clock, and the order in which \<open>range\<close> visits a map (\<open>range_spec\<close>:
  every entry once).

  \<^bold>\<open>Faults.\<close>  A system call may fail, transfer only a part, or be the last one before the process dies.  Loss or reordering of writes that succeeded
  (a power failure between \<open>write\<close> and \<open>fsync\<close>) is not part of the model: the log is not synced per operation, so the code does not
  promise more.  The diskstore of the model calls the \<open>syncFile\<close> of Linux; every outcome of the one for macOS is an outcome of it under other
  faults.

  \<^bold>\<open>Coarser than the code.\<close>  \<open>ACKEvents\<close> and \<open>AddEvent\<close> of the acknowledgement handlers are one step each with their callback, which
  the source calls between its critical sections.  In \<open>Statestore_Race\<close> two \<open>Close\<close> calls on the same store do not overlap.  Data files are sorted
  by insertion where the source calls \<open>sort.Slice\<close>, and the home path has no characters that \<open>filepath.Glob\<close> interprets.  A test function of the
  compliance suite returns or fails; it does not panic.

  \<^bold>\<open>Not modelled.\<close>  The text of log messages and stack traces; what the agent does with unit states; the limit on nested documents and
  the rounding of numbers in \<open>encoding/json\<close>; the processing configuration of pipeline clients, which only code outside the repository reads; \<open>magefile.go\<close> and \<open>tools\<close>, which drive external tools; \<open>doc.go\<close> files, which are comments.
\<close>

end
